(* ===== verification/Kappa_Prelude.thy ===== *)
theory Kappa_Prelude
  imports Main "HOL-Library.Word" "HOL-Library.Multiset"
begin

unbundle bit_operations_syntax

text \<open>
  Shared vocabulary of the development. A C function of the runtime that may call
  \<open>krt_fail\<close> (which prints a message and ends the process, \<open>runtime/gc.c\<close>) returns a
  value of type \<open>'a kres\<close>: \<open>Inl msg\<close> is the failure with its message, \<open>Inr v\<close>
  the result. Machine integers keep their width: \<open>kword\<close> is the 64-bit word that a
  \<open>KValue*\<close>, an \<open>int64_t\<close> or a \<open>uint64_t\<close> occupies, \<open>u32\<close> and
  \<open>byte\<close> are \<open>uint32_t\<close> (also \<open>int\<close>) and \<open>unsigned char\<close>.
\<close>

type_synonym kword = "64 word"
type_synonym u32 = "32 word"
type_synonym byte = "8 word"

type_synonym 'a kres = "string + 'a"

named_theorems kdefs \<open>definitions that are unfolded when an operation is evaluated\<close>
named_theorems kbits \<open>bit-level facts on tagged words\<close>

section \<open>Failing computations\<close>

definition kbind :: "'a kres \<Rightarrow> ('a \<Rightarrow> 'b kres) \<Rightarrow> 'b kres" where
  "kbind r f = (case r of Inl m \<Rightarrow> Inl m | Inr v \<Rightarrow> f v)"

lemma kbind_simps [simp]:
  "kbind (Inl m) f = Inl m"
  "kbind (Inr v) f = f v"
  by (simp_all add: kbind_def)

lemma kbind_eq_Inr: "kbind r f = Inr y \<longleftrightarrow> (\<exists>v. r = Inr v \<and> f v = Inr y)"
  by (cases r) auto

lemma kbind_eq_Inl: "kbind r f = Inl m \<longleftrightarrow> r = Inl m \<or> (\<exists>v. r = Inr v \<and> f v = Inl m)"
  by (cases r) auto

section \<open>Bits of words that hold small signed values\<close>

text \<open>
  A word whose signed value fits in \<open>k + 1\<close> bits is sign-extended above bit \<open>k\<close>.
\<close>

lemma signed_range_bit:
  fixes w :: "'a::len word"
  assumes "- (2 ^ k) \<le> sint w" "sint w < 2 ^ k" "k \<le> n" "n < LENGTH('a)"
  shows "bit w n = bit w k"
proof -
  have "signed_take_bit k (sint w) = sint w"
    using assms(1,2) by (simp add: signed_take_bit_int_eq_self)
  moreover have "bit (signed_take_bit k (sint w)) n = bit (signed_take_bit k (sint w)) k"
    using assms(3) by (simp only: bit_signed_take_bit_iff) (simp add: min_def)
  ultimately have "bit (sint w) n = bit (sint w) k" by simp
  with assms(3,4) show ?thesis
    by (simp add: bit_sint_iff min_def)
qed

lemma unsigned_range_bit:
  fixes w :: "'a::len word"
  assumes "unat w < 2 ^ k" "k \<le> n"
  shows "\<not> bit w n"
proof -
  have "take_bit k (unat w) = unat w"
    using assms(1) by (simp add: take_bit_nat_eq_self)
  moreover have "\<not> bit (take_bit k (unat w)) n"
    using assms(2) by (simp only: bit_take_bit_iff) simp
  ultimately have "\<not> bit (unat w) n" by simp
  then show ?thesis by (simp add: bit_unsigned_iff)
qed

section \<open>Lists\<close>

lemma nth_list_update_swap_id:
  "i < length xs \<Longrightarrow> xs[i := xs ! i] = xs"
  by simp

lemma set_takeD: "x \<in> set (take n xs) \<Longrightarrow> x \<in> set xs"
  by (rule in_set_takeD)

section \<open>Decimal text\<close>

text \<open>The text \<open>printf\<close> writes for \<open>%d\<close>, \<open>%lld\<close> and \<open>%llu\<close>.\<close>

definition digit_char :: "nat \<Rightarrow> char" where
  "digit_char d = ''0123456789'' ! d"

fun nat_dec :: "nat \<Rightarrow> string" where
  "nat_dec n = (if n < 10 then [digit_char n] else nat_dec (n div 10) @ [digit_char (n mod 10)])"

declare nat_dec.simps [simp del]

definition int_dec :: "int \<Rightarrow> string" where
  "int_dec z = (if z < 0 then CHR ''-'' # nat_dec (nat (- z)) else nat_dec (nat z))"

text \<open>\<open>snprintf\<close> into a buffer of \<open>cap\<close> bytes keeps at most \<open>cap - 1\<close> characters.\<close>

definition snprintf :: "nat \<Rightarrow> string \<Rightarrow> string" where
  "snprintf cap s = take (cap - 1) s"

section \<open>Undefined behaviour\<close>

text \<open>An operation that C leaves undefined at its operands (reading the wrong member of a box,
  signed overflow) has no result; it is marked by its own message, so that a lemma about a result
  also shows that the operation was defined.\<close>

definition kundef :: "'a kres" where
  "kundef = Inl ''undefined behaviour''"

end
