(* ===== verification/Kappa_Word.thy ===== *)
theory Kappa_Word
  imports Kappa_Prelude
begin

text \<open>
  The tagged words of \<open>runtime/kappart.h\<close>: a \<open>KValue*\<close>-sized word is a heap
  pointer when its low three bits are zero, otherwise an immediate. The groups are the tag
  tests, the immediate Int (b001), the nullary constructor (b010) and the packed one- and
  two-field constructors (b011), each with its encoder, its decoders and its range test.
  A \<open>KValue*\<close> is the word itself; \<open>intptr_t\<close> and \<open>int64_t\<close> are the same word
  read through \<open>sint\<close>; the 32-bit \<open>int\<close> tag id is a \<open>u32\<close>.
\<close>

section \<open>Tag tests\<close>

definition KIMM_TAG_MASK :: kword where "KIMM_TAG_MASK = 7"
definition KIMM_PTR :: kword where "KIMM_PTR = 0"
definition KIMM_INT :: kword where "KIMM_INT = 1"
definition KIMM_CTOR :: kword where "KIMM_CTOR = 2"
definition KIMM_PACKED :: kword where "KIMM_PACKED = 3"

definition kis_imm :: "kword \<Rightarrow> bool" where
  "kis_imm v \<longleftrightarrow> (v AND KIMM_TAG_MASK) \<noteq> KIMM_PTR"

definition kimm_payload :: "kword \<Rightarrow> kword" where
  "kimm_payload v = signed_drop_bit 3 v"

section \<open>Immediate Int\<close>

definition KIMM_INT_MAX :: int where "KIMM_INT_MAX = 2 ^ 60 - 1"
definition KIMM_INT_MIN :: int where "KIMM_INT_MIN = - (2 ^ 60)"

definition kis_imm_int :: "kword \<Rightarrow> bool" where
  "kis_imm_int v \<longleftrightarrow> (v AND KIMM_TAG_MASK) = KIMM_INT"

definition kimm_int_val :: "kword \<Rightarrow> kword" where
  "kimm_int_val v = signed_drop_bit 3 v"

definition kint_fits_imm :: "kword \<Rightarrow> bool" where
  "kint_fits_imm v \<longleftrightarrow> KIMM_INT_MIN \<le> sint v \<and> sint v \<le> KIMM_INT_MAX"

definition kmk_imm_int :: "kword \<Rightarrow> kword" where
  "kmk_imm_int v = push_bit 3 v OR KIMM_INT"

section \<open>Immediate nullary constructor\<close>

definition kis_imm_ctor :: "kword \<Rightarrow> bool" where
  "kis_imm_ctor v \<longleftrightarrow> (v AND KIMM_TAG_MASK) = KIMM_CTOR"

definition kimm_ctor_id :: "kword \<Rightarrow> u32" where
  "kimm_ctor_id v = ucast (drop_bit 3 v)"

definition kmk_imm_ctor :: "u32 \<Rightarrow> kword" where
  "kmk_imm_ctor tagid = push_bit 3 (ucast tagid) OR KIMM_CTOR"

section \<open>Packed one- and two-field constructors\<close>

definition KIMM_PACKED_TAG_MAX :: u32 where "KIMM_PACKED_TAG_MAX = 2 ^ 20 - 1"
definition KIMM_PACKED_FIELD_MAX :: int where "KIMM_PACKED_FIELD_MAX = 2 ^ 39 - 1"
definition KIMM_PACKED_FIELD_MIN :: int where "KIMM_PACKED_FIELD_MIN = - (2 ^ 39)"
definition KIMM_PACKED2_FIELD_MAX :: int where "KIMM_PACKED2_FIELD_MAX = 2 ^ 19 - 1"
definition KIMM_PACKED2_FIELD_MIN :: int where "KIMM_PACKED2_FIELD_MIN = - (2 ^ 19)"
definition KIMM_PACKED_NF1 :: kword where "KIMM_PACKED_NF1 = 8"

text \<open>The 20-bit slot mask \<open>(((uintptr_t)1) << KIMM_PACKED2_FIELD_BITS) - 1\<close> of the two-field packer.\<close>

definition packed2_slot_mask :: kword where "packed2_slot_mask = push_bit 20 1 - 1"

definition kis_imm_packed :: "kword \<Rightarrow> bool" where
  "kis_imm_packed v \<longleftrightarrow> (v AND KIMM_TAG_MASK) = KIMM_PACKED"

definition kimm_packed_is2 :: "kword \<Rightarrow> bool" where
  "kimm_packed_is2 v \<longleftrightarrow> (v AND KIMM_PACKED_NF1) \<noteq> 0"

definition kimm_packed_tagid :: "kword \<Rightarrow> u32" where
  "kimm_packed_tagid v = ucast (drop_bit 4 v AND ucast KIMM_PACKED_TAG_MAX)"

definition kimm_packed_field :: "kword \<Rightarrow> kword" where
  "kimm_packed_field v = signed_drop_bit 24 v"

definition kimm_packed2_field :: "kword \<Rightarrow> int \<Rightarrow> kword" where
  "kimm_packed2_field v i =
     (if i = 0 then signed_drop_bit 44 (push_bit 20 v) else signed_drop_bit 44 v)"

definition kctor_field_packs :: "kword \<Rightarrow> bool" where
  "kctor_field_packs f \<longleftrightarrow>
     (if \<not> kis_imm f then False
      else KIMM_PACKED_FIELD_MIN \<le> sint f \<and> sint f \<le> KIMM_PACKED_FIELD_MAX)"

definition kctor_field2_packs :: "kword \<Rightarrow> bool" where
  "kctor_field2_packs f \<longleftrightarrow>
     (if \<not> kis_imm f then False
      else KIMM_PACKED2_FIELD_MIN \<le> sint f \<and> sint f \<le> KIMM_PACKED2_FIELD_MAX)"

definition kctor_tagid_packs :: "u32 \<Rightarrow> bool" where
  "kctor_tagid_packs tagid \<longleftrightarrow> 0 \<le> sint tagid \<and> tagid \<le> KIMM_PACKED_TAG_MAX"

definition kmk_imm_packed :: "u32 \<Rightarrow> kword \<Rightarrow> kword" where
  "kmk_imm_packed tagid field =
     (let fw = field; tag = ucast tagid AND ucast KIMM_PACKED_TAG_MAX
      in push_bit 24 fw OR push_bit 4 tag OR KIMM_PACKED)"

definition kmk_imm_packed2 :: "u32 \<Rightarrow> kword \<Rightarrow> kword \<Rightarrow> kword" where
  "kmk_imm_packed2 tagid field0 field1 =
     (let f0 = field0 AND packed2_slot_mask;
          f1 = field1 AND packed2_slot_mask;
          tag = ucast tagid AND ucast KIMM_PACKED_TAG_MAX
      in push_bit 44 f1 OR push_bit 24 f0 OR push_bit 4 tag OR KIMM_PACKED_NF1 OR KIMM_PACKED)"

lemmas imm_consts =
  KIMM_TAG_MASK_def KIMM_PTR_def KIMM_INT_def KIMM_CTOR_def KIMM_PACKED_def
  KIMM_INT_MAX_def KIMM_INT_MIN_def KIMM_PACKED_TAG_MAX_def KIMM_PACKED_FIELD_MAX_def
  KIMM_PACKED_FIELD_MIN_def KIMM_PACKED2_FIELD_MAX_def KIMM_PACKED2_FIELD_MIN_def
  KIMM_PACKED_NF1_def

lemmas imm_word_defs =
  kis_imm_def kimm_payload_def kis_imm_int_def kimm_int_val_def kint_fits_imm_def kmk_imm_int_def
  kis_imm_ctor_def kimm_ctor_id_def kmk_imm_ctor_def kis_imm_packed_def kimm_packed_is2_def
  kimm_packed_tagid_def kimm_packed_field_def kimm_packed2_field_def kctor_field_packs_def
  kctor_field2_packs_def kctor_tagid_packs_def kmk_imm_packed_def kmk_imm_packed2_def

section \<open>The constants as bit sets\<close>

lemma bit_KIMM_TAG_MASK: "bit KIMM_TAG_MASK n \<longleftrightarrow> n < 3"
proof -
  have "KIMM_TAG_MASK = mask 3" by (simp add: KIMM_TAG_MASK_def mask_eq_exp_minus_1)
  then have "bit KIMM_TAG_MASK n = bit (mask 3 :: kword) n" by (rule arg_cong)
  then show ?thesis by (simp only: bit_mask_iff) auto
qed

lemma bit_KIMM_PACKED_TAG_MAX: "bit KIMM_PACKED_TAG_MAX n \<longleftrightarrow> n < 20"
proof -
  have "KIMM_PACKED_TAG_MAX = mask 20" by (simp add: KIMM_PACKED_TAG_MAX_def mask_eq_exp_minus_1)
  then have "bit KIMM_PACKED_TAG_MAX n = bit (mask 20 :: u32) n" by (rule arg_cong)
  then show ?thesis by (simp only: bit_mask_iff) auto
qed

lemma bit_slot20: "bit packed2_slot_mask n \<longleftrightarrow> n < 20"
proof -
  have "packed2_slot_mask = mask 20" by (simp add: packed2_slot_mask_def mask_eq_exp_minus_1)
  then have "bit packed2_slot_mask n = bit (mask 20 :: kword) n" by (rule arg_cong)
  then show ?thesis by (simp only: bit_mask_iff) auto
qed

lemma bit_KIMM_PTR: "\<not> bit KIMM_PTR n"
  by (simp add: KIMM_PTR_def)

lemma bit_KIMM_INT: "bit KIMM_INT n \<longleftrightarrow> n = 0"
  by (auto simp: KIMM_INT_def bit_1_iff)

lemma bit_KIMM_CTOR: "bit KIMM_CTOR n \<longleftrightarrow> n = 1"
proof -
  have "KIMM_CTOR = push_bit 1 1" by (simp add: KIMM_CTOR_def push_bit_eq_mult)
  then have "bit KIMM_CTOR n = bit (push_bit 1 1 :: kword) n" by (rule arg_cong)
  then show ?thesis by (simp only: bit_push_bit_iff bit_1_iff) auto
qed

lemma bit_KIMM_PACKED: "bit KIMM_PACKED n \<longleftrightarrow> n < 2"
proof -
  have "KIMM_PACKED = mask 2" by (simp add: KIMM_PACKED_def mask_eq_exp_minus_1)
  then have "bit KIMM_PACKED n = bit (mask 2 :: kword) n" by (rule arg_cong)
  then show ?thesis by (simp only: bit_mask_iff) auto
qed

lemma bit_KIMM_PACKED_NF1: "bit KIMM_PACKED_NF1 n \<longleftrightarrow> n = 3"
proof -
  have "KIMM_PACKED_NF1 = push_bit 3 1" by (simp add: KIMM_PACKED_NF1_def push_bit_eq_mult)
  then have "bit KIMM_PACKED_NF1 n = bit (push_bit 3 1 :: kword) n" by (rule arg_cong)
  then show ?thesis by (simp only: bit_push_bit_iff bit_1_iff) auto
qed

lemmas imm_bits [kbits] = bit_simps bit_KIMM_TAG_MASK bit_KIMM_PACKED_TAG_MAX bit_slot20
  bit_KIMM_PTR bit_KIMM_INT bit_KIMM_CTOR bit_KIMM_PACKED bit_KIMM_PACKED_NF1

section \<open>Tag of an encoded word\<close>

lemma low3_eqI:
  assumes "\<And>n. n < 3 \<Longrightarrow> bit (v::kword) n = bit c n" "\<And>n. 3 \<le> n \<Longrightarrow> \<not> bit c n"
  shows "v AND KIMM_TAG_MASK = c"
proof (rule bit_word_eqI)
  fix n assume "n < LENGTH(64)"
  show "bit (v AND KIMM_TAG_MASK) n = bit c n"
    using assms[of n] by (cases "n < 3") (simp_all add: imm_bits)
qed

lemma tag_imm_int [simp]: "kmk_imm_int v AND KIMM_TAG_MASK = KIMM_INT"
  by (rule low3_eqI) (auto simp: kmk_imm_int_def imm_bits)

lemma tag_imm_ctor [simp]: "kmk_imm_ctor t AND KIMM_TAG_MASK = KIMM_CTOR"
  by (rule low3_eqI) (auto simp: kmk_imm_ctor_def imm_bits)

lemma tag_imm_packed [simp]: "kmk_imm_packed t f AND KIMM_TAG_MASK = KIMM_PACKED"
  by (rule low3_eqI) (auto simp: kmk_imm_packed_def Let_def imm_bits)

lemma tag_imm_packed2 [simp]: "kmk_imm_packed2 t f g AND KIMM_TAG_MASK = KIMM_PACKED"
  by (rule low3_eqI)
    (auto simp: kmk_imm_packed2_def Let_def imm_bits)

lemma imm_tags_distinct [simp]:
  "KIMM_PTR \<noteq> KIMM_INT" "KIMM_PTR \<noteq> KIMM_CTOR" "KIMM_PTR \<noteq> KIMM_PACKED"
  "KIMM_INT \<noteq> KIMM_PTR" "KIMM_CTOR \<noteq> KIMM_PTR" "KIMM_PACKED \<noteq> KIMM_PTR"
  "KIMM_INT \<noteq> KIMM_CTOR" "KIMM_INT \<noteq> KIMM_PACKED" "KIMM_CTOR \<noteq> KIMM_PACKED"
  "KIMM_CTOR \<noteq> KIMM_INT" "KIMM_PACKED \<noteq> KIMM_INT" "KIMM_PACKED \<noteq> KIMM_CTOR"
  by (simp_all add: imm_consts)

lemma imm_kind_tests [simp]:
  "kis_imm (kmk_imm_int v)" "kis_imm_int (kmk_imm_int v)"
  "\<not> kis_imm_ctor (kmk_imm_int v)" "\<not> kis_imm_packed (kmk_imm_int v)"
  "kis_imm (kmk_imm_ctor t)" "kis_imm_ctor (kmk_imm_ctor t)"
  "\<not> kis_imm_int (kmk_imm_ctor t)" "\<not> kis_imm_packed (kmk_imm_ctor t)"
  "kis_imm (kmk_imm_packed t f)" "kis_imm_packed (kmk_imm_packed t f)"
  "\<not> kis_imm_int (kmk_imm_packed t f)" "\<not> kis_imm_ctor (kmk_imm_packed t f)"
  "kis_imm (kmk_imm_packed2 t f g)" "kis_imm_packed (kmk_imm_packed2 t f g)"
  "\<not> kis_imm_int (kmk_imm_packed2 t f g)" "\<not> kis_imm_ctor (kmk_imm_packed2 t f g)"
  by (simp_all add: kis_imm_def kis_imm_int_def kis_imm_ctor_def kis_imm_packed_def)

lemma imm_kind_imm:
  "kis_imm_int v \<Longrightarrow> kis_imm v" "kis_imm_ctor v \<Longrightarrow> kis_imm v" "kis_imm_packed v \<Longrightarrow> kis_imm v"
  by (simp_all add: kis_imm_def kis_imm_int_def kis_imm_ctor_def kis_imm_packed_def)

lemma imm_kind_excl:
  "kis_imm_int v \<Longrightarrow> \<not> kis_imm_ctor v" "kis_imm_int v \<Longrightarrow> \<not> kis_imm_packed v"
  "kis_imm_ctor v \<Longrightarrow> \<not> kis_imm_packed v" "kis_imm_ctor v \<Longrightarrow> \<not> kis_imm_int v"
  "kis_imm_packed v \<Longrightarrow> \<not> kis_imm_int v" "kis_imm_packed v \<Longrightarrow> \<not> kis_imm_ctor v"
  by (simp_all add: kis_imm_int_def kis_imm_ctor_def kis_imm_packed_def)

section \<open>Round trips\<close>

lemma kimm_int_val_mk [simp]:
  assumes "kint_fits_imm v"
  shows "kimm_int_val (kmk_imm_int v) = v"
proof -
  have r: "- (2 ^ 60) \<le> sint v" "sint v < 2 ^ 60"
    using assms by (auto simp: kint_fits_imm_def imm_consts)
  have sx: "bit v n = bit v 60" if "60 \<le> n" "n < 64" for n
    using signed_range_bit[OF r that(1)] that(2) by simp
  show ?thesis
  proof (rule bit_word_eqI)
    fix n assume n: "n < LENGTH(64)"
    have "bit (kimm_int_val (kmk_imm_int v)) n = bit v (if n < 61 then n else 60)"
      using n by (auto simp: kimm_int_val_def kmk_imm_int_def imm_bits)
    then show "bit (kimm_int_val (kmk_imm_int v)) n = bit v n"
      using sx[of n] n by (auto split: if_splits)
  qed
qed

lemma kimm_ctor_id_mk [simp]: "kimm_ctor_id (kmk_imm_ctor t) = t"
  by (rule bit_word_eqI) (auto simp: kimm_ctor_id_def kmk_imm_ctor_def imm_bits)

lemma tagid_packs_bit: "kctor_tagid_packs t \<Longrightarrow> 20 \<le> n \<Longrightarrow> \<not> bit t n"
  by (rule unsigned_range_bit[where k = 20])
    (auto simp: kctor_tagid_packs_def imm_consts word_le_nat_alt)

lemma kimm_packed_tagid_mk [simp]:
  assumes "kctor_tagid_packs t"
  shows "kimm_packed_tagid (kmk_imm_packed t f) = t"
  by (rule bit_word_eqI)
    (use tagid_packs_bit[OF assms] in
      \<open>auto simp: kimm_packed_tagid_def kmk_imm_packed_def Let_def imm_bits not_less
        intro: ccontr\<close>)

lemma kimm_packed2_tagid_mk [simp]:
  assumes "kctor_tagid_packs t"
  shows "kimm_packed_tagid (kmk_imm_packed2 t f g) = t"
  by (rule bit_word_eqI)
    (use tagid_packs_bit[OF assms] in
      \<open>auto simp: kimm_packed_tagid_def kmk_imm_packed2_def
        Let_def imm_bits not_less intro: ccontr\<close>)

lemma kimm_packed_is2_mk [simp]: "\<not> kimm_packed_is2 (kmk_imm_packed t f)"
proof -
  have "kmk_imm_packed t f AND KIMM_PACKED_NF1 = 0"
    by (rule bit_word_eqI)
      (auto simp: kmk_imm_packed_def Let_def imm_bits)
  then show ?thesis by (simp add: kimm_packed_is2_def)
qed

lemma kimm_packed2_is2_mk [simp]: "kimm_packed_is2 (kmk_imm_packed2 t f g)"
proof -
  have "bit (kmk_imm_packed2 t f g AND KIMM_PACKED_NF1) 3"
    by (simp add: kmk_imm_packed2_def Let_def imm_bits)
  then show ?thesis by (auto simp: kimm_packed_is2_def)
qed

lemma kimm_packed_field_mk [simp]:
  assumes "kctor_field_packs f"
  shows "kimm_packed_field (kmk_imm_packed t f) = f"
proof (rule bit_word_eqI)
  fix n assume n: "n < LENGTH(64)"
  have r: "- (2 ^ 39) \<le> sint f" "sint f < 2 ^ 39"
    using assms by (auto simp: kctor_field_packs_def imm_consts split: if_splits)
  have "bit (kimm_packed_field (kmk_imm_packed t f)) n = bit f (if n < 40 then n else 39)"
    using n by (auto simp: kimm_packed_field_def kmk_imm_packed_def Let_def imm_bits)
  then show "bit (kimm_packed_field (kmk_imm_packed t f)) n = bit f n"
    using signed_range_bit[OF r, of n] n by (auto split: if_splits)
qed

lemma kimm_packed2_field_mk:
  assumes "kctor_field2_packs f" "kctor_field2_packs g"
  shows "kimm_packed2_field (kmk_imm_packed2 t f g) 0 = f"
    and "kimm_packed2_field (kmk_imm_packed2 t f g) 1 = g"
proof -
  have rf: "- (2 ^ 19) \<le> sint f" "sint f < 2 ^ 19" and rg: "- (2 ^ 19) \<le> sint g" "sint g < 2 ^ 19"
    using assms by (auto simp: kctor_field2_packs_def imm_consts split: if_splits)
  show "kimm_packed2_field (kmk_imm_packed2 t f g) 0 = f"
  proof (rule bit_word_eqI)
    fix n assume n: "n < LENGTH(64)"
    have "bit (kimm_packed2_field (kmk_imm_packed2 t f g) 0) n = bit f (if n < 20 then n else 19)"
      using n by (auto simp: kimm_packed2_field_def kmk_imm_packed2_def Let_def imm_bits)
    then show "bit (kimm_packed2_field (kmk_imm_packed2 t f g) 0) n = bit f n"
      using signed_range_bit[OF rf, of n] n by (auto split: if_splits)
  qed
  show "kimm_packed2_field (kmk_imm_packed2 t f g) 1 = g"
  proof (rule bit_word_eqI)
    fix n assume n: "n < LENGTH(64)"
    have "bit (kimm_packed2_field (kmk_imm_packed2 t f g) 1) n = bit g (if n < 20 then n else 19)"
      using n by (auto simp: kimm_packed2_field_def kmk_imm_packed2_def Let_def imm_bits)
    then show "bit (kimm_packed2_field (kmk_imm_packed2 t f g) 1) n = bit g n"
      using signed_range_bit[OF rg, of n] n by (auto split: if_splits)
  qed
qed

section \<open>Injectivity and disjointness\<close>

lemma kint_fits_immI: "KIMM_INT_MIN \<le> sint v \<Longrightarrow> sint v \<le> KIMM_INT_MAX \<Longrightarrow> kint_fits_imm v"
  by (simp add: kint_fits_imm_def)

lemma kmk_imm_int_inject:
  "kint_fits_imm v \<Longrightarrow> kint_fits_imm w \<Longrightarrow> kmk_imm_int v = kmk_imm_int w \<longleftrightarrow> v = w"
  by (metis kimm_int_val_mk)

lemma kmk_imm_ctor_inject: "kmk_imm_ctor s = kmk_imm_ctor t \<longleftrightarrow> s = t"
  by (metis kimm_ctor_id_mk)

lemma kmk_imm_kinds_disjoint [simp]:
  "kmk_imm_int v \<noteq> kmk_imm_ctor t" "kmk_imm_ctor t \<noteq> kmk_imm_int v"
  "kmk_imm_int v \<noteq> kmk_imm_packed t f" "kmk_imm_int v \<noteq> kmk_imm_packed2 t f g"
  "kmk_imm_ctor u \<noteq> kmk_imm_packed t f" "kmk_imm_ctor u \<noteq> kmk_imm_packed2 t f g"
  "kmk_imm_packed u h \<noteq> kmk_imm_packed2 t f g"
  by (metis imm_kind_tests kimm_packed2_is2_mk kimm_packed_is2_mk)+

end
