(* ===== verification/Kappa_Value.thy ===== *)
theory Kappa_Value
  imports Kappa_Word
begin

text \<open>
  The boxed-value model of \<open>runtime/kappart.h\<close> and \<open>runtime/value.c\<close>: the value type
  with the \<open>KTag\<close> constructors, the value constructors (which choose between an immediate
  word and a heap box exactly as the code does) and the deconstruction functions.

  A \<open>kval\<close> is a value as the C code reads it: \<open>KImm w\<close> is a tagged immediate word,
  every other constructor a heap box with the fields of its \<open>as\<close> member. Sharing and
  reference counts of boxes are not visible at this level (\<open>kdup\<close> returns its argument and
  \<open>kdrop\<close> returns nothing); they are the subject of \<open>Kappa_RC\<close> and \<open>Kappa_Heap\<close>.
  Mutable cells, arrays and foreign payloads are addresses (\<open>nat\<close>) into stores of the
  component that owns them. A closure is the name of its code and its captured environment
  (head first): the runtime's own closure bodies are the constructors of \<open>cfn\<close>, the bodies
  emitted by the code generator are numbered by \<open>CUser\<close>. The \<open>int\<close> tag id of the C
  code is an \<open>int\<close> (32-bit range), \<open>-1\<close> included; the payload of a \<open>K_BIGINT\<close> is the
  number its \<open>mpz\<close> holds.
\<close>

section \<open>Constructor tag ids\<close>

abbreviation (input) KCT_OTHER :: int where "KCT_OTHER \<equiv> 0"
abbreviation (input) KCT_UNIT :: int where "KCT_UNIT \<equiv> 1"
abbreviation (input) KCT_TRUE :: int where "KCT_TRUE \<equiv> 2"
abbreviation (input) KCT_FALSE :: int where "KCT_FALSE \<equiv> 3"
abbreviation (input) KCT_CONS :: int where "KCT_CONS \<equiv> 4"
abbreviation (input) KCT_NIL :: int where "KCT_NIL \<equiv> 5"
abbreviation (input) KCT_SOME :: int where "KCT_SOME \<equiv> 6"
abbreviation (input) KCT_NONE :: int where "KCT_NONE \<equiv> 7"
abbreviation (input) KCT_RAT :: int where "KCT_RAT \<equiv> 8"
abbreviation (input) KCT_EFFPURE :: int where "KCT_EFFPURE \<equiv> 9"
abbreviation (input) KCT_EFFOP :: int where "KCT_EFFOP \<equiv> 10"
abbreviation (input) KCT_SUCCESS :: int where "KCT_SUCCESS \<equiv> 11"
abbreviation (input) KCT_FAILURE :: int where "KCT_FAILURE \<equiv> 12"
abbreviation (input) KCT_FAIL :: int where "KCT_FAIL \<equiv> 13"
abbreviation (input) KCT_INTERRUPT :: int where "KCT_INTERRUPT \<equiv> 14"
abbreviation (input) KCT_DEFECT :: int where "KCT_DEFECT \<equiv> 15"
abbreviation (input) KCT_BOTH :: int where "KCT_BOTH \<equiv> 16"
abbreviation (input) KCT_THEN :: int where "KCT_THEN \<equiv> 17"
abbreviation (input) KCT_RO_LEFT :: int where "KCT_RO_LEFT \<equiv> 18"
abbreviation (input) KCT_RO_RIGHT :: int where "KCT_RO_RIGHT \<equiv> 19"
abbreviation (input) KCT_TO_TIMED_OUT :: int where "KCT_TO_TIMED_OUT \<equiv> 20"
abbreviation (input) KCT_TO_EXIT :: int where "KCT_TO_EXIT \<equiv> 21"
abbreviation (input) KCT_MK_INTERRUPT_CAUSE :: int where "KCT_MK_INTERRUPT_CAUSE \<equiv> 22"
abbreviation (input) KCT_IT_REQUESTED :: int where "KCT_IT_REQUESTED \<equiv> 23"
abbreviation (input) KCT_IT_SCOPE_SHUTDOWN :: int where "KCT_IT_SCOPE_SHUTDOWN \<equiv> 24"
abbreviation (input) KCT_IT_TIMED_OUT :: int where "KCT_IT_TIMED_OUT \<equiv> 25"
abbreviation (input) KCT_IT_RACE_LOST :: int where "KCT_IT_RACE_LOST \<equiv> 26"
abbreviation (input) KCT_IT_EXTERNAL :: int where "KCT_IT_EXTERNAL \<equiv> 27"
abbreviation (input) KCT_LT :: int where "KCT_LT \<equiv> 28"
abbreviation (input) KCT_EQ :: int where "KCT_EQ \<equiv> 29"
abbreviation (input) KCT_GT :: int where "KCT_GT \<equiv> 30"
abbreviation (input) KCT_TYPELEVEL_LEVEL :: int where "KCT_TYPELEVEL_LEVEL \<equiv> 31"
abbreviation (input) KCT_USER_BASE :: int where "KCT_USER_BASE \<equiv> 40"

section \<open>Values\<close>

datatype cfn =
    CWithScope | CLocallyWithOld | CLoopBranch | CRestore | CArWithR | CArMasked | CResumeThunk
  | CRaceDecideR | CRaceDecideL | CRaceKRf | CRaceKLf | CRaceKSignal | CRaceLeftPure
  | CTimeoutDecide | CTimeoutKTf | CTimeoutKAf | CTimeoutKSignal
  | CEffBindK | CEffReinstallK
  | CUser nat

datatype kval =
    KImm kword
  | KInt kword
  | KDbl kword
  | KStr "byte list"
  | KChr u32
  | KUnitBox
  | KCtor int string "kval list"
  | KRec "(string \<times> kval) list"
  | KClo cfn "kval list"
  | KIo nat "kval list"
  | KRef nat
  | KArray nat
  | KFgn nat string
  | KVariant int string kval
  | KThunk nat "kval list" bool nat
  | KBig int
  | KBounce kval kval
  | KByte byte
  | KBytes "byte list"
  | KIoTail kval
  | KIoEffect kval
  | KIoFinally kval "kval list"
  | KFail kval
  | KNative nat int "kval list" string bool bool

section \<open>Reading a value as an immediate\<close>

fun kv_imm :: "kval \<Rightarrow> bool" where
  "kv_imm (KImm w) = kis_imm w"
| "kv_imm _ = False"

fun kv_imm_int :: "kval \<Rightarrow> bool" where
  "kv_imm_int (KImm w) = kis_imm_int w"
| "kv_imm_int _ = False"

fun kv_field_packs :: "kval \<Rightarrow> bool" where
  "kv_field_packs (KImm w) = kctor_field_packs w"
| "kv_field_packs _ = False"

fun kv_field2_packs :: "kval \<Rightarrow> bool" where
  "kv_field2_packs (KImm w) = kctor_field2_packs w"
| "kv_field2_packs _ = False"

fun kv_word :: "kval \<Rightarrow> kword" where
  "kv_word (KImm w) = w"
| "kv_word _ = 0"

section \<open>Value constructors\<close>

definition kint :: "kword \<Rightarrow> kval" where
  "kint v = (if kint_fits_imm v then KImm (kmk_imm_int v) else KBig (sint v))"

definition kunit :: kval where
  "kunit = KImm (kmk_imm_ctor (word_of_int KCT_UNIT))"

definition kctor :: "int \<Rightarrow> string \<Rightarrow> kval list \<Rightarrow> kval" where
  "kctor tagid name args =
     (let argc = length args; t = word_of_int tagid in
      if argc = 0 then KImm (kmk_imm_ctor t)
      else if argc = 1 \<and> kctor_tagid_packs t \<and> kv_field_packs (args ! 0)
      then KImm (kmk_imm_packed t (kv_word (args ! 0)))
      else if argc = 2 \<and> kctor_tagid_packs t \<and> kv_field2_packs (args ! 0) \<and> kv_field2_packs (args ! 1)
      then KImm (kmk_imm_packed2 t (kv_word (args ! 0)) (kv_word (args ! 1)))
      else KCtor tagid name args)"

definition kctor0 :: "int \<Rightarrow> string \<Rightarrow> kval" where
  "kctor0 tagid name = KImm (kmk_imm_ctor (word_of_int tagid))"

definition kbool :: "bool \<Rightarrow> kval" where
  "kbool b = KImm (kmk_imm_ctor (word_of_int (if b then KCT_TRUE else KCT_FALSE)))"

definition kcons :: "kval \<Rightarrow> kval \<Rightarrow> kval" where
  "kcons h t = kctor KCT_CONS ''std.prelude.::'' [h, t]"

definition knil :: kval where
  "knil = kctor0 KCT_NIL ''std.prelude.Nil''"

definition ksome :: "kval \<Rightarrow> kval" where
  "ksome x = kctor KCT_SOME ''std.prelude.Some'' [x]"

definition knone :: kval where
  "knone = kctor0 KCT_NONE ''std.prelude.None''"

fun kis_fail :: "kval \<Rightarrow> bool" where
  "kis_fail (KFail _) = True"
| "kis_fail _ = False"

section \<open>Deconstruction\<close>

fun kctor_tagid :: "kval \<Rightarrow> int" where
  "kctor_tagid (KImm w) =
     (if kis_imm_ctor w then sint (kimm_ctor_id w)
      else if kis_imm_packed w then sint (kimm_packed_tagid w)
      else -1)"
| "kctor_tagid KUnitBox = KCT_UNIT"
| "kctor_tagid (KCtor t _ _) = t"
| "kctor_tagid _ = -1"

fun kctor_argc :: "kval \<Rightarrow> int kres" where
  "kctor_argc (KImm w) =
     (if kis_imm_ctor w then Inr 0
      else if kis_imm_packed w then Inr (if kimm_packed_is2 w then 2 else 1)
      else Inl ''kctor_argc: not a constructor'')"
| "kctor_argc (KCtor _ _ args) = Inr (int (length args))"
| "kctor_argc _ = Inl ''kctor_argc: not a constructor''"

fun kctor_arg :: "kval \<Rightarrow> int \<Rightarrow> kval kres" where
  "kctor_arg (KImm w) i =
     (if kis_imm_packed w then
        (if kimm_packed_is2 w then
           (if i \<noteq> 0 \<and> i \<noteq> 1 then Inl ''kctor_arg: out of range''
            else Inr (KImm (kimm_packed2_field w i)))
         else if i \<noteq> 0 then Inl ''kctor_arg: out of range''
         else Inr (KImm (kimm_packed_field w)))
      else Inl ''kctor_arg: out of range'')"
| "kctor_arg (KCtor _ _ args) i =
     (if i < 0 \<or> i \<ge> int (length args) then Inl ''kctor_arg: out of range''
      else Inr (args ! nat i))"
| "kctor_arg _ i = Inl ''kctor_arg: out of range''"

definition kis_cons :: "kval \<Rightarrow> bool" where
  "kis_cons v \<longleftrightarrow> kctor_tagid v = KCT_CONS"

text \<open>The \<open>KTag\<close> number of a box, as \<open>kproj\<close> prints it; \<open>-1\<close> for an immediate.\<close>

fun ktag_num :: "kval \<Rightarrow> int" where
  "ktag_num (KImm w) = -1"
| "ktag_num (KInt _) = 0" | "ktag_num (KDbl _) = 1" | "ktag_num (KStr _) = 2"
| "ktag_num (KChr _) = 3" | "ktag_num KUnitBox = 4" | "ktag_num (KCtor _ _ _) = 5"
| "ktag_num (KRec _) = 6" | "ktag_num (KClo _ _) = 7" | "ktag_num (KIo _ _) = 8"
| "ktag_num (KRef _) = 9" | "ktag_num (KArray _) = 10" | "ktag_num (KFgn _ _) = 11"
| "ktag_num (KVariant _ _ _) = 12" | "ktag_num (KThunk _ _ _ _) = 13" | "ktag_num (KBig _) = 14"
| "ktag_num (KBounce _ _) = 15" | "ktag_num (KByte _) = 16" | "ktag_num (KBytes _) = 17"
| "ktag_num (KIoTail _) = 18" | "ktag_num (KIoEffect _) = 19" | "ktag_num (KIoFinally _ _) = 20"
| "ktag_num (KFail _) = 21" | "ktag_num (KNative _ _ _ _ _ _) = 22"

definition kbuiltin_ctor_id :: "string \<Rightarrow> int" where
  "kbuiltin_ctor_id name =
     (if name = ''std.prelude.Unit'' then KCT_UNIT
      else if name = ''std.prelude.True'' then KCT_TRUE
      else if name = ''std.prelude.False'' then KCT_FALSE
      else if name = ''std.prelude.Nil'' then KCT_NIL
      else if name = ''std.prelude.None'' \<or> name = ''None'' then KCT_NONE
      else if name = ''std.prelude.Some'' \<or> name = ''Some'' then KCT_SOME
      else if name = ''Success'' then KCT_SUCCESS
      else if name = ''Failure'' then KCT_FAILURE
      else if name = ''Interrupt'' then KCT_INTERRUPT
      else if name = ''RaceWonLeft'' then KCT_RO_LEFT
      else if name = ''RaceWonRight'' then KCT_RO_RIGHT
      else if name = ''TimeoutDone'' then KCT_TO_EXIT
      else if name = ''TimeoutFired'' then KCT_TO_TIMED_OUT
      else if name = ''Requested'' then KCT_IT_REQUESTED
      else if name = ''ScopeShutdown'' then KCT_IT_SCOPE_SHUTDOWN
      else if name = ''TimedOut'' then KCT_IT_TIMED_OUT
      else if name = ''RaceLost'' then KCT_IT_RACE_LOST
      else if name = ''External'' then KCT_IT_EXTERNAL
      else -1)"

fun kctor_is :: "kval \<Rightarrow> string \<Rightarrow> bool" where
  "kctor_is (KImm w) name =
     (if kis_imm_ctor w then
        (let want = kbuiltin_ctor_id name in want \<ge> 0 \<and> sint (kimm_ctor_id w) = want)
      else if kis_imm_packed w then
        (let want = kbuiltin_ctor_id name in want \<ge> 0 \<and> sint (kimm_packed_tagid w) = want)
      else False)"
| "kctor_is KUnitBox name = (name = ''std.prelude.Unit'')"
| "kctor_is (KCtor _ nm _) name = (nm = name)"
| "kctor_is _ name = False"

fun kctor_name :: "kval \<Rightarrow> string kres" where
  "kctor_name (KImm w) =
     (if kis_imm_ctor w then
        (let i = sint (kimm_ctor_id w) in
         Inr (if i = KCT_UNIT then ''std.prelude.Unit''
              else if i = KCT_TRUE then ''std.prelude.True''
              else if i = KCT_FALSE then ''std.prelude.False''
              else if i = KCT_NIL then ''std.prelude.Nil''
              else if i = KCT_NONE then ''std.prelude.None''
              else ''<nullary>''))
      else if kis_imm_packed w then
        Inr (if sint (kimm_packed_tagid w) = KCT_SOME then ''std.prelude.Some'' else ''<packed>'')
      else Inl ''kctor_name: not a constructor'')"
| "kctor_name (KCtor _ nm _) = Inr nm"
| "kctor_name _ = Inl ''kctor_name: not a constructor''"

fun kproj_find :: "(string \<times> kval) list \<Rightarrow> string \<Rightarrow> kval kres" where
  "kproj_find [] name = Inl (snprintf 128 (''kproj: no such field '' @ [CHR 0x27] @ name @ [CHR 0x27]))"
| "kproj_find ((n, v) # fs) name = (if n = name then Inr v else kproj_find fs name)"

fun kproj :: "kval \<Rightarrow> string \<Rightarrow> kval kres" where
  "kproj (KRec fs) name = kproj_find fs name"
| "kproj v name =
     Inl (snprintf 128 
       (''kproj: field '' @ [CHR 0x27] @ name @ [CHR 0x27] @ '' on non-record (tag '' @ int_dec (ktag_num v) @ '')''))"

fun kvariant_is :: "kval \<Rightarrow> string \<Rightarrow> bool" where
  "kvariant_is (KVariant _ t _) tag = (t = tag)"
| "kvariant_is _ tag = False"

fun kvariant_tagid :: "kval \<Rightarrow> int" where
  "kvariant_tagid (KVariant i _ _) = i"
| "kvariant_tagid _ = -1"

fun kis_variant :: "kval \<Rightarrow> bool" where
  "kis_variant (KVariant _ _ _) = True"
| "kis_variant _ = False"

fun kvariant_payload :: "kval \<Rightarrow> kval kres" where
  "kvariant_payload (KVariant _ _ p) = Inr p"
| "kvariant_payload _ = Inl ''kvariant_payload: not a variant''"

fun krec_size :: "kval \<Rightarrow> int kres" where
  "krec_size (KRec fs) = Inr (int (length fs))"
| "krec_size _ = Inl ''krec_size: not a record''"

fun krec_without :: "kval \<Rightarrow> string list \<Rightarrow> kval kres" where
  "krec_without (KRec fs) excl = Inr (KRec (filter (\<lambda>(n, v). \<not> list_ex (\<lambda>e. n = e) excl) fs))"
| "krec_without _ excl = Inl ''krec_without: not a record''"

fun krec_at :: "kval \<Rightarrow> int \<Rightarrow> kval kres" where
  "krec_at (KRec fs) i =
     (if i < 0 \<or> i \<ge> int (length fs) then Inl ''krec_at: out of range'' else Inr (snd (fs ! nat i)))"
| "krec_at _ i = Inl ''krec_at: out of range''"

section \<open>Environments\<close>

definition kpush :: "kval \<Rightarrow> kval list \<Rightarrow> kval list" where
  "kpush v e = v # e"

fun kvar_at :: "kval list \<Rightarrow> nat \<Rightarrow> kval kres" where
  "kvar_at [] _ = Inl ''kvar: de Bruijn index out of range''"
| "kvar_at (v # e) 0 = Inr v"
| "kvar_at (v # e) (Suc ix) = kvar_at e ix"

definition kvar :: "kval list \<Rightarrow> int \<Rightarrow> kval kres" where
  "kvar e ix = kvar_at e (nat ix)"

section \<open>Accumulating native arguments\<close>

fun native_append_arg :: "kval \<Rightarrow> kval \<Rightarrow> kval" where
  "native_append_arg (KNative f arity args kind is_io blocking) x =
     KNative f arity (args @ [x]) kind is_io blocking"
| "native_append_arg v x = v"

definition knative_make :: "nat \<Rightarrow> int \<Rightarrow> string \<Rightarrow> bool \<Rightarrow> bool \<Rightarrow> kval" where
  "knative_make f arity kind is_io blocking = KNative f arity [] kind is_io blocking"

definition knative_sat_make :: "nat \<Rightarrow> int \<Rightarrow> kval list \<Rightarrow> bool \<Rightarrow> bool \<Rightarrow> kval" where
  "knative_sat_make f arity args is_io blocking = KNative f arity (take (nat arity) args) ''native'' is_io blocking"

section \<open>Unboxing\<close>

fun kis_int_any :: "kval \<Rightarrow> bool" where
  "kis_int_any (KImm w) = kis_imm_int w"
| "kis_int_any (KInt _) = True"
| "kis_int_any (KBig _) = True"
| "kis_int_any _ = False"

fun kas_bool :: "kval \<Rightarrow> bool kres" where
  "kas_bool (KImm w) =
     (if kis_imm_ctor w then
        (if sint (kimm_ctor_id w) = KCT_TRUE then Inr True
         else if sint (kimm_ctor_id w) = KCT_FALSE then Inr False
         else Inl ''kas_bool: not a Bool constructor'')
      else Inl ''kas_bool: not a Bool'')"
| "kas_bool (KCtor t _ _) =
     (if t = KCT_TRUE then Inr True
      else if t = KCT_FALSE then Inr False
      else Inl ''kas_bool: not a Bool constructor'')"
| "kas_bool _ = Inl ''kas_bool: not a Bool''"

fun kas_str :: "kval \<Rightarrow> byte list kres" where
  "kas_str (KStr bs) = Inr bs"
| "kas_str _ = Inl ''kas_str: not a String''"

fun kas_dbl :: "kval \<Rightarrow> kword kres" where
  "kas_dbl (KDbl d) = Inr d"
| "kas_dbl _ = Inl ''kas_dbl: not a Double''"

fun kas_fgn :: "kval \<Rightarrow> nat kres" where
  "kas_fgn (KFgn p _) = Inr p"
| "kas_fgn _ = Inl ''kas_fgn: not a foreign handle''"

fun kas_fgn_kind :: "kval \<Rightarrow> string \<Rightarrow> nat kres" where
  "kas_fgn_kind (KFgn p k) kind =
     (if k \<noteq> kind
      then Inl (snprintf 256 (''wrong foreign handle kind: expected '' @ kind @ '', got '' @ k))
      else Inr p)"
| "kas_fgn_kind _ kind = Inl ''kas_fgn_kind: not a foreign handle''"

end
