(* ===== verification/Kappa_Ctor.thy ===== *)
theory Kappa_Ctor
  imports Kappa_Value
begin

text \<open>
  Constructor values. The interface \<open>ctor_repr\<close> is what every reader of a constructor
  relies on (pattern matches emitted by the compiler, the list and Rational primitives, the
  Exit and Cause classification of the scheduler): the tag id, the arity and each field of a built
  constructor are read back, whichever of the three representations (nullary word, packed word,
  heap box) \<open>kctor\<close> chose. It is interpreted on the model of \<open>runtime/value.c\<close>.
\<close>

section \<open>The interface of constructor values\<close>

locale ctor_repr =
  fixes mk :: "int \<Rightarrow> string \<Rightarrow> 'v list \<Rightarrow> 'v"
    and tagid :: "'v \<Rightarrow> int"
    and argc :: "'v \<Rightarrow> int kres"
    and arg :: "'v \<Rightarrow> int \<Rightarrow> 'v kres"
    and tag_ok :: "int \<Rightarrow> bool"
  assumes tagid_mk: "tag_ok t \<Longrightarrow> tagid (mk t n xs) = t"
    and argc_mk: "tag_ok t \<Longrightarrow> argc (mk t n xs) = Inr (int (length xs))"
    and arg_mk: "tag_ok t \<Longrightarrow> i < length xs \<Longrightarrow> arg (mk t n xs) (int i) = Inr (xs ! i)"
    and arg_out: "tag_ok t \<Longrightarrow> j < 0 \<or> int (length xs) \<le> j \<Longrightarrow> \<exists>m. arg (mk t n xs) j = Inl m"
begin

lemma mk_inject:
  assumes "tag_ok t" "tag_ok u" "mk t n xs = mk u m ys"
  shows "t = u" and "xs = ys"
proof -
  show "t = u" using assms tagid_mk by metis
  have l: "length xs = length ys"
    using argc_mk[OF assms(1), of n xs] argc_mk[OF assms(2), of m ys] assms(3) by simp
  show "xs = ys"
  proof (rule nth_equalityI[OF l])
    fix i assume i: "i < length xs"
    have "arg (mk t n xs) (int i) = Inr (xs ! i)" by (rule arg_mk[OF assms(1) i])
    moreover have "arg (mk u m ys) (int i) = Inr (ys ! i)" using arg_mk assms(2) i l by metis
    ultimately show "xs ! i = ys ! i" using assms(3) by simp
  qed
qed

lemma arg0: "tag_ok t \<Longrightarrow> arg (mk t n (x # xs)) 0 = Inr x"
  using arg_mk[of t 0 "x # xs"] by simp

lemma arg1: "tag_ok t \<Longrightarrow> arg (mk t n (x # y # xs)) 1 = Inr y"
  using arg_mk[of t 1 "x # y # xs"] by simp

lemma arg2: "tag_ok t \<Longrightarrow> arg (mk t n (x # y # z # xs)) 2 = Inr z"
  using arg_mk[of t 2 "x # y # z # xs"] by simp

lemma tag_distinct: "tag_ok t \<Longrightarrow> tag_ok u \<Longrightarrow> t \<noteq> u \<Longrightarrow> mk t n xs \<noteq> mk u m ys"
  using mk_inject(1) by blast

end

section \<open>The runtime's constructors provide it\<close>

text \<open>The C tag id is an \<open>int\<close>.\<close>

definition int32 :: "int \<Rightarrow> bool" where
  "int32 t \<longleftrightarrow> - (2 ^ 31) \<le> t \<and> t < 2 ^ 31"

lemma int32_numeral [simp]:
  "int32 0" "int32 1" "(numeral n :: int) < 2147483648 \<Longrightarrow> int32 (numeral n)"
  by (simp_all add: int32_def)

lemma sint_u32 [simp]: "int32 t \<Longrightarrow> sint (word_of_int t :: u32) = t"
  by (simp add: signed_of_int signed_take_bit_int_eq_self int32_def)

lemma kv_field_packsE:
  assumes "kv_field_packs v" obtains w where "v = KImm w" "kctor_field_packs w"
  using assms by (cases v) auto

lemma kv_field2_packsE:
  assumes "kv_field2_packs v" obtains w where "v = KImm w" "kctor_field2_packs w"
  using assms by (cases v) auto

text \<open>The four shapes \<open>kctor\<close> produces.\<close>

lemma kctor_cases:
  assumes "int32 t"
  obtains
    (nullary) "args = []" "kctor t n args = KImm (kmk_imm_ctor (word_of_int t))"
  | (packed) w where "args = [KImm w]" "kctor_tagid_packs (word_of_int t)" "kctor_field_packs w"
      "kctor t n args = KImm (kmk_imm_packed (word_of_int t) w)"
  | (packed2) w x where "args = [KImm w, KImm x]" "kctor_tagid_packs (word_of_int t)"
      "kctor_field2_packs w" "kctor_field2_packs x"
      "kctor t n args = KImm (kmk_imm_packed2 (word_of_int t) w x)"
  | (boxed) "args \<noteq> []" "kctor t n args = KCtor t n args"
proof -
  let ?t = "word_of_int t :: u32"
  consider "args = []"
    | "length args = 1 \<and> kctor_tagid_packs ?t \<and> kv_field_packs (args ! 0)"
    | "length args = 2 \<and> kctor_tagid_packs ?t \<and> kv_field2_packs (args ! 0) \<and> kv_field2_packs (args ! 1)"
    | "args \<noteq> []" "\<not> (length args = 1 \<and> kctor_tagid_packs ?t \<and> kv_field_packs (args ! 0))"
      "\<not> (length args = 2 \<and> kctor_tagid_packs ?t \<and> kv_field2_packs (args ! 0) \<and> kv_field2_packs (args ! 1))"
    by blast
  then show thesis
  proof cases
    case 1 then show thesis by (intro nullary) (simp_all add: kctor_def)
  next
    case 2
    then obtain a where a: "args = [a]" by (auto simp: length_Suc_conv)
    with 2 obtain w where w: "a = KImm w" "kctor_field_packs w" by (auto elim: kv_field_packsE)
    show thesis by (rule packed[of w]) (use 2 a w in \<open>simp_all add: kctor_def\<close>)
  next
    case 3
    then obtain a b where ab: "args = [a, b]"
      by (auto simp: length_Suc_conv numeral_2_eq_2)
    with 3 obtain w x where w: "a = KImm w" "kctor_field2_packs w" "b = KImm x" "kctor_field2_packs x"
      by (auto elim!: kv_field2_packsE)
    show thesis by (rule packed2[of w x]) (use 3 ab w in \<open>simp_all add: kctor_def\<close>)
  next
    case 4
    then show thesis by (intro boxed) (auto simp: kctor_def Let_def)
  qed
qed

lemma less_one_two: "i < length [a] \<longleftrightarrow> i = 0" "i < length [a, b] \<longleftrightarrow> i = 0 \<or> i = Suc 0"
  by auto

lemma kctor_tagid_kctor [simp]:
  assumes "int32 t" shows "kctor_tagid (kctor t n args) = t"
  using assms by (cases rule: kctor_cases[OF assms, of args n]) auto

lemma kctor_argc_kctor [simp]:
  assumes "int32 t" shows "kctor_argc (kctor t n args) = Inr (int (length args))"
  by (cases rule: kctor_cases[OF assms, of args n]) auto

lemma kctor_arg_kctor:
  assumes "int32 t" "i < length args" shows "kctor_arg (kctor t n args) (int i) = Inr (args ! i)"
  by (cases rule: kctor_cases[OF assms(1), of args n])
    (use assms(2) in \<open>auto simp: less_Suc_eq kimm_packed2_field_mk numeral_2_eq_2\<close>)

lemma kctor_arg_kctor_out:
  assumes "int32 t" "i < 0 \<or> int (length args) \<le> i"
  shows "kctor_arg (kctor t n args) i = Inl ''kctor_arg: out of range''"
  by (cases rule: kctor_cases[OF assms(1), of args n]) (use assms(2) in auto)

interpretation kc: ctor_repr kctor kctor_tagid kctor_argc kctor_arg int32
  by unfold_locales (auto simp: kctor_arg_kctor kctor_arg_kctor_out)

lemmas kc_args [simp] = kc.arg0 kc.arg1 kc.arg2

text \<open>The nullary constructor is the zero-field instance of \<open>kctor\<close>.\<close>

lemma kctor0_kctor: "kctor0 t n = kctor t n []"
  by (simp add: kctor0_def kctor_def)

lemma kctor_tagid_kctor0 [simp]: "int32 t \<Longrightarrow> kctor_tagid (kctor0 t n) = t"
  by (simp add: kctor0_kctor)

lemma kctor_tagid_kunit [simp]: "kctor_tagid kunit = KCT_UNIT"
  by (simp add: kunit_def)

lemma kctor_tagid_kbool [simp]: "kctor_tagid (kbool b) = (if b then KCT_TRUE else KCT_FALSE)"
  by (simp add: kbool_def)

lemma kas_bool_kbool [simp]: "kas_bool (kbool b) = Inr b"
  by (simp add: kbool_def)

lemma kbool_inject [simp]: "kbool a = kbool b \<longleftrightarrow> a = b"
proof
  assume "kbool a = kbool b"
  then have "kas_bool (kbool a) = kas_bool (kbool b)" by simp
  then show "a = b" by simp
qed simp

lemma kis_cons_simps [simp]: "kis_cons (kcons h t)" "\<not> kis_cons knil"
  by (simp_all add: kis_cons_def kcons_def knil_def)

section \<open>Properties\<close>

text \<open>C28: a constructor built by \<open>kctor\<close> answers its own tag id, its own arity, each of its
  fields at its index and a runtime failure at every other index, for the nullary word, the packed
  one- and two-field words and the heap box alike.\<close>

theorem kctor_roundtrip:
  assumes "int32 t"
  shows "kctor_tagid (kctor t n args) = t \<and> kctor_argc (kctor t n args) = Inr (int (length args)) \<and>
    (\<forall>i. kctor_arg (kctor t n args) i =
      (if 0 \<le> i \<and> i < int (length args) then Inr (args ! nat i) else Inl ''kctor_arg: out of range''))"
proof -
  have "kctor_arg (kctor t n args) i =
      (if 0 \<le> i \<and> i < int (length args) then Inr (args ! nat i) else Inl ''kctor_arg: out of range'')" for i
    using kctor_arg_kctor[OF assms, of "nat i" args n] kctor_arg_kctor_out[OF assms, of i args n]
    by (auto simp: nat_less_iff)
  then show ?thesis using assms by simp
qed

lemma kctor_roundtrip_witness:
  "kctor_tagid (kctor KCT_CONS ''std.prelude.::'' [KImm 9, knil]) = KCT_CONS \<and>
   kctor_arg (kctor KCT_CONS ''std.prelude.::'' [KImm 9, knil]) 1 = Inr knil"
  using kctor_roundtrip[of KCT_CONS "''std.prelude.::''" "[KImm 9, knil]"] by simp

text \<open>the representation is canonical. Two constructor values that are the same word or box
  were built from the same tag id and the same fields, and two values built from the same tag id,
  name and fields get the same representation: pointer identity on immediates decides equality.\<close>

theorem kctor_canonical:
  assumes "int32 t" "int32 u" "kctor t n xs = kctor u m ys"
  shows "t = u \<and> xs = ys"
  using kc.mk_inject[OF assms] by simp

lemma kctor_canonical_witness:
  "KCT_SOME = KCT_SOME \<and> [KImm 17] = [KImm 17] \<and>
    kctor KCT_SOME ''std.prelude.Some'' [KImm 17] = kctor KCT_SOME ''Some'' [KImm 17]"
  using kctor_canonical[of KCT_SOME KCT_SOME "''std.prelude.Some''" "[KImm 17]" "''Some''" "[KImm 17]"]
  by (simp add: kctor_def kctor_tagid_packs_def kctor_field_packs_def kis_imm_def imm_consts)

end
