(* ===== verification/Kappa_RC_Shared.thy ===== *)
theory Kappa_RC_Shared
  imports Kappa_RC
begin

text \<open>
  Several threads on one thread-shared header (\<open>runtime/kappart.h\<close>, \<open>kdup\<close> and \<open>kdrop\<close> of a
  shared value): every atomic load, add, store and compare-and-swap of
  \<open>krc_shared_relaxed_increment_from\<close> and \<open>krc_shared_release_decrement\<close> is one step, and the
  steps of the threads interleave freely. \<open>adds\<close> and \<open>decs\<close> count the atomic adds and the
  successful compare-and-swaps; they are not part of the program.
\<close>

datatype rcphase = RIdle | RIncLoaded | RIncStore | RDecLoaded u32

record rcsys =
  hdr :: u32
  ph :: "rcphase list"
  adds :: nat
  decs :: nat

text \<open>What a thread does after loading the header word for a dup or for a drop.\<close>

definition dup_begin :: "u32 \<Rightarrow> rcphase" where
  "dup_begin cur =
     (if cur AND KRC_SATURATED_BIT \<noteq> 0 then RIdle
      else if cur AND KRC_COUNT_MASK \<ge> KRC_COUNT_MASK then RIncStore
      else RIncLoaded)"

definition drop_begin :: "u32 \<Rightarrow> rcphase" where
  "drop_begin cur =
     (if cur AND KRC_SATURATED_BIT \<noteq> 0 then RIdle
      else if cur AND KRC_SHARED_BIT = 0 \<or> cur AND KRC_COUNT_MASK = 0 then RIdle
      else RDecLoaded cur)"

definition after_add :: "u32 \<Rightarrow> rcphase" where
  "after_add old =
     (if old AND KRC_SATURATED_BIT \<noteq> 0 \<or> old AND KRC_COUNT_MASK \<ge> KRC_COUNT_MASK
      then RIncStore else RIdle)"

inductive rc_step :: "rcsys \<Rightarrow> rcsys \<Rightarrow> bool" where
  dup_start: "t < length (ph s) \<Longrightarrow> ph s ! t = RIdle \<Longrightarrow>
    rc_step s (s\<lparr>ph := (ph s)[t := dup_begin (hdr s)]\<rparr>)"
| inc_add: "t < length (ph s) \<Longrightarrow> ph s ! t = RIncLoaded \<Longrightarrow>
    rc_step s (s\<lparr>hdr := hdr s + 1, adds := Suc (adds s), ph := (ph s)[t := after_add (hdr s)]\<rparr>)"
| inc_store: "t < length (ph s) \<Longrightarrow> ph s ! t = RIncStore \<Longrightarrow>
    rc_step s (s\<lparr>hdr := krc_store_shared_saturated, ph := (ph s)[t := RIdle]\<rparr>)"
| drop_start: "t < length (ph s) \<Longrightarrow> ph s ! t = RIdle \<Longrightarrow>
    rc_step s (s\<lparr>ph := (ph s)[t := drop_begin (hdr s)]\<rparr>)"
| cas_ok: "t < length (ph s) \<Longrightarrow> ph s ! t = RDecLoaded cur \<Longrightarrow> hdr s = cur \<Longrightarrow>
    rc_step s (s\<lparr>hdr := (cur AND KRC_SHARED_BIT) OR ((cur AND KRC_COUNT_MASK) - 1),
                 decs := Suc (decs s), ph := (ph s)[t := RIdle]\<rparr>)"
| cas_fail: "t < length (ph s) \<Longrightarrow> ph s ! t = RDecLoaded cur \<Longrightarrow> hdr s \<noteq> cur \<Longrightarrow>
    rc_step s (s\<lparr>ph := (ph s)[t := drop_begin (hdr s)]\<rparr>)"

definition rc_start :: "nat \<Rightarrow> u32 \<Rightarrow> rcsys" where
  "rc_start n w = \<lparr>hdr = w, ph = replicate n RIdle, adds = 0, decs = 0\<rparr>"

section \<open>Invariant\<close>

definition loaded :: "rcphase list \<Rightarrow> nat" where
  "loaded ps = count_list ps RIncLoaded"

definition ph_ok :: "rcphase \<Rightarrow> bool" where
  "ph_ok p = (case p of RDecLoaded c \<Rightarrow> (\<exists>m. hdr_is c True False (Suc m)) | _ \<Rightarrow> True)"

definition rc_inv :: "nat \<Rightarrow> rcsys \<Rightarrow> bool" where
  "rc_inv c0 s \<longleftrightarrow> length (ph s) < 2 ^ 30 \<and> (\<forall>p \<in> set (ph s). ph_ok p) \<and>
    (\<exists>sat n. hdr_is (hdr s) True sat n \<and>
      (if sat then n + loaded (ph s) \<le> length (ph s) else n + decs s = c0 + adds s))"

lemma count_list_update:
  "i < length xs \<Longrightarrow>
    count_list (xs[i := y]) a + (if xs ! i = a then 1 else 0) = count_list xs a + (if y = a then 1 else 0)"
proof (induction xs arbitrary: i)
  case (Cons x xs)
  show ?case
  proof (cases i)
    case (Suc j)
    then show ?thesis using Cons.IH[of j] Cons.prems by (cases "x = a") simp_all
  qed simp
qed simp

lemma loaded_update:
  "i < length ps \<Longrightarrow>
    loaded (ps[i := p]) + (if ps ! i = RIncLoaded then 1 else 0) = loaded ps + (if p = RIncLoaded then 1 else 0)"
  unfolding loaded_def by (rule count_list_update)

lemma loaded_le: "loaded ps \<le> length ps"
  by (simp add: loaded_def count_le_length)

lemma ph_ok_simps [simp]: "ph_ok RIdle" "ph_ok RIncLoaded" "ph_ok RIncStore"
  by (simp_all add: ph_ok_def)

lemma dup_begin_ok: "ph_ok (dup_begin w)" and after_add_ok: "ph_ok (after_add w)"
  by (simp_all add: dup_begin_def after_add_def)

lemma drop_begin_ok:
  assumes "hdr_is w True sat n" shows "ph_ok (drop_begin w)"
proof (cases "sat \<or> n = 0")
  case True
  then show ?thesis using assms by (auto simp: drop_begin_def hdr_is_flags count_eq_0)
next
  case False
  then obtain m where "n = Suc m" by (cases n) auto
  then show ?thesis using assms False by (auto simp: drop_begin_def ph_ok_def)
qed

lemma set_update_ok:
  "(\<forall>p \<in> set ps. ph_ok p) \<Longrightarrow> ph_ok q \<Longrightarrow> (\<forall>p \<in> set (ps[i := q]). ph_ok p)"
  using set_update_subset_insert[of ps i q] by auto

lemma drop_begin_not_loaded: "drop_begin w \<noteq> RIncLoaded"
  by (simp add: drop_begin_def)

lemma rc_step_inv:
  assumes "rc_step s s'" "rc_inv c0 s" shows "rc_inv c0 s'"
proof -
  from assms(2) obtain sat n where
    N: "length (ph s) < 2 ^ 30" and ok: "\<forall>p \<in> set (ph s). ph_ok p" and h: "hdr_is (hdr s) True sat n"
    and c: "if sat then n + loaded (ph s) \<le> length (ph s) else n + decs s = c0 + adds s"
    unfolding rc_inv_def by blast
  note fl = hdr_is_flags(1,2)[OF h] count_ge_mask[OF h]
  have ok': "\<forall>p \<in> set ((ph s)[t := q]). ph_ok p" if "ph_ok q" for t q
    using set_update_ok[OF ok that] .
  from assms(1) show ?thesis
  proof cases
    case (dup_start t)
    have "if sat then n + loaded (ph s') \<le> length (ph s') else n + decs s' = c0 + adds s'"
      using c dup_start loaded_update[of t "ph s" "dup_begin (hdr s)"]
      by (auto simp: dup_begin_def fl split: if_splits)
    then show ?thesis unfolding rc_inv_def using N ok'[OF dup_begin_ok] h dup_start
      by (intro conjI exI[of _ sat] exI[of _ n]) auto
  next
    case (inc_add t)
    have ld: "Suc (loaded (ph s')) = loaded (ph s)"
      using loaded_update[of t "ph s" "after_add (hdr s)"] inc_add by (auto simp: after_add_def)
    have rest: "length (ph s') < 2 ^ 30" "\<forall>p \<in> set (ph s'). ph_ok p"
      using N ok'[OF after_add_ok] inc_add by auto
    show ?thesis
    proof (cases "n < 2 ^ 30 - 1")
      case True
      have "hdr_is (hdr s') True sat (Suc n)" using hdr_succ[OF h True] inc_add by simp
      then show ?thesis unfolding rc_inv_def using rest c ld inc_add
        by (intro conjI exI[of _ sat] exI[of _ "Suc n"]) (auto split: if_splits)
    next
      case False
      with h have n: "n = 2 ^ 30 - 1" by (simp add: hdr_is_def)
      have ns: "\<not> sat" using c ld N n by (auto split: if_splits)
      have "hdr_is (hdr s') True True 0"
        using h n ns inc_add by (simp add: hdr_is_def unat_word_ariths)
      then show ?thesis unfolding rc_inv_def using rest loaded_le[of "ph s'"]
        by (intro conjI exI[of _ True] exI[of _ 0]) auto
    qed
  next
    case (inc_store t)
    then show ?thesis unfolding rc_inv_def
      using N ok'[of RIdle t] hdr_sticky(1) loaded_le[of "(ph s)[t := RIdle]"]
      by (intro conjI exI[of _ True] exI[of _ 0]) (auto simp: krc_store_shared_saturated_def)
  next
    case (drop_start t)
    have "if sat then n + loaded (ph s') \<le> length (ph s') else n + decs s' = c0 + adds s'"
      using c drop_start loaded_update[of t "ph s" "drop_begin (hdr s)"] drop_begin_not_loaded
      by (auto split: if_splits)
    then show ?thesis unfolding rc_inv_def using N ok'[OF drop_begin_ok[OF h]] h drop_start
      by (intro conjI exI[of _ sat] exI[of _ n]) auto
  next
    case (cas_ok t cur)
    have "ph_ok (RDecLoaded cur)" using ok cas_ok(2,3) nth_mem[OF cas_ok(2)] by metis
    then obtain m where m: "hdr_is cur True False (Suc m)" by (auto simp: ph_ok_def)
    have eq: "\<not> sat \<and> n = Suc m"
      using m h cas_ok(4) hdr_is_flags[OF m] hdr_is_flags[OF h] by auto
    have mm: "m < 2 ^ 30" using m by (simp add: hdr_is_def)
    have "hdr_is (hdr s') True False m"
      using hdr_or_count[OF m, of "(cur AND KRC_COUNT_MASK) - 1"] unat_count_pred[OF m] mm cas_ok by simp
    then show ?thesis unfolding rc_inv_def using N ok'[of RIdle t] c eq cas_ok
      by (intro conjI exI[of _ False] exI[of _ m]) auto
  next
    case (cas_fail t cur)
    have "if sat then n + loaded (ph s') \<le> length (ph s') else n + decs s' = c0 + adds s'"
      using c cas_fail loaded_update[of t "ph s" "drop_begin (hdr s)"] drop_begin_not_loaded
      by (auto split: if_splits)
    then show ?thesis unfolding rc_inv_def using N ok'[OF drop_begin_ok[OF h]] h cas_fail
      by (intro conjI exI[of _ sat] exI[of _ n]) auto
  qed
qed

lemma rc_steps_inv: "rc_step\<^sup>*\<^sup>* s s' \<Longrightarrow> rc_inv c0 s \<Longrightarrow> rc_inv c0 s'"
  by (induction rule: rtranclp_induct) (auto intro: rc_step_inv)

lemma rc_inv_start:
  assumes "n < 2 ^ 30" "rc_abs w = Owners True c0" shows "rc_inv c0 (rc_start n w)"
proof -
  obtain sh sat m where h: "hdr_is w sh sat m" by (rule hdr_isE)
  with assms(2) have "sh \<and> \<not> sat \<and> m = c0" by (auto simp: rc_abs_hdr[OF h] split: if_splits)
  with h show ?thesis using assms(1) unfolding rc_inv_def rc_start_def
    by (intro conjI exI[of _ False] exI[of _ c0]) auto
qed

lemma rc_inv_abs:
  assumes "rc_inv c0 s"
  shows "rc_abs (hdr s) = Sticky True \<or> (\<exists>n. rc_abs (hdr s) = Owners True n \<and> n + decs s = c0 + adds s)"
  using assms unfolding rc_inv_def by (auto simp: rc_abs_hdr split: if_splits)

lemma rc_step_sticky:
  assumes "rc_step s s'" "rc_inv c0 s" "rc_abs (hdr s) = Sticky True"
  shows "rc_abs (hdr s') = Sticky True"
proof -
  from assms(2) obtain sat n where
    N: "length (ph s) < 2 ^ 30" and ok: "\<forall>p \<in> set (ph s). ph_ok p" and h: "hdr_is (hdr s) True sat n"
    and c: "if sat then n + loaded (ph s) \<le> length (ph s) else n + decs s = c0 + adds s"
    unfolding rc_inv_def by blast
  have sat: "sat" using assms(3) rc_abs_hdr[OF h] by (auto split: if_splits)
  from assms(1) show ?thesis
  proof cases
    case (inc_add t)
    have "loaded (ph s) > 0"
      using loaded_update[of t "ph s" RIdle] inc_add by auto
    then have "n < 2 ^ 30 - 1" using c sat N by auto
    then have "hdr_is (hdr s') True sat (Suc n)" using hdr_succ[OF h] inc_add by simp
    then show ?thesis using sat by (simp add: rc_abs_hdr)
  next
    case (inc_store t)
    then show ?thesis using hdr_sticky(1) by (simp add: rc_abs_hdr krc_store_shared_saturated_def)
  next
    case (cas_ok t cur)
    have "ph_ok (RDecLoaded cur)" using ok cas_ok(2,3) nth_mem[OF cas_ok(2)] by metis
    then obtain m where m: "hdr_is cur True False (Suc m)" by (auto simp: ph_ok_def)
    with h sat cas_ok(4) have False using hdr_is_flags(2)[OF m] hdr_is_flags(2)[OF h] by auto
    then show ?thesis ..
  qed (use assms(3) in auto)
qed

section \<open>Properties\<close>

text \<open>C23: the header operations refine the owner count. \<open>kdup\<close> adds one owner or, at the top of
  the 30-bit range, enters the sticky state; \<open>kdrop\<close> removes one owner and asks for the free exactly
  when it was the last; marking shared keeps the count. No operation wraps the count.\<close>

theorem rc_header_refines:
  "rc_abs (kdup_hdr True w) = spec_dup (rc_abs w) \<and>
   (rc_abs (fst (kdrop_hdr True w)), snd (kdrop_hdr True w)) = spec_drop (rc_abs w) \<and>
   rc_abs (krc_mark_shared_shallow w) = spec_share (rc_abs w) \<and>
   kdup_hdr False w = w \<and> kdrop_hdr False w = (w, False)"
  by (simp only: rc_abs_kdup_hdr kdrop_hdr_abs rc_abs_mark_shared) (simp add: kdup_hdr_def kdrop_hdr_def)

text \<open>C22: no update of a thread-shared count is lost. Whatever the interleaving of the atomic steps
  of fewer than 2^30 threads, the header is either in the sticky saturated state or its count is the
  initial count plus the atomic adds minus the successful decrements; and the sticky state is never
  left, so a saturated object is never freed.\<close>

theorem rc_shared_no_lost_update:
  assumes "n < 2 ^ 30" "rc_abs w = Owners True c0" "rc_step\<^sup>*\<^sup>* (rc_start n w) s"
  shows "rc_abs (hdr s) = Sticky True \<and> (\<forall>s'. rc_step s s' \<longrightarrow> rc_abs (hdr s') = Sticky True) \<or>
    (\<exists>k. rc_abs (hdr s) = Owners True k \<and> k + decs s = c0 + adds s)"
proof -
  have "rc_inv c0 s" using rc_steps_inv[OF assms(3) rc_inv_start[OF assms(1,2)]] .
  then show ?thesis using rc_inv_abs rc_step_sticky by blast
qed

lemma rc_shared_no_lost_update_witness:
  "\<exists>s. rc_step\<^sup>*\<^sup>* (rc_start 2 0x80000001) s \<and> adds s = 1 \<and>
     (rc_abs (hdr s) = Sticky True \<and> (\<forall>s'. rc_step s s' \<longrightarrow> rc_abs (hdr s') = Sticky True) \<or>
      (\<exists>k. rc_abs (hdr s) = Owners True k \<and> k + decs s = 1 + adds s))"
proof -
  let ?w = "0x80000001 :: u32"
  let ?s1 = "(rc_start 2 ?w)\<lparr>ph := (ph (rc_start 2 ?w))[0 := dup_begin (hdr (rc_start 2 ?w))]\<rparr>"
  let ?s2 = "?s1\<lparr>hdr := hdr ?s1 + 1, adds := Suc (adds ?s1), ph := (ph ?s1)[0 := after_add (hdr ?s1)]\<rparr>"
  have h: "hdr_is ?w True False 1" by (simp add: hdr_is_def)
  have a: "rc_abs ?w = Owners True 1" by (simp add: rc_abs_hdr[OF h])
  have d: "dup_begin ?w = RIncLoaded"
    using count_ge_mask[OF h] hdr_is_flags(2)[OF h] by (simp only: dup_begin_def) simp
  have "rc_step (rc_start 2 ?w) ?s1" by (rule dup_start) (simp_all add: rc_start_def)
  moreover have "rc_step ?s1 ?s2" by (rule inc_add) (simp_all add: rc_start_def d)
  ultimately have r: "rc_step\<^sup>*\<^sup>* (rc_start 2 ?w) ?s2" by simp
  moreover have "adds ?s2 = 1" by (simp add: rc_start_def)
  ultimately show ?thesis using rc_shared_no_lost_update[OF _ a r] by (intro exI[of _ ?s2]) simp
qed

end
