(* ===== verification/Kappa_Bignum.thy ===== *)
theory Kappa_Bignum
  imports Kappa_Ctor "HOL-Library.Signed_Division"
begin

text \<open>
  Arbitrary-precision integers (\<open>runtime/bignum.c\<close>): the boundary between the 61-bit immediate,
  the 64-bit machine word and the GMP number, the integer primitives with their machine-word fast
  path and their GMP path, and the exact Rational carried as a two-field constructor. GMP itself
  is not part of the repository: the record \<open>gmp\<close> holds the functions the code calls, on the
  number an \<open>mpz_t\<close> denotes, and \<open>gmp_ok\<close> states what its manual documents of them.
\<close>

section \<open>The GMP functions used\<close>

record gmp =
  mpz_add :: "int \<Rightarrow> int \<Rightarrow> int"
  mpz_sub :: "int \<Rightarrow> int \<Rightarrow> int"
  mpz_mul :: "int \<Rightarrow> int \<Rightarrow> int"
  mpz_tdiv_q :: "int \<Rightarrow> int \<Rightarrow> int"
  mpz_tdiv_r :: "int \<Rightarrow> int \<Rightarrow> int"
  mpz_and :: "int \<Rightarrow> int \<Rightarrow> int"
  mpz_ior :: "int \<Rightarrow> int \<Rightarrow> int"
  mpz_xor :: "int \<Rightarrow> int \<Rightarrow> int"
  mpz_gcd :: "int \<Rightarrow> int \<Rightarrow> int"
  mpz_divexact :: "int \<Rightarrow> int \<Rightarrow> int"
  mpz_neg :: "int \<Rightarrow> int"
  mpz_abs :: "int \<Rightarrow> int"
  mpz_cmp :: "int \<Rightarrow> int \<Rightarrow> int"
  mpz_sgn :: "int \<Rightarrow> int"
  mpz_import :: "kword list \<Rightarrow> int"
  mpz_export :: "int \<Rightarrow> kword list"
  mpz_set_str :: "string \<Rightarrow> int option"
  mpz_sizeinbase2 :: "int \<Rightarrow> nat"
  mpz_fdiv_q_2exp :: "int \<Rightarrow> nat \<Rightarrow> int"
  mpz_fdiv_r_2exp :: "int \<Rightarrow> nat \<Rightarrow> int"
  mpz_setbit :: "int \<Rightarrow> nat \<Rightarrow> int"
  mpz_get_ui :: "int \<Rightarrow> kword"
  mpz_get_str :: "int \<Rightarrow> string"
  mpz_fdiv_q :: "int \<Rightarrow> int \<Rightarrow> int"
  mpz_fdiv_r :: "int \<Rightarrow> int \<Rightarrow> int"
  mpz_ui_pow_ui :: "nat \<Rightarrow> nat \<Rightarrow> int"

text \<open>Least significant word first, as both calls ask for with order \<open>-1\<close>.\<close>

definition words_val :: "kword list \<Rightarrow> int" where
  "words_val ws = foldr (\<lambda>w a. uint w + 2 ^ 64 * a) ws 0"

definition gmp_ok :: "gmp \<Rightarrow> bool" where
  "gmp_ok G \<longleftrightarrow>
     (\<forall>a b. mpz_add G a b = a + b) \<and> (\<forall>a b. mpz_sub G a b = a - b) \<and> (\<forall>a b. mpz_mul G a b = a * b) \<and>
     (\<forall>a b. b \<noteq> 0 \<longrightarrow> mpz_tdiv_q G a b = a sdiv b) \<and> (\<forall>a b. b \<noteq> 0 \<longrightarrow> mpz_tdiv_r G a b = a smod b) \<and>
     (\<forall>a b. mpz_and G a b = a AND b) \<and> (\<forall>a b. mpz_ior G a b = a OR b) \<and> (\<forall>a b. mpz_xor G a b = a XOR b) \<and>
     (\<forall>a b. mpz_gcd G a b = gcd a b) \<and> (\<forall>a b. b \<noteq> 0 \<longrightarrow> b dvd a \<longrightarrow> mpz_divexact G a b = a div b) \<and>
     (\<forall>a. mpz_neg G a = - a) \<and> (\<forall>a. mpz_abs G a = \<bar>a\<bar>) \<and>
     (\<forall>a b. sgn (mpz_cmp G a b) = sgn (a - b)) \<and> (\<forall>a. sgn (mpz_sgn G a) = sgn a) \<and>
     (\<forall>ws. mpz_import G ws = words_val ws) \<and>
     (\<forall>a. words_val (mpz_export G a) = \<bar>a\<bar> \<and> (mpz_export G a \<noteq> [] \<longrightarrow> last (mpz_export G a) \<noteq> 0)) \<and>
     (\<forall>a. mpz_set_str G (int_dec a) = Some a) \<and>
     (\<forall>a. a \<noteq> 0 \<longrightarrow> 2 ^ (mpz_sizeinbase2 G a - 1) \<le> \<bar>a\<bar> \<and> \<bar>a\<bar> < 2 ^ mpz_sizeinbase2 G a) \<and>
     (\<forall>a k. mpz_fdiv_q_2exp G a k = a div 2 ^ k) \<and> (\<forall>a k. mpz_fdiv_r_2exp G a k = a mod 2 ^ k) \<and>
     (\<forall>a k. mpz_setbit G a k = set_bit k a) \<and> (\<forall>a. mpz_get_ui G a = word_of_int \<bar>a\<bar>) \<and>
     (\<forall>a. mpz_get_str G a = int_dec a) \<and>
     (\<forall>a b. b \<noteq> 0 \<longrightarrow> mpz_fdiv_q G a b = a div b) \<and> (\<forall>a b. b \<noteq> 0 \<longrightarrow> mpz_fdiv_r G a b = a mod b) \<and>
     (\<forall>b n. mpz_ui_pow_ui G b n = int b ^ n)"

section \<open>The boundary to 64-bit words\<close>

definition kmpz_i64_bounds :: "gmp \<Rightarrow> int \<times> int" where
  "kmpz_i64_bounds G =
     (the (mpz_set_str G ''-9223372036854775808''), the (mpz_set_str G ''9223372036854775807''))"

definition kmpz_fits_i64_p :: "gmp \<Rightarrow> int \<Rightarrow> bool" where
  "kmpz_fits_i64_p G z =
     (let (lo, hi) = kmpz_i64_bounds G in mpz_cmp G z lo \<ge> 0 \<and> mpz_cmp G z hi \<le> 0)"

text \<open>\<open>mpz_export\<close> writes nothing for zero, so \<open>mag\<close> keeps its initial \<open>0\<close>; the magnitude of a
  number that fits is a single word.\<close>

definition kmpz_get_i64 :: "gmp \<Rightarrow> int \<Rightarrow> kword kres" where
  "kmpz_get_i64 G z =
     (if \<not> kmpz_fits_i64_p G z then Inl ''Integer too large for signed 64-bit''
      else let neg = mpz_sgn G z < 0;
               mag = (case mpz_export G (mpz_abs G z) of [] \<Rightarrow> 0 | w # _ \<Rightarrow> w)
        in if \<not> neg then Inr mag
           else if mag = push_bit 63 1 then Inr (push_bit 63 1)
           else Inr (- mag))"

definition kmpz_set_i64 :: "gmp \<Rightarrow> kword \<Rightarrow> int" where
  "kmpz_set_i64 G v =
     (let neg = sint v < 0;
          mag = (if v = push_bit 63 1 then push_bit 63 1 else if neg then - v else v);
          out = mpz_import G [mag]
      in if neg then mpz_neg G out else out)"

definition kbig_from_mpz :: "int \<Rightarrow> kval" where
  "kbig_from_mpz z = KBig z"

definition kfrom_mpz :: "gmp \<Rightarrow> int \<Rightarrow> kval kres" where
  "kfrom_mpz G z =
     (if kmpz_fits_i64_p G z then kbind (kmpz_get_i64 G z) (\<lambda>v. Inr (kint v)) else Inr (kbig_from_mpz z))"

fun kload_mpz :: "gmp \<Rightarrow> kval \<Rightarrow> int kres" where
  "kload_mpz G (KImm w) =
     (if kis_imm_int w then Inr (kmpz_set_i64 G (kimm_int_val w))
      else Inl ''integer operation on a non-integer immediate'')"
| "kload_mpz G (KInt i) = Inr (kmpz_set_i64 G i)"
| "kload_mpz G (KBig z) = Inr z"
| "kload_mpz G _ = Inl ''integer operation on a non-integer value''"

definition kbigint_str :: "gmp \<Rightarrow> string \<Rightarrow> kval kres" where
  "kbigint_str G decimal =
     (case mpz_set_str G decimal of
        None \<Rightarrow> Inl ''kbigint_str: invalid decimal literal''
      | Some z \<Rightarrow> kfrom_mpz G z)"

fun kis_int_word :: "kval \<Rightarrow> bool" where
  "kis_int_word (KImm w) = kis_imm_int w"
| "kis_int_word (KInt _) = True"
| "kis_int_word _ = False"

fun kint_word :: "kval \<Rightarrow> kword" where
  "kint_word (KImm w) = kimm_int_val w"
| "kint_word (KInt i) = i"
| "kint_word _ = 0"

text \<open>\<open>kunbox_i64\<close> of \<open>kappart.h\<close>: the flag says that the caller must take the boxed path.\<close>

fun kunbox_i64 :: "kval \<Rightarrow> kword \<times> bool" where
  "kunbox_i64 (KImm w) = (if kis_imm_int w then (kimm_int_val w, False) else (0, True))"
| "kunbox_i64 (KInt i) = (i, False)"
| "kunbox_i64 _ = (0, True)"

fun kunbox_dbl :: "kval \<Rightarrow> kword \<times> bool" where
  "kunbox_dbl (KDbl d) = (d, False)"
| "kunbox_dbl _ = (0, True)"

fun kas_int :: "gmp \<Rightarrow> kval \<Rightarrow> kword kres" where
  "kas_int G (KImm w) = (if kis_imm_int w then Inr (kimm_int_val w) else Inl ''kas_int: not an Int'')"
| "kas_int G (KInt i) = Inr i"
| "kas_int G (KBig z) =
     (if \<not> kmpz_fits_i64_p G z then Inl ''kas_int: Integer too large for a machine word''
      else kmpz_get_i64 G z)"
| "kas_int G _ = Inl ''kas_int: not an Int''"

text \<open>\<open>kas_u64\<close> gives \<open>mpz_export\<close> room for one word. A number with more words writes past it,
  which has no defined result; \<open>kas_u64_fits\<close> is the condition under which it does not.\<close>

definition kas_u64_fits :: "gmp \<Rightarrow> kval \<Rightarrow> bool" where
  "kas_u64_fits G v =
     (case v of KBig z \<Rightarrow> length (mpz_export G z) \<le> 1 | _ \<Rightarrow> True)"

definition kas_u64 :: "gmp \<Rightarrow> kval \<Rightarrow> kword kres" where
  "kas_u64 G v =
     (if kis_int_word v then Inr (kint_word v)
      else kbind (kload_mpz G v) (\<lambda>z. Inr (case mpz_export G z of [] \<Rightarrow> 0 | w # _ \<Rightarrow> w)))"

section \<open>Comparison and literals\<close>

definition kint_cmp :: "gmp \<Rightarrow> kval \<Rightarrow> kval \<Rightarrow> int kres" where
  "kint_cmp G a b =
     (if kis_int_word a \<and> kis_int_word b then
        (let ia = kint_word a; ib = kint_word b in
         Inr (if sint ia < sint ib then -1 else if sint ia > sint ib then 1 else 0))
      else kbind (kload_mpz G a) (\<lambda>za. kbind (kload_mpz G b) (\<lambda>zb. Inr (mpz_cmp G za zb))))"

definition kint_cmp_fast :: "gmp \<Rightarrow> kval \<Rightarrow> kval \<Rightarrow> int kres" where
  "kint_cmp_fast G a b =
     (if kis_int_word a \<and> kis_int_word b then
        (let ia = kint_word a; ib = kint_word b in
         Inr (if sint ia < sint ib then -1 else if sint ia > sint ib then 1 else 0))
      else kint_cmp G a b)"

fun kint_is_zero :: "gmp \<Rightarrow> kval \<Rightarrow> bool" where
  "kint_is_zero G (KImm w) = (kis_imm_int w \<and> kimm_int_val w = 0)"
| "kint_is_zero G (KInt i) = (i = 0)"
| "kint_is_zero G (KBig z) = (mpz_sgn G z = 0)"
| "kint_is_zero G _ = False"

text \<open>The C comparison of two binary64 numbers, on their bits.\<close>

definition dbl_nan :: "kword \<Rightarrow> bool" where
  "dbl_nan d \<longleftrightarrow> take_bit 11 (drop_bit 52 d) = 2047 \<and> take_bit 52 d \<noteq> 0"

definition dbl_eq :: "kword \<Rightarrow> kword \<Rightarrow> bool" where
  "dbl_eq a b \<longleftrightarrow> \<not> dbl_nan a \<and> \<not> dbl_nan b \<and> (a = b \<or> take_bit 63 a = 0 \<and> take_bit 63 b = 0)"

definition klit_eq :: "gmp \<Rightarrow> kval \<Rightarrow> kval \<Rightarrow> bool kres" where
  "klit_eq G a b =
     (if kis_int_any a \<and> kis_int_any b then kbind (kint_cmp G a b) (\<lambda>c. Inr (c = 0))
      else if kv_imm a \<or> kv_imm b then Inr False
      else Inr (case (a, b) of
          (KDbl x, KDbl y) \<Rightarrow> dbl_eq x y
        | (KChr x, KChr y) \<Rightarrow> x = y
        | (KStr x, KStr y) \<Rightarrow> x = y
        | (KByte x, KByte y) \<Rightarrow> x = y
        | (KBytes x, KBytes y) \<Rightarrow> x = y
        | _ \<Rightarrow> False))"

section \<open>Integer primitives\<close>

definition kint_binop_mpz :: "gmp \<Rightarrow> kval \<Rightarrow> kval \<Rightarrow> (int \<Rightarrow> int \<Rightarrow> int) \<Rightarrow> kval kres" where
  "kint_binop_mpz G a b op =
     kbind (kload_mpz G a) (\<lambda>za. kbind (kload_mpz G b) (\<lambda>zb. kfrom_mpz G (op za zb)))"

text \<open>\<open>__builtin_add_overflow\<close> and its siblings: the wrapped result and whether the exact one
  does not fit \<open>int64_t\<close>.\<close>

definition fits64 :: "int \<Rightarrow> bool" where
  "fits64 z \<longleftrightarrow> - (2 ^ 63) \<le> z \<and> z < 2 ^ 63"

definition kp_addInt :: "gmp \<Rightarrow> kval \<Rightarrow> kval \<Rightarrow> kval kres" where
  "kp_addInt G x y =
     (if kis_int_word x \<and> kis_int_word y \<and> fits64 (sint (kint_word x) + sint (kint_word y))
      then Inr (kint (kint_word x + kint_word y))
      else kint_binop_mpz G x y (mpz_add G))"

definition kp_subInt :: "gmp \<Rightarrow> kval \<Rightarrow> kval \<Rightarrow> kval kres" where
  "kp_subInt G x y =
     (if kis_int_word x \<and> kis_int_word y \<and> fits64 (sint (kint_word x) - sint (kint_word y))
      then Inr (kint (kint_word x - kint_word y))
      else kint_binop_mpz G x y (mpz_sub G))"

definition kp_mulInt :: "gmp \<Rightarrow> kval \<Rightarrow> kval \<Rightarrow> kval kres" where
  "kp_mulInt G x y =
     (if kis_int_word x \<and> kis_int_word y \<and> fits64 (sint (kint_word x) * sint (kint_word y))
      then Inr (kint (kint_word x * kint_word y))
      else kint_binop_mpz G x y (mpz_mul G))"

definition kp_divInt :: "gmp \<Rightarrow> kval \<Rightarrow> kval \<Rightarrow> kval kres" where
  "kp_divInt G x y =
     (if kint_is_zero G y then Inl ''divInt: division by zero''
      else if kis_int_word x \<and> kis_int_word y \<and> \<not> (kint_word x = push_bit 63 1 \<and> kint_word y = -1)
      then Inr (kint (word_of_int (sint (kint_word x) sdiv sint (kint_word y))))
      else kint_binop_mpz G x y (mpz_tdiv_q G))"

definition kp_modInt :: "gmp \<Rightarrow> kval \<Rightarrow> kval \<Rightarrow> kval kres" where
  "kp_modInt G x y =
     (if kint_is_zero G y then Inl ''modInt: division by zero''
      else if kis_int_word x \<and> kis_int_word y then
        (if kint_word x = push_bit 63 1 \<and> kint_word y = -1 then Inr (kint 0)
         else Inr (kint (word_of_int (sint (kint_word x) smod sint (kint_word y)))))
      else kint_binop_mpz G x y (mpz_tdiv_r G))"

definition kp_negInt :: "gmp \<Rightarrow> kval \<Rightarrow> kval kres" where
  "kp_negInt G x =
     (if kis_int_word x \<and> kint_word x \<noteq> push_bit 63 1 then Inr (kint (- kint_word x))
      else kbind (kload_mpz G x) (\<lambda>z. kfrom_mpz G (mpz_neg G z)))"

definition kp_eqInt :: "gmp \<Rightarrow> kval \<Rightarrow> kval \<Rightarrow> kval kres" where
  "kp_eqInt G x y = kbind (kint_cmp G x y) (\<lambda>c. Inr (kbool (c = 0)))"

definition kp_ltInt :: "gmp \<Rightarrow> kval \<Rightarrow> kval \<Rightarrow> kval kres" where
  "kp_ltInt G x y = kbind (kint_cmp G x y) (\<lambda>c. Inr (kbool (c < 0)))"

definition kp_leInt :: "gmp \<Rightarrow> kval \<Rightarrow> kval \<Rightarrow> kval kres" where
  "kp_leInt G x y = kbind (kint_cmp G x y) (\<lambda>c. Inr (kbool (c \<le> 0)))"

definition kp_compareInt :: "gmp \<Rightarrow> kval \<Rightarrow> kval \<Rightarrow> kval kres" where
  "kp_compareInt G x y =
     kbind (kint_cmp G x y) (\<lambda>order.
       Inr (if order < 0 then kctor0 KCT_LT ''LT''
            else if order > 0 then kctor0 KCT_GT ''GT''
            else kctor0 KCT_EQ ''EQ''))"

definition kp_intAnd :: "gmp \<Rightarrow> kval \<Rightarrow> kval \<Rightarrow> kval kres" where
  "kp_intAnd G x y =
     (if kis_int_word x \<and> kis_int_word y then Inr (kint (kint_word x AND kint_word y))
      else kbind (kload_mpz G x) (\<lambda>a. kbind (kload_mpz G y) (\<lambda>b. kfrom_mpz G (mpz_and G a b))))"

definition kp_intOr :: "gmp \<Rightarrow> kval \<Rightarrow> kval \<Rightarrow> kval kres" where
  "kp_intOr G x y =
     (if kis_int_word x \<and> kis_int_word y then Inr (kint (kint_word x OR kint_word y))
      else kbind (kload_mpz G x) (\<lambda>a. kbind (kload_mpz G y) (\<lambda>b. kfrom_mpz G (mpz_ior G a b))))"

definition kp_intXor :: "gmp \<Rightarrow> kval \<Rightarrow> kval \<Rightarrow> kval kres" where
  "kp_intXor G x y =
     (if kis_int_word x \<and> kis_int_word y then Inr (kint (kint_word x XOR kint_word y))
      else kbind (kload_mpz G x) (\<lambda>a. kbind (kload_mpz G y) (\<lambda>b. kfrom_mpz G (mpz_xor G a b))))"

text \<open>The magnitude of an Integer as a 53-bit mantissa and a binary exponent, the two arguments
  of the final \<open>ldexp\<close>; up to 53 bits the number itself with exponent \<open>0\<close>.\<close>

definition mpz_to_double_rne :: "gmp \<Rightarrow> int \<Rightarrow> kword \<times> nat" where
  "mpz_to_double_rne G z =
     (if mpz_sgn G z = 0 then (0, 0)
      else let bits = mpz_sizeinbase2 G z in
        if bits \<le> 53 then (mpz_get_ui G z, 0)
        else let shift = bits - 53;
                 hi = mpz_fdiv_q_2exp G z shift;
                 lo = mpz_fdiv_r_2exp G z shift;
                 mant = mpz_get_ui G hi;
                 halfbit = mpz_setbit G 0 (shift - 1);
                 cmp = mpz_cmp G lo halfbit;
                 round_up = (if cmp < 0 then 0 else if cmp > 0 then 1 else mant AND 1);
                 mant' = mant + round_up
             in if mant' = push_bit 53 1 then (drop_bit 1 mant', shift + 1) else (mant', shift))"

section \<open>Rational\<close>

definition krat :: "gmp \<Rightarrow> int \<Rightarrow> int \<Rightarrow> kval kres" where
  "krat G num den =
     (if mpz_sgn G den = 0 then Inl ''Rational: zero denominator''
      else let (n, d) = (if mpz_sgn G den < 0 then (mpz_neg G num, mpz_neg G den) else (num, den));
               g = mpz_gcd G n d;
               (n', d') = (if mpz_sgn G g \<noteq> 0 then (mpz_divexact G n g, mpz_divexact G d g) else (n, d))
        in kbind (kfrom_mpz G n') (\<lambda>a. kbind (kfrom_mpz G d') (\<lambda>b. Inr (kctor KCT_RAT ''__rat'' [a, b]))))"

definition as_rat :: "gmp \<Rightarrow> kval \<Rightarrow> (int \<times> int) kres" where
  "as_rat G r =
     (if kctor_tagid r \<noteq> KCT_RAT then Inl ''Rational operation on a non-Rational value''
      else kbind (kctor_arg r 0) (\<lambda>p. kbind (kload_mpz G p) (\<lambda>num.
           kbind (kctor_arg r 1) (\<lambda>q. kbind (kload_mpz G q) (\<lambda>den. Inr (num, den))))))"

definition rat_addsub :: "gmp \<Rightarrow> kval \<Rightarrow> kval \<Rightarrow> bool \<Rightarrow> kval kres" where
  "rat_addsub G x y sub =
     kbind (as_rat G x) (\<lambda>(a, b). kbind (as_rat G y) (\<lambda>(c, d).
       let n = mpz_mul G a d; t = mpz_mul G c b;
           n' = (if sub then mpz_sub G n t else mpz_add G n t)
       in krat G n' (mpz_mul G b d)))"

section \<open>GMP as documented\<close>

lemma sgn_iff:
  fixes c x :: int
  assumes "sgn c = sgn x"
  shows "c = 0 \<longleftrightarrow> x = 0" "c < 0 \<longleftrightarrow> x < 0" "c > 0 \<longleftrightarrow> x > 0" "c \<le> 0 \<longleftrightarrow> x \<le> 0" "c \<ge> 0 \<longleftrightarrow> x \<ge> 0"
  using assms by (auto simp: sgn_if split: if_splits)

lemma gmp_arith:
  assumes "gmp_ok G"
  shows "mpz_add G a b = a + b" "mpz_sub G a b = a - b" "mpz_mul G a b = a * b"
    "mpz_and G a b = a AND b" "mpz_ior G a b = a OR b" "mpz_xor G a b = a XOR b"
    "mpz_gcd G a b = gcd a b" "mpz_neg G a = - a" "mpz_abs G a = \<bar>a\<bar>"
    "mpz_import G ws = words_val ws" "mpz_set_str G (int_dec a) = Some a"
    "mpz_fdiv_q_2exp G a k = a div 2 ^ k" "mpz_fdiv_r_2exp G a k = a mod 2 ^ k"
    "mpz_setbit G a k = set_bit k a" "mpz_get_ui G a = word_of_int \<bar>a\<bar>"
  using assms by (simp_all add: gmp_ok_def)

lemma gmp_div:
  assumes "gmp_ok G" "b \<noteq> 0"
  shows "mpz_tdiv_q G a b = a sdiv b" "mpz_tdiv_r G a b = a smod b"
    "b dvd a \<Longrightarrow> mpz_divexact G a b = a div b"
  using assms by (simp_all add: gmp_ok_def)

lemma gmp_cmp:
  assumes "gmp_ok G" shows "sgn (mpz_cmp G a b) = sgn (a - b)"
  using assms by (simp add: gmp_ok_def)

lemma gmp_cmp_iff:
  assumes "gmp_ok G"
  shows "mpz_cmp G a b = 0 \<longleftrightarrow> a = b" "mpz_cmp G a b < 0 \<longleftrightarrow> a < b" "mpz_cmp G a b > 0 \<longleftrightarrow> a > b"
    "mpz_cmp G a b \<le> 0 \<longleftrightarrow> a \<le> b" "mpz_cmp G a b \<ge> 0 \<longleftrightarrow> a \<ge> b"
  using sgn_iff[OF gmp_cmp[OF assms], of a b] by simp_all

lemma gmp_sgn_iff:
  assumes "gmp_ok G"
  shows "mpz_sgn G a = 0 \<longleftrightarrow> a = 0" "mpz_sgn G a < 0 \<longleftrightarrow> a < 0"
proof -
  have "sgn (mpz_sgn G a) = sgn a" using assms by (simp add: gmp_ok_def)
  from sgn_iff[OF this] show "mpz_sgn G a = 0 \<longleftrightarrow> a = 0" "mpz_sgn G a < 0 \<longleftrightarrow> a < 0" by simp_all
qed

lemma gmp_export:
  assumes "gmp_ok G"
  shows "words_val (mpz_export G a) = \<bar>a\<bar>" "mpz_export G a \<noteq> [] \<Longrightarrow> last (mpz_export G a) \<noteq> 0"
  using assms by (simp_all add: gmp_ok_def)

lemma gmp_bits:
  assumes "gmp_ok G" "a \<noteq> 0"
  shows "2 ^ (mpz_sizeinbase2 G a - 1) \<le> \<bar>a\<bar>" "\<bar>a\<bar> < 2 ^ mpz_sizeinbase2 G a"
  using assms by (simp_all add: gmp_ok_def)

lemma int_dec_i64:
  "int_dec (- (2 ^ 63)) = ''-9223372036854775808''" "int_dec (2 ^ 63 - 1) = ''9223372036854775807''"
  by (simp_all add: int_dec_def nat_dec.simps digit_char_def)

end
