(* ===== verification/Kappa_Int.thy ===== *)
theory Kappa_Int
  imports Kappa_Bignum
begin

text \<open>
  The integer and Rational primitives of \<open>runtime/bignum.c\<close> against their specification: an
  Integer is a mathematical integer, every result is in the one canonical representation, and a
  Rational is a reduced fraction with positive denominator.
\<close>

section \<open>GMP as documented: an instance\<close>

fun words_of :: "nat \<Rightarrow> kword list" where
  "words_of n = (if n = 0 then [] else of_nat n # words_of (n div 2 ^ 64))"

declare words_of.simps [simp del]

fun bitlen :: "nat \<Rightarrow> nat" where
  "bitlen n = (if n = 0 then 0 else Suc (bitlen (n div 2)))"

declare bitlen.simps [simp del]

definition digit_val :: "char \<Rightarrow> nat" where
  "digit_val c = of_char c - 48"

definition dec_val :: "string \<Rightarrow> nat" where
  "dec_val s = foldl (\<lambda>a c. 10 * a + digit_val c) 0 s"

definition dec_parse :: "string \<Rightarrow> int option" where
  "dec_parse s =
     (case s of [] \<Rightarrow> None
      | c # cs \<Rightarrow> if c = CHR ''-'' then Some (- int (dec_val cs)) else Some (int (dec_val s)))"

definition gmp_ref :: gmp where
  "gmp_ref =
     \<lparr>mpz_add = (+), mpz_sub = (-), mpz_mul = (*), mpz_tdiv_q = (sdiv), mpz_tdiv_r = (smod),
      mpz_and = (AND), mpz_ior = (OR), mpz_xor = (XOR), mpz_gcd = gcd, mpz_divexact = (div),
      mpz_neg = uminus, mpz_abs = abs, mpz_cmp = (\<lambda>a b. sgn (a - b)), mpz_sgn = sgn,
      mpz_import = words_val, mpz_export = (\<lambda>z. words_of (nat \<bar>z\<bar>)), mpz_set_str = dec_parse,
      mpz_sizeinbase2 = (\<lambda>z. bitlen (nat \<bar>z\<bar>)),
      mpz_fdiv_q_2exp = (\<lambda>a k. a div 2 ^ k), mpz_fdiv_r_2exp = (\<lambda>a k. a mod 2 ^ k),
      mpz_setbit = (\<lambda>a k. set_bit k a), mpz_get_ui = (\<lambda>a. word_of_int \<bar>a\<bar>),
      mpz_get_str = int_dec, mpz_fdiv_q = (div), mpz_fdiv_r = (mod), mpz_ui_pow_ui = (\<lambda>b n. int b ^ n)\<rparr>"

lemma words_val_Cons: "words_val (w # ws) = uint w + 2 ^ 64 * words_val ws"
  by (simp add: words_val_def)

lemma words_val_Nil [simp]: "words_val [] = 0"
  by (simp add: words_val_def)

lemma words_of_val: "words_val (words_of n) = int n"
proof (induction n rule: words_of.induct)
  case (1 n)
  have "uint (of_nat n :: kword) = int n mod 2 ^ 64" by (simp add: unsigned_of_nat take_bit_eq_mod zmod_int)
  moreover have "int n mod 2 ^ 64 + 2 ^ 64 * (int n div 2 ^ 64) = int n" by simp
  ultimately show ?case using 1
    by (subst words_of.simps) (simp add: words_val_Cons zdiv_int)
qed

lemma words_of_last: "n \<noteq> 0 \<Longrightarrow> last (words_of n) \<noteq> 0"
proof (induction n rule: words_of.induct)
  case (1 n)
  show ?case
  proof (cases "n div 2 ^ 64 = 0")
    case True
    then have "n < 2 ^ 64" by (simp add: div_eq_0_iff)
    then have "unat (of_nat n :: kword) = n" by (simp add: unat_of_nat)
    then have "(of_nat n :: kword) \<noteq> 0" using 1(2) by (metis unat_0)
    moreover have "words_of n = [of_nat n]"
      using True 1(2) by (subst words_of.simps) (simp add: words_of.simps[of 0])
    ultimately show ?thesis by simp
  next
    case False
    then have "words_of (n div 2 ^ 64) \<noteq> []" by (subst words_of.simps) simp
    then show ?thesis using 1 False by (subst words_of.simps) simp
  qed
qed

lemma bitlen_bounds: "n \<noteq> 0 \<Longrightarrow> 2 ^ (bitlen n - 1) \<le> n \<and> n < 2 ^ bitlen n"
proof (induction n rule: bitlen.induct)
  case (1 n)
  show ?case
  proof (cases "n = 1")
    case False
    with 1(2) have "n div 2 \<noteq> 0" by auto
    with 1 have ih: "2 ^ (bitlen (n div 2) - 1) \<le> n div 2" "n div 2 < 2 ^ bitlen (n div 2)" by auto
    have "bitlen (n div 2) \<noteq> 0" using ih(2) \<open>n div 2 \<noteq> 0\<close> by (cases "bitlen (n div 2)") auto
    then obtain k where k: "bitlen (n div 2) = Suc k" by (cases "bitlen (n div 2)") auto
    have "bitlen n = Suc (Suc k)" using 1(2) k by (subst bitlen.simps) simp
    moreover have "2 ^ k \<le> n div 2" "n div 2 < 2 * 2 ^ k" using ih k by simp_all
    then have "2 * 2 ^ k \<le> n" "n < 2 * (2 * 2 ^ k)" by linarith+
    ultimately show ?thesis by simp
  qed (simp add: bitlen.simps)
qed

lemma digit_val_char: "d < 10 \<Longrightarrow> digit_val (digit_char d) = d"
  "d < 10 \<Longrightarrow> digit_char d \<noteq> CHR ''-''"
  by (auto simp: digit_val_def digit_char_def nth_Cons numeral_eq_Suc less_Suc_eq)

lemma dec_val_nat_dec: "dec_val (nat_dec n) = n"
proof (induction n rule: nat_dec.induct)
  case (1 n)
  show ?case
  proof (cases "n < 10")
    case True then show ?thesis by (simp add: nat_dec.simps dec_val_def digit_val_char)
  next
    case False
    then show ?thesis using 1 by (subst nat_dec.simps) (simp add: dec_val_def digit_val_char)
  qed
qed

lemma nat_dec_hd: "nat_dec n \<noteq> [] \<and> hd (nat_dec n) \<noteq> CHR ''-''"
proof (induction n rule: nat_dec.induct)
  case (1 n)
  then show ?case by (subst (1 2) nat_dec.simps) (auto simp: digit_val_char)
qed

lemma dec_parse_int_dec: "dec_parse (int_dec z) = Some z"
proof (cases "z < 0")
  case True then show ?thesis by (simp add: int_dec_def dec_parse_def dec_val_nat_dec)
next
  case False
  obtain c cs where c: "nat_dec (nat z) = c # cs" using nat_dec_hd[of "nat z"] by (cases "nat_dec (nat z)") auto
  have "c \<noteq> CHR ''-''" using nat_dec_hd[of "nat z"] c by simp
  moreover have "dec_val (c # cs) = nat z" using dec_val_nat_dec[of "nat z"] c by simp
  ultimately show ?thesis using False c by (simp add: int_dec_def dec_parse_def)
qed

lemma gmp_ok_ref: "gmp_ok gmp_ref"
proof -
  have e: "words_val (words_of (nat \<bar>a\<bar>)) = \<bar>a\<bar> \<and>
      (words_of (nat \<bar>a\<bar>) \<noteq> [] \<longrightarrow> last (words_of (nat \<bar>a\<bar>)) \<noteq> 0)" for a
    using words_of_last[of "nat \<bar>a\<bar>"] by (cases "a = 0") (auto simp: words_of_val words_of.simps[of 0])
  have b: "a \<noteq> 0 \<Longrightarrow> 2 ^ (bitlen (nat \<bar>a\<bar>) - 1) \<le> \<bar>a\<bar> \<and> \<bar>a\<bar> < 2 ^ bitlen (nat \<bar>a\<bar>)" for a :: int
    using bitlen_bounds[of "nat \<bar>a\<bar>"]
    by (auto simp: le_nat_iff nat_less_iff simp flip: of_nat_power)
  show ?thesis using e b by (simp add: gmp_ok_def gmp_ref_def dec_parse_int_dec)
qed

section \<open>The boundary\<close>

text \<open>The Integer a value denotes, and the one representation the runtime produces for it.\<close>

fun int_of :: "kval \<Rightarrow> int option" where
  "int_of (KImm w) = (if kis_imm_int w then Some (sint (kimm_int_val w)) else None)"
| "int_of (KInt i) = Some (sint i)"
| "int_of (KBig z) = Some z"
| "int_of _ = None"

definition int_rep :: "int \<Rightarrow> kval" where
  "int_rep z = (if KIMM_INT_MIN \<le> z \<and> z \<le> KIMM_INT_MAX then KImm (kmk_imm_int (word_of_int z)) else KBig z)"

lemma sint_fits64 [simp]: "fits64 (sint (w::kword))"
  using sint_greater_eq[of w] sint_lt[of w] by (simp add: fits64_def)

lemma sint_word_of_int64 [simp]: "fits64 z \<Longrightarrow> sint (word_of_int z :: kword) = z"
  by (simp add: signed_of_int signed_take_bit_int_eq_self fits64_def)

lemma imm_fits64: "KIMM_INT_MIN \<le> z \<Longrightarrow> z \<le> KIMM_INT_MAX \<Longrightarrow> fits64 z"
  by (simp add: imm_consts fits64_def)

lemma kint_rep: "kint v = int_rep (sint v)"
  by (simp add: kint_def int_rep_def kint_fits_imm_def)

lemma int_of_rep [simp]: "int_of (int_rep z) = Some z"
  using imm_fits64[of z] by (simp add: int_rep_def kint_fits_imm_def)

lemma int_rep_inject [simp]: "int_rep a = int_rep b \<longleftrightarrow> a = b"
  by (metis int_of_rep option.inject)

lemma int_of_word: "kis_int_word v \<Longrightarrow> int_of v = Some (sint (kint_word v))"
  by (cases v) auto

lemma int_of_kis_int_any: "kis_int_any v \<longleftrightarrow> int_of v \<noteq> None"
  by (cases v) auto

lemma sint_eq_min: "sint (w::kword) = - (2 ^ 63) \<longleftrightarrow> w = push_bit 63 1"
proof -
  have "sint (push_bit 63 1 :: kword) = - (2 ^ 63)" by simp
  then show ?thesis by (metis signed_word_eqI)
qed

lemma sint_uminus64: "sint (w::kword) \<noteq> - (2 ^ 63) \<Longrightarrow> sint (- w) = - sint w"
proof -
  assume a: "sint w \<noteq> - (2 ^ 63)"
  have "fits64 (- sint w)" using sint_greater_eq[of w] sint_lt[of w] a by (simp add: fits64_def)
  then have "sint (word_of_int (- sint w) :: kword) = - sint w" by (rule sint_word_of_int64)
  moreover have "word_of_int (- sint w) = - w" by simp
  ultimately show ?thesis by metis
qed

lemma uint_nonneg64: "0 \<le> sint (x::kword) \<Longrightarrow> uint x = sint x"
  using sint_lt[of x] by (simp add: uint_sint take_bit_int_eq_self)

lemma fits_i64 [simp]:
  assumes G: "gmp_ok G" shows "kmpz_fits_i64_p G z \<longleftrightarrow> fits64 z"
proof -
  have "mpz_set_str G ''-9223372036854775808'' = Some (- (2 ^ 63))"
       "mpz_set_str G ''9223372036854775807'' = Some (2 ^ 63 - 1)"
    unfolding int_dec_i64[symmetric] by (rule gmp_arith[OF G])+
  then show ?thesis
    by (simp add: kmpz_fits_i64_p_def kmpz_i64_bounds_def gmp_cmp_iff[OF G] fits64_def) linarith
qed

lemma set_i64 [simp]:
  assumes G: "gmp_ok G" shows "kmpz_set_i64 G v = sint v"
proof (cases "v = push_bit 63 1")
  case True
  then show ?thesis by (simp add: kmpz_set_i64_def gmp_arith[OF G] words_val_def)
next
  case False
  then have nm: "sint v \<noteq> - (2 ^ 63)" by (simp only: sint_eq_min not_False_eq_True)
  show ?thesis
  proof (cases "sint v < 0")
    case True
    then have "uint (- v) = - sint v" using sint_uminus64[OF nm] uint_nonneg64[of "- v"] by simp
    then show ?thesis using False True
      by (simp only: kmpz_set_i64_def gmp_arith[OF G] words_val_Cons Let_def if_True if_False) simp
  next
    case nonneg: False
    then show ?thesis using False uint_nonneg64[of v]
      by (simp only: kmpz_set_i64_def gmp_arith[OF G] words_val_Cons Let_def if_True if_False) simp
  qed
qed

lemma words_val_nonneg: "0 \<le> words_val ws"
  by (induction ws) (simp_all add: words_val_Cons)

lemma words_val_big: "ws \<noteq> [] \<Longrightarrow> last ws \<noteq> 0 \<Longrightarrow> 2 ^ (64 * (length ws - 1)) \<le> words_val ws"
proof (induction ws)
  case (Cons w ws)
  show ?case
  proof (cases "ws = []")
    case True
    then have "w \<noteq> 0" using Cons.prems by simp
    then have "uint w \<noteq> 0" by (simp add: unsigned_eq_0_iff)
    then have "0 < uint w" using uint_nonnegative[of w] by linarith
    then show ?thesis using True by (simp add: words_val_Cons)
  next
    case False
    then have ih: "2 ^ (64 * (length ws - 1)) \<le> words_val ws" using Cons by simp
    have "length ws \<noteq> 0" using False by simp
    then obtain k where k: "length ws = Suc k" by (cases "length ws") auto
    have "(2::int) ^ (64 * length ws) = 2 ^ 64 * 2 ^ (64 * (length ws - 1))"
      by (simp only: k) (simp add: power_add)
    also have "\<dots> \<le> 2 ^ 64 * words_val ws" using ih by simp
    also have "\<dots> \<le> uint w + 2 ^ 64 * words_val ws" by simp
    finally have "2 ^ (64 * length ws) \<le> uint w + 2 ^ 64 * words_val ws" .
    then show ?thesis by (simp add: words_val_Cons)
  qed
qed simp

text \<open>What \<open>mpz_export\<close> writes for a number of at most 64 bits.\<close>

lemma export_word:
  assumes G: "gmp_ok G" and z: "\<bar>z\<bar> < 2 ^ 64"
  shows "uint (case mpz_export G z of [] \<Rightarrow> 0 | w # _ \<Rightarrow> w) = \<bar>z\<bar>" "length (mpz_export G z) \<le> 1"
proof -
  let ?e = "mpz_export G z"
  have v: "words_val ?e = \<bar>z\<bar>" by (rule gmp_export(1)[OF G])
  show l: "length ?e \<le> 1"
  proof (rule ccontr)
    assume a: "\<not> length ?e \<le> 1"
    then have "?e \<noteq> []" by auto
    from words_val_big[OF this gmp_export(2)[OF G this]]
    have "2 ^ (64 * (length ?e - 1)) \<le> \<bar>z\<bar>" by (simp only: v)
    moreover have "(2::int) ^ 64 \<le> 2 ^ (64 * (length ?e - 1))"
      using a by (intro power_increasing) auto
    ultimately show False using z by linarith
  qed
  then show "uint (case ?e of [] \<Rightarrow> 0 | w # _ \<Rightarrow> w) = \<bar>z\<bar>"
    using v by (cases ?e) (auto simp: words_val_Cons)
qed

lemma get_i64 [simp]:
  assumes G: "gmp_ok G"
  shows "kmpz_get_i64 G z = (if fits64 z then Inr (word_of_int z) else Inl ''Integer too large for signed 64-bit'')"
proof (cases "fits64 z")
  case True
  define mag where "mag = (case mpz_export G \<bar>z\<bar> of [] \<Rightarrow> 0 | w # _ \<Rightarrow> w)"
  have "\<bar>\<bar>z\<bar>\<bar> < 2 ^ 64" using True by (auto simp: fits64_def)
  from export_word(1)[OF G this] have "uint mag = \<bar>z\<bar>" by (simp add: mag_def)
  then have m: "mag = word_of_int \<bar>z\<bar>" by (metis word_of_int_uint)
  show ?thesis
  proof (cases "z < 0")
    case neg: True
    have n: "- mag = word_of_int z" using m neg by simp
    have "- (push_bit 63 1 :: kword) = push_bit 63 1" by simp
    then have "(if mag = push_bit 63 1 then push_bit 63 1 else - mag) = word_of_int z" using n by metis
    then show ?thesis using True neg
      by (simp only: kmpz_get_i64_def Let_def gmp_arith[OF G] gmp_sgn_iff[OF G] fits_i64[OF G]
          mag_def[symmetric] if_True not_True_eq_False if_False) (metis (full_types))
  next
    case False
    then have "mag = word_of_int z" using m by simp
    then show ?thesis using True False
      by (simp only: kmpz_get_i64_def Let_def gmp_arith[OF G] gmp_sgn_iff[OF G] fits_i64[OF G]
          mag_def[symmetric] if_True not_True_eq_False if_False not_False_eq_True)
  qed
qed (simp add: kmpz_get_i64_def G)

lemma from_mpz [simp]:
  assumes G: "gmp_ok G" shows "kfrom_mpz G z = Inr (int_rep z)"
proof (cases "fits64 z")
  case True then show ?thesis by (simp add: kfrom_mpz_def G kint_rep)
next
  case False
  then have "\<not> (KIMM_INT_MIN \<le> z \<and> z \<le> KIMM_INT_MAX)" using imm_fits64 by blast
  then have "int_rep z = KBig z" by (simp only: int_rep_def if_False)
  then show ?thesis using False by (simp add: kfrom_mpz_def G kbig_from_mpz_def)
qed

lemma load_mpz [simp]:
  assumes "gmp_ok G" "int_of v = Some a" shows "kload_mpz G v = Inr a"
  using assms by (cases v) (auto split: if_splits)

lemma int_cmp_spec:
  assumes G: "gmp_ok G" and v: "int_of x = Some a" "int_of y = Some b"
  obtains c where "kint_cmp G x y = Inr c" "c < 0 \<longleftrightarrow> a < b" "c = 0 \<longleftrightarrow> a = b"
proof (cases "kis_int_word x \<and> kis_int_word y")
  case True
  then show thesis using that v int_of_word[of x] int_of_word[of y]
    by (auto simp: kint_cmp_def Let_def)
next
  case False
  then have "kint_cmp G x y = Inr (mpz_cmp G a b)" using G v by (auto simp: kint_cmp_def)
  then show thesis using that gmp_cmp_iff[OF G] by blast
qed

section \<open>The primitives compute on the denoted numbers\<close>

lemma binop_mpz:
  "gmp_ok G \<Longrightarrow> int_of x = Some a \<Longrightarrow> int_of y = Some b \<Longrightarrow> kint_binop_mpz G x y op = Inr (int_rep (op a b))"
  by (simp add: kint_binop_mpz_def)

lemma word_arith64:
  "fits64 (sint v + sint w) \<Longrightarrow> sint (v + w :: kword) = sint v + sint w"
  "fits64 (sint v - sint w) \<Longrightarrow> sint (v - w :: kword) = sint v - sint w"
  "fits64 (sint v * sint w) \<Longrightarrow> sint (v * w :: kword) = sint v * sint w"
  using sint_word_of_int64[of "sint v + sint w"] sint_word_of_int64[of "sint v - sint w"]
    sint_word_of_int64[of "sint v * sint w"] by simp_all

lemma addInt:
  assumes "gmp_ok G" "int_of x = Some a" "int_of y = Some b"
  shows "kp_addInt G x y = Inr (int_rep (a + b))"
  using assms binop_mpz[OF assms, of "mpz_add G"] int_of_word[of x] int_of_word[of y]
  by (auto simp: kp_addInt_def kint_rep word_arith64 gmp_arith)

lemma subInt:
  assumes "gmp_ok G" "int_of x = Some a" "int_of y = Some b"
  shows "kp_subInt G x y = Inr (int_rep (a - b))"
  using assms binop_mpz[OF assms, of "mpz_sub G"] int_of_word[of x] int_of_word[of y]
  by (auto simp: kp_subInt_def kint_rep word_arith64 gmp_arith)

lemma mulInt:
  assumes "gmp_ok G" "int_of x = Some a" "int_of y = Some b"
  shows "kp_mulInt G x y = Inr (int_rep (a * b))"
  using assms binop_mpz[OF assms, of "mpz_mul G"] int_of_word[of x] int_of_word[of y]
  by (auto simp: kp_mulInt_def kint_rep word_arith64 gmp_arith)

lemma is_zero:
  assumes "gmp_ok G" "int_of y = Some b" shows "kint_is_zero G y \<longleftrightarrow> b = 0"
  using assms gmp_sgn_iff(1)[OF assms(1), of b]
  by (cases y) (auto split: if_splits simp: signed_eq_0_iff)

lemma sint_neg1: "sint (w::kword) = -1 \<longleftrightarrow> w = -1"
proof -
  have "sint (-1 :: kword) = -1" by simp
  then show ?thesis by (metis signed_word_eqI)
qed

lemma sdiv_fits64:
  assumes "fits64 a" "fits64 b" "\<not> (a = - (2 ^ 63) \<and> b = -1)"
  shows "fits64 (a sdiv b)"
proof -
  have le: "\<bar>a sdiv b\<bar> \<le> \<bar>a\<bar>"
  proof -
    have "\<bar>a sdiv b\<bar> \<le> \<bar>a\<bar> div \<bar>b\<bar>" by (auto simp: signed_divide_int_def abs_mult sgn_if pos_imp_zdiv_nonneg_iff)
    also have "\<dots> \<le> \<bar>a\<bar>" using zdiv_mono2[of "\<bar>a\<bar>" 1 "\<bar>b\<bar>"] by (cases "b = 0") auto
    finally show ?thesis .
  qed
  show ?thesis
  proof (cases "a = - (2 ^ 63)")
    case False
    then show ?thesis using le assms(1) by (auto simp: fits64_def)
  next
    case True
    with assms(3) have b: "b \<noteq> -1" by simp
    show ?thesis
    proof (cases "b = 1 \<or> b = 0")
      case False
      with b have "\<bar>b\<bar> \<ge> 2" by linarith
      then have "\<bar>a\<bar> div \<bar>b\<bar> \<le> \<bar>a\<bar> div 2" by (intro zdiv_mono2) auto
      moreover have "\<bar>a sdiv b\<bar> \<le> \<bar>a\<bar> div \<bar>b\<bar>"
        by (auto simp: signed_divide_int_def abs_mult sgn_if pos_imp_zdiv_nonneg_iff)
      moreover have "\<bar>a\<bar> div 2 < 2 ^ 63" using True by simp
      ultimately show ?thesis by (auto simp: fits64_def)
    qed (use True in \<open>auto simp: signed_divide_int_def fits64_def\<close>)
  qed
qed

lemma smod_fits64: "fits64 a \<Longrightarrow> fits64 b \<Longrightarrow> fits64 (a smod b)"
proof -
  assume a: "fits64 a" "fits64 b"
  have "\<bar>a smod b\<bar> \<le> \<bar>a\<bar> mod \<bar>b\<bar>"
    by (cases "b = 0") (auto simp: signed_modulo_int_def abs_mult sgn_if)
  moreover have "\<bar>a\<bar> mod \<bar>b\<bar> < 2 ^ 63" if "b \<noteq> 0"
  proof -
    have "\<bar>b\<bar> \<le> 2 ^ 63" using a(2) by (auto simp: fits64_def)
    moreover have "\<bar>a\<bar> mod \<bar>b\<bar> < \<bar>b\<bar>" using that by (intro pos_mod_bound) simp
    ultimately show ?thesis by linarith
  qed
  ultimately show ?thesis using a(1) by (cases "b = 0") (auto simp: fits64_def)
qed

lemma divInt:
  assumes "gmp_ok G" "int_of x = Some a" "int_of y = Some b"
  shows "kp_divInt G x y = (if b = 0 then Inl ''divInt: division by zero'' else Inr (int_rep (a sdiv b)))"
proof (cases "b = 0")
  case False
  have g: "kint_binop_mpz G x y (mpz_tdiv_q G) = Inr (int_rep (a sdiv b))"
    using binop_mpz[OF assms, of "mpz_tdiv_q G"] gmp_div(1)[OF assms(1) False] by simp
  show ?thesis
  proof (cases "kis_int_word x \<and> kis_int_word y \<and> \<not> (kint_word x = push_bit 63 1 \<and> kint_word y = -1)")
    case True
    then have ab: "a = sint (kint_word x)" "b = sint (kint_word y)"
      using assms int_of_word[of x] int_of_word[of y] by auto
    have "fits64 (a sdiv b)"
      by (rule sdiv_fits64) (use True in \<open>simp_all only: ab sint_fits64 sint_eq_min sint_neg1, blast\<close>)
    then show ?thesis using True False is_zero[OF assms(1,3)]
      by (simp only: kp_divInt_def if_True if_False) (simp add: kint_rep flip: ab)
  qed (use False g is_zero[OF assms(1,3)] in \<open>simp only: kp_divInt_def if_True if_False\<close>)
qed (use is_zero[OF assms(1,3)] in \<open>simp add: kp_divInt_def\<close>)

lemma modInt:
  assumes "gmp_ok G" "int_of x = Some a" "int_of y = Some b"
  shows "kp_modInt G x y = (if b = 0 then Inl ''modInt: division by zero'' else Inr (int_rep (a smod b)))"
proof (cases "b = 0")
  case False
  have g: "kint_binop_mpz G x y (mpz_tdiv_r G) = Inr (int_rep (a smod b))"
    using binop_mpz[OF assms, of "mpz_tdiv_r G"] gmp_div(2)[OF assms(1) False] by simp
  show ?thesis
  proof (cases "kis_int_word x \<and> kis_int_word y")
    case True
    then have ab: "a = sint (kint_word x)" "b = sint (kint_word y)"
      using assms int_of_word[of x] int_of_word[of y] by auto
    have f: "fits64 (a smod b)" by (rule smod_fits64) (simp_all add: ab)
    have z: "kint 0 = int_rep (a smod b)" if "kint_word y = -1"
      using that by (simp add: kint_rep ab signed_modulo_int_def)
    show ?thesis using True False is_zero[OF assms(1,3)] f z
      by (simp only: kp_modInt_def if_True if_False) (auto simp: kint_rep simp flip: ab)
  qed (use False g is_zero[OF assms(1,3)] in \<open>simp only: kp_modInt_def if_True if_False\<close>)
qed (use is_zero[OF assms(1,3)] in \<open>simp add: kp_modInt_def\<close>)

lemma negInt:
  assumes "gmp_ok G" "int_of x = Some a" shows "kp_negInt G x = Inr (int_rep (- a))"
proof (cases "kis_int_word x \<and> kint_word x \<noteq> push_bit 63 1")
  case True
  then have "sint (- kint_word x) = - a"
    using assms(2) int_of_word[of x] sint_uminus64[of "kint_word x"] by (simp only: sint_eq_min) simp
  then show ?thesis using True by (simp only: kp_negInt_def if_True kint_rep simp_thms)
next
  case False
  then show ?thesis using assms by (simp only: kp_negInt_def if_False) (simp add: gmp_arith)
qed

lemma bitInt:
  assumes "gmp_ok G" "int_of x = Some a" "int_of y = Some b"
  shows "kp_intAnd G x y = Inr (int_rep (a AND b))" "kp_intOr G x y = Inr (int_rep (a OR b))"
    "kp_intXor G x y = Inr (int_rep (a XOR b))"
proof -
  have s: "sint (v AND w) = sint v AND sint w" "sint (v OR w) = sint v OR sint w"
    "sint (v XOR w) = sint v XOR sint w" for v w :: kword
    by (rule signed_and_eq signed_or_eq signed_xor_eq)+
  note w = int_of_word[of x] int_of_word[of y]
  show "kp_intAnd G x y = Inr (int_rep (a AND b))" "kp_intOr G x y = Inr (int_rep (a OR b))"
    "kp_intXor G x y = Inr (int_rep (a XOR b))"
    using assms w by (auto simp: kp_intAnd_def kp_intOr_def kp_intXor_def kint_rep s gmp_arith)
qed

lemma cmpInt:
  assumes "gmp_ok G" "int_of x = Some a" "int_of y = Some b"
  shows "kp_eqInt G x y = Inr (kbool (a = b))" "kp_ltInt G x y = Inr (kbool (a < b))"
    "kp_leInt G x y = Inr (kbool (a \<le> b))"
    "kp_compareInt G x y = Inr (if a < b then kctor0 KCT_LT ''LT'' else if a = b then kctor0 KCT_EQ ''EQ''
       else kctor0 KCT_GT ''GT'')"
proof -
  obtain c where c: "kint_cmp G x y = Inr c" "c < 0 \<longleftrightarrow> a < b" "c = 0 \<longleftrightarrow> a = b"
    using int_cmp_spec[OF assms] .
  then have "c \<le> 0 \<longleftrightarrow> a \<le> b" "c > 0 \<longleftrightarrow> a > b" by linarith+
  with c show "kp_eqInt G x y = Inr (kbool (a = b))" "kp_ltInt G x y = Inr (kbool (a < b))"
    "kp_leInt G x y = Inr (kbool (a \<le> b))"
    "kp_compareInt G x y = Inr (if a < b then kctor0 KCT_LT ''LT'' else if a = b then kctor0 KCT_EQ ''EQ''
       else kctor0 KCT_GT ''GT'')"
    by (auto simp: kp_eqInt_def kp_ltInt_def kp_leInt_def kp_compareInt_def)
qed

section \<open>Rational\<close>

text \<open>A Rational value of the runtime is a reduced fraction with a positive denominator.\<close>

definition rat_is :: "kval \<Rightarrow> int \<Rightarrow> int \<Rightarrow> bool" where
  "rat_is v n d \<longleftrightarrow> v = kctor KCT_RAT ''__rat'' [int_rep n, int_rep d] \<and> d > 0 \<and> coprime n d"

lemma as_rat_is [simp]: "gmp_ok G \<Longrightarrow> rat_is v n d \<Longrightarrow> as_rat G v = Inr (n, d)"
  by (simp add: as_rat_def rat_is_def)

lemma gcd_reduce:
  fixes n d :: int assumes "d > 0"
  shows "d div gcd n d > 0" "coprime (n div gcd n d) (d div gcd n d)"
    "(n div gcd n d) * d = n * (d div gcd n d)"
proof -
  let ?g = "gcd n d"
  have g: "?g > 0" using assms by simp
  obtain n' d' where nd: "n = ?g * n'" "d = ?g * d'" by (metis dvdE gcd_dvd1 gcd_dvd2)
  have q: "n div ?g = n'" "d div ?g = d'" using nd g by (metis nonzero_mult_div_cancel_left less_irrefl)+
  show "d div ?g > 0" using nd(2) g assms q by (metis zero_less_mult_pos)
  show "coprime (n div ?g) (d div ?g)" using assms by (intro div_gcd_coprime) simp
  show "(n div ?g) * d = n * (d div ?g)" using nd q by (metis mult.assoc mult.commute)
qed

lemma krat_spec:
  assumes G: "gmp_ok G" and d: "den \<noteq> 0"
  obtains v n d where "krat G num den = Inr v" "rat_is v n d" "n * den = num * d"
proof -
  define nd where "nd = (if den < 0 then (- num, - den) else (num, den))"
  obtain n0 d0 where nd0: "nd = (n0, d0)" by (cases nd)
  then have p: "d0 > 0" and e: "n0 * den = num * d0" using d by (auto simp: nd_def split: if_splits)
  let ?g = "gcd n0 d0"
  have g: "?g \<noteq> 0" using p by simp
  have k: "krat G num den = Inr (kctor KCT_RAT ''__rat'' [int_rep (n0 div ?g), int_rep (d0 div ?g)])"
  proof -
    have "(if mpz_sgn G den < 0 then (mpz_neg G num, mpz_neg G den) else (num, den)) = (n0, d0)"
      using nd0 by (simp only: nd_def gmp_sgn_iff[OF G] gmp_arith[OF G])
    then show ?thesis using d g
      by (simp add: krat_def gmp_sgn_iff[OF G] gmp_arith[OF G] gmp_div[OF G] G Let_def)
  qed
  have "(n0 div ?g) * den * d0 = num * (d0 div ?g) * d0"
    using gcd_reduce(3)[OF p, of n0] e by (metis mult.assoc mult.commute)
  then have "(n0 div ?g) * den = num * (d0 div ?g)" using p by simp
  moreover have "rat_is (kctor KCT_RAT ''__rat'' [int_rep (n0 div ?g), int_rep (d0 div ?g)]) (n0 div ?g) (d0 div ?g)"
    using gcd_reduce(1,2)[OF p, of n0] by (simp add: rat_is_def)
  ultimately show thesis using k that by blast
qed

lemma rat_is_inject: "rat_is v n d \<Longrightarrow> rat_is v n' d' \<Longrightarrow> n = n' \<and> d = d'"
  unfolding rat_is_def using kc.mk_inject(2)[of KCT_RAT KCT_RAT] by fastforce

section \<open>Rounding to 53 bits\<close>

lemma rne_bits:
  assumes G: "gmp_ok G" and z: "0 < z" and b: "53 < mpz_sizeinbase2 G z"
  defines "s \<equiv> mpz_sizeinbase2 G z - 53"
  shows "2 ^ 52 \<le> z div 2 ^ s" "z div 2 ^ s < 2 ^ 53"
proof -
  obtain k where k: "mpz_sizeinbase2 G z = s + 53" "s > 0" using b by (simp add: s_def)
  have lo: "2 ^ (s + 52) \<le> z" and hi: "z < 2 ^ (s + 53)"
    using gmp_bits[OF G, of z] z k by (auto simp: add.commute)
  have "2 ^ (s + 52) div 2 ^ s \<le> z div 2 ^ s" using lo by (rule zdiv_mono1) simp
  then show "2 ^ 52 \<le> z div 2 ^ s" by (simp add: power_add)
  have "(z div 2 ^ s) * 2 ^ s \<le> z" using pos_mod_sign[of "2 ^ s" z] by (simp add: minus_mod_eq_div_mult[symmetric])
  also have "\<dots> < 2 ^ 53 * 2 ^ s" using hi by (simp add: power_add mult.commute)
  finally show "z div 2 ^ s < 2 ^ 53" by (simp only: mult_less_cancel_right) auto
qed

text \<open>The nearest multiple of \<open>P\<close>, ties to the even one.\<close>

lemma nearest_multiple:
  fixes z P :: int
  assumes P: "0 < P"
  defines "q \<equiv> z div P" and "r \<equiv> z mod P"
  defines "v \<equiv> (if 2 * r < P then q else if 2 * r > P then q + 1 else if even q then q else q + 1)"
  shows "\<bar>v * P - z\<bar> \<le> \<bar>k * P - z\<bar>"
    and "k \<noteq> v \<Longrightarrow> \<bar>v * P - z\<bar> = \<bar>k * P - z\<bar> \<Longrightarrow> even v"
proof -
  have z: "z = q * P + r" and r: "0 \<le> r" "r < P" using P by (simp_all add: q_def r_def)
  define j where "j = k - q"
  have dk: "k * P - z = j * P - r" by (simp add: j_def z algebra_simps)
  have dv: "v * P - z = (if v = q then - r else P - r)"
    by (auto simp: v_def z algebra_simps)
  consider "j = 0" | "j = 1" | "j \<ge> 2" | "j \<le> -1" by linarith
  then have "\<bar>v * P - z\<bar> \<le> \<bar>k * P - z\<bar> \<and> (k \<noteq> v \<longrightarrow> \<bar>v * P - z\<bar> = \<bar>k * P - z\<bar> \<longrightarrow> even v)"
  proof cases
    case 1 then show ?thesis using r dk dv by (auto simp: v_def j_def split: if_splits)
  next
    case 2 then show ?thesis using r dk dv by (auto simp: v_def j_def split: if_splits)
  next
    case 3
    then have "j * P \<ge> 2 * P" using P by (intro mult_right_mono) auto
    then have "\<bar>k * P - z\<bar> \<ge> 2 * P - r" using r dk by linarith
    then have "\<bar>k * P - z\<bar> > \<bar>v * P - z\<bar>" using r dv by (auto simp: v_def split: if_splits)
    then show ?thesis by auto
  next
    case 4
    then have "j * P \<le> -1 * P" using P by (intro mult_right_mono) auto
    then have "\<bar>k * P - z\<bar> \<ge> P + r" using r dk by auto
    then show ?thesis using r dv P by (auto simp: v_def split: if_splits)
  qed
  then show "\<bar>v * P - z\<bar> \<le> \<bar>k * P - z\<bar>" "k \<noteq> v \<Longrightarrow> \<bar>v * P - z\<bar> = \<bar>k * P - z\<bar> \<Longrightarrow> even v" by auto
qed

lemma rne_value:
  assumes G: "gmp_ok G" and z: "0 < z" and b: "53 < mpz_sizeinbase2 G z"
  defines "s \<equiv> mpz_sizeinbase2 G z - 53"
  defines "q \<equiv> z div 2 ^ s" and "r \<equiv> z mod 2 ^ s"
  defines "v \<equiv> (if 2 * r < 2 ^ s then q else if 2 * r > 2 ^ s then q + 1 else if even q then q else q + 1)"
  obtains m e where "mpz_to_double_rne G z = (m, e)" "uint m * 2 ^ e = v * 2 ^ s"
    "2 ^ 52 \<le> uint m" "uint m < 2 ^ 53"
proof -
  have q: "2 ^ 52 \<le> q" "q < 2 ^ 53" unfolding q_def s_def using rne_bits[OF G z b] by auto
  define mant where "mant = (word_of_int q :: kword)"
  have um: "uint mant = q" using q by (simp add: mant_def uint_word_of_int)
  have s0: "s > 0" using b by (simp add: s_def)
  then have half: "2 * 2 ^ (s - 1) = (2::int) ^ s" by (metis power_Suc Suc_diff_1)
  have hb: "mpz_setbit G 0 (s - 1) = 2 ^ (s - 1)" by (simp add: gmp_arith[OF G] set_bit_0 set_bit_eq)
  have mz: "z \<noteq> 0" using z by simp
  have ev: "mant AND 1 = (if even q then 0 else 1)"
  proof -
    have "odd mant \<longleftrightarrow> odd q" using bit_uint_iff[of mant 0] um by (simp add: bit_0)
    then show ?thesis by (simp add: and_one_eq mod2_eq_if)
  qed
  define up where "up = (if v = q then 0 else 1 :: kword)"
  have ups: "(if mpz_cmp G r (2 ^ (s - 1)) < 0 then 0 else if mpz_cmp G r (2 ^ (s - 1)) > 0 then 1 else mant AND 1) = up"
    using half by (auto simp: gmp_cmp_iff[OF G] up_def v_def ev)
  have uv: "uint (mant + up) = v"
    using um q by (auto simp: up_def v_def uint_word_ariths)
  have vb: "2 ^ 52 \<le> v" "v \<le> 2 ^ 53" using q by (auto simp: v_def)
  have top: "mant + up = push_bit 53 1 \<longleftrightarrow> v = 2 ^ 53"
    by (simp add: word_uint_eq_iff uv)
  have eq: "mpz_to_double_rne G z =
      (if mant + up = push_bit 53 1 then (drop_bit 1 (mant + up), s + 1) else (mant + up, s))"
  proof -
    have gu: "mpz_get_ui G q = mant" using q by (simp add: gmp_arith(15)[OF G] mant_def)
    have nb: "(mpz_sizeinbase2 G z \<le> 53) = False" and nz: "(z = 0) = False" using b mz by simp_all
    show ?thesis
      by (simp only: mpz_to_double_rne_def gmp_sgn_iff[OF G] Let_def s_def[symmetric] if_False
          gmp_arith(12,13)[OF G] q_def[symmetric] r_def[symmetric] hb gu nb nz ups)
  qed
  show thesis
  proof (cases "v = 2 ^ 53")
    case True
    have "mant + up = push_bit 53 1" using top True by blast
    then have "mpz_to_double_rne G z = (2 ^ 52, s + 1)" using eq by simp
    then show thesis using True by (intro that) auto
  next
    case False
    then have "mpz_to_double_rne G z = (mant + up, s)" using top eq by presburger
    then show thesis using False vb uv by (intro that) auto
  qed
qed

section \<open>Properties\<close>

lemma int_of_imm: "int_of (KImm (kmk_imm_int 5)) = Some 5" "int_of (KImm (kmk_imm_int (-7))) = Some (-7)"
  by (simp_all add: kint_fits_imm_def imm_consts)

text \<open>C24: integer arithmetic is exact and canonical. On any representations of two Integers
  (immediate, 64-bit box, GMP number) each primitive returns the one representation of the
  mathematical result, whether or not the machine-word fast path overflows.\<close>

theorem int_arith_exact:
  assumes "gmp_ok G" "int_of x = Some a" "int_of y = Some b"
  shows "kp_addInt G x y = Inr (int_rep (a + b)) \<and> kp_subInt G x y = Inr (int_rep (a - b)) \<and>
    kp_mulInt G x y = Inr (int_rep (a * b)) \<and> kp_negInt G x = Inr (int_rep (- a)) \<and>
    kp_intAnd G x y = Inr (int_rep (a AND b)) \<and> kp_intOr G x y = Inr (int_rep (a OR b)) \<and>
    kp_intXor G x y = Inr (int_rep (a XOR b))"
  using addInt[OF assms] subInt[OF assms] mulInt[OF assms] negInt[OF assms(1,2)] bitInt[OF assms] by blast

lemma int_arith_exact_witness:
  "kp_addInt gmp_ref (KBig (2 ^ 63)) (KImm (kmk_imm_int (-7))) = Inr (KBig (2 ^ 63 - 7)) \<and>
   kp_mulInt gmp_ref (KBig (2 ^ 63)) (KImm (kmk_imm_int (-7))) = Inr (KBig (- 7 * 2 ^ 63))"
  using int_arith_exact[OF gmp_ok_ref _ int_of_imm(2), of "KBig (2 ^ 63)" "2 ^ 63"]
  by (simp add: int_rep_def imm_consts)

text \<open>C25: division truncates toward zero and the remainder has the sign of the dividend, in every
  representation, the one overflowing quotient (least 64-bit value by -1) included; a zero divisor is
  the documented runtime failure and nothing else fails.\<close>

theorem int_div_mod:
  assumes "gmp_ok G" "int_of x = Some a" "int_of y = Some b"
  shows "if b = 0 then kp_divInt G x y = Inl ''divInt: division by zero'' \<and>
      kp_modInt G x y = Inl ''modInt: division by zero''
    else kp_divInt G x y = Inr (int_rep (a sdiv b)) \<and> kp_modInt G x y = Inr (int_rep (a smod b)) \<and>
      a = (a sdiv b) * b + a smod b \<and> \<bar>a smod b\<bar> < \<bar>b\<bar> \<and> (a smod b = 0 \<or> sgn (a smod b) = sgn a)"
proof -
  have m: "b \<noteq> 0 \<Longrightarrow> \<bar>a smod b\<bar> < \<bar>b\<bar>"
    by (auto simp: signed_modulo_int_def abs_mult sgn_if)
  have "0 \<le> \<bar>a\<bar> mod \<bar>b\<bar>" by (cases "b = 0") simp_all
  then have s: "a smod b = 0 \<or> sgn (a smod b) = sgn a"
    by (auto simp: signed_modulo_int_def sgn_if)
  show ?thesis using divInt[OF assms] modInt[OF assms] m s by (auto simp: sdiv_mult_smod_eq)
qed

lemma int_div_mod_witness:
  "kp_divInt gmp_ref (KInt (push_bit 63 1)) (KImm (kmk_imm_int (-7))) = Inr (KBig (2 ^ 63 div 7)) \<and>
   kp_modInt gmp_ref (KInt (push_bit 63 1)) (KImm (kmk_imm_int (-7))) = Inr (KImm (kmk_imm_int (-1)))"
proof -
  have "int_of (KInt (push_bit 63 1)) = Some (- (2 ^ 63))" by simp
  from int_div_mod[OF gmp_ok_ref this int_of_imm(2)]
  show ?thesis by (simp add: int_rep_def imm_consts)
qed

text \<open>C26: comparison and literal matching see the number, not the representation: an immediate, a
  boxed 64-bit integer and a GMP number compare exactly as the integers they denote.\<close>

theorem int_compare_total:
  assumes "gmp_ok G" "int_of x = Some a" "int_of y = Some b"
  shows "kp_eqInt G x y = Inr (kbool (a = b)) \<and> kp_ltInt G x y = Inr (kbool (a < b)) \<and>
    kp_leInt G x y = Inr (kbool (a \<le> b)) \<and>
    kp_compareInt G x y = Inr (if a < b then kctor0 KCT_LT ''LT'' else if a = b then kctor0 KCT_EQ ''EQ''
       else kctor0 KCT_GT ''GT'') \<and> klit_eq G x y = Inr (a = b)"
proof -
  obtain c where "kint_cmp G x y = Inr c" "c = 0 \<longleftrightarrow> a = b" using int_cmp_spec[OF assms] .
  then have "klit_eq G x y = Inr (a = b)" using assms(2,3) by (simp add: klit_eq_def int_of_kis_int_any)
  with cmpInt[OF assms] show ?thesis by blast
qed

lemma int_compare_total_witness:
  "klit_eq gmp_ref (KBig 5) (KImm (kmk_imm_int 5)) = Inr True \<and>
   kp_ltInt gmp_ref (KBig 5) (KImm (kmk_imm_int 5)) = Inr (kbool False)"
  using int_compare_total[OF gmp_ok_ref _ int_of_imm(1), of "KBig 5" 5] by simp

text \<open>C27: Rational results are reduced fractions with a positive denominator, and addition and
  subtraction are exact; a zero denominator is the documented runtime failure.\<close>

theorem rat_addsub_exact:
  assumes "gmp_ok G" "rat_is x a b" "rat_is y c d"
  shows "(\<exists>v n e. rat_addsub G x y sub = Inr v \<and> rat_is v n e \<and>
      n * (b * d) = (if sub then a * d - c * b else a * d + c * b) * e) \<and>
    krat G num 0 = Inl ''Rational: zero denominator''"
proof -
  have "b * d \<noteq> 0" using assms(2,3) by (auto simp: rat_is_def)
  then obtain v n e where "krat G (if sub then a * d - c * b else a * d + c * b) (b * d) = Inr v"
      "rat_is v n e" "n * (b * d) = (if sub then a * d - c * b else a * d + c * b) * e"
    using krat_spec[OF assms(1)] by metis
  moreover have "krat G num 0 = Inl ''Rational: zero denominator''"
    by (simp add: krat_def gmp_sgn_iff[OF assms(1)])
  moreover have "rat_addsub G x y sub = krat G (if sub then a * d - c * b else a * d + c * b) (b * d)"
    using assms by (simp add: rat_addsub_def gmp_arith Let_def)
  ultimately show ?thesis by metis
qed

lemma rat_addsub_exact_witness:
  "\<exists>v n e. rat_addsub gmp_ref (kctor KCT_RAT ''__rat'' [int_rep 1, int_rep 2])
     (kctor KCT_RAT ''__rat'' [int_rep 1, int_rep 3]) False = Inr v \<and> rat_is v n e \<and> n * 6 = 5 * e"
proof -
  have "coprime (1::int) 2" "coprime (1::int) 3" by simp_all
  then have r: "rat_is (kctor KCT_RAT ''__rat'' [int_rep 1, int_rep 2]) 1 2"
       "rat_is (kctor KCT_RAT ''__rat'' [int_rep 1, int_rep 3]) 1 3"
    by (simp_all add: rat_is_def)
  from rat_addsub_exact[OF gmp_ok_ref r, of False 0] show ?thesis by simp
qed



text \<open>The unsigned reading of an Integer. A GMP number of at most 64 bits is read as its
  magnitude, a negative one too; a larger one makes \<open>mpz_export\<close> write more than the one word it is
  given. An immediate or boxed machine integer is read as its two's-complement word.\<close>

theorem kas_u64_reads:
  assumes "gmp_ok G"
  shows "(kas_u64_fits G (KBig z) \<longleftrightarrow> \<bar>z\<bar> < 2 ^ 64) \<and>
    (\<bar>z\<bar> < 2 ^ 64 \<longrightarrow> kas_u64 G (KBig z) = Inr (word_of_int \<bar>z\<bar>)) \<and>
    (kis_int_word v \<longrightarrow> kas_u64 G v = Inr (kint_word v))"
proof (intro conjI impI)
  show "kas_u64_fits G (KBig z) \<longleftrightarrow> \<bar>z\<bar> < 2 ^ 64"
  proof
    assume "kas_u64_fits G (KBig z)"
    then have l: "length (mpz_export G z) \<le> 1" by (simp add: kas_u64_fits_def)
    have "uint w < 2 ^ 64" for w :: kword using unsigned_less[of w, where 'a = int] by simp
    with l have "words_val (mpz_export G z) < 2 ^ 64"
      by (cases "mpz_export G z") (simp_all add: words_val_Cons)
    then show "\<bar>z\<bar> < 2 ^ 64" by (simp only: gmp_export(1)[OF assms])
  qed (use export_word(2)[OF assms] in \<open>simp add: kas_u64_fits_def\<close>)
  show "kas_u64 G (KBig z) = Inr (word_of_int \<bar>z\<bar>)" if "\<bar>z\<bar> < 2 ^ 64"
    using export_word(1)[OF assms that] by (simp add: kas_u64_def) (metis word_of_int_uint)
  show "kis_int_word v \<Longrightarrow> kas_u64 G v = Inr (kint_word v)" by (simp add: kas_u64_def)
qed

lemma kas_u64_reads_witness:
  "\<not> kas_u64_fits gmp_ref (KBig (2 ^ 64)) \<and> kas_u64 gmp_ref (KBig (- (2 ^ 63))) = Inr (2 ^ 63) \<and>
   kas_u64 gmp_ref (KInt 3) = Inr 3"
  using kas_u64_reads[OF gmp_ok_ref, of "2 ^ 64" "KInt 3"] kas_u64_reads[OF gmp_ok_ref, of "- (2 ^ 63)" "KInt 3"]
  by simp

end
