(* ===== verification/Kappa_List.thy ===== *)
theory Kappa_List
  imports Kappa_Ctor
begin

text \<open>
  Cons lists as the runtime walks them: \<open>kitems\<close> is the loop
  \<open>for (v = l; kis_cons(v); v = kctor_arg(v, 1))\<close> of the list primitives in
  \<open>runtime/prims.c\<close>, \<open>klist\<close> the list the runtime builds with \<open>kcons\<close> and \<open>knil\<close>. A tail of a
  packed cell is a shorter word, a tail of a box a smaller value: the walk ends.
\<close>

definition klist :: "kval list \<Rightarrow> kval" where
  "klist xs = foldr kcons xs knil"

text \<open>A weight that every field of a constructor decreases.\<close>

fun kweight :: "kval \<Rightarrow> nat" where
  "kweight (KImm w) = nat \<bar>sint w\<bar>"
| "kweight v = 2 ^ 64 + size v"

lemma kweight_imm_less: "kweight (KImm w) < 2 ^ 64"
proof -
  have "- (2 ^ 63) \<le> sint w" "sint w < 2 ^ 63" using sint_greater_eq[of w] sint_lt[of w] by simp_all
  then show ?thesis by simp
qed

lemma sshift_decreases:
  fixes w :: kword
  assumes "sint w \<noteq> 0" "sint w \<noteq> -1" "0 < k"
  shows "\<bar>sint (signed_drop_bit k w)\<bar> < \<bar>sint w\<bar>"
proof -
  have s: "sint (signed_drop_bit k w) = sint w div 2 ^ k"
    by (simp add: sint_signed_drop_bit_eq drop_bit_eq_div)
  obtain j where k: "k = Suc j" using assms(3) by (cases k) auto
  have p: "(2::int) ^ k \<ge> 2" by (simp add: k)
  show ?thesis
  proof (cases "sint w > 0")
    case True
    then have "sint w div 2 ^ k < sint w" using p by (intro int_div_less_self) auto
    moreover have "0 \<le> sint w div 2 ^ k" using True by (simp add: pos_imp_zdiv_nonneg_iff)
    ultimately show ?thesis using True s by simp
  next
    case False
    with assms have n: "sint w \<le> -2" by linarith
    have "sint w div 2 ^ k < 0" using n by (simp add: pos_imp_zdiv_neg_iff)
    moreover have "sint w div 2 ^ k > sint w"
    proof -
      have "sint w div 2 ^ k \<ge> sint w div 2"
      proof -
        have "sint w div 2 ^ k = sint w div 2 div 2 ^ j" by (simp add: k zdiv_zmult2_eq)
        moreover have "x div 2 ^ j \<ge> x" if "x < 0" for x :: int
          using zdiv_mono2_neg[of x 1 "2 ^ j"] that by simp
        moreover have "sint w div 2 < 0" using n by simp
        ultimately show ?thesis by simp
      qed
      moreover have "sint w div 2 > sint w" using n by linarith
      ultimately show ?thesis by linarith
    qed
    ultimately show ?thesis using s False by simp
  qed
qed

lemma packed_not_0_neg1: "kis_imm_packed w \<Longrightarrow> sint w \<noteq> 0 \<and> sint w \<noteq> -1"
proof -
  assume p: "kis_imm_packed w"
  have "w \<noteq> 0" using p by (auto simp: kis_imm_packed_def imm_consts)
  moreover have "w \<noteq> -1"
  proof
    assume "w = -1"
    then have "bit (w AND KIMM_TAG_MASK) 2" by (simp add: bit_and_iff bit_KIMM_TAG_MASK bit_minus_1_iff)
    moreover have "w AND KIMM_TAG_MASK = KIMM_PACKED" using p by (simp add: kis_imm_packed_def)
    ultimately show False by (simp add: bit_KIMM_PACKED)
  qed
  ultimately show ?thesis by (metis signed_0 signed_minus_1 signed_word_eqI)
qed

lemma kweight_le: "kweight t \<le> 2 ^ 64 + size t"
  using kweight_imm_less by (cases t) (auto intro: less_imp_le simp del: kweight.simps(1))

lemma kctor_arg_weight1:
  assumes "kctor_arg v 1 = Inr t" shows "kweight t < kweight v"
proof (cases v)
  case (KImm w)
  then have p: "kis_imm_packed w" and t: "t = KImm (signed_drop_bit 44 w)"
    using assms by (auto simp: kimm_packed2_field_def split: if_splits)
  have "\<bar>sint (signed_drop_bit 44 w)\<bar> < \<bar>sint w\<bar>"
    using packed_not_0_neg1[OF p] by (intro sshift_decreases) auto
  then show ?thesis using KImm t by simp
next
  case (KCtor a b args)
  then have "t = args ! 1" "1 < length args" using assms by (auto split: if_splits)
  then have m: "t \<in> set args" by simp
  have "size t \<le> size_list size args" by (rule size_list_estimation'[OF m]) simp
  then show ?thesis using KCtor kweight_le[of t] by simp
qed (use assms in auto)

function kitems :: "kval \<Rightarrow> kval list kres" where
  "kitems v =
     (if kis_cons v then
        (case kctor_arg v 0 of Inl m \<Rightarrow> Inl m
         | Inr h \<Rightarrow> (case kctor_arg v 1 of Inl m \<Rightarrow> Inl m
             | Inr t \<Rightarrow> kbind (kitems t) (\<lambda>xs. Inr (h # xs))))
      else Inr [])"
  by pat_completeness auto
termination by (relation "measure kweight") (auto simp: kctor_arg_weight1)

declare kitems.simps [simp del]

lemma kitems_cons [simp]: "kitems (kcons h t) = kbind (kitems t) (\<lambda>xs. Inr (h # xs))"
  by (subst kitems.simps) (simp add: kis_cons_def kcons_def)

lemma kitems_nil [simp]: "kitems knil = Inr []"
  by (subst kitems.simps) simp

lemma klist_simps [simp]: "klist [] = knil" "klist (x # xs) = kcons x (klist xs)"
  by (simp_all add: klist_def)

lemma kitems_klist [simp]: "kitems (klist xs) = Inr xs"
  by (induction xs) simp_all

lemma klist_inject [simp]: "klist xs = klist ys \<longleftrightarrow> xs = ys"
  by (metis kitems_klist sum.inject(2))

end
