(* ===== verification/Kappa_Bytes.thy ===== *)
theory Kappa_Bytes
  imports Kappa_Int Kappa_List
begin

text \<open>
  The byte-sequence primitives of \<open>runtime/prims.c\<close>: each entry point takes the boxed arguments
  \<open>a[0]\<close>, \<open>a[1]\<close>, ... in the order of the C argument array. Reading the bytes of a value
  that is not a \<open>K_BYTES\<close> box (the C code reads the union without a test) is undefined.
\<close>

section \<open>Reading boxes\<close>

fun as_bytes :: "kval \<Rightarrow> byte list kres" where
  "as_bytes (KBytes bs) = Inr bs"
| "as_bytes _ = kundef"

fun as_byte :: "kval \<Rightarrow> byte kres" where
  "as_byte (KByte b) = Inr b"
| "as_byte _ = kundef"

text \<open>A length as the \<open>int64_t\<close> that \<open>kint\<close> boxes.\<close>

definition klen :: "'a list \<Rightarrow> kval" where
  "klen xs = kint (word_of_nat (length xs))"

definition kbyte_at :: "byte list \<Rightarrow> int \<Rightarrow> kval" where
  "kbyte_at bs i = KByte (bs ! nat i)"

section \<open>Searching and comparing\<close>

text \<open>\<open>bytes_index_of\<close>: the first offset at which the needle starts, \<open>-1\<close> when there is none; the
  loop runs while \<open>i + nl <= hl\<close>.\<close>

fun bytes_scan :: "byte list \<Rightarrow> byte list \<Rightarrow> int \<Rightarrow> int" where
  "bytes_scan ned [] i = -1"
| "bytes_scan ned (h # hay) i =
     (if length ned \<le> Suc (length hay) then
        (if take (length ned) (h # hay) = ned then i else bytes_scan ned hay (i + 1))
      else -1)"

definition bytes_index_of :: "byte list \<Rightarrow> byte list \<Rightarrow> int" where
  "bytes_index_of hay ned =
     (if ned = [] then 0 else if length ned > length hay then -1 else bytes_scan ned hay 0)"

text \<open>The sign \<open>memcmp\<close> returns for two blocks of the same length.\<close>

fun memcmp :: "byte list \<Rightarrow> byte list \<Rightarrow> int" where
  "memcmp (x # xs) (y # ys) = (if x = y then memcmp xs ys else if x < y then -1 else 1)"
| "memcmp _ _ = 0"

definition bytes_cmp :: "byte list \<Rightarrow> byte list \<Rightarrow> int" where
  "bytes_cmp a b =
     (let la = length a; lb = length b; m = min la lb; c = memcmp (take m a) (take m b) in
      if c \<noteq> 0 then (if c < 0 then -1 else 1)
      else if la < lb then -1 else if la > lb then 1 else 0)"

definition kpf_eqBytes :: "kval \<Rightarrow> kval \<Rightarrow> kval kres" where
  "kpf_eqBytes a b = kbind (as_bytes a) (\<lambda>x. kbind (as_bytes b) (\<lambda>y. Inr (kbool (bytes_cmp x y = 0))))"

definition kpf_ltBytes :: "kval \<Rightarrow> kval \<Rightarrow> kval kres" where
  "kpf_ltBytes a b = kbind (as_bytes a) (\<lambda>x. kbind (as_bytes b) (\<lambda>y. Inr (kbool (bytes_cmp x y < 0))))"

section \<open>Construction and length\<close>

definition kpf___bytesEmpty :: kval where "kpf___bytesEmpty = KBytes []"

definition kpf___bytesSingleton :: "kval \<Rightarrow> kval kres" where
  "kpf___bytesSingleton a = kbind (as_byte a) (\<lambda>w. Inr (KBytes [w]))"

definition kpf___bytesLength :: "kval \<Rightarrow> kval kres" where
  "kpf___bytesLength a = kbind (as_bytes a) (\<lambda>bs. Inr (klen bs))"

definition kpf___bytesIsEmpty :: "kval \<Rightarrow> kval kres" where
  "kpf___bytesIsEmpty a = kbind (as_bytes a) (\<lambda>bs. Inr (kbool (length bs = 0)))"

definition kpf___bytesGet :: "gmp \<Rightarrow> kval \<Rightarrow> kval \<Rightarrow> kval kres" where
  "kpf___bytesGet G a ix =
     kbind (kas_int G ix) (\<lambda>i. kbind (as_bytes a) (\<lambda>bs.
       Inr (if sint i \<ge> 0 \<and> sint i < int (length bs) then ksome (kbyte_at bs (sint i)) else knone)))"

definition kpf___bytesIndexUnsafe :: "gmp \<Rightarrow> kval \<Rightarrow> kval \<Rightarrow> kval kres" where
  "kpf___bytesIndexUnsafe G a ix =
     kbind (kas_int G ix) (\<lambda>i. kbind (as_bytes a) (\<lambda>bs.
       if sint i < 0 \<or> sint i \<ge> int (length bs) then Inl ''__bytesIndexUnsafe: out of range''
       else Inr (kbyte_at bs (sint i))))"

definition kpf___bytesAppend :: "kval \<Rightarrow> kval \<Rightarrow> kval kres" where
  "kpf___bytesAppend a b = kbind (as_bytes a) (\<lambda>x. kbind (as_bytes b) (\<lambda>y. Inr (KBytes (x @ y))))"

section \<open>Slicing\<close>

text \<open>The sum \<open>st + ln\<close> is signed: when it does not fit, C leaves the slice undefined.\<close>

definition kpf___bytesSlice :: "gmp \<Rightarrow> kval \<Rightarrow> kval \<Rightarrow> kval \<Rightarrow> kval kres" where
  "kpf___bytesSlice G a s l =
     kbind (kas_int G s) (\<lambda>st0. kbind (kas_int G l) (\<lambda>ln0. kbind (as_bytes a) (\<lambda>bs.
       let len = int (length bs);
           st1 = (if sint st0 < 0 then 0 else sint st0);
           st = (if st1 > len then len else st1);
           ln1 = (if sint ln0 < 0 then 0 else sint ln0)
       in if \<not> fits64 (st + ln1) then kundef
          else let ln = (if st + ln1 > len then len - st else ln1)
               in Inr (KBytes (take (nat ln) (drop (nat st) bs))))))"

definition clamp_len :: "kword \<Rightarrow> nat \<Rightarrow> nat" where
  "clamp_len n len = (let n1 = (if sint n < 0 then 0 else sint n) in
     nat (if n1 > int len then int len else n1))"

definition kpf___bytesTake :: "gmp \<Rightarrow> kval \<Rightarrow> kval \<Rightarrow> kval kres" where
  "kpf___bytesTake G k a =
     kbind (kas_int G k) (\<lambda>n. kbind (as_bytes a) (\<lambda>bs. Inr (KBytes (take (clamp_len n (length bs)) bs))))"

definition kpf___bytesDrop :: "gmp \<Rightarrow> kval \<Rightarrow> kval \<Rightarrow> kval kres" where
  "kpf___bytesDrop G k a =
     kbind (kas_int G k) (\<lambda>n. kbind (as_bytes a) (\<lambda>bs. Inr (KBytes (drop (clamp_len n (length bs)) bs))))"

section \<open>Tests and search\<close>

definition kpf___bytesStartsWith :: "kval \<Rightarrow> kval \<Rightarrow> kval kres" where
  "kpf___bytesStartsWith p h =
     kbind (as_bytes p) (\<lambda>ps. kbind (as_bytes h) (\<lambda>hs.
       Inr (kbool (length ps \<le> length hs \<and> memcmp (take (length ps) hs) ps = 0))))"

definition kpf___bytesEndsWith :: "kval \<Rightarrow> kval \<Rightarrow> kval kres" where
  "kpf___bytesEndsWith s h =
     kbind (as_bytes s) (\<lambda>ss. kbind (as_bytes h) (\<lambda>hs.
       Inr (kbool (length ss \<le> length hs \<and> memcmp (drop (length hs - length ss) hs) ss = 0))))"

definition kpf___bytesContains :: "kval \<Rightarrow> kval \<Rightarrow> kval kres" where
  "kpf___bytesContains n h =
     kbind (as_bytes n) (\<lambda>ns. kbind (as_bytes h) (\<lambda>hs. Inr (kbool (bytes_index_of hs ns \<ge> 0))))"

fun bytes_find :: "byte \<Rightarrow> byte list \<Rightarrow> nat \<Rightarrow> kval" where
  "bytes_find w [] i = knone"
| "bytes_find w (b # bs) i = (if b = w then ksome (kint (word_of_nat i)) else bytes_find w bs (Suc i))"

definition kpf___bytesFind :: "kval \<Rightarrow> kval \<Rightarrow> kval kres" where
  "kpf___bytesFind w h = kbind (as_byte w) (\<lambda>b. kbind (as_bytes h) (\<lambda>hs. Inr (bytes_find b hs 0)))"

definition kpf___bytesBreakIndex :: "kval \<Rightarrow> kval \<Rightarrow> kval kres" where
  "kpf___bytesBreakIndex n h =
     kbind (as_bytes n) (\<lambda>ns. kbind (as_bytes h) (\<lambda>hs.
       let ix = bytes_index_of hs ns in Inr (if ix < 0 then knone else ksome (kint (word_of_int ix)))))"

section \<open>Lists of bytes\<close>

definition kpf___bytesToList :: "kval \<Rightarrow> kval kres" where
  "kpf___bytesToList a = kbind (as_bytes a) (\<lambda>bs. Inr (foldr (\<lambda>b acc. kcons (KByte b) acc) bs knil))"

fun fill_bytes :: "kval list \<Rightarrow> byte list kres" where
  "fill_bytes [] = Inr []"
| "fill_bytes (v # vs) = kbind (as_byte v) (\<lambda>b. kbind (fill_bytes vs) (\<lambda>bs. Inr (b # bs)))"

definition kpf___bytesFromList :: "kval \<Rightarrow> kval kres" where
  "kpf___bytesFromList a = kbind (kitems a) (\<lambda>vs. kbind (fill_bytes vs) (\<lambda>bs. Inr (KBytes bs)))"

definition kpf___bytesBuilderByte :: "kval \<Rightarrow> kval \<Rightarrow> kval kres" where
  "kpf___bytesBuilderByte w b = kbind (as_bytes b) (\<lambda>bs. kbind (as_byte w) (\<lambda>x. Inr (KBytes (bs @ [x]))))"

definition kpf___bytesBuilderBytes :: "kval \<Rightarrow> kval \<Rightarrow> kval kres" where
  "kpf___bytesBuilderBytes x b = kbind (as_bytes b) (\<lambda>bs. kbind (as_bytes x) (\<lambda>xs. Inr (KBytes (bs @ xs))))"

section \<open>Lemmas\<close>

lemma memcmp_0: "length xs = length ys \<Longrightarrow> memcmp xs ys = 0 \<longleftrightarrow> xs = ys"
  by (induction xs ys rule: memcmp.induct) auto

text \<open>Byte order of sequences: a proper prefix is smaller, otherwise the first difference decides.\<close>

fun bytes_less :: "byte list \<Rightarrow> byte list \<Rightarrow> bool" where
  "bytes_less [] ys = (ys \<noteq> [])"
| "bytes_less (x # xs) [] = False"
| "bytes_less (x # xs) (y # ys) = (x < y \<or> x = y \<and> bytes_less xs ys)"

lemma bytes_cmp_Cons:
  "bytes_cmp (x # xs) (y # ys) = (if x = y then bytes_cmp xs ys else if x < y then -1 else 1)"
  by (auto simp: bytes_cmp_def Let_def min_def)

lemma bytes_cmp_Nil [simp]:
  "bytes_cmp [] [] = 0" "bytes_cmp [] (y # ys) = -1" "bytes_cmp (x # xs) [] = 1"
  by (simp_all add: bytes_cmp_def)

lemma bytes_cmp_spec: "bytes_cmp xs ys = (if xs = ys then 0 else if bytes_less xs ys then -1 else 1)"
proof (induction xs ys rule: bytes_less.induct)
  case (1 ys) then show ?case by (cases ys) auto
qed (auto simp: bytes_cmp_Cons)

lemma bytes_less_Nil [simp]: "\<not> bytes_less ys []"
  by (cases ys) simp_all

lemma bytes_less_total: "xs \<noteq> ys \<Longrightarrow> bytes_less xs ys \<longleftrightarrow> \<not> bytes_less ys xs"
  by (induction xs ys rule: bytes_less.induct) auto

lemma bytes_less_trans: "bytes_less xs ys \<Longrightarrow> bytes_less ys zs \<Longrightarrow> bytes_less xs zs"
proof (induction xs ys arbitrary: zs rule: bytes_less.induct)
  case (1 ys) then show ?case by (cases zs; cases ys) auto
next
  case (3 x xs y ys) then show ?case by (cases zs) (auto intro: less_trans)
qed simp

lemma bytes_scan_spec:
  assumes "ned \<noteq> []"
  shows "(bytes_scan ned hay i = -1 \<and> \<not> (\<exists>p s. hay = p @ ned @ s)) \<or>
    (\<exists>p s. hay = p @ ned @ s \<and> bytes_scan ned hay i = i + int (length p) \<and>
       (\<forall>q t. hay = q @ ned @ t \<longrightarrow> length p \<le> length q))"
proof (induction hay arbitrary: i)
  case Nil then show ?case using assms by simp
next
  case (Cons h hay)
  show ?case
  proof (cases "length ned \<le> Suc (length hay)")
    case False
    then have "\<not> (\<exists>p s. h # hay = p @ ned @ s)"
    proof -
      have "length (p @ ned @ s) \<noteq> length (h # hay)" for p s using False by simp
      then show ?thesis by metis
    qed
    then show ?thesis using False by simp
  next
    case l: True
    show ?thesis
    proof (cases "take (length ned) (h # hay) = ned")
      case True
      then have e: "h # hay = [] @ ned @ drop (length ned) (h # hay)"
        using append_take_drop_id[of "length ned" "h # hay"] by simp
      show ?thesis
        by (intro disjI2 exI[of _ "[]"] exI[of _ "drop (length ned) (h # hay)"])
          (use True l e in auto)
    next
      case False
      have step: "\<exists>q'. q = h # q' \<and> hay = q' @ ned @ t" if e: "h # hay = q @ ned @ t" for q t
      proof (cases q)
        case Nil
        then have "take (length ned) (h # hay) = ned" using e by simp
        then show ?thesis using False by simp
      qed (use e in auto)
      have b: "bytes_scan ned (h # hay) i = bytes_scan ned hay (i + 1)" using l False by simp
      from Cons.IH[of "i + 1"] show ?thesis
      proof
        assume "bytes_scan ned hay (i + 1) = -1 \<and> \<not> (\<exists>p s. hay = p @ ned @ s)"
        then show ?thesis using step b by metis
      next
        assume "\<exists>p s. hay = p @ ned @ s \<and> bytes_scan ned hay (i + 1) = i + 1 + int (length p) \<and>
           (\<forall>q t. hay = q @ ned @ t \<longrightarrow> length p \<le> length q)"
        then obtain p s where p: "hay = p @ ned @ s" "bytes_scan ned hay (i + 1) = i + 1 + int (length p)"
          "\<forall>q t. hay = q @ ned @ t \<longrightarrow> length p \<le> length q" by blast
        have "length (h # p) \<le> length q" if "h # hay = q @ ned @ t" for q t
          using step[OF that] p(3) by auto
        then show ?thesis using p b
          by (intro disjI2 exI[of _ "h # p"] exI[of _ s]) auto
      qed
    qed
  qed
qed

lemma memcmp_take: "length ps \<le> length hs \<Longrightarrow> memcmp (take (length ps) hs) ps = 0 \<longleftrightarrow> (\<exists>s. hs = ps @ s)"
proof -
  assume "length ps \<le> length hs"
  then have "memcmp (take (length ps) hs) ps = 0 \<longleftrightarrow> take (length ps) hs = ps" by (intro memcmp_0) simp
  also have "\<dots> \<longleftrightarrow> (\<exists>s. hs = ps @ s)" by (metis append_take_drop_id append_eq_conv_conj)
  finally show ?thesis .
qed

lemma memcmp_drop:
  "length ss \<le> length hs \<Longrightarrow> memcmp (drop (length hs - length ss) hs) ss = 0 \<longleftrightarrow> (\<exists>p. hs = p @ ss)"
proof -
  assume l: "length ss \<le> length hs"
  then have "memcmp (drop (length hs - length ss) hs) ss = 0 \<longleftrightarrow> drop (length hs - length ss) hs = ss"
    by (intro memcmp_0) simp
  also have "\<dots> \<longleftrightarrow> (\<exists>p. hs = p @ ss)"
  proof
    assume "drop (length hs - length ss) hs = ss"
    then show "\<exists>p. hs = p @ ss" by (metis append_take_drop_id)
  qed auto
  finally show ?thesis .
qed

lemma index_of_spec:
  "(bytes_index_of hay ned = -1 \<and> \<not> (\<exists>p s. hay = p @ ned @ s)) \<or>
    (\<exists>p s. hay = p @ ned @ s \<and> bytes_index_of hay ned = int (length p) \<and>
       (\<forall>q t. hay = q @ ned @ t \<longrightarrow> length p \<le> length q))"
proof (cases "ned = []")
  case True
  then show ?thesis by (auto simp: bytes_index_of_def intro!: exI[of _ "[]"])
next
  case False
  show ?thesis
  proof (cases "length ned > length hay")
    case True
    have "\<not> (\<exists>p s. hay = p @ ned @ s)"
    proof -
      have "length (p @ ned @ s) \<noteq> length hay" for p s using True by simp
      then show ?thesis by metis
    qed
    then show ?thesis using True False by (simp add: bytes_index_of_def)
  next
    case l: False
    then show ?thesis using bytes_scan_spec[OF False, of hay 0] False by (simp add: bytes_index_of_def)
  qed
qed

lemma fill_bytes_map [simp]: "fill_bytes (map KByte bs) = Inr bs"
  by (induction bs) simp_all

lemma bytesToList_klist: "kpf___bytesToList (KBytes bs) = Inr (klist (map KByte bs))"
  by (simp add: kpf___bytesToList_def klist_def foldr_map o_def)

lemma clamp_len_eq: "clamp_len n len = min (nat (sint n)) len"
  by (auto simp: clamp_len_def Let_def min_def)

section \<open>Properties\<close>

text \<open>the order on byte sequences is a strict total order, decided by the first differing byte
  and then by the length; \<open>eqBytes\<close> and \<open>ltBytes\<close> compute it.\<close>

theorem bytes_order:
  "kpf_eqBytes (KBytes xs) (KBytes ys) = Inr (kbool (xs = ys)) \<and>
   kpf_ltBytes (KBytes xs) (KBytes ys) = Inr (kbool (bytes_less xs ys)) \<and>
   \<not> bytes_less xs xs \<and> (xs = ys \<or> bytes_less xs ys \<or> bytes_less ys xs) \<and>
   (bytes_less xs ys \<and> bytes_less ys zs \<longrightarrow> bytes_less xs zs)"
proof -
  have i: "\<not> bytes_less xs xs" by (induction xs) auto
  then have "bytes_cmp xs ys = 0 \<longleftrightarrow> xs = ys" "bytes_cmp xs ys < 0 \<longleftrightarrow> bytes_less xs ys"
    by (auto simp: bytes_cmp_spec)
  then show ?thesis using i bytes_less_total[of xs ys] bytes_less_trans
    by (auto simp: kpf_eqBytes_def kpf_ltBytes_def)
qed

lemma bytes_order_witness:
  "kpf_ltBytes (KBytes [1, 2]) (KBytes [1, 2, 0]) = Inr (kbool True) \<and> bytes_less [1] [2, 0]"
  using bytes_order[of "[1, 2]" "[1, 2, 0]" "[3]"] bytes_order[of "[1]" "[2]" "[2, 0]"] by simp

text \<open>Searching. The offset of a needle is that of its first occurrence and \<open>None\<close> means there
  is none; prefix and suffix tests hold exactly for the prefixes and suffixes; a list of bytes
  converted to a sequence and back is unchanged.\<close>

theorem bytes_search:
  "kpf___bytesContains (KBytes ned) (KBytes hay) = Inr (kbool (\<exists>p s. hay = p @ ned @ s)) \<and>
   kpf___bytesStartsWith (KBytes ned) (KBytes hay) = Inr (kbool (\<exists>s. hay = ned @ s)) \<and>
   kpf___bytesEndsWith (KBytes ned) (KBytes hay) = Inr (kbool (\<exists>p. hay = p @ ned)) \<and>
   (kpf___bytesBreakIndex (KBytes ned) (KBytes hay) = Inr knone \<and> \<not> (\<exists>p s. hay = p @ ned @ s) \<or>
    (\<exists>p s. hay = p @ ned @ s \<and> kpf___bytesBreakIndex (KBytes ned) (KBytes hay) = Inr (ksome (klen p)) \<and>
       (\<forall>q t. hay = q @ ned @ t \<longrightarrow> length p \<le> length q))) \<and>
   kbind (kpf___bytesToList (KBytes hay)) kpf___bytesFromList = Inr (KBytes hay)"
proof -
  have c: "kpf___bytesContains (KBytes ned) (KBytes hay) = Inr (kbool (\<exists>p s. hay = p @ ned @ s))"
    using index_of_spec[of hay ned] by (auto simp: kpf___bytesContains_def)
  have s: "kpf___bytesStartsWith (KBytes ned) (KBytes hay) = Inr (kbool (\<exists>s. hay = ned @ s))"
    using memcmp_take[of ned hay] by (cases "length ned \<le> length hay") (auto simp: kpf___bytesStartsWith_def)
  have e: "kpf___bytesEndsWith (KBytes ned) (KBytes hay) = Inr (kbool (\<exists>p. hay = p @ ned))"
    using memcmp_drop[of ned hay] by (cases "length ned \<le> length hay") (auto simp: kpf___bytesEndsWith_def)
  have b: "kpf___bytesBreakIndex (KBytes ned) (KBytes hay) = Inr knone \<and> \<not> (\<exists>p s. hay = p @ ned @ s) \<or>
    (\<exists>p s. hay = p @ ned @ s \<and> kpf___bytesBreakIndex (KBytes ned) (KBytes hay) = Inr (ksome (klen p)) \<and>
       (\<forall>q t. hay = q @ ned @ t \<longrightarrow> length p \<le> length q))"
    using index_of_spec[of hay ned]
  proof
    assume "\<exists>p s. hay = p @ ned @ s \<and> bytes_index_of hay ned = int (length p) \<and>
       (\<forall>q t. hay = q @ ned @ t \<longrightarrow> length p \<le> length q)"
    then obtain p s where p: "hay = p @ ned @ s" "bytes_index_of hay ned = int (length p)"
       "\<forall>q t. hay = q @ ned @ t \<longrightarrow> length p \<le> length q" by blast
    then have "kpf___bytesBreakIndex (KBytes ned) (KBytes hay) = Inr (ksome (klen p))"
      by (simp add: kpf___bytesBreakIndex_def klen_def)
    with p show ?thesis by blast
  qed (simp add: kpf___bytesBreakIndex_def)
  have "kbind (kpf___bytesToList (KBytes hay)) kpf___bytesFromList = Inr (KBytes hay)"
    by (simp add: bytesToList_klist kpf___bytesFromList_def)
  with c s e b show ?thesis by blast
qed

lemma bytes_search_witness:
  "kpf___bytesContains (KBytes [2]) (KBytes [1, 2]) = Inr (kbool True)"
proof -
  have "\<exists>p s. [1, 2 :: byte] = p @ [2] @ s" by (intro exI[of _ "[1]"] exI[of _ "[]"]) simp
  then have "(\<exists>p s. [1, 2 :: byte] = p @ [2] @ s) = True" by blast
  with conjunct1[OF bytes_search[of "[2]" "[1, 2]"]] show ?thesis by (simp only:)
qed



end
