(* ===== verification/Kappa_Prims.thy ===== *)
theory Kappa_Prims
  imports Kappa_Bytes
begin

text \<open>
  Pure primitives of \<open>runtime/prims.c\<close>: runtime universe levels, representation equality, the
  FNV-1a hash lane, the Rational entry points, Nat/Int conversion, ranges and list indexing.
\<close>

section \<open>TypeLevel\<close>

definition ktypelevel :: "kval \<Rightarrow> kval \<Rightarrow> kval" where
  "ktypelevel c n = kctor KCT_TYPELEVEL_LEVEL ''std.typelevel.Level'' [c, n]"

definition ktypelevel_parts :: "gmp \<Rightarrow> kval \<Rightarrow> (kval \<times> kval) kres" where
  "ktypelevel_parts G level =
     (if kctor_tagid level \<noteq> KCT_TYPELEVEL_LEVEL \<or> kctor_argc level \<noteq> Inr 2
      then Inl ''TypeLevel: invalid private runtime representation''
      else kbind (kctor_arg level 0) (\<lambda>c. kbind (kctor_arg level 1) (\<lambda>n.
        if \<not> kis_int_any c \<or> \<not> kis_int_any n
        then Inl ''TypeLevel: private components must be nonnegative integers''
        else kbind (kint_cmp G c (kint 0)) (\<lambda>oc. kbind (kint_cmp G n (kint 0)) (\<lambda>on.
          if oc < 0 \<or> on < 0 then Inl ''TypeLevel: private components must be nonnegative integers''
          else Inr (c, n))))))"

definition ktypelevel_cmp :: "gmp \<Rightarrow> kval \<Rightarrow> kval \<Rightarrow> int kres" where
  "ktypelevel_cmp G left right =
     kbind (ktypelevel_parts G left) (\<lambda>(lc, ln). kbind (ktypelevel_parts G right) (\<lambda>(rc, rn).
       kbind (kint_cmp G lc rc) (\<lambda>co. if co = 0 then kint_cmp G ln rn else Inr co)))"

definition kpf___typeLevelZero :: kval where
  "kpf___typeLevelZero = ktypelevel (kint 0) (kint 0)"

definition kpf___typeLevelOmega :: kval where
  "kpf___typeLevelOmega = ktypelevel (kint 1) (kint 0)"

definition kpf___typeLevelFromNat :: "gmp \<Rightarrow> kval \<Rightarrow> kval kres" where
  "kpf___typeLevelFromNat G a =
     kbind (kint_cmp G a (kint 0)) (\<lambda>c.
       if c < 0 then Inl ''TypeLevel: negative finite level'' else Inr (ktypelevel (kint 0) a))"

definition kpf___typeLevelSucc :: "gmp \<Rightarrow> kval \<Rightarrow> kval kres" where
  "kpf___typeLevelSucc G a =
     kbind (ktypelevel_parts G a) (\<lambda>(c, n). kbind (kp_addInt G n (kint 1)) (\<lambda>n'. Inr (ktypelevel c n')))"

definition kpf___typeLevelAdd :: "gmp \<Rightarrow> kval \<Rightarrow> kval \<Rightarrow> kval kres" where
  "kpf___typeLevelAdd G a b =
     kbind (ktypelevel_parts G a) (\<lambda>(lc, ln). kbind (ktypelevel_parts G b) (\<lambda>(rc, rn).
       kbind (kp_addInt G lc rc) (\<lambda>c. kbind (kp_addInt G ln rn) (\<lambda>n. Inr (ktypelevel c n)))))"

definition kpf___typeLevelMax :: "gmp \<Rightarrow> kval \<Rightarrow> kval \<Rightarrow> kval kres" where
  "kpf___typeLevelMax G a b =
     kbind (ktypelevel_cmp G a b) (\<lambda>ord.
       kbind (ktypelevel_parts G (if ord \<ge> 0 then a else b)) (\<lambda>(c, n). Inr (ktypelevel c n)))"

definition kpf___eqTypeLevel :: "gmp \<Rightarrow> kval \<Rightarrow> kval \<Rightarrow> kval kres" where
  "kpf___eqTypeLevel G a b = kbind (ktypelevel_cmp G a b) (\<lambda>ord. Inr (kbool (ord = 0)))"

definition kpf___compareTypeLevel :: "gmp \<Rightarrow> kval \<Rightarrow> kval \<Rightarrow> kval kres" where
  "kpf___compareTypeLevel G a b =
     kbind (ktypelevel_cmp G a b) (\<lambda>order.
       Inr (if order < 0 then kctor0 KCT_LT ''LT''
            else if order > 0 then kctor0 KCT_GT ''GT'' else kctor0 KCT_EQ ''EQ''))"

section \<open>Representation equality\<close>

text \<open>The fields a constructor value shows through \<open>kctor_argc\<close> and \<open>kctor_arg\<close>.\<close>

fun kctor_fields :: "kval \<Rightarrow> kval list" where
  "kctor_fields (KImm w) =
     (if kis_imm_packed w then
        (if kimm_packed_is2 w then [KImm (kimm_packed2_field w 0), KImm (kimm_packed2_field w 1)]
         else [KImm (kimm_packed_field w)])
      else [])"
| "kctor_fields (KCtor _ _ args) = args"
| "kctor_fields _ = []"

fun kv_packed :: "kval \<Rightarrow> bool" where
  "kv_packed (KImm w) = kis_imm_packed w"
| "kv_packed _ = False"

definition wmax :: "kval list \<Rightarrow> nat" where
  "wmax xs = foldr (\<lambda>v m. max (kweight v) m) xs 0"

lemma wmax_Cons: "wmax (x # xs) = max (kweight x) (wmax xs)"
  by (simp add: wmax_def)

lemma wmax_less: "(\<And>x. x \<in> set xs \<Longrightarrow> kweight x < k) \<Longrightarrow> 0 < k \<Longrightarrow> wmax xs < k"
  by (induction xs) (simp_all add: wmax_def)

text \<open>\<open>same a b\<close> tells whether two boxes are the same address; two immediates are the same word
  exactly when they are equal.\<close>

definition ptr_eq :: "(kval \<Rightarrow> kval \<Rightarrow> bool) \<Rightarrow> kval \<Rightarrow> kval \<Rightarrow> bool" where
  "ptr_eq same a b = (case (a, b) of (KImm v, KImm w) \<Rightarrow> v = w | (KImm _, _) \<Rightarrow> False
     | (_, KImm _) \<Rightarrow> False | _ \<Rightarrow> same a b)"

lemma field_weight:
  assumes "x \<in> set (kctor_fields v)" shows "kweight x < kweight v"
proof (cases v)
  case (KImm w)
  then have p: "kis_imm_packed w" using assms by (auto split: if_splits)
  note n = packed_not_0_neg1[OF p]
  have f0: "\<bar>sint (kimm_packed2_field w 0)\<bar> < \<bar>sint w\<bar>"
  proof -
    define f where "f = signed_drop_bit 24 w"
    have eq: "kimm_packed2_field w 0 = signed_drop_bit 44 (push_bit 20 w)"
      by (simp add: kimm_packed2_field_def)
    have b: "bit (kimm_packed2_field w 0) k \<longleftrightarrow> bit f (if k < 20 then k else 19)" if "k < 64" for k
      using that by (auto simp: eq f_def imm_bits)
    have s: "sint (kimm_packed2_field w 0) = signed_take_bit 19 (sint f)"
    proof (rule bit_eqI)
      fix n :: nat
      have "bit (sint (kimm_packed2_field w 0)) n = bit (kimm_packed2_field w 0) (min n 63)"
        using bit_imp_le_length[of "kimm_packed2_field w 0" n]
        by (cases "n < 64") (auto simp: bit_sint_iff min_def)
      also have "\<dots> = bit f (min n 19)" using b[of "min n 63"] by (auto simp: min_def)
      also have "\<dots> = bit (signed_take_bit 19 (sint f)) n"
        by (simp add: bit_signed_take_bit_iff bit_sint_iff min_def)
      finally show "bit (sint (kimm_packed2_field w 0)) n = bit (signed_take_bit 19 (sint f)) n" .
    qed
    have small: "\<bar>sint (kimm_packed2_field w 0)\<bar> \<le> 2 ^ 19"
      using signed_take_bit_int_less_exp[of 19 "sint f"] signed_take_bit_int_greater_eq_minus_exp[of 19 "sint f"]
      unfolding s by linarith
    have fd: "sint f = sint w div 2 ^ 24" by (simp add: f_def sint_signed_drop_bit_eq drop_bit_eq_div)
    show ?thesis
    proof (cases "\<bar>sint w\<bar> < 2 ^ 24")
      case False
      moreover have "(2::int) ^ 19 < 2 ^ 24" by simp
      ultimately show ?thesis using small by linarith
    next
      case True
      have "sint w div 2 ^ 24 = (if sint w > 0 then 0 else -1)"
      proof (cases "sint w > 0")
        case p: True
        then have "sint w div 2 ^ 24 = 0" using True by (intro div_pos_pos_trivial) auto
        then show ?thesis using p by simp
      next
        case False
        then have "sint w div 2 ^ 24 = -1"
          using True n by (intro int_div_pos_eq[of _ _ _ "sint w + 2 ^ 24"]) auto
        then show ?thesis using False by simp
      qed
      then consider "sint w > 0" "sint f = 0" | "sint w < -1" "sint f = -1"
        using n fd by (cases "sint w > 0") auto
      then show ?thesis unfolding s by cases simp_all
    qed
  qed
  have "\<bar>sint (signed_drop_bit 44 w)\<bar> < \<bar>sint w\<bar>" "\<bar>sint (signed_drop_bit 24 w)\<bar> < \<bar>sint w\<bar>"
    using n by (auto intro: sshift_decreases)
  then show ?thesis using assms KImm f0 p
    by (auto simp: kimm_packed_field_def split: if_splits simp: kimm_packed2_field_def)
next
  case (KCtor a b args)
  then have "size x \<le> size_list size args" using assms by (intro size_list_estimation'[of x]) auto
  then show ?thesis using KCtor kweight_le[of x] by simp
qed (use assms in auto)

lemma wmax_fields: "x \<in> set xs \<Longrightarrow> kweight x \<le> wmax xs"
  by (induction xs) (auto simp: wmax_Cons)

lemma wmax_kctor_fields: "v \<noteq> KImm 0 \<Longrightarrow> wmax (kctor_fields v) < kweight v"
proof (rule wmax_less)
  assume "v \<noteq> KImm 0"
  then show "0 < kweight v" by (cases v) (auto simp: signed_eq_0_iff)
qed (rule field_weight)

lemma wmax_fields_tag: "\<not> kctor_tagid v < 0 \<Longrightarrow> wmax (kctor_fields v) < kweight v"
proof -
  assume t: "\<not> kctor_tagid v < 0"
  have "kctor_tagid (KImm 0) = -1" by (simp add: kis_imm_ctor_def kis_imm_packed_def imm_consts)
  with t have "v \<noteq> KImm 0" by auto
  then show ?thesis by (rule wmax_kctor_fields)
qed

lemma wmax_sub:
  assumes "\<And>x. x \<in> set xs \<Longrightarrow> size x \<le> n" shows "wmax xs < 2 ^ 64 + 1 + n"
proof (rule wmax_less)
  fix x assume "x \<in> set xs"
  then have "size x \<le> n" by (rule assms)
  then show "kweight x < 2 ^ 64 + 1 + n" using kweight_le[of x] by simp
qed simp

lemma wmax_sizes [simp]:
  "wmax xs < 18446744073709551617 + size_list size xs"
  "wmax (map snd fs) < 18446744073709551617 + size_list (size_prod (\<lambda>x. 0) size) fs"
  "kweight v < 18446744073709551617 + size v"
proof -
  have "size x \<le> size_list size xs" if "x \<in> set xs" for x
    using that by (rule size_list_estimation') simp
  from wmax_sub[OF this] show "wmax xs < 18446744073709551617 + size_list size xs" by simp
  have "size x \<le> size_list (size_prod (\<lambda>x. 0) size) fs" if m: "x \<in> set (map snd fs)" for x
  proof -
    obtain n where "(n, x) \<in> set fs" using m by auto
    then show ?thesis by (rule size_list_estimation') simp
  qed
  from wmax_sub[of "map snd fs", OF this] show "wmax (map snd fs) < 18446744073709551617 + size_list (size_prod (\<lambda>x. 0) size) fs"
    by simp
  show "kweight v < 18446744073709551617 + size v" using kweight_le[of v] by simp
qed

text \<open>The tags of the switch whose members hold no values.\<close>

fun leaf_eq :: "kval \<Rightarrow> kval \<Rightarrow> bool" where
  "leaf_eq (KDbl x) b = (case b of KDbl y \<Rightarrow> dbl_eq x y | _ \<Rightarrow> False)"
| "leaf_eq (KChr x) b = (b = KChr x)"
| "leaf_eq KUnitBox b = (b = KUnitBox)"
| "leaf_eq (KByte x) b = (b = KByte x)"
| "leaf_eq (KStr x) b = (b = KStr x)"
| "leaf_eq (KBytes x) b = (b = KBytes x)"
| "leaf_eq _ b = False"

function (sequential) kvalue_rep_eq ::
    "gmp \<Rightarrow> (kval \<Rightarrow> kval \<Rightarrow> bool) \<Rightarrow> kval \<Rightarrow> kval \<Rightarrow> bool kres"
  and rep_eq_all :: "gmp \<Rightarrow> (kval \<Rightarrow> kval \<Rightarrow> bool) \<Rightarrow> kval list \<Rightarrow> kval list \<Rightarrow> bool kres"
  and rep_eq_recs :: "gmp \<Rightarrow> (kval \<Rightarrow> kval \<Rightarrow> bool) \<Rightarrow> (string \<times> kval) list \<Rightarrow> (string \<times> kval) list \<Rightarrow> bool kres"
where
  "kvalue_rep_eq G same a b =
     (if ptr_eq same a b then Inr True
      else if kis_int_any a \<and> kis_int_any b then kbind (kint_cmp G a b) (\<lambda>c. Inr (c = 0))
      else if kv_packed a \<or> kv_packed b then
        (if kctor_tagid a < 0 \<or> kctor_tagid a \<noteq> kctor_tagid b then Inr False
         else case kctor_argc a of Inl m \<Rightarrow> Inl m
           | Inr na \<Rightarrow> (case kctor_argc b of Inl m \<Rightarrow> Inl m
               | Inr nb \<Rightarrow> if na \<noteq> nb then Inr False
                   else rep_eq_all G same (kctor_fields a) (kctor_fields b)))
      else if kv_imm a \<or> kv_imm b then Inr False
      else (case a of
          KCtor _ n xs \<Rightarrow> (case b of
              KCtor _ m ys \<Rightarrow> if n \<noteq> m \<or> length xs \<noteq> length ys then Inr False else rep_eq_all G same xs ys
            | _ \<Rightarrow> Inr False)
        | KRec fs \<Rightarrow> (case b of
              KRec gs \<Rightarrow> if length fs \<noteq> length gs then Inr False else rep_eq_recs G same fs gs
            | _ \<Rightarrow> Inr False)
        | KVariant _ s p \<Rightarrow> (case b of
              KVariant _ t q \<Rightarrow> if s \<noteq> t then Inr False else kvalue_rep_eq G same p q
            | _ \<Rightarrow> Inr False)
        | _ \<Rightarrow> Inr (leaf_eq a b)))"
| "rep_eq_all G same [] ys = Inr True"
| "rep_eq_all G same (x # xs) [] = Inr True"
| "rep_eq_all G same (x # xs) (y # ys) =
     (case kvalue_rep_eq G same x y of Inl m \<Rightarrow> Inl m
      | Inr r \<Rightarrow> if r then rep_eq_all G same xs ys else Inr False)"
| "rep_eq_recs G same [] gs = Inr True"
| "rep_eq_recs G same (f # fs) [] = Inr True"
| "rep_eq_recs G same ((n, x) # fs) ((m, y) # gs) =
     (if n \<noteq> m then Inr False
      else case kvalue_rep_eq G same x y of Inl e \<Rightarrow> Inl e
      | Inr r \<Rightarrow> if r then rep_eq_recs G same fs gs else Inr False)"
  by pat_completeness auto
termination
  apply (relation "measures
    [case_sum (\<lambda>(G, same, a, b). kweight a)
       (case_sum (\<lambda>(G, same, xs, ys). wmax xs) (\<lambda>(G, same, fs, gs). wmax (map snd fs))),
     case_sum (\<lambda>(G, same, a, b). 0)
       (case_sum (\<lambda>(G, same, xs, ys). Suc (length xs)) (\<lambda>(G, same, fs, gs). Suc (length fs)))]")
                apply (auto simp: wmax_Cons less_Suc_eq_le wmax_fields_tag)
  done

declare kvalue_rep_eq.simps [simp del]

section \<open>Hashing\<close>

text \<open>\<open>ku64\<close> of \<open>runtime/unicode.c\<close> boxes an unsigned word as a non-negative Integer.\<close>

definition ku64 :: "gmp \<Rightarrow> kword \<Rightarrow> kval" where
  "ku64 G u = (if uint u \<le> 2 ^ 63 - 1 then kint u else kbig_from_mpz (mpz_import G [u]))"

definition fnv_prime :: kword where "fnv_prime = 1099511628211"

definition fnv_byte :: "kword \<Rightarrow> kword \<Rightarrow> kword" where
  "fnv_byte s b = (s XOR b) * fnv_prime"

definition fnv_mix_u64 :: "kword \<Rightarrow> kword \<Rightarrow> kword" where
  "fnv_mix_u64 s v = foldl (\<lambda>s i. fnv_byte s (drop_bit (8 * i) v AND 0xff)) s [0..<8]"

definition fnv_mix_bytes :: "kword \<Rightarrow> byte list \<Rightarrow> kword" where
  "fnv_mix_bytes s bs = foldl (\<lambda>s b. fnv_byte s (ucast b)) s bs"

definition kint_low64 :: "gmp \<Rightarrow> kval \<Rightarrow> kword kres" where
  "kint_low64 G v =
     (if kis_int_word v then Inr (kint_word v)
      else case v of
        KBig z \<Rightarrow> Inr (case mpz_export G (mpz_fdiv_r_2exp G z 64) of [] \<Rightarrow> 0 | w # _ \<Rightarrow> w)
      | KImm _ \<Rightarrow> kundef
      | _ \<Rightarrow> Inl ''hash mix on a non-integer value'')"

definition kpf___hashMixInt :: "gmp \<Rightarrow> kval \<Rightarrow> kval \<Rightarrow> kval kres" where
  "kpf___hashMixInt G a b =
     kbind (kint_low64 G a) (\<lambda>s. kbind (kint_low64 G b) (\<lambda>v. Inr (ku64 G (fnv_mix_u64 s v))))"

definition kpf___hashMixDouble :: "gmp \<Rightarrow> kval \<Rightarrow> kval \<Rightarrow> kval kres" where
  "kpf___hashMixDouble G a b =
     (case b of KDbl d \<Rightarrow> kbind (kint_low64 G a) (\<lambda>s. Inr (ku64 G (fnv_mix_u64 s d))) | _ \<Rightarrow> kundef)"

definition kpf___hashMixString :: "gmp \<Rightarrow> kval \<Rightarrow> kval \<Rightarrow> kval kres" where
  "kpf___hashMixString G a b =
     (case b of KStr bs \<Rightarrow> kbind (kint_low64 G a) (\<lambda>s. Inr (ku64 G (fnv_mix_bytes s bs))) | _ \<Rightarrow> kundef)"

definition kpf___hashMixBytes :: "gmp \<Rightarrow> kval \<Rightarrow> kval \<Rightarrow> kval kres" where
  "kpf___hashMixBytes G a b =
     (case b of KBytes bs \<Rightarrow> kbind (kint_low64 G a) (\<lambda>s. Inr (ku64 G (fnv_mix_bytes s bs))) | _ \<Rightarrow> kundef)"

section \<open>Rational entry points\<close>

definition kpf___ratOfInt :: "gmp \<Rightarrow> kval \<Rightarrow> kval kres" where
  "kpf___ratOfInt G a = kbind (kload_mpz G a) (\<lambda>n. krat G n 1)"

definition kpf___ratNum :: "gmp \<Rightarrow> kval \<Rightarrow> kval kres" where
  "kpf___ratNum G a = kbind (as_rat G a) (\<lambda>(n, d). kfrom_mpz G n)"

definition kpf___ratDen :: "gmp \<Rightarrow> kval \<Rightarrow> kval kres" where
  "kpf___ratDen G a = kbind (as_rat G a) (\<lambda>(n, d). kfrom_mpz G d)"

definition kpf_addRat :: "gmp \<Rightarrow> kval \<Rightarrow> kval \<Rightarrow> kval kres" where
  "kpf_addRat G a b = rat_addsub G a b False"

definition kpf_subRat :: "gmp \<Rightarrow> kval \<Rightarrow> kval \<Rightarrow> kval kres" where
  "kpf_subRat G a b = rat_addsub G a b True"

definition kpf_mulRat :: "gmp \<Rightarrow> kval \<Rightarrow> kval \<Rightarrow> kval kres" where
  "kpf_mulRat G x y =
     kbind (as_rat G x) (\<lambda>(a1, b1). kbind (as_rat G y) (\<lambda>(c1, d1).
       krat G (mpz_mul G a1 c1) (mpz_mul G b1 d1)))"

definition kpf_divRat :: "gmp \<Rightarrow> kval \<Rightarrow> kval \<Rightarrow> kval kres" where
  "kpf_divRat G x y =
     kbind (as_rat G x) (\<lambda>(a1, b1). kbind (as_rat G y) (\<lambda>(c1, d1).
       if mpz_sgn G c1 = 0 then Inl ''divRat: division by zero''
       else krat G (mpz_mul G a1 d1) (mpz_mul G b1 c1)))"

definition kpf_negRat :: "gmp \<Rightarrow> kval \<Rightarrow> kval kres" where
  "kpf_negRat G x = kbind (as_rat G x) (\<lambda>(n, d). krat G (mpz_neg G n) d)"

definition kpf_eqRat :: "gmp \<Rightarrow> kval \<Rightarrow> kval \<Rightarrow> kval kres" where
  "kpf_eqRat G x y =
     kbind (as_rat G x) (\<lambda>(a1, b1). kbind (as_rat G y) (\<lambda>(c1, d1).
       Inr (kbool (mpz_cmp G (mpz_mul G a1 d1) (mpz_mul G c1 b1) = 0))))"

definition kpf_ltRat :: "gmp \<Rightarrow> kval \<Rightarrow> kval \<Rightarrow> kval kres" where
  "kpf_ltRat G x y =
     kbind (as_rat G x) (\<lambda>(a1, b1). kbind (as_rat G y) (\<lambda>(c1, d1).
       Inr (kbool (mpz_cmp G (mpz_mul G a1 d1) (mpz_mul G c1 b1) < 0))))"

section \<open>Conversions, ranges and indexing\<close>

definition kpf_intToNat :: "gmp \<Rightarrow> kval \<Rightarrow> kval kres" where
  "kpf_intToNat G a =
     (if kis_int_word a then
        (if sint (kint_word a) < 0 then Inl ''intToNat: negative Int has no Nat image'' else Inr a)
      else case a of
        KBig z \<Rightarrow> if mpz_sgn G z < 0 then Inl ''intToNat: negative Int has no Nat image'' else Inr a
      | _ \<Rightarrow> kundef)"

definition kpf___byteToNat :: "kval \<Rightarrow> kval kres" where
  "kpf___byteToNat a = kbind (as_byte a) (\<lambda>b. Inr (kint (ucast b)))"

definition kpf___natToByte :: "gmp \<Rightarrow> kval \<Rightarrow> kval kres" where
  "kpf___natToByte G a = kbind (kint_low64 G a) (\<lambda>w. Inr (KByte (ucast (w AND 0xff))))"

definition scalar_range :: "int \<Rightarrow> bool" where
  "scalar_range n \<longleftrightarrow> n \<ge> 0 \<and> n \<le> 0x10FFFF \<and> \<not> (n \<ge> 0xD800 \<and> n \<le> 0xDFFF)"

definition kpf___scalarInRange :: "gmp \<Rightarrow> kval \<Rightarrow> kval kres" where
  "kpf___scalarInRange G a = kbind (kas_int G a) (\<lambda>n. Inr (kbool (scalar_range (sint n))))"

definition kpf___scalarOfValue :: "gmp \<Rightarrow> kval \<Rightarrow> kval kres" where
  "kpf___scalarOfValue G a =
     kbind (kas_int G a) (\<lambda>n.
       if scalar_range (sint n) then Inr (KChr (ucast n))
       else Inl ''__scalarOfValue: value is not a Unicode scalar'')"

text \<open>The loop of \<open>__arrayIndexUnsafe\<close>: walk the cells while the index is positive.\<close>

function index_walk :: "kval \<Rightarrow> int \<Rightarrow> kval kres" where
  "index_walk v i =
     (if kis_cons v then
        (if i \<le> 0 then kctor_arg v 0
         else case kctor_arg v 1 of Inl m \<Rightarrow> Inl m | Inr t \<Rightarrow> index_walk t (i - 1))
      else Inl ''__arrayIndexUnsafe: index out of range'')"
  by pat_completeness auto
termination by (relation "measure (\<lambda>(v, i). kweight v)") (auto simp: kctor_arg_weight1)

declare index_walk.simps [simp del]

definition kpf___arrayIndexUnsafe :: "gmp \<Rightarrow> kval \<Rightarrow> kval \<Rightarrow> kval kres" where
  "kpf___arrayIndexUnsafe G a b = kbind (kas_int G b) (\<lambda>i. index_walk a (sint i))"

text \<open>The descending loop \<open>for (n = top; n >= lo; n--)\<close> of \<open>__rangeEnum\<close>, prepending each kept
  element. When \<open>lo\<close> is the least \<open>int64_t\<close>, the last decrement overflows.\<close>

function range_down :: "(int \<Rightarrow> kval option) \<Rightarrow> int \<Rightarrow> int \<Rightarrow> kval \<Rightarrow> kval" where
  "range_down f lo n acc =
     (if n \<ge> lo then range_down f lo (n - 1) (case f n of None \<Rightarrow> acc | Some v \<Rightarrow> kcons v acc) else acc)"
  by pat_completeness auto
termination by (relation "measure (\<lambda>(f, lo, n, acc). nat (n - lo + 1))") auto

declare range_down.simps [simp del]

definition range_chr :: "int \<Rightarrow> kval option" where
  "range_chr c = (if c \<ge> 0xD800 \<and> c \<le> 0xDFFF then None else Some (KChr (word_of_int c)))"

definition range_int :: "int \<Rightarrow> kval option" where
  "range_int n = Some (kint (word_of_int n))"

definition kpf___rangeEnum :: "gmp \<Rightarrow> kval \<Rightarrow> kval \<Rightarrow> kval \<Rightarrow> kval kres" where
  "kpf___rangeEnum G a b e =
     kbind (kas_bool e) (\<lambda>ex.
       case a of
         KChr c \<Rightarrow> (case b of
             KChr d \<Rightarrow> Inr (range_down range_chr (uint c) (if ex then uint d - 1 else uint d) knil)
           | _ \<Rightarrow> kundef)
       | _ \<Rightarrow> kbind (kas_int G a) (\<lambda>lo. kbind (kas_int G b) (\<lambda>hi.
           let top = (if ex then sint hi - 1 else sint hi) in
           if \<not> fits64 top \<or> (sint lo = - (2 ^ 63) \<and> sint lo \<le> top) then kundef
           else Inr (range_down range_int (sint lo) top knil))))"

section \<open>Scalars and strings\<close>

definition kp_ltStr :: "kval \<Rightarrow> kval \<Rightarrow> kval kres" where
  "kp_ltStr x y =
     (case (x, y) of
        (KStr a, KStr b) \<Rightarrow>
          (let c = memcmp (take (min (length a) (length b)) a) (take (min (length a) (length b)) b) in
           Inr (kbool (c < 0 \<or> c = 0 \<and> length a < length b)))
      | _ \<Rightarrow> Inl ''ltStr: argument is not a String'')"

definition kp_eqStr :: "gmp \<Rightarrow> kval \<Rightarrow> kval \<Rightarrow> kval kres" where
  "kp_eqStr G x y = kbind (klit_eq G x y) (\<lambda>r. Inr (kbool r))"

definition kp_eqScalar :: "kval \<Rightarrow> kval \<Rightarrow> kval kres" where
  "kp_eqScalar x y = (case (x, y) of (KChr a, KChr b) \<Rightarrow> Inr (kbool (a = b))
     | _ \<Rightarrow> Inl ''eqScalar: argument is not a scalar'')"

definition kp_ltScalar :: "kval \<Rightarrow> kval \<Rightarrow> kval kres" where
  "kp_ltScalar x y = (case (x, y) of (KChr a, KChr b) \<Rightarrow> Inr (kbool (a < b))
     | _ \<Rightarrow> Inl ''ltScalar: argument is not a scalar'')"

definition kp_eqByte :: "kval \<Rightarrow> kval \<Rightarrow> kval kres" where
  "kp_eqByte x y = kbind (as_byte x) (\<lambda>a. kbind (as_byte y) (\<lambda>b. Inr (kbool (a = b))))"

definition kp_ltByte :: "kval \<Rightarrow> kval \<Rightarrow> kval kres" where
  "kp_ltByte x y = kbind (as_byte x) (\<lambda>a. kbind (as_byte y) (\<lambda>b. Inr (kbool (a < b))))"

definition str_append :: "kval \<Rightarrow> kval \<Rightarrow> kval kres" where
  "str_append a b = (case (a, b) of (KStr x, KStr y) \<Rightarrow> Inr (KStr (x @ y))
     | _ \<Rightarrow> Inl ''stringAppend: argument is not a String'')"

end
