(* ===== verification/Kappa_PrimSpec.thy ===== *)
theory Kappa_PrimSpec
  imports Kappa_Prims
begin

text \<open>
  What the pure primitives of \<open>Kappa_Prims\<close> compute: universe levels are ordinals below
  \<open>omega^2\<close>, representation equality is equality of first-order data, the Rational entry points
  are the field operations, ranges enumerate, hashing reads Integers modulo 2^64.
\<close>

section \<open>Universe levels\<close>

definition level_is :: "kval \<Rightarrow> nat \<Rightarrow> nat \<Rightarrow> bool" where
  "level_is v c n \<longleftrightarrow> v = ktypelevel (int_rep (int c)) (int_rep (int n))"

lemma kint_small [simp]: "kint 0 = int_rep 0" "kint 1 = int_rep 1"
  by (simp_all add: kint_rep)

lemma int_cmp_rep:
  assumes "gmp_ok G"
  obtains c where "kint_cmp G (int_rep a) (int_rep b) = Inr c" "c < 0 \<longleftrightarrow> a < b" "c = 0 \<longleftrightarrow> a = b"
  using int_cmp_spec[OF assms, of "int_rep a" a "int_rep b" b] by auto

lemma level_parts [simp]:
  assumes "gmp_ok G" "level_is v c n"
  shows "ktypelevel_parts G v = Inr (int_rep (int c), int_rep (int n))"
proof -
  obtain x where x: "kint_cmp G (int_rep (int c)) (int_rep 0) = Inr x" "x < 0 \<longleftrightarrow> int c < 0"
    using int_cmp_rep[OF assms(1)] by blast
  obtain y where y: "kint_cmp G (int_rep (int n)) (int_rep 0) = Inr y" "y < 0 \<longleftrightarrow> int n < 0"
    using int_cmp_rep[OF assms(1)] by blast
  show ?thesis using assms(2) x y
    by (simp add: ktypelevel_parts_def level_is_def ktypelevel_def int_of_kis_int_any)
qed

text \<open>The order on \<open>omega * c + n\<close>.\<close>

definition level_less :: "nat \<times> nat \<Rightarrow> nat \<times> nat \<Rightarrow> bool" where
  "level_less p q \<longleftrightarrow> fst p < fst q \<or> fst p = fst q \<and> snd p < snd q"

lemma level_cmp:
  assumes "gmp_ok G" "level_is a c n" "level_is b d m"
  obtains r where "ktypelevel_cmp G a b = Inr r"
    "r < 0 \<longleftrightarrow> level_less (c, n) (d, m)" "r = 0 \<longleftrightarrow> (c, n) = (d, m)"
proof -
  obtain x where x: "kint_cmp G (int_rep (int c)) (int_rep (int d)) = Inr x"
      "x < 0 \<longleftrightarrow> int c < int d" "x = 0 \<longleftrightarrow> int c = int d"
    using int_cmp_rep[OF assms(1)] by blast
  obtain y where y: "kint_cmp G (int_rep (int n)) (int_rep (int m)) = Inr y"
      "y < 0 \<longleftrightarrow> int n < int m" "y = 0 \<longleftrightarrow> int n = int m"
    using int_cmp_rep[OF assms(1)] by blast
  have "ktypelevel_cmp G a b = Inr (if x = 0 then y else x)"
    using assms x(1) y(1) by (simp add: ktypelevel_cmp_def)
  then show thesis using x y by (intro that) (auto simp: level_less_def)
qed

lemma addInt_rep: "gmp_ok G \<Longrightarrow> kp_addInt G (int_rep a) (int_rep b) = Inr (int_rep (a + b))"
  by (rule addInt) simp_all

lemma level_is_mk: "level_is (ktypelevel (int_rep (int c)) (int_rep (int n))) c n"
  by (simp add: level_is_def)

lemma level_add:
  assumes "gmp_ok G" "level_is a c n" "level_is b d m"
  shows "\<exists>v. kpf___typeLevelAdd G a b = Inr v \<and> level_is v (c + d) (n + m)"
  using assms level_is_mk[of "c + d" "n + m"] by (simp add: kpf___typeLevelAdd_def addInt_rep)

lemma level_succ:
  assumes "gmp_ok G" "level_is a c n"
  shows "\<exists>v. kpf___typeLevelSucc G a = Inr v \<and> level_is v c (Suc n)"
  using assms level_is_mk[of c "Suc n"] by (simp add: kpf___typeLevelSucc_def addInt_rep add.commute)

lemma level_max:
  assumes "gmp_ok G" "level_is a c n" "level_is b d m"
  shows "kpf___typeLevelMax G a b = Inr (if level_less (c, n) (d, m) then b else a)"
proof -
  obtain r where r: "ktypelevel_cmp G a b = Inr r" "r < 0 \<longleftrightarrow> level_less (c, n) (d, m)"
    using level_cmp[OF assms] by blast
  have "ktypelevel (int_rep (int c)) (int_rep (int n)) = a" "ktypelevel (int_rep (int d)) (int_rep (int m)) = b"
    using assms by (simp_all add: level_is_def)
  then show ?thesis using assms r by (auto simp: kpf___typeLevelMax_def not_less[symmetric])
qed

section \<open>First-order data\<close>

text \<open>First-order values as the constructors build them; \<open>tg\<close> is the tag id of a constructor name
  and \<open>vt\<close> that of a variant label, as the compiler assigns them. Zero and NaN doubles are left
  out: C compares doubles as numbers.\<close>

inductive rdata :: "(string \<Rightarrow> int) \<Rightarrow> (string \<Rightarrow> int) \<Rightarrow> kval \<Rightarrow> bool" for tg vt where
  rd_int: "rdata tg vt (int_rep z)"
| rd_ctor: "int32 (tg n) \<Longrightarrow> 0 \<le> tg n \<Longrightarrow> \<forall>x \<in> set xs. rdata tg vt x \<Longrightarrow> rdata tg vt (kctor (tg n) n xs)"
| rd_dbl: "\<not> dbl_nan d \<Longrightarrow> take_bit 63 d \<noteq> 0 \<Longrightarrow> rdata tg vt (KDbl d)"
| rd_chr: "rdata tg vt (KChr c)"
| rd_byte: "rdata tg vt (KByte b)"
| rd_str: "rdata tg vt (KStr s)"
| rd_bytes: "rdata tg vt (KBytes s)"
| rd_rec: "\<forall>x \<in> set fs. rdata tg vt (snd x) \<Longrightarrow> rdata tg vt (KRec fs)"
| rd_var: "rdata tg vt p \<Longrightarrow> rdata tg vt (KVariant (vt t) t p)"

lemma kctor_fields_kctor [simp]: "int32 t \<Longrightarrow> kctor_fields (kctor t n xs) = xs"
  by (cases rule: kctor_cases[of t xs n]) (auto simp: kimm_packed2_field_mk)

lemma kv_packed_int_rep [simp]: "\<not> kv_packed (int_rep z)"
  by (simp add: int_rep_def)

lemma kctor_tagid_int_rep [simp]: "kctor_tagid (int_rep z) = -1"
  by (simp add: int_rep_def)

lemma kis_int_any_int_rep [simp]: "kis_int_any (int_rep z)"
  by (simp add: int_of_kis_int_any)

lemma kis_int_any_kctor [simp]: "int32 t \<Longrightarrow> \<not> kis_int_any (kctor t n xs)"
  by (cases rule: kctor_cases[of t xs n]) auto

lemma rep_eq_all_spec:
  "length xs = length ys \<Longrightarrow> (\<And>x y. x \<in> set xs \<Longrightarrow> y \<in> set ys \<Longrightarrow> kvalue_rep_eq G same x y = Inr (x = y)) \<Longrightarrow>
   rep_eq_all G same xs ys = Inr (xs = ys)"
proof (induction xs arbitrary: ys)
  case (Cons x xs)
  then obtain y zs where "ys = y # zs" by (cases ys) auto
  then show ?case using Cons by auto
qed simp

lemma rep_eq_recs_spec:
  "length fs = length gs \<Longrightarrow>
   (\<And>x y. x \<in> snd ` set fs \<Longrightarrow> y \<in> snd ` set gs \<Longrightarrow> kvalue_rep_eq G same x y = Inr (x = y)) \<Longrightarrow>
   rep_eq_recs G same fs gs = Inr (fs = gs)"
proof (induction fs arbitrary: gs)
  case (Cons f fs)
  then obtain n x where f: "f = (n, x)" by (cases f)
  from Cons obtain m y hs where g: "gs = (m, y) # hs" by (cases gs) auto
  show ?case using Cons.prems Cons.IH[of hs] unfolding f g by auto
qed simp

lemma ptr_eq_imp: "(\<And>a b. same a b \<Longrightarrow> a = b) \<Longrightarrow> ptr_eq same a b \<Longrightarrow> a = b"
  by (auto simp: ptr_eq_def split: kval.splits)

lemma rep_eq_int:
  assumes "gmp_ok G" "\<And>a b. same a b \<Longrightarrow> a = b"
  shows "kvalue_rep_eq G same (int_rep a) (int_rep b) = Inr (a = b)"
proof -
  obtain c where "kint_cmp G (int_rep a) (int_rep b) = Inr c" "c = 0 \<longleftrightarrow> a = b"
    using int_cmp_rep[OF assms(1)] by blast
  moreover have "ptr_eq same (int_rep a) (int_rep b) \<Longrightarrow> a = b"
    using ptr_eq_imp[of same "int_rep a" "int_rep b"] assms(2) by (metis int_rep_inject)
  ultimately show ?thesis by (subst kvalue_rep_eq.simps) auto
qed

lemma kctor_name_irrelevant:
  assumes "kv_imm (kctor t n xs)" shows "kctor t n xs = kctor t m xs"
  using assms by (auto simp: kctor_def Let_def split: if_splits)

lemma kv_packed_imm: "kv_packed v \<Longrightarrow> kv_imm v"
  by (cases v) (auto simp: imm_kind_imm)

lemma ptr_eq_imm: "kv_imm v \<Longrightarrow> ptr_eq same v v"
  by (cases v) (simp_all add: ptr_eq_def)

lemma packed_tagid_nonneg: "0 \<le> sint (kimm_packed_tagid w)"
proof -
  have "\<not> bit (kimm_packed_tagid w) 31"
    by (simp add: kimm_packed_tagid_def imm_bits)
  then show ?thesis using bit_last_iff[of "kimm_packed_tagid w"] by simp
qed

lemma rep_eq_kctor:
  assumes same: "\<And>a b. same a b \<Longrightarrow> a = b"
    and t: "int32 (tg n)" "0 \<le> tg n" and u: "int32 (tg m)" "0 \<le> tg m"
    and f: "\<And>x y. x \<in> set xs \<Longrightarrow> y \<in> set ys \<Longrightarrow> kvalue_rep_eq G same x y = Inr (x = y)"
  shows "kvalue_rep_eq G same (kctor (tg n) n xs) (kctor (tg m) m ys) =
    Inr (kctor (tg n) n xs = kctor (tg m) m ys)"
proof -
  let ?a = "kctor (tg n) n xs" and ?b = "kctor (tg m) m ys"
  have all: "length xs = length ys \<Longrightarrow> rep_eq_all G same xs ys = Inr (xs = ys)"
    by (rule rep_eq_all_spec) (auto intro: f)
  show ?thesis
  proof (cases "ptr_eq same ?a ?b")
    case True
    then have "?a = ?b" by (rule ptr_eq_imp[rotated]) (rule same)
    then show ?thesis using True by (subst kvalue_rep_eq.simps) simp
  next
    case np: False
    have inj: "?a = ?b \<Longrightarrow> tg n = tg m \<and> xs = ys" using kc.mk_inject[OF t(1) u(1)] by blast
    show ?thesis
    proof (cases "kv_packed ?a \<or> kv_packed ?b")
      case True
      have "?a = ?b" if "tg n = tg m" "xs = ys"
      proof -
        have "kv_imm ?a \<or> kv_imm ?b" using True kv_packed_imm by blast
        then show ?thesis using kctor_name_irrelevant[of "tg n" n xs m] kctor_name_irrelevant[of "tg m" m ys n] that
          by metis
      qed
      then have "(?a = ?b) = (tg n = tg m \<and> xs = ys)" using inj by blast
      then show ?thesis using True np t u all
        by (subst kvalue_rep_eq.simps) auto
    next
      case nk: False
      show ?thesis
      proof (cases "kv_imm ?a \<or> kv_imm ?b")
        case True
        have "?a \<noteq> ?b"
        proof
          assume "?a = ?b"
          then show False using True np ptr_eq_imm[of ?a same] ptr_eq_imm[of ?b same] by metis
        qed
        then show ?thesis using True np nk t u by (subst kvalue_rep_eq.simps) auto
      next
        case False
        have a: "?a = KCtor (tg n) n xs" using False by (cases rule: kctor_cases[OF t(1), of xs n]) auto
        have b: "?b = KCtor (tg m) m ys" using False by (cases rule: kctor_cases[OF u(1), of ys m]) auto
        show ?thesis using np all unfolding a b by (subst kvalue_rep_eq.simps) auto
      qed
    qed
  qed
qed

text \<open>Two values of different shape.\<close>

fun rshape :: "kval \<Rightarrow> nat" where
  "rshape (KImm w) = (if kis_imm_int w then 0 else 1)"
| "rshape (KBig _) = 0"
| "rshape (KInt _) = 0"
| "rshape (KCtor _ _ _) = 1"
| "rshape (KDbl _) = 2" | "rshape (KChr _) = 3" | "rshape (KByte _) = 4" | "rshape (KStr _) = 5"
| "rshape (KBytes _) = 6" | "rshape (KRec _) = 7" | "rshape (KVariant _ _ _) = 8"
| "rshape _ = 9"

lemma rshape_kctor [simp]: "int32 t \<Longrightarrow> rshape (kctor t n xs) = 1"
  by (cases rule: kctor_cases[of t xs n]) auto

lemma rshape_int_rep [simp]: "rshape (int_rep z) = 0"
  by (simp add: int_rep_def)

lemma int_any_shape: "kis_int_any v \<Longrightarrow> rshape v = 0"
  by (cases v) auto

lemma leaf_eq_shape: "leaf_eq a b \<Longrightarrow> rshape a < 9 \<Longrightarrow> rshape a = rshape b"
  by (cases a) (auto split: kval.splits)

lemma rep_eq_diff:
  assumes "\<And>a b. same a b \<Longrightarrow> a = b" "rshape a \<noteq> rshape b" "rshape a < 9" "rshape b < 9"
    "kv_packed a \<Longrightarrow> kctor_tagid b = -1" "kv_packed b \<Longrightarrow> kctor_tagid a = -1"
  shows "kvalue_rep_eq G same a b = Inr (a = b)"
proof -
  have ne: "a \<noteq> b" using assms(2) by auto
  have np: "\<not> ptr_eq same a b" using ptr_eq_imp[of same a b] assms(1) ne by blast
  have ni: "\<not> (kis_int_any a \<and> kis_int_any b)"
    using assms(2) int_any_shape[of a] int_any_shape[of b] by auto
  show ?thesis
  proof (cases "kv_packed a \<or> kv_packed b")
    case True
    have "0 \<le> kctor_tagid v" if "kv_packed v" for v
      using that by (cases v) (use packed_tagid_nonneg in \<open>auto dest: imm_kind_excl\<close>)
    then have "kctor_tagid a < 0 \<or> kctor_tagid a \<noteq> kctor_tagid b" using True assms(5,6) by fastforce
    then show ?thesis using np ni True ne by (subst kvalue_rep_eq.simps) auto
  next
    case nk: False
    show ?thesis
    proof (cases "kv_imm a \<or> kv_imm b")
      case True then show ?thesis using np ni nk ne by (subst kvalue_rep_eq.simps) auto
    next
      case False
      have nf: "(a = b) = False" using ne by simp
      show ?thesis
        apply (subst kvalue_rep_eq.simps)
        apply (simp only: np ni nk False if_False nf)
        using leaf_eq_shape[of a b] assms(2,3,4) by (cases a) (auto split: kval.splits)
    qed
  qed
qed

lemma rdata_shape: "rdata tg vt v \<Longrightarrow> rshape v < 9"
  by (induction rule: rdata.induct) simp_all

lemma rdata_packed: "rdata tg vt v \<Longrightarrow> kv_packed v \<Longrightarrow> rshape v = 1"
  by (induction rule: rdata.induct) simp_all

lemma rdata_tagid: "rdata tg vt v \<Longrightarrow> rshape v \<noteq> 1 \<Longrightarrow> kctor_tagid v = -1"
  by (induction rule: rdata.induct) simp_all

lemma rep_eq_spec:
  assumes G: "gmp_ok G" and same: "\<And>a b. same a b \<Longrightarrow> a = b"
  shows "rdata tg vt a \<Longrightarrow> rdata tg vt b \<Longrightarrow> kvalue_rep_eq G same a b = Inr (a = b)"
proof (induction arbitrary: b rule: rdata.induct)
  have diff: "kvalue_rep_eq G same a b = Inr (a = b)"
    if "rdata tg vt a" "rdata tg vt b" "rshape a \<noteq> rshape b" for a b
    using that rdata_shape rdata_packed rdata_tagid by (intro rep_eq_diff[OF same]) (auto; metis)+
  have pt: "ptr_eq same a b \<Longrightarrow> a = b" for a b using ptr_eq_imp[of same a b] same by blast
  {
    case (rd_int z)
    show ?case
    proof (cases "rshape b = 0")
      case True
      then have "\<exists>y. b = int_rep y" using rd_int by (auto elim: rdata.cases)
      then show ?thesis using rep_eq_int[OF G same] by auto
    qed (use diff rd_int rdata.rd_int in auto)
  next
    case (rd_ctor n xs)
    have a: "rdata tg vt (kctor (tg n) n xs)" using rd_ctor by (intro rdata.rd_ctor) auto
    show ?case
    proof (cases "rshape b = 1")
      case True
      then obtain m ys where b: "b = kctor (tg m) m ys" "int32 (tg m)" "0 \<le> tg m" "\<forall>y \<in> set ys. rdata tg vt y"
        using rd_ctor(4) by (auto elim: rdata.cases)
      show ?thesis unfolding b(1)
        by (rule rep_eq_kctor) (use same rd_ctor b in auto)
    qed (use diff a rd_ctor in auto)
  next
    case (rd_dbl d)
    show ?case
    proof (cases "rshape b = 2")
      case True
      then obtain e where "b = KDbl e" "\<not> dbl_nan e" "take_bit 63 e \<noteq> 0" using rd_dbl(3) by (auto elim: rdata.cases)
      then show ?thesis using rd_dbl pt by (subst kvalue_rep_eq.simps) (auto simp: dbl_eq_def)
    qed (use diff rd_dbl rdata.rd_dbl in auto)
  next
    case (rd_chr c)
    show ?case
    proof (cases "rshape b = 3")
      case True
      then obtain e where "b = KChr e" using rd_chr by (auto elim: rdata.cases)
      then show ?thesis using pt by (subst kvalue_rep_eq.simps) auto
    qed (use diff rd_chr rdata.rd_chr in auto)
  next
    case (rd_byte c)
    show ?case
    proof (cases "rshape b = 4")
      case True
      then obtain e where "b = KByte e" using rd_byte by (auto elim: rdata.cases)
      then show ?thesis using pt by (subst kvalue_rep_eq.simps) auto
    qed (use diff rd_byte rdata.rd_byte in auto)
  next
    case (rd_str c)
    show ?case
    proof (cases "rshape b = 5")
      case True
      then obtain e where "b = KStr e" using rd_str by (auto elim: rdata.cases)
      then show ?thesis using pt by (subst kvalue_rep_eq.simps) auto
    qed (use diff rd_str rdata.rd_str in auto)
  next
    case (rd_bytes c)
    show ?case
    proof (cases "rshape b = 6")
      case True
      then obtain e where "b = KBytes e" using rd_bytes by (auto elim: rdata.cases)
      then show ?thesis using pt by (subst kvalue_rep_eq.simps) auto
    qed (use diff rd_bytes rdata.rd_bytes in auto)
  next
    case (rd_rec fs)
    have a: "rdata tg vt (KRec fs)" using rd_rec by (intro rdata.rd_rec) auto
    show ?case
    proof (cases "rshape b = 7")
      case True
      then obtain gs where b: "b = KRec gs" "\<forall>x \<in> set gs. rdata tg vt (snd x)"
        using rd_rec(2) by (auto elim: rdata.cases)
      have "length fs = length gs \<Longrightarrow> rep_eq_recs G same fs gs = Inr (fs = gs)"
        by (rule rep_eq_recs_spec) (use rd_rec(1) b(2) in auto)
      then show ?thesis using b pt by (subst kvalue_rep_eq.simps) auto
    qed (use diff a rd_rec in auto)
  next
    case (rd_var p t)
    have a: "rdata tg vt (KVariant (vt t) t p)" using rd_var by (intro rdata.rd_var) auto
    show ?case
    proof (cases "rshape b = 8")
      case True
      then obtain q u where b: "b = KVariant (vt u) u q" "rdata tg vt q" using rd_var(3) by (auto elim: rdata.cases)
      then show ?thesis using rd_var.IH[OF b(2)] pt by (subst kvalue_rep_eq.simps) auto
    qed (use diff a rd_var in auto)
  }
qed

section \<open>Rational field operations\<close>

lemma rat_is_pos: "rat_is x a b \<Longrightarrow> b \<noteq> 0"
  by (simp add: rat_is_def)

lemma mulRat:
  assumes "gmp_ok G" "rat_is x a b" "rat_is y c d"
  shows "\<exists>v n e. kpf_mulRat G x y = Inr v \<and> rat_is v n e \<and> n * (b * d) = (a * c) * e"
proof -
  have "b * d \<noteq> 0" using rat_is_pos assms by auto
  then obtain v n e where "krat G (a * c) (b * d) = Inr v" "rat_is v n e" "n * (b * d) = (a * c) * e"
    using krat_spec[OF assms(1)] by metis
  then show ?thesis using assms by (auto simp: kpf_mulRat_def gmp_arith)
qed

lemma divRat:
  assumes "gmp_ok G" "rat_is x a b" "rat_is y c d"
  shows "if c = 0 then kpf_divRat G x y = Inl ''divRat: division by zero''
    else \<exists>v n e. kpf_divRat G x y = Inr v \<and> rat_is v n e \<and> n * (b * c) = (a * d) * e"
proof (cases "c = 0")
  case True
  then show ?thesis using assms by (simp add: kpf_divRat_def gmp_sgn_iff)
next
  case False
  then have "b * c \<noteq> 0" using rat_is_pos assms by auto
  then obtain v n e where "krat G (a * d) (b * c) = Inr v" "rat_is v n e" "n * (b * c) = (a * d) * e"
    using krat_spec[OF assms(1)] by metis
  then show ?thesis using assms False by (auto simp: kpf_divRat_def gmp_arith gmp_sgn_iff)
qed

lemma cmpRat:
  assumes "gmp_ok G" "rat_is x a b" "rat_is y c d"
  shows "kpf_eqRat G x y = Inr (kbool (a * d = c * b))" "kpf_ltRat G x y = Inr (kbool (a * d < c * b))"
  using assms by (simp_all add: kpf_eqRat_def kpf_ltRat_def gmp_arith gmp_cmp_iff)

lemma reduced_unique:
  fixes a b c d :: int
  assumes "coprime a b" "coprime c d" "b > 0" "d > 0" "a * d = c * b"
  shows "a = c \<and> b = d"
proof -
  have "b dvd a * d" using assms(5) by simp
  then have "b dvd d" using assms(1) by (simp add: coprime_dvd_mult_right_iff coprime_commute)
  moreover have "d dvd c * b" using assms(5) by (metis dvd_triv_right)
  then have "d dvd b" using assms(2) by (simp add: coprime_dvd_mult_right_iff coprime_commute)
  ultimately have "b = d" using assms(3,4) by (simp add: zdvd_antisym_nonneg)
  then show ?thesis using assms by simp
qed

section \<open>Reading an Integer modulo 2^64\<close>

lemma low64:
  assumes G: "gmp_ok G" and v: "int_of v = Some a" shows "kint_low64 G v = Inr (word_of_int a)"
proof (cases "kis_int_word v")
  case True
  then show ?thesis using int_of_word[OF True] v by (auto simp: kint_low64_def)
next
  case False
  then have z: "v = KBig a" using v by (cases v) (auto split: if_splits)
  let ?r = "mpz_fdiv_r_2exp G a 64"
  have r: "?r = a mod 2 ^ 64" by (rule gmp_arith[OF G])
  have "\<bar>?r\<bar> < 2 ^ 64" unfolding r by simp
  from export_word(1)[OF G this] have "uint (case mpz_export G ?r of [] \<Rightarrow> 0 | w # _ \<Rightarrow> w) = a mod 2 ^ 64"
    unfolding r by simp
  moreover have "uint (word_of_int a :: kword) = a mod 2 ^ 64" by (simp add: uint_word_of_int)
  ultimately have "(case mpz_export G ?r of [] \<Rightarrow> 0 | w # _ \<Rightarrow> w) = word_of_int a"
    by (metis word_uint_eq_iff)
  then show ?thesis by (simp add: kint_low64_def z)
qed

section \<open>Ranges\<close>

lemma range_down_spec:
  "range_down f lo n acc = foldr (\<lambda>i a. case f i of None \<Rightarrow> a | Some v \<Rightarrow> kcons v a) [lo..n] acc"
proof (induction f lo n acc rule: range_down.induct)
  case (1 f lo n acc)
  show ?case
  proof (cases "lo \<le> n")
    case True
    then have "[lo..n] = [lo..n - 1] @ [n]" by (simp add: upto_rec2)
    then show ?thesis using 1 True by (subst range_down.simps) simp
  qed (simp add: range_down.simps)
qed

lemma range_foldr:
  "foldr (\<lambda>i a. case f i of None \<Rightarrow> a | Some v \<Rightarrow> kcons v a) xs (klist ys) = klist (List.map_filter f xs @ ys)"
  by (induction xs) (simp_all add: List.map_filter_def split: option.splits)

section \<open>Properties\<close>

text \<open>Runtime universe levels are the ordinals below \<open>omega^2\<close>: comparison is the ordinal
  order, \<open>max\<close> returns the larger argument itself, the successor and the (componentwise) sum have
  the expected components, and a value that is not a level is the documented runtime failure.\<close>

theorem typelevel_ordinal:
  assumes "gmp_ok G" "level_is a c n" "level_is b d m"
  shows "kpf___compareTypeLevel G a b = Inr (if level_less (c, n) (d, m) then kctor0 KCT_LT ''LT''
      else if (c, n) = (d, m) then kctor0 KCT_EQ ''EQ'' else kctor0 KCT_GT ''GT'') \<and>
    kpf___eqTypeLevel G a b = Inr (kbool (a = b)) \<and>
    kpf___typeLevelMax G a b = Inr (if level_less (c, n) (d, m) then b else a) \<and>
    (\<exists>v. kpf___typeLevelSucc G a = Inr v \<and> level_is v c (Suc n)) \<and>
    (\<exists>v. kpf___typeLevelAdd G a b = Inr v \<and> level_is v (c + d) (n + m)) \<and>
    kpf___typeLevelSucc G knone = Inl ''TypeLevel: invalid private runtime representation''"
proof -
  obtain r where r: "ktypelevel_cmp G a b = Inr r"
    "r < 0 \<longleftrightarrow> level_less (c, n) (d, m)" "r = 0 \<longleftrightarrow> (c, n) = (d, m)"
    using level_cmp[OF assms] by blast
  have "a = b \<longleftrightarrow> (c, n) = (d, m)"
    using assms(2,3) kc.mk_inject(2)[of KCT_TYPELEVEL_LEVEL KCT_TYPELEVEL_LEVEL]
    by (fastforce simp: level_is_def ktypelevel_def)
  moreover have "kpf___typeLevelSucc G knone = Inl ''TypeLevel: invalid private runtime representation''"
    by (simp add: kpf___typeLevelSucc_def ktypelevel_parts_def knone_def)
  moreover have "r > 0 \<longleftrightarrow> \<not> level_less (c, n) (d, m) \<and> (c, n) \<noteq> (d, m)" using r(2,3) by linarith
  ultimately show ?thesis
    using r level_max[OF assms] level_succ[OF assms(1,2)] level_add[OF assms]
    by (simp add: kpf___compareTypeLevel_def kpf___eqTypeLevel_def)
qed

lemma typelevel_ordinal_witness:
  "kpf___typeLevelMax gmp_ref kpf___typeLevelZero kpf___typeLevelOmega = Inr kpf___typeLevelOmega"
proof -
  have "level_is kpf___typeLevelZero 0 0" "level_is kpf___typeLevelOmega 1 0"
    by (simp_all add: level_is_def kpf___typeLevelZero_def kpf___typeLevelOmega_def)
  from typelevel_ordinal[OF gmp_ok_ref this] show ?thesis by (simp add: level_less_def)
qed



text \<open>The Rational entry points are the operations of the rational field on reduced fractions,
  equality of fractions is equality of the values, and division by zero is the documented failure.\<close>

theorem rational_field:
  assumes "gmp_ok G" "rat_is x a b" "rat_is y c d"
  shows "(\<exists>v n e. kpf_mulRat G x y = Inr v \<and> rat_is v n e \<and> n * (b * d) = (a * c) * e) \<and>
    (if c = 0 then kpf_divRat G x y = Inl ''divRat: division by zero''
     else \<exists>v n e. kpf_divRat G x y = Inr v \<and> rat_is v n e \<and> n * (b * c) = (a * d) * e) \<and>
    kpf_eqRat G x y = Inr (kbool (x = y)) \<and> kpf_ltRat G x y = Inr (kbool (a * d < c * b))"
proof -
  have "x = y \<longleftrightarrow> a * d = c * b"
  proof
    assume "x = y"
    then show "a * d = c * b" using rat_is_inject[of x a b c d] assms(2,3) by simp
  next
    assume "a * d = c * b"
    then have "a = c \<and> b = d" using assms(2,3) by (intro reduced_unique) (simp_all add: rat_is_def)
    then show "x = y" using assms(2,3) by (simp add: rat_is_def)
  qed
  then show ?thesis using mulRat[OF assms] divRat[OF assms] cmpRat[OF assms] by simp
qed

lemma rational_field_witness:
  "kpf_divRat gmp_ref (kctor KCT_RAT ''__rat'' [int_rep 1, int_rep 2])
     (kctor KCT_RAT ''__rat'' [int_rep 0, int_rep 1]) = Inl ''divRat: division by zero''"
proof -
  have "rat_is (kctor KCT_RAT ''__rat'' [int_rep 1, int_rep 2]) 1 2"
       "rat_is (kctor KCT_RAT ''__rat'' [int_rep 0, int_rep 1]) 0 1"
    by (simp_all add: rat_is_def)
  from rational_field[OF gmp_ok_ref this] show ?thesis by simp
qed

text \<open>hashing reads an Integer modulo 2^64, so two representations of one number, and two
  numbers congruent modulo 2^64, hash alike.\<close>

theorem hash_mix_int:
  assumes "gmp_ok G" "int_of x = Some a" "int_of y = Some b"
  shows "kpf___hashMixInt G x y = Inr (ku64 G (fnv_mix_u64 (word_of_int a) (word_of_int b))) \<and>
    int_of (ku64 G (fnv_mix_u64 (word_of_int a) (word_of_int b))) =
      Some (uint (fnv_mix_u64 (word_of_int a) (word_of_int b)))"
proof -
  have "int_of (ku64 G u) = Some (uint u)" for u
  proof (cases "uint u \<le> 2 ^ 63 - 1")
    case True
    moreover have "0 \<le> uint u" by simp
    then have "- (2 ^ 63) \<le> uint u" by (rule order_trans[rotated]) simp
    ultimately have "signed_take_bit 63 (uint u) = uint u"
      by (intro signed_take_bit_int_eq_self) simp_all
    then have "sint u = uint u" by (simp add: sint_uint)
    then show ?thesis using True by (simp add: ku64_def kint_rep)
  qed (use assms(1) in \<open>simp add: ku64_def kbig_from_mpz_def gmp_arith words_val_Cons\<close>)
  then show ?thesis using low64[OF assms(1,2)] low64[OF assms(1,3)] by (simp add: kpf___hashMixInt_def)
qed

lemma hash_mix_int_witness:
  "kpf___hashMixInt gmp_ref (KBig (2 ^ 64 + 1)) (KBig 3) = kpf___hashMixInt gmp_ref (KInt 1) (KInt 3)"
proof -
  have w: "word_of_int (2 ^ 64 + 1) = (1 :: kword)" by (simp add: word_uint_eq_iff)
  have "int_of (KBig (2 ^ 64 + 1)) = Some (2 ^ 64 + 1)" "int_of (KBig 3) = Some 3" by simp_all
  from conjunct1[OF hash_mix_int[OF gmp_ok_ref this]]
  have "kpf___hashMixInt gmp_ref (KBig (2 ^ 64 + 1)) (KBig 3) = Inr (ku64 gmp_ref (fnv_mix_u64 1 (word_of_int 3)))"
    by (simp only: w)
  moreover have "int_of (KInt 1) = Some 1" "int_of (KInt 3) = Some 3" by simp_all
  from conjunct1[OF hash_mix_int[OF gmp_ok_ref this]]
  have "kpf___hashMixInt gmp_ref (KInt 1) (KInt 3) = Inr (ku64 gmp_ref (fnv_mix_u64 1 (word_of_int 3)))" by simp
  ultimately show ?thesis by (simp only:)
qed

text \<open>a range enumerates the integers from its lower to its upper bound in order, surrogates
  left out of a Char range; it is defined unless a bound is the least machine Integer.\<close>

theorem range_enum:
  assumes "kas_int G a = Inr lo" "kas_int G b = Inr hi" "- (2 ^ 63) < sint lo" "- (2 ^ 63) < sint hi"
  shows "kpf___rangeEnum G a b (kbool ex) =
      Inr (klist (map (\<lambda>n. int_rep n) [sint lo..(if ex then sint hi - 1 else sint hi)])) \<and>
    kpf___rangeEnum G (KChr c) (KChr d) (kbool ex) =
      Inr (klist (map (\<lambda>n. KChr (word_of_int n))
        (filter (\<lambda>n. \<not> (0xD800 \<le> n \<and> n \<le> 0xDFFF)) [uint c..(if ex then uint d - 1 else uint d)])))"
proof -
  define top where "top = (if ex then sint hi - 1 else sint hi)"
  have f: "fits64 top" using assms(4) sint_lt[of hi] by (auto simp: top_def fits64_def)
  have notchr: "kas_int G (KChr x) \<noteq> Inr lo" for x by simp
  have e: "kpf___rangeEnum G a b (kbool ex) = Inr (range_down range_int (sint lo) top knil)"
    using assms f by (cases a) (auto simp: kpf___rangeEnum_def Let_def top_def)
  have m: "List.map_filter range_int [sint lo..top] = map (\<lambda>n. int_rep n) [sint lo..top]"
  proof -
    have "range_int n = Some (int_rep n)" if "n \<in> set [sint lo..top]" for n
    proof -
      have "fits64 n" using that f sint_fits64[of lo] by (auto simp: fits64_def)
      then show ?thesis by (simp add: range_int_def kint_rep)
    qed
    then show ?thesis by (simp add: List.map_filter_def cong: map_cong)
  qed
  have "kpf___rangeEnum G a b (kbool ex) = Inr (klist (map (\<lambda>n. int_rep n) [sint lo..top]))"
    using e m range_foldr[of range_int "[sint lo..top]" "[]"] by (simp add: range_down_spec)
  moreover have "List.map_filter range_chr xs =
      map (\<lambda>n. KChr (word_of_int n)) (filter (\<lambda>n. \<not> (0xD800 \<le> n \<and> n \<le> 0xDFFF)) xs)" for xs
    by (induction xs) (auto simp: range_chr_def List.map_filter_def)
  then have "kpf___rangeEnum G (KChr c) (KChr d) (kbool ex) = Inr (klist (map (\<lambda>n. KChr (word_of_int n))
        (filter (\<lambda>n. \<not> (0xD800 \<le> n \<and> n \<le> 0xDFFF)) [uint c..(if ex then uint d - 1 else uint d)])))"
    using range_foldr[of range_chr "[uint c..(if ex then uint d - 1 else uint d)]" "[]"]
    by (simp add: kpf___rangeEnum_def range_down_spec)
  ultimately show ?thesis by (simp add: top_def)
qed

lemma range_enum_witness:
  "kpf___rangeEnum gmp_ref (KInt 1) (KInt 3) (kbool True) = Inr (klist [int_rep 1, int_rep 2])"
  using range_enum[of gmp_ref "KInt 1" 1 "KInt 3" 3 True 0 0] by (simp add: upto.simps)

end
