(* ===== verification/Kappa_Utf8.thy ===== *)
theory Kappa_Utf8
  imports Kappa_Prims
begin

text \<open>
  The UTF-8 codec of the runtime: \<open>utf8_encode\<close>, \<open>utf8_strict\<close>, the validity and prefix loops and
  the incomplete-tail heuristic of \<open>runtime/unicode.c\<close>, and the lenient \<open>utf8_next\<close> of
  \<open>runtime/boxed.h\<close>. A buffer between \<open>p\<close> and \<open>end\<close> is the list of its bytes. The theorems relate
  the codec to the encoding itself: a byte list is valid when it is the concatenation of the
  encodings of scalars, and every reader recovers those scalars.
\<close>

section \<open>The code\<close>

definition utf8_encode :: "u32 \<Rightarrow> byte list" where
  "utf8_encode cp =
     (if cp < 0x80 then [ucast cp]
      else if cp < 0x800 then
        [ucast (0xC0 OR drop_bit 6 cp), ucast (0x80 OR (cp AND 0x3F))]
      else if cp < 0x10000 then
        [ucast (0xE0 OR drop_bit 12 cp), ucast (0x80 OR (drop_bit 6 cp AND 0x3F)),
         ucast (0x80 OR (cp AND 0x3F))]
      else
        [ucast (0xF0 OR drop_bit 18 cp), ucast (0x80 OR (drop_bit 12 cp AND 0x3F)),
         ucast (0x80 OR (drop_bit 6 cp AND 0x3F)), ucast (0x80 OR (cp AND 0x3F))])"

text \<open>The result of \<open>utf8_strict\<close>: a scalar with the bytes it took, \<open>0\<close> (incomplete) or \<open>-1\<close>
  (invalid). The function is called only on a non-empty buffer.\<close>

datatype utf8_res = Utf8_Scalar nat u32 | Utf8_Incomplete | Utf8_Invalid

definition cont :: "byte \<Rightarrow> bool" where
  "cont b \<longleftrightarrow> b AND 0xC0 = 0x80"

definition join2 :: "byte \<Rightarrow> byte \<Rightarrow> u32" where
  "join2 c d = push_bit 6 (ucast c AND 0x1F) OR (ucast d AND 0x3F)"

definition join3 :: "byte \<Rightarrow> byte \<Rightarrow> byte \<Rightarrow> u32" where
  "join3 c d e = push_bit 12 (ucast c AND 0x0F) OR push_bit 6 (ucast d AND 0x3F) OR (ucast e AND 0x3F)"

definition join4 :: "byte \<Rightarrow> byte \<Rightarrow> byte \<Rightarrow> byte \<Rightarrow> u32" where
  "join4 c d e f = push_bit 18 (ucast c AND 0x07) OR push_bit 12 (ucast d AND 0x3F)
     OR push_bit 6 (ucast e AND 0x3F) OR (ucast f AND 0x3F)"

definition utf8_strict :: "byte list \<Rightarrow> utf8_res" where
  "utf8_strict p =
     (let avail = length p; c = p ! 0 in
      if p = [] then Utf8_Incomplete
      else if c < 0x80 then Utf8_Scalar 1 (ucast c)
      else if c < 0xC2 then Utf8_Invalid
      else if c < 0xE0 then
        (if avail < 2 then Utf8_Incomplete
         else if \<not> cont (p ! 1) then Utf8_Invalid
         else Utf8_Scalar 2 (join2 c (p ! 1)))
      else if c < 0xF0 then
        (let lo = (if c = 0xE0 then 0xA0 else 0x80); hi = (if c = 0xED then 0x9F else 0xBF) in
         if avail < 2 then Utf8_Incomplete
         else if p ! 1 < lo \<or> p ! 1 > hi then Utf8_Invalid
         else if avail < 3 then Utf8_Incomplete
         else if \<not> cont (p ! 2) then Utf8_Invalid
         else Utf8_Scalar 3 (join3 c (p ! 1) (p ! 2)))
      else if c < 0xF5 then
        (let lo = (if c = 0xF0 then 0x90 else 0x80); hi = (if c = 0xF4 then 0x8F else 0xBF) in
         if avail < 2 then Utf8_Incomplete
         else if p ! 1 < lo \<or> p ! 1 > hi then Utf8_Invalid
         else if avail < 3 then Utf8_Incomplete
         else if \<not> cont (p ! 2) then Utf8_Invalid
         else if avail < 4 then Utf8_Incomplete
         else if \<not> cont (p ! 3) then Utf8_Invalid
         else Utf8_Scalar 4 (join4 c (p ! 1) (p ! 2) (p ! 3)))
      else Utf8_Invalid)"

text \<open>The lenient reader of \<open>boxed.h\<close>: the number of bytes taken and the scalar.\<close>

definition utf8_next :: "byte list \<Rightarrow> nat \<times> u32" where
  "utf8_next p =
     (let c = p ! 0 in
      if c < 0x80 then (1, ucast c)
      else if drop_bit 5 c = 0x6 \<and> 2 \<le> length p then (2, join2 c (p ! 1))
      else if drop_bit 4 c = 0xE \<and> 3 \<le> length p then (3, join3 c (p ! 1) (p ! 2))
      else if drop_bit 3 c = 0x1E \<and> 4 \<le> length p then (4, join4 c (p ! 1) (p ! 2) (p ! 3))
      else (1, ucast c))"

section \<open>The codec in arithmetic\<close>

lemma byte_bound: "unat (b :: byte) < 256"
  using unsigned_less[of b] by simp

lemma and_nat_mask: "(x :: nat) AND 0x3F = x mod 64" "x AND 0x1F = x mod 32"
  "x AND 0x0F = x mod 16" "x AND 0x07 = x mod 8"
proof -
  have "x AND mask n = x mod 2 ^ n" for n by (simp add: take_bit_eq_mod flip: take_bit_eq_mask)
  from this[of 6] this[of 5] this[of 4] this[of 3]
  show "x AND 0x3F = x mod 64" "x AND 0x1F = x mod 32" "x AND 0x0F = x mod 16" "x AND 0x07 = x mod 8"
    by (simp_all add: mask_eq_exp_minus_1)
qed

lemma or_nat_add: "x < 2 ^ k \<Longrightarrow> (y * 2 ^ k) OR x = y * 2 ^ k + (x :: nat)"
proof (rule disjunctive_add_eq_or[symmetric])
  assume x: "x < 2 ^ k"
  show "y * 2 ^ k AND x = 0"
  proof (rule bit_eqI)
    fix n
    have "\<not> bit x n" if "k \<le> n"
    proof -
      have "take_bit k x = x" using x by (simp add: take_bit_nat_eq_self)
      then show ?thesis using that by (metis bit_take_bit_iff not_le)
    qed
    then show "bit (y * 2 ^ k AND x) n = bit (0 :: nat) n"
      by (auto simp: bit_and_iff bit_push_bit_iff simp flip: push_bit_eq_mult)
  qed
qed

lemma div64_2: "(x :: nat) div 64 = 2 \<longleftrightarrow> 128 \<le> x \<and> x < 192"
proof -
  have "x = 64 * (x div 64) + x mod 64" "x mod 64 < 64" by simp_all
  then show ?thesis by linarith
qed

lemma cont_iff: "cont b \<longleftrightarrow> 128 \<le> unat b \<and> unat b < 192"
proof -
  have c: "push_bit 6 (3 :: nat) = 192" by (simp add: push_bit_eq_mult)
  have "unat b AND push_bit 6 3 = push_bit 6 (drop_bit 6 (unat b) AND 3)"
    by (intro bit_eqI) (auto simp: bit_and_iff bit_push_bit_iff bit_drop_bit_eq simp del: push_bit_numeral)
  moreover have "drop_bit 6 (unat b) AND 3 = drop_bit 6 (unat b) AND mask 2"
    by (simp add: mask_eq_exp_minus_1)
  ultimately have "unat b AND 192 = 64 * (unat b div 64 mod 4)"
    by (simp add: c push_bit_eq_mult drop_bit_eq_div flip: take_bit_eq_mask)
      (simp add: take_bit_eq_mod)
  moreover have "unat (b AND 0xC0) = unat b AND 192" by (simp add: unsigned_and_eq)
  moreover have "b AND 0xC0 = 0x80 \<longleftrightarrow> unat (b AND 0xC0) = 128"
    by (simp add: word_unat_eq_iff)
  ultimately have "cont b \<longleftrightarrow> 64 * (unat b div 64 mod 4) = 128" by (simp add: cont_def)
  moreover have "unat b div 64 mod 4 = unat b div 64" using byte_bound[of b] by (intro mod_less) linarith
  ultimately have "cont b \<longleftrightarrow> unat b div 64 = 2" by simp
  then show ?thesis by (simp add: div64_2)
qed

lemma unat_ucast_byte: "unat (ucast (b :: byte) :: u32) = unat b"
  using byte_bound[of b] by (simp add: unsigned_ucast_eq take_bit_nat_eq_self)

lemma unat_push: "x * 2 ^ k < 2 ^ 32 \<Longrightarrow> unat w = x \<Longrightarrow> unat (push_bit k w :: u32) = x * 2 ^ k"
  by (subst unsigned_push_bit_eq) (simp add: push_bit_eq_mult take_bit_nat_eq_self)

lemma unat_or: "unat (v OR w :: u32) = unat v OR unat w"
  by (rule unsigned_or_eq)

lemma unat_field:
  "unat (ucast (c :: byte) AND 0x3F :: u32) = unat c mod 64"
  "unat (ucast c AND 0x1F :: u32) = unat c mod 32"
  "unat (ucast c AND 0x0F :: u32) = unat c mod 16"
  "unat (ucast c AND 0x07 :: u32) = unat c mod 8"
  by (simp_all add: unsigned_and_eq unat_ucast_byte and_nat_mask)

lemma or_nat_fields:
  assumes "x < 2 ^ k"
  shows "y * 2 ^ (j + k) OR x * 2 ^ j = (y * 2 ^ k + x) * (2 ^ j :: nat)"
proof -
  have "x * 2 ^ j < 2 ^ (j + k)" using assms by (simp add: power_add)
  from or_nat_add[OF this, of y] show ?thesis by (simp add: power_add algebra_simps)
qed

lemma unat_bits:
  "unat (push_bit 6 (ucast (c :: byte) AND 0x1F) :: u32) = unat c mod 32 * 2 ^ 6"
  "unat (push_bit 12 (ucast c AND 0x0F) :: u32) = unat c mod 16 * 2 ^ 12"
  "unat (push_bit 18 (ucast c AND 0x07) :: u32) = unat c mod 8 * 2 ^ 18"
  "unat (push_bit 6 (ucast c AND 0x3F) :: u32) = unat c mod 64 * 2 ^ 6"
  "unat (push_bit 12 (ucast c AND 0x3F) :: u32) = unat c mod 64 * 2 ^ 12"
  by (rule unat_push, simp, rule unat_field)+

lemma join2_nat: "unat (join2 c d) = unat c mod 32 * 64 + unat d mod 64"
  unfolding join2_def unat_or unat_bits unat_field by (subst or_nat_add) simp_all

lemma join3_nat: "unat (join3 c d e) = unat c mod 16 * 4096 + unat d mod 64 * 64 + unat e mod 64"
proof -
  have "unat c mod 16 * 2 ^ 12 OR unat d mod 64 * 2 ^ 6 = (unat c mod 16 * 64 + unat d mod 64) * 2 ^ 6"
    using or_nat_fields[of "unat d mod 64" 6 "unat c mod 16" 6] by simp
  then show ?thesis
    unfolding join3_def unat_or unat_bits unat_field by (simp only: flip: or.assoc) (subst or_nat_add, simp_all)
qed

lemma join4_nat:
  "unat (join4 c d e f) = unat c mod 8 * 262144 + unat d mod 64 * 4096 + unat e mod 64 * 64 + unat f mod 64"
proof -
  have "unat c mod 8 * 2 ^ 18 OR unat d mod 64 * 2 ^ 12 = (unat c mod 8 * 64 + unat d mod 64) * 2 ^ 12"
    using or_nat_fields[of "unat d mod 64" 6 "unat c mod 8" 12] by simp
  moreover have "(unat c mod 8 * 64 + unat d mod 64) * 2 ^ 12 OR unat e mod 64 * 2 ^ 6
      = ((unat c mod 8 * 64 + unat d mod 64) * 64 + unat e mod 64) * 2 ^ 6"
    using or_nat_fields[of "unat e mod 64" 6 "unat c mod 8 * 64 + unat d mod 64" 6] by simp
  ultimately show ?thesis
    unfolding join4_def unat_or unat_bits unat_field by (simp only: flip: or.assoc) (subst or_nat_add, simp_all)
qed


text \<open>The encoding of the scalar number \<open>n\<close>, in arithmetic.\<close>

definition enc_nat :: "nat \<Rightarrow> nat list" where
  "enc_nat n =
     (if n < 128 then [n]
      else if n < 2048 then [192 + n div 64, 128 + n mod 64]
      else if n < 65536 then [224 + n div 64 div 64, 128 + n div 64 mod 64, 128 + n mod 64]
      else [240 + n div 64 div 64 div 64, 128 + n div 64 div 64 mod 64, 128 + n div 64 mod 64, 128 + n mod 64])"

definition scalar :: "u32 \<Rightarrow> bool" where
  "scalar cp \<longleftrightarrow> scalar_range (uint cp)"

lemma scalar_nat: "scalar cp \<longleftrightarrow> unat cp < 1114112 \<and> \<not> (55296 \<le> unat cp \<and> unat cp < 57344)"
proof -
  obtain k where k: "unat cp = k" by simp
  then have "uint cp = int k" by auto
  then show ?thesis unfolding scalar_def scalar_range_def k by linarith
qed

lemma unat_lead:
  assumes "unat w < 2 ^ k" "2 ^ k dvd m" "m + 2 ^ k \<le> 256"
  shows "unat (ucast (word_of_nat m OR w :: u32) :: byte) = m + unat w"
proof -
  obtain y where y: "m = y * 2 ^ k" using assms(2) by (metis dvd_def mult.commute)
  have "unat (word_of_nat m :: u32) = m" using assms(3) by (simp add: unsigned_of_nat take_bit_nat_eq_self)
  then have "unat (word_of_nat m OR w :: u32) = m + unat w"
    using or_nat_add[OF assms(1), of y] by (simp add: unsigned_or_eq y)
  then show ?thesis using assms(1,3) by (simp add: unsigned_ucast_eq take_bit_nat_eq_self)
qed

lemma unat_shift: "unat (drop_bit k w) = unat w div 2 ^ k"
  by (subst unsigned_drop_bit_eq) (simp add: drop_bit_eq_div take_bit_nat_eq_self)

lemma unat_low6: "unat (w AND 0x3F :: u32) = unat w mod 64"
  by (simp add: unsigned_and_eq and_nat_mask)

lemma utf8_encode_nat: "unat cp < 2 ^ 21 \<Longrightarrow> map unat (utf8_encode cp) = enc_nat (unat cp)"
proof -
  assume b: "unat cp < 2 ^ 21"
  note lead = unat_lead[where m = 192 and k = 5, simplified] unat_lead[where m = 224 and k = 4, simplified]
    unat_lead[where m = 240 and k = 3, simplified] unat_lead[where m = 128 and k = 6, simplified]
  have lt: "cp < 0x80 \<longleftrightarrow> unat cp < 128" "cp < 0x800 \<longleftrightarrow> unat cp < 2048" "cp < 0x10000 \<longleftrightarrow> unat cp < 65536"
    by (simp_all add: word_less_nat_alt)
  have dd: "unat cp div 4096 = unat cp div 64 div 64" "unat cp div 262144 = unat cp div 64 div 64 div 64"
    by (simp_all add: div_mult2_eq[symmetric])
  have l1: "unat (ucast cp :: byte) = unat cp" if "unat cp < 128"
    using that by (simp add: unsigned_ucast_eq take_bit_nat_eq_self)
  have c: "unat (ucast (0x80 OR (drop_bit k cp AND 0x3F)) :: byte) = 128 + unat cp div 2 ^ k mod 64" for k
    by (subst lead) (simp_all add: unat_low6 unat_shift)
  have c0: "unat (ucast (0x80 OR (cp AND 0x3F)) :: byte) = 128 + unat cp mod 64"
    using c[of 0] by simp
  have "unat (ucast (0xC0 OR drop_bit 6 cp) :: byte) = 192 + unat cp div 64" if "unat cp < 2048"
    using that by (subst lead) (simp_all add: unat_shift)
  moreover have "unat (ucast (0xE0 OR drop_bit 12 cp) :: byte) = 224 + unat cp div 4096" if "unat cp < 65536"
    using that by (subst lead) (simp_all add: unat_shift)
  moreover have "unat (ucast (0xF0 OR drop_bit 18 cp) :: byte) = 240 + unat cp div 262144"
    using b by (subst lead) (simp_all add: unat_shift)
  ultimately show ?thesis
    using l1 by (simp add: utf8_encode_def enc_nat_def lt c0 c[of 6, simplified] c[of 12, simplified] dd)
qed

lemma map_unat_inject: "map unat xs = map unat ys \<longleftrightarrow> xs = (ys :: byte list)"
  by (simp add: inj_map_eq_map inj_on_def word_unat_eq_iff)


text \<open>Positional arithmetic in base 64.\<close>

lemma base64:
  assumes "x < (64 :: nat)"
  shows "(q * 64 + x) div 64 = q" "(q * 64 + x) mod 64 = x"
  using assms by simp_all

lemma mod_lead:
  "i < 32 \<Longrightarrow> (192 + i) mod 32 = (i :: nat)"
  "i < 16 \<Longrightarrow> (224 + i) mod 16 = (i :: nat)"
  "i < 8 \<Longrightarrow> (240 + i) mod 8 = (i :: nat)"
  "i < 64 \<Longrightarrow> (128 + i) mod 64 = (i :: nat)"
proof -
  have "(m * k + i) mod m = i" if "i < m" for m k i :: nat using that by simp
  from this[of i 32 6] this[of i 16 14] this[of i 8 30] this[of i 64 2]
  show "i < 32 \<Longrightarrow> (192 + i) mod 32 = i" "i < 16 \<Longrightarrow> (224 + i) mod 16 = i"
    "i < 8 \<Longrightarrow> (240 + i) mod 8 = i" "i < 64 \<Longrightarrow> (128 + i) mod 64 = i" by simp_all
qed

lemma join2_sound:
  assumes "194 \<le> unat c" "unat c < 224" "cont d"
  shows "enc_nat (unat (join2 c d)) = [unat c, unat d]" "128 \<le> unat (join2 c d)" "unat (join2 c d) < 2048"
proof -
  obtain i where i: "unat c = 192 + i" "2 \<le> i" "i < 32" using assms(1,2) by (auto dest: nat_le_iff_add[THEN iffD1] intro: that[of "unat c - 192"])
  obtain j where j: "unat d = 128 + j" "j < 64" using assms(3) by (auto simp: cont_iff intro: that[of "unat d - 128"])
  have n: "unat (join2 c d) = i * 64 + j" using i j by (simp add: join2_nat mod_lead)
  show "128 \<le> unat (join2 c d)" "unat (join2 c d) < 2048" using i j by (simp_all add: n)
  then show "enc_nat (unat (join2 c d)) = [unat c, unat d]"
    by (simp add: enc_nat_def n base64 j(2)) (simp add: i j)
qed

lemma join3_sound:
  assumes "224 \<le> unat c" "unat c < 240" "cont d" "cont e" "unat c = 224 \<Longrightarrow> 160 \<le> unat d" "unat c = 237 \<Longrightarrow> unat d < 160"
  shows "enc_nat (unat (join3 c d e)) = [unat c, unat d, unat e]" "scalar (join3 c d e)"
    "2048 \<le> unat (join3 c d e)" "unat (join3 c d e) < 65536"
proof -
  obtain i where i: "unat c = 224 + i" "i < 16" using assms(1,2) by (auto intro: that[of "unat c - 224"])
  obtain j where j: "unat d = 128 + j" "j < 64" using assms(3) by (auto simp: cont_iff intro: that[of "unat d - 128"])
  obtain k where k: "unat e = 128 + k" "k < 64" using assms(4) by (auto simp: cont_iff intro: that[of "unat e - 128"])
  have n: "unat (join3 c d e) = (i * 64 + j) * 64 + k" using i j k by (simp add: join3_nat mod_lead)
  show l: "2048 \<le> unat (join3 c d e)" using assms(5) i j by (cases "i = 0") (simp_all add: n)
  show "unat (join3 c d e) < 65536" using i j k by (simp add: n)
  then have "enc_nat (unat (join3 c d e)) =
      [224 + unat (join3 c d e) div 64 div 64, 128 + unat (join3 c d e) div 64 mod 64, 128 + unat (join3 c d e) mod 64]"
    using l by (simp add: enc_nat_def)
  then show "enc_nat (unat (join3 c d e)) = [unat c, unat d, unat e]"
    by (simp only: n base64[OF j(2)] base64[OF k(2)] i j k)
  consider "i < 13" | "i = 13" "j < 32" | "13 < i" using assms(6) i j by fastforce
  then show "scalar (join3 c d e)"
  proof cases
    case 1 then show ?thesis using j k by (simp add: scalar_nat n)
  next
    case 2 then show ?thesis using k by (simp add: scalar_nat n)
  next
    case 3 then show ?thesis using i j k by (simp add: scalar_nat n)
  qed
qed

lemma join4_sound:
  assumes "240 \<le> unat c" "unat c < 245" "cont d" "cont e" "cont f"
    "unat c = 240 \<Longrightarrow> 144 \<le> unat d" "unat c = 244 \<Longrightarrow> unat d < 144"
  shows "enc_nat (unat (join4 c d e f)) = [unat c, unat d, unat e, unat f]" "scalar (join4 c d e f)"
    "65536 \<le> unat (join4 c d e f)"
proof -
  obtain i where i: "unat c = 240 + i" "i < 5" using assms(1,2) by (auto intro: that[of "unat c - 240"])
  obtain j where j: "unat d = 128 + j" "j < 64" using assms(3) by (auto simp: cont_iff intro: that[of "unat d - 128"])
  obtain k where k: "unat e = 128 + k" "k < 64" using assms(4) by (auto simp: cont_iff intro: that[of "unat e - 128"])
  obtain l where l: "unat f = 128 + l" "l < 64" using assms(5) by (auto simp: cont_iff intro: that[of "unat f - 128"])
  have n: "unat (join4 c d e f) = ((i * 64 + j) * 64 + k) * 64 + l" using i j k l by (simp add: join4_nat mod_lead)
  show b: "65536 \<le> unat (join4 c d e f)" using assms(6) i j by (cases "i = 0") (simp_all add: n)
  then have "enc_nat (unat (join4 c d e f)) =
      [240 + unat (join4 c d e f) div 64 div 64 div 64, 128 + unat (join4 c d e f) div 64 div 64 mod 64,
       128 + unat (join4 c d e f) div 64 mod 64, 128 + unat (join4 c d e f) mod 64]"
    by (simp add: enc_nat_def)
  then show "enc_nat (unat (join4 c d e f)) = [unat c, unat d, unat e, unat f]"
    by (simp only: n base64[OF j(2)] base64[OF k(2)] base64[OF l(2)] i j k l)
  consider "i < 4" | "i = 4" "j < 16" using assms(7) i j by fastforce
  then show "scalar (join4 c d e f)"
  proof cases
    case 1 then show ?thesis using b j k l by (simp add: scalar_nat n)
  next
    case 2 then show ?thesis using k l by (simp add: scalar_nat n)
  qed
qed


lemma byte_le_nat: "(b :: byte) < c \<longleftrightarrow> unat b < unat c" "b = c \<longleftrightarrow> unat b = unat c"
  by (simp_all add: word_less_nat_alt word_unat_eq_iff)

lemma scalar_bound: "scalar cp \<Longrightarrow> unat cp < 2 ^ 21"
  by (simp add: scalar_nat)

lemma encode_of_enc_nat:
  "scalar cp \<Longrightarrow> enc_nat (unat cp) = map unat bs \<Longrightarrow> utf8_encode cp = bs"
  using utf8_encode_nat[OF scalar_bound] by (metis map_unat_inject)

lemma take_1_2_3_4:
  "1 \<le> length p \<Longrightarrow> take 1 p = [p ! 0]"
  "2 \<le> length p \<Longrightarrow> take 2 p = [p ! 0, p ! 1]"
  "3 \<le> length p \<Longrightarrow> take 3 p = [p ! 0, p ! 1, p ! 2]"
  "4 \<le> length p \<Longrightarrow> take 4 p = [p ! 0, p ! 1, p ! 2, p ! 3]"
  by (auto simp: numeral_eq_Suc Suc_le_length_iff)

text \<open>What the strict reader accepts is the encoding of the scalar it returns.\<close>

lemma utf8_strict_sound:
  assumes "utf8_strict p = Utf8_Scalar n cp"
  shows "scalar cp \<and> take n p = utf8_encode cp \<and> n = length (utf8_encode cp)"
proof -
  have p: "p \<noteq> []" using assms by (auto simp: utf8_strict_def)
  let ?c = "p ! 0"
  consider "unat ?c < 128" | "194 \<le> unat ?c" "unat ?c < 224" | "224 \<le> unat ?c" "unat ?c < 240"
    | "240 \<le> unat ?c" "unat ?c < 245"
    using assms by (force simp: utf8_strict_def byte_le_nat Let_def split: if_splits)
  then have "scalar cp \<and> enc_nat (unat cp) = map unat (take n p) \<and> n = length (take n p)"
  proof cases
    case 1
    then have "n = 1" "cp = ucast ?c" using assms p by (simp_all add: utf8_strict_def byte_le_nat Let_def)
    then show ?thesis using 1 p
      by (simp add: scalar_nat enc_nat_def unat_ucast_byte take_1_2_3_4[simplified] Suc_le_eq)
  next
    case 2
    then have "n = 2" "cp = join2 ?c (p ! 1)" "2 \<le> length p" "cont (p ! 1)"
      using assms p by (simp_all add: utf8_strict_def byte_le_nat Let_def split: if_splits)
    then show ?thesis using join2_sound[OF 2, of "p ! 1"] by (auto simp: take_1_2_3_4 scalar_nat)
  next
    case 3
    then have "n = 3" "cp = join3 ?c (p ! 1) (p ! 2)" "3 \<le> length p" "cont (p ! 1)" "cont (p ! 2)"
      "unat ?c = 224 \<longrightarrow> 160 \<le> unat (p ! 1)" "unat ?c = 237 \<longrightarrow> unat (p ! 1) < 160"
      using assms p
      by (auto simp add: utf8_strict_def byte_le_nat Let_def cont_iff split: if_splits)
    then show ?thesis using join3_sound[OF 3, of "p ! 1" "p ! 2"] by (auto simp: take_1_2_3_4)
  next
    case 4
    then have "n = 4" "cp = join4 ?c (p ! 1) (p ! 2) (p ! 3)" "4 \<le> length p" "cont (p ! 1)" "cont (p ! 2)" "cont (p ! 3)"
      "unat ?c = 240 \<longrightarrow> 144 \<le> unat (p ! 1)" "unat ?c = 244 \<longrightarrow> unat (p ! 1) < 144"
      using assms p
      by (auto simp add: utf8_strict_def byte_le_nat Let_def cont_iff split: if_splits)
    then show ?thesis using join4_sound[OF 4, of "p ! 1" "p ! 2" "p ! 3"] by (auto simp: take_1_2_3_4)
  qed
  then show ?thesis using encode_of_enc_nat by metis
qed


lemma enc_nat_bytes:
  assumes "scalar cp"
  obtains (one) b where "unat cp < 128" "utf8_encode cp = [b]" "unat b = unat cp"
  | (two) i j b c where "2 \<le> i" "i < 32" "j < 64" "unat cp = i * 64 + j" "utf8_encode cp = [b, c]"
      "unat b = 192 + i" "unat c = 128 + j"
  | (three) i j k b c d where "i < 16" "j < 64" "k < 64" "unat cp = (i * 64 + j) * 64 + k" "utf8_encode cp = [b, c, d]"
      "unat b = 224 + i" "unat c = 128 + j" "unat d = 128 + k" "i = 0 \<Longrightarrow> 32 \<le> j" "i = 13 \<Longrightarrow> j < 32"
  | (four) i j k l b c d e where "i < 5" "j < 64" "k < 64" "l < 64" "unat cp = ((i * 64 + j) * 64 + k) * 64 + l"
      "utf8_encode cp = [b, c, d, e]" "unat b = 240 + i" "unat c = 128 + j" "unat d = 128 + k" "unat e = 128 + l"
      "i = 0 \<Longrightarrow> 16 \<le> j" "i = 4 \<Longrightarrow> j < 16"
proof -
  let ?n = "unat cp"
  note enc = utf8_encode_nat[OF scalar_bound[OF assms]]
  have sc: "?n < 55296 \<or> 57344 \<le> ?n" "?n < 1114112" using assms by (auto simp: scalar_nat)
  have dm: "?n div 64 * 64 + ?n mod 64 = ?n"
    "?n div 64 div 64 * 64 + ?n div 64 mod 64 = ?n div 64"
    "?n div 64 div 64 div 64 * 64 + ?n div 64 div 64 mod 64 = ?n div 64 div 64" by simp_all
  have lt: "x div 64 < y" if "x < y * 64" for x y :: nat using that by (simp add: less_mult_imp_div_less)
  have m: "x mod 64 < 64" for x :: nat by simp
  show ?thesis
  proof (cases "?n < 128")
    case True
    then show ?thesis using enc that(1) by (auto simp: enc_nat_def)
  next
    case n1: False
    show ?thesis
    proof (cases "?n < 2048")
      case True
      then have "map unat (utf8_encode cp) = [192 + ?n div 64, 128 + ?n mod 64]" using enc n1 by (simp add: enc_nat_def)
      then obtain b c where "utf8_encode cp = [b, c]" "unat b = 192 + ?n div 64" "unat c = 128 + ?n mod 64" by auto
      then show ?thesis using n1 True dm m by (intro that(2)[of "?n div 64" "?n mod 64" b c]) (auto simp: lt)
    next
      case n2: False
      show ?thesis
      proof (cases "?n < 65536")
        case True
        obtain i j k where ijk: "i = ?n div 64 div 64" "j = ?n div 64 mod 64" "k = ?n mod 64" by simp
        have "map unat (utf8_encode cp) = [224 + i, 128 + j, 128 + k]" using enc n1 n2 True by (simp add: enc_nat_def ijk)
        then obtain b c d where b: "utf8_encode cp = [b, c, d]" "unat b = 224 + i" "unat c = 128 + j" "unat d = 128 + k"
          by auto
        have n: "?n = (i * 64 + j) * 64 + k" by (simp add: ijk)
        have jk: "j < 64" "k < 64" by (simp_all add: ijk)
        have n': "?n = i * 4096 + j * 64 + k" using n by simp
        have "i < 16" using n' True by linarith
        moreover have "32 \<le> j" if "i = 0" using n' n2 jk that by linarith
        moreover have "j < 32" if "i = 13" using n' sc jk that by linarith
        ultimately show ?thesis using jk n b by (intro that(3))
      next
        case n3: False
        obtain i j k l where ijk: "i = ?n div 64 div 64 div 64" "j = ?n div 64 div 64 mod 64" "k = ?n div 64 mod 64"
          "l = ?n mod 64" by simp
        have "map unat (utf8_encode cp) = [240 + i, 128 + j, 128 + k, 128 + l]" using enc n1 n2 n3 by (simp add: enc_nat_def ijk)
        then obtain b c d e where b: "utf8_encode cp = [b, c, d, e]" "unat b = 240 + i" "unat c = 128 + j"
            "unat d = 128 + k" "unat e = 128 + l" by auto
        have n: "?n = ((i * 64 + j) * 64 + k) * 64 + l" by (simp add: ijk)
        have jk: "j < 64" "k < 64" "l < 64" by (simp_all add: ijk)
        have n': "?n = i * 262144 + j * 4096 + k * 64 + l" using n by simp
        have "i < 5" using n' sc by linarith
        moreover have "16 \<le> j" if "i = 0" using n' n3 jk that by linarith
        moreover have "j < 16" if "i = 4" using n' sc jk that by linarith
        ultimately show ?thesis using jk n b by (intro that(4))
      qed
    qed
  qed
qed

lemma utf8_strict_complete:
  assumes "scalar cp"
  shows "utf8_strict (utf8_encode cp @ r) = Utf8_Scalar (length (utf8_encode cp)) cp"
  using assms
proof (cases rule: enc_nat_bytes)
  case (one b)
  then show ?thesis by (simp add: utf8_strict_def byte_le_nat word_unat_eq_iff unat_ucast_byte)
next
  case (two i j b c)
  then have "join2 b c = cp" by (simp add: word_unat_eq_iff join2_nat mod_lead)
  with two show ?thesis by (simp add: utf8_strict_def byte_le_nat cont_iff)
next
  case (three i j k b c d)
  then have "join3 b c d = cp" by (simp add: word_unat_eq_iff join3_nat mod_lead)
  moreover have "\<not> (if i = 0 then 160 else 128) > unat c" "\<not> unat c > (if i = 13 then 159 else 191)"
    using three by auto
  ultimately show ?thesis using three by (auto simp add: utf8_strict_def byte_le_nat cont_iff Let_def)
next
  case (four i j k l b c d e)
  then have "join4 b c d e = cp" by (simp add: word_unat_eq_iff join4_nat mod_lead)
  moreover have "\<not> (if i = 0 then 144 else 128) > unat c" "\<not> unat c > (if i = 4 then 143 else 191)"
    using four by auto
  ultimately show ?thesis using four by (auto simp add: utf8_strict_def byte_le_nat cont_iff Let_def)
qed


lemma utf8_strict_pos: "utf8_strict p = Utf8_Scalar n cp \<Longrightarrow> 0 < n \<and> n \<le> length p"
proof -
  assume s: "utf8_strict p = Utf8_Scalar n cp"
  have "0 < length (utf8_encode c)" for c by (simp add: utf8_encode_def)
  moreover from utf8_strict_sound[OF s] have "take n p = utf8_encode cp" "n = length (utf8_encode cp)" by auto
  ultimately show ?thesis by (metis length_take min.cobounded1)
qed

text \<open>The bytes that complete an unfinished sequence.\<close>

definition utf8_pad :: "byte list \<Rightarrow> byte list" where
  "utf8_pad p =
     (let c = p ! 0; d = (if c = 0xE0 then 0xA0 else if c = 0xF0 then 0x90 else 0x80) in
      if c < 0xE0 then [0x80]
      else if c < 0xF0 then (if length p = 1 then [d, 0x80] else [0x80])
      else (if length p = 1 then [d, 0x80, 0x80] else if length p = 2 then [0x80, 0x80] else [0x80]))"

lemma cont_80: "cont 0x80"
  by (simp add: cont_iff)

lemma utf8_incomplete_completes:
  assumes "utf8_strict p = Utf8_Incomplete" "p \<noteq> []"
  shows "\<exists>cp. utf8_strict (p @ utf8_pad p) = Utf8_Scalar (length (p @ utf8_pad p)) cp \<and> utf8_pad p \<noteq> []"
proof -
  obtain c q where p: "p = c # q" using assms(2) by (cases p) auto
  consider "q = []" | d where "q = [d]" | d e where "q = [d, e]" | d e f r where "q = d # e # f # r"
    by (metis list.exhaust)
  then show ?thesis
  proof cases
    case 1
    have "194 \<le> unat c" "unat c < 245" using assms(1) by (auto simp: p 1 utf8_strict_def byte_le_nat Let_def split: if_splits)
    then show ?thesis
      by (auto simp: p 1 utf8_strict_def utf8_pad_def Let_def byte_le_nat cont_80)
  next
    case 2
    then show ?thesis using assms(1)
      by (auto simp: p 2 utf8_strict_def utf8_pad_def Let_def byte_le_nat cont_80 split: if_splits)
  next
    case 3
    then show ?thesis using assms(1)
      by (auto simp: p 3 utf8_strict_def utf8_pad_def Let_def byte_le_nat cont_80 split: if_splits)
  next
    case 4
    then show ?thesis using assms(1)
      by (auto simp: p 4 utf8_strict_def Let_def split: if_splits)
  qed
qed

lemma utf8_prefix_incomplete:
  assumes "scalar cp" "p @ r = utf8_encode cp" "p \<noteq> []" "r \<noteq> []"
  shows "utf8_strict p = Utf8_Incomplete"
  using assms(1)
proof (cases rule: enc_nat_bytes)
  case (one b)
  then show ?thesis using assms by (simp add: append_eq_Cons_conv)
next
  case (two i j b c)
  then have "p = [b]" using assms by (auto simp: append_eq_Cons_conv)
  with two show ?thesis by (simp add: utf8_strict_def byte_le_nat)
next
  case (three i j k b c d)
  then consider "p = [b]" | "p = [b, c]" using assms by (auto simp: append_eq_Cons_conv)
  moreover have "i = 0 \<longrightarrow> \<not> j < 32" "i = 13 \<longrightarrow> \<not> 31 < j"
    using three by auto
  ultimately show ?thesis using three by cases (simp_all add: utf8_strict_def byte_le_nat cont_iff Let_def)
next
  case (four i j k l b c d e)
  then consider "p = [b]" | "p = [b, c]" | "p = [b, c, d]" using assms by (auto simp: append_eq_Cons_conv)
  moreover have "i = 0 \<longrightarrow> \<not> j < 16" "i = 4 \<longrightarrow> \<not> 15 < j"
    using four by auto
  ultimately show ?thesis using four by cases (simp_all add: utf8_strict_def byte_le_nat cont_iff Let_def)
qed

lemma utf8_incomplete_iff:
  assumes "p \<noteq> []"
  shows "utf8_strict p = Utf8_Incomplete \<longleftrightarrow> (\<exists>r cp. r \<noteq> [] \<and> scalar cp \<and> p @ r = utf8_encode cp)"
proof
  assume "utf8_strict p = Utf8_Incomplete"
  then obtain cp where c: "utf8_strict (p @ utf8_pad p) = Utf8_Scalar (length (p @ utf8_pad p)) cp" "utf8_pad p \<noteq> []"
    using utf8_incomplete_completes assms by blast
  from utf8_strict_sound[OF c(1)] c(2) show "\<exists>r cp. r \<noteq> [] \<and> scalar cp \<and> p @ r = utf8_encode cp"
    by (metis take_all order_refl)
next
  show "\<exists>r cp. r \<noteq> [] \<and> scalar cp \<and> p @ r = utf8_encode cp \<Longrightarrow> utf8_strict p = Utf8_Incomplete"
    using utf8_prefix_incomplete assms by blast
qed

text \<open>C34: The strict reader is the exact inverse of the encoder. It returns a scalar just when the
  buffer starts with the encoding of that scalar (so no overlong form, no surrogate and nothing above
  U+10FFFF is accepted), and it answers incomplete just when the buffer is a proper prefix of an encoding.\<close>
theorem utf8_strict_exact:
  "(utf8_strict p = Utf8_Scalar n cp \<longleftrightarrow> scalar cp \<and> n = length (utf8_encode cp) \<and> take n p = utf8_encode cp) \<and>
   (p = [] \<or> (utf8_strict p = Utf8_Incomplete \<longleftrightarrow> (\<exists>r c. r \<noteq> [] \<and> scalar c \<and> p @ r = utf8_encode c)))"
proof (intro conjI)
  show "utf8_strict p = Utf8_Scalar n cp \<longleftrightarrow>
      scalar cp \<and> n = length (utf8_encode cp) \<and> take n p = utf8_encode cp" (is "?l = ?r")
  proof
    show "?l \<Longrightarrow> ?r" using utf8_strict_sound by blast
    show "?r \<Longrightarrow> ?l" using utf8_strict_complete[of cp "drop n p"] append_take_drop_id[of n p] by metis
  qed
  show "p = [] \<or> (utf8_strict p = Utf8_Incomplete \<longleftrightarrow> (\<exists>r c. r \<noteq> [] \<and> scalar c \<and> p @ r = utf8_encode c))"
    using utf8_incomplete_iff by blast
qed

end
