(* ===== verification/Kappa_Text.thy ===== *)
theory Kappa_Text
  imports Kappa_Utf8
begin

text \<open>
  Loops over UTF-8 buffers (\<open>runtime/unicode.c\<close>) and the string primitives of
  \<open>runtime/prims.c\<close> built on them. The locale states what a reader of an encoding promises; it is
  interpreted on the strict and on the lenient reader, and the loops are shown to recover the
  scalars of a text from it.
\<close>

section \<open>Loops of unicode.c\<close>

function utf8_valid_all :: "byte list \<Rightarrow> bool" where
  "utf8_valid_all p =
     (if p = [] then True
      else case utf8_strict p of
        Utf8_Scalar n cp \<Rightarrow> utf8_valid_all (drop n p)
      | _ \<Rightarrow> False)"
  by pat_completeness auto
termination by (relation "measure length") (auto dest: utf8_strict_pos)

function utf8_valid_prefix_len :: "byte list \<Rightarrow> nat" where
  "utf8_valid_prefix_len p =
     (if p = [] then 0
      else case utf8_strict p of
        Utf8_Scalar n cp \<Rightarrow> n + utf8_valid_prefix_len (drop n p)
      | _ \<Rightarrow> 0)"
  by pat_completeness auto
termination by (relation "measure length") (auto dest: utf8_strict_pos)

definition utf8_is_incomplete_tail :: "byte list \<Rightarrow> bool" where
  "utf8_is_incomplete_tail p \<longleftrightarrow>
     utf8_valid_all (p @ replicate 1 0x80) \<or> utf8_valid_all (p @ replicate 2 0x80)
       \<or> utf8_valid_all (p @ replicate 3 0x80)"

text \<open>\<open>p += (k > 0 ? k : 1)\<close>: the lenient loops always advance.\<close>

definition utf8_step :: "byte list \<Rightarrow> byte list" where
  "utf8_step p = (let k = fst (utf8_next p) in drop (if k > 0 then k else 1) p)"

lemma utf8_step_less: "p \<noteq> [] \<Longrightarrow> length (utf8_step p) < length p"
  by (auto simp: utf8_step_def Let_def)

function utf8_scalar_count :: "byte list \<Rightarrow> nat" where
  "utf8_scalar_count p = (if p = [] then 0 else Suc (utf8_scalar_count (utf8_step p)))"
  by pat_completeness auto
termination by (relation "measure length") (auto simp: utf8_step_less)

function utf8_scalar_byte_offset :: "byte list \<Rightarrow> nat \<Rightarrow> nat" where
  "utf8_scalar_byte_offset p idx =
     (if p = [] \<or> idx = 0 then 0
      else (length p - length (utf8_step p)) + utf8_scalar_byte_offset (utf8_step p) (idx - 1))"
  by pat_completeness auto
termination by (relation "measure (length \<circ> fst)") (auto simp: utf8_step_less)

function ku_decode :: "byte list \<Rightarrow> u32 list" where
  "ku_decode p = (if p = [] then [] else snd (utf8_next p) # ku_decode (utf8_step p))"
  by pat_completeness auto
termination by (relation "measure length") (auto simp: utf8_step_less)

declare utf8_valid_all.simps [simp del] utf8_valid_prefix_len.simps [simp del]
  utf8_scalar_count.simps [simp del] utf8_scalar_byte_offset.simps [simp del] ku_decode.simps [simp del]

section \<open>Readers of an encoding\<close>

text \<open>A reader recovers a symbol and the length of its code from any buffer that starts with it.\<close>

locale reader =
  fixes enc :: "'a \<Rightarrow> byte list"
    and ok :: "'a \<Rightarrow> bool"
    and rd :: "byte list \<Rightarrow> (nat \<times> 'a) option"
  assumes rd_enc: "ok x \<Longrightarrow> rd (enc x @ r) = Some (length (enc x), x)"
    and enc_ne: "enc x \<noteq> []"
begin

lemma enc_cancel: "ok x \<Longrightarrow> ok y \<Longrightarrow> enc x @ r = enc y @ s \<Longrightarrow> x = y \<and> r = s"
  using rd_enc[of x r] rd_enc[of y s] by auto

lemma concat_prefix:
  "list_all ok xs \<Longrightarrow> list_all ok ys \<Longrightarrow> concat (map enc xs) @ r = concat (map enc ys) \<Longrightarrow>
   \<exists>zs. ys = xs @ zs \<and> r = concat (map enc zs)"
proof (induction xs arbitrary: ys)
  case Nil
  then show ?case by auto
next
  case (Cons x xs)
  then obtain y zs where y: "ys = y # zs" using enc_ne[of x] by (cases ys) auto
  with Cons.prems have "x = y" "concat (map enc xs) @ r = concat (map enc zs)"
    using enc_cancel[of x y "concat (map enc xs) @ r" "concat (map enc zs)"] by auto
  with Cons.IH[of zs] Cons.prems y show ?case by auto
qed

lemma unique: "list_all ok xs \<Longrightarrow> list_all ok ys \<Longrightarrow> concat (map enc xs) = concat (map enc ys) \<Longrightarrow> xs = ys"
proof -
  assume a: "list_all ok xs" "list_all ok ys" "concat (map enc xs) = concat (map enc ys)"
  from concat_prefix[of xs ys "[]"] a obtain zs where "ys = xs @ zs" "concat (map enc zs) = []" by auto
  then show "xs = ys" using enc_ne by (cases zs) auto
qed

end

fun strict_rd :: "byte list \<Rightarrow> (nat \<times> u32) option" where
  "strict_rd p = (case utf8_strict p of Utf8_Scalar n cp \<Rightarrow> Some (n, cp) | _ \<Rightarrow> None)"

definition next_rd :: "byte list \<Rightarrow> (nat \<times> u32) option" where
  "next_rd p = (if p = [] then None else Some (utf8_next p))"

lemma utf8_encode_ne [simp]: "utf8_encode cp \<noteq> []"
  by (simp add: utf8_encode_def)

interpretation strict: reader utf8_encode scalar strict_rd
  by unfold_locales (simp_all add: utf8_strict_complete)

lemma utf8_next_encode:
  assumes "scalar cp"
  shows "utf8_next (utf8_encode cp @ r) = (length (utf8_encode cp), cp)"
  using assms
proof (cases rule: enc_nat_bytes)
  case (one b)
  then show ?thesis by (simp add: utf8_next_def byte_le_nat word_unat_eq_iff unat_ucast_byte)
next
  case (two i j b c)
  then have "join2 b c = cp" by (simp add: word_unat_eq_iff join2_nat mod_lead)
  moreover have "unat (drop_bit 5 b) = 6" using two by (simp add: unat_shift)
  ultimately show ?thesis using two by (simp add: utf8_next_def byte_le_nat)
next
  case (three i j k b c d)
  then have "join3 b c d = cp" by (simp add: word_unat_eq_iff join3_nat mod_lead)
  moreover have "unat (drop_bit 5 b) = 7" "unat (drop_bit 4 b) = 14" using three by (simp_all add: unat_shift)
  ultimately show ?thesis using three by (simp add: utf8_next_def byte_le_nat Let_def)
next
  case (four i j k l b c d e)
  then have "join4 b c d e = cp" by (simp add: word_unat_eq_iff join4_nat mod_lead)
  moreover have "unat (drop_bit 5 b) = 7" "unat (drop_bit 4 b) = 15" "unat (drop_bit 3 b) = 30" using four by (simp_all add: unat_shift)
  ultimately show ?thesis using four by (simp add: utf8_next_def byte_le_nat Let_def)
qed

interpretation lenient: reader utf8_encode scalar next_rd
  by unfold_locales (simp_all add: utf8_next_encode next_rd_def)

section \<open>Texts\<close>

definition text_of :: "u32 list \<Rightarrow> byte list" where
  "text_of cps = concat (map utf8_encode cps)"

lemma text_of_simps [simp]:
  "text_of [] = []" "text_of (c # cs) = utf8_encode c @ text_of cs" "text_of (xs @ ys) = text_of xs @ text_of ys"
  by (simp_all add: text_of_def)

lemma text_of_empty [simp]: "text_of cps = [] \<longleftrightarrow> cps = []"
  by (cases cps) simp_all

lemma strict_scalarD:
  assumes "utf8_strict p = Utf8_Scalar n cp"
  shows "scalar cp \<and> p = utf8_encode cp @ drop n p"
  using utf8_strict_sound[OF assms] by (metis append_take_drop_id)

lemma valid_all_text: "list_all scalar cps \<Longrightarrow> utf8_valid_all (text_of cps)"
  by (induction cps) (simp_all add: utf8_valid_all.simps utf8_strict_complete)

lemma valid_all_ex: "utf8_valid_all p \<Longrightarrow> \<exists>cps. list_all scalar cps \<and> p = text_of cps"
proof (induction p rule: utf8_valid_all.induct)
  case (1 p)
  show ?case
  proof (cases "p = []")
    case True
    then have "list_all scalar [] \<and> p = text_of []" by simp
    then show ?thesis by blast
  next
    case False
    with 1(2) obtain n cp where s: "utf8_strict p = Utf8_Scalar n cp" "utf8_valid_all (drop n p)"
      by (auto simp: utf8_valid_all.simps[of p] split: utf8_res.splits)
    from 1(1)[OF False s] obtain cps where "list_all scalar cps" "drop n p = text_of cps" by blast
    with strict_scalarD[OF s(1)] have "list_all scalar (cp # cps) \<and> p = text_of (cp # cps)" by simp
    then show ?thesis by blast
  qed
qed

lemma valid_all_iff: "utf8_valid_all p \<longleftrightarrow> (\<exists>cps. list_all scalar cps \<and> p = text_of cps)"
  using valid_all_text valid_all_ex by blast

lemma utf8_step_encode: "scalar cp \<Longrightarrow> utf8_step (utf8_encode cp @ r) = r"
  by (simp add: utf8_step_def utf8_next_encode)

lemma decode_text: "list_all scalar cps \<Longrightarrow> ku_decode (text_of cps) = cps"
  by (induction cps) (simp_all add: ku_decode.simps utf8_step_encode utf8_next_encode)

lemma count_text: "list_all scalar cps \<Longrightarrow> utf8_scalar_count (text_of cps) = length cps"
  by (induction cps) (simp_all add: utf8_scalar_count.simps utf8_step_encode)

lemma offset_text:
  "list_all scalar cps \<Longrightarrow> utf8_scalar_byte_offset (text_of cps) i = length (text_of (take i cps))"
proof (induction cps arbitrary: i)
  case Nil
  then show ?case by (simp add: utf8_scalar_byte_offset.simps)
next
  case (Cons c cps)
  then show ?case
    by (cases i) (simp_all add: utf8_scalar_byte_offset.simps[of "_ @ _"] utf8_step_encode)
qed

lemma drop_text: "drop (length (text_of (take i cps))) (text_of cps) = text_of (drop i cps)"
  by (metis append_eq_conv_conj append_take_drop_id text_of_simps(3))

text \<open>C35: Every reader recovers a text. For a list of scalars, its encoding passes the validity loop, is
  decoded back to the list, has as many scalars as the list, and the byte offset of an index is the
  length of the encoding before it; and the validity loop accepts nothing else.\<close>
theorem utf8_text_readers:
  assumes "list_all scalar cps"
  shows "utf8_valid_all (text_of cps) \<and> ku_decode (text_of cps) = cps \<and>
    utf8_scalar_count (text_of cps) = length cps \<and>
    utf8_scalar_byte_offset (text_of cps) i = length (text_of (take i cps)) \<and>
    (utf8_valid_all p \<longleftrightarrow> (\<exists>ds. list_all scalar ds \<and> p = text_of ds))"
  using assms valid_all_text decode_text count_text offset_text valid_all_iff by auto

lemma utf8_text_readers_witness:
  "ku_decode (text_of [0x48, 0xE9, 0x1F600]) = [0x48, 0xE9, 0x1F600] \<and>
   utf8_scalar_byte_offset (text_of [0x48, 0xE9, 0x1F600]) 2 = 3"
  using utf8_text_readers[of "[0x48, 0xE9, 0x1F600]" 2 "[]"]
  by (simp add: scalar_def scalar_range_def) (simp add: text_of_def utf8_encode_def)

section \<open>The longest valid prefix\<close>

lemma prefix_len_le: "utf8_valid_prefix_len p \<le> length p"
proof (induction p rule: utf8_valid_prefix_len.induct)
  case (1 p)
  then show ?case
    using utf8_strict_pos[of p] by (subst utf8_valid_prefix_len.simps) (fastforce split: utf8_res.splits)
qed

lemma prefix_len_split:
  "\<exists>cps. list_all scalar cps \<and> take (utf8_valid_prefix_len p) p = text_of cps \<and>
     (let r = drop (utf8_valid_prefix_len p) p in r = [] \<or> strict_rd r = None)"
proof (induction p rule: utf8_valid_prefix_len.induct)
  case (1 p)
  show ?case
  proof (cases "\<exists>n cp. p \<noteq> [] \<and> utf8_strict p = Utf8_Scalar n cp")
    case True
    then obtain n cp where s: "p \<noteq> []" "utf8_strict p = Utf8_Scalar n cp" by blast
    let ?q = "drop n p"
    have l: "utf8_valid_prefix_len p = n + utf8_valid_prefix_len ?q"
      using s by (simp add: utf8_valid_prefix_len.simps[of p])
    from 1[OF s] obtain cps where c: "list_all scalar cps" "take (utf8_valid_prefix_len ?q) ?q = text_of cps"
      "let r = drop (utf8_valid_prefix_len ?q) ?q in r = [] \<or> strict_rd r = None" by blast
    have "take n p = utf8_encode cp" using utf8_strict_sound[OF s(2)] by blast
    then have "take (n + utf8_valid_prefix_len ?q) p = text_of (cp # cps)"
      using c(2) by (simp add: take_add)
    moreover have "drop (utf8_valid_prefix_len p) p = drop (utf8_valid_prefix_len ?q) ?q"
      by (simp add: l add.commute)
    moreover have "list_all scalar (cp # cps)" using c(1) strict_scalarD[OF s(2)] by simp
    ultimately show ?thesis using c(3) l by metis
  next
    case False
    then have "utf8_valid_prefix_len p = 0"
      by (cases "p = []"; cases "utf8_strict p") (auto simp: utf8_valid_prefix_len.simps)
    moreover have "p = [] \<or> strict_rd p = None" using False by (auto split: utf8_res.splits)
    ultimately have "list_all scalar [] \<and> take (utf8_valid_prefix_len p) p = text_of [] \<and>
       (let r = drop (utf8_valid_prefix_len p) p in r = [] \<or> strict_rd r = None)" by simp
    then show ?thesis by blast
  qed
qed

lemma valid_take: "utf8_valid_all (take (utf8_valid_prefix_len p) p)"
  using prefix_len_split[of p] valid_all_text by metis

lemma prefix_len_max:
  assumes "utf8_valid_all (take k p)" "k \<le> length p"
  shows "k \<le> utf8_valid_prefix_len p"
proof -
  obtain cps where c: "list_all scalar cps" "take (utf8_valid_prefix_len p) p = text_of cps"
    and r: "drop (utf8_valid_prefix_len p) p = [] \<or> strict_rd (drop (utf8_valid_prefix_len p) p) = None"
    using prefix_len_split[of p] by (auto simp: Let_def)
  let ?n = "utf8_valid_prefix_len p"
  show ?thesis
  proof (rule ccontr)
    assume "\<not> k \<le> ?n"
    then have k: "?n < k" by simp
    obtain ds where d: "list_all scalar ds" "take k p = text_of ds" using valid_all_ex[OF assms(1)] by blast
    have "take k p = take ?n p @ take (k - ?n) (drop ?n p)" using k by (metis le_add_diff_inverse less_imp_le take_add)
    then have "concat (map utf8_encode cps) @ take (k - ?n) (drop ?n p) = concat (map utf8_encode ds)"
      using c(2) d(2) by (simp add: text_of_def)
    from strict.concat_prefix[OF c(1) d(1) this]
    obtain zs where z: "ds = cps @ zs" "take (k - ?n) (drop ?n p) = text_of zs" by (auto simp: text_of_def)
    have "take (k - ?n) (drop ?n p) \<noteq> []" using k assms(2) by simp
    then obtain y ys where zs: "zs = y # ys" using z(2) by (cases zs) auto
    have "drop ?n p = utf8_encode y @ text_of ys @ drop (k - ?n) (drop ?n p)"
      using z(2) zs by (metis append.assoc append_take_drop_id text_of_simps(2))
    moreover have "scalar y" using d(1) z(1) zs by simp
    ultimately have "strict_rd (drop ?n p) \<noteq> None \<and> drop ?n p \<noteq> []"
      using strict.rd_enc[of y] by (metis append_is_Nil_conv option.distinct(1) utf8_encode_ne)
    with r show False by blast
  qed
qed


text \<open>The streaming split is the longest one: the prefix it returns is valid, no longer prefix of
  the buffer is, and a buffer is wholly valid just when the prefix is all of it.\<close>
theorem utf8_prefix_longest:
  "utf8_valid_all (take (utf8_valid_prefix_len p) p) \<and> utf8_valid_prefix_len p \<le> length p \<and>
   utf8_valid_prefix_len p = Max {k. k \<le> length p \<and> utf8_valid_all (take k p)} \<and>
   (utf8_valid_all p \<longleftrightarrow> utf8_valid_prefix_len p = length p)"
proof (intro conjI)
  show "utf8_valid_all (take (utf8_valid_prefix_len p) p)" "utf8_valid_prefix_len p \<le> length p"
    by (rule valid_take prefix_len_le)+
  show "utf8_valid_prefix_len p = Max {k. k \<le> length p \<and> utf8_valid_all (take k p)}"
    by (rule Max_eqI[symmetric]) (auto simp: valid_take prefix_len_le prefix_len_max)
  show "utf8_valid_all p \<longleftrightarrow> utf8_valid_prefix_len p = length p"
    using valid_take[of p] prefix_len_max[of "length p" p] prefix_len_le[of p] by fastforce
qed

section \<open>The incomplete-tail heuristic\<close>

lemma strict_valid_first:
  "p \<noteq> [] \<Longrightarrow> utf8_valid_all p \<Longrightarrow> \<exists>cp. utf8_strict p = Utf8_Scalar (length (utf8_encode cp)) cp
      \<and> scalar cp \<and> (\<exists>cps. list_all scalar cps \<and> p = utf8_encode cp @ text_of cps)"
proof -
  assume a: "p \<noteq> []" "utf8_valid_all p"
  then obtain cps where c: "list_all scalar cps" "p = text_of cps" using valid_all_ex by blast
  with a obtain c ds where "cps = c # ds" by (cases cps) auto
  with c show ?thesis using utf8_strict_complete[of c "text_of ds"] by auto
qed

lemma incomplete_tail_iff:
  assumes "p \<noteq> []" "strict_rd p = None"
  shows "utf8_is_incomplete_tail p \<longleftrightarrow> utf8_strict p = Utf8_Incomplete \<and> p \<noteq> [0xE0] \<and> p \<noteq> [0xF0]"
proof
  assume t: "utf8_is_incomplete_tail p"
  then obtain k where k: "utf8_valid_all (p @ replicate k 0x80)" unfolding utf8_is_incomplete_tail_def by blast
  from strict_valid_first[OF _ k] assms(1) obtain cp cps where
    c: "scalar cp" "p @ replicate k 0x80 = utf8_encode cp @ text_of cps" by auto
  have "length p < length (utf8_encode cp)"
  proof (rule ccontr)
    assume "\<not> ?thesis"
    then have "p = utf8_encode cp @ take (length p - length (utf8_encode cp)) (text_of cps)"
      using c(2) by (metis append_eq_append_conv_if append_eq_conv_conj not_less take_append take_all)
    then show False using utf8_strict_complete[OF c(1)] assms(2) by (metis strict.rd_enc c(1) option.distinct(1))
  qed
  moreover then obtain r where r: "p @ r = utf8_encode cp" using c(2) by (auto simp: append_eq_append_conv2)
  ultimately have "r \<noteq> []" by auto
  note r = r this
  have i: "utf8_strict p = Utf8_Incomplete" by (rule utf8_prefix_incomplete[OF c(1) r(1) assms(1) r(2)])
  have "\<not> utf8_valid_all ([0xE0] @ replicate j 0x80)" "\<not> utf8_valid_all ([0xF0] @ replicate j 0x80)" for j
    by (cases j; simp add: utf8_valid_all.simps[of "_ # _"] utf8_strict_def byte_le_nat)+
  with k i show "utf8_strict p = Utf8_Incomplete \<and> p \<noteq> [0xE0] \<and> p \<noteq> [0xF0]" by metis
next
  assume a: "utf8_strict p = Utf8_Incomplete \<and> p \<noteq> [0xE0] \<and> p \<noteq> [0xF0]"
  with assms(1) obtain cp where
    c: "utf8_strict (p @ utf8_pad p) = Utf8_Scalar (length (p @ utf8_pad p)) cp"
    using utf8_incomplete_completes by blast
  obtain j where j: "utf8_pad p = replicate j 0x80" "j = 1 \<or> j = 2 \<or> j = 3"
  proof -
    have "p ! 0 = 0xE0 \<Longrightarrow> length p \<noteq> 1" "p ! 0 = 0xF0 \<Longrightarrow> length p \<noteq> 1"
      using a by (cases p; auto)+
    then have "utf8_pad p \<in> {replicate 1 0x80, replicate 2 0x80, replicate 3 0x80}"
      by (auto simp: utf8_pad_def Let_def numeral_eq_Suc)
    then show ?thesis using that by blast
  qed
  have "utf8_valid_all (p @ utf8_pad p)"
    using c assms(1) by (subst utf8_valid_all.simps) (simp add: utf8_valid_all.simps[of "[]"])
  with j show "utf8_is_incomplete_tail p" by (auto simp: utf8_is_incomplete_tail_def)
qed

section \<open>String and decoder primitives\<close>

text \<open>Reading the string or the scalar of a box without a test.\<close>

fun str_raw :: "kval \<Rightarrow> byte list kres" where
  "str_raw (KStr bs) = Inr bs"
| "str_raw _ = kundef"

fun chr_raw :: "kval \<Rightarrow> u32 kres" where
  "chr_raw (KChr c) = Inr c"
| "chr_raw _ = kundef"

definition kpf___utf8Bytes :: "kval \<Rightarrow> kval kres" where
  "kpf___utf8Bytes a = kbind (str_raw a) (\<lambda>s. Inr (KBytes s))"

definition kpf___utf8Valid :: "kval \<Rightarrow> kval kres" where
  "kpf___utf8Valid a = kbind (as_bytes a) (\<lambda>p. Inr (kbool (utf8_valid_all p)))"

text \<open>The lenient decode: an invalid byte becomes U+FFFD and is skipped, an incomplete tail becomes one
  U+FFFD and ends the text.\<close>

function utf8_lossy :: "byte list \<Rightarrow> byte list" where
  "utf8_lossy p =
     (if p = [] then []
      else case utf8_strict p of
        Utf8_Scalar n cp \<Rightarrow> take n p @ utf8_lossy (drop n p)
      | Utf8_Incomplete \<Rightarrow> [0xEF, 0xBF, 0xBD]
      | Utf8_Invalid \<Rightarrow> [0xEF, 0xBF, 0xBD] @ utf8_lossy (drop 1 p))"
  by pat_completeness auto
termination by (relation "measure length") (auto dest: utf8_strict_pos)

declare utf8_lossy.simps [simp del]

definition kpf___decodeUtf8Lossy :: "kval \<Rightarrow> kval kres" where
  "kpf___decodeUtf8Lossy a = kbind (as_bytes a) (\<lambda>p. Inr (KStr (utf8_lossy p)))"

definition kpf___byteLength :: "kval \<Rightarrow> kval kres" where
  "kpf___byteLength a = kbind (str_raw a) (\<lambda>s. Inr (klen s))"

definition kpf___uniScalarValue :: "kval \<Rightarrow> kval kres" where
  "kpf___uniScalarValue a = kbind (chr_raw a) (\<lambda>c. Inr (kint (ucast c)))"

definition kpf___scalarToString :: "kval \<Rightarrow> kval kres" where
  "kpf___scalarToString a = kbind (chr_raw a) (\<lambda>c. Inr (KStr (utf8_encode c)))"

definition kpf___scalarCount :: "kval \<Rightarrow> kval kres" where
  "kpf___scalarCount a = kbind (str_raw a) (\<lambda>s. Inr (kint (word_of_nat (utf8_scalar_count s))))"

definition kpf___stringScalars :: "kval \<Rightarrow> kval kres" where
  "kpf___stringScalars a = kbind (str_raw a) (\<lambda>s. Inr (foldr (\<lambda>c acc. kcons (KChr c) acc) (ku_decode s) knil))"

definition kpf___stringBuilderScalar :: "kval \<Rightarrow> kval \<Rightarrow> kval kres" where
  "kpf___stringBuilderScalar a b = kbind (chr_raw a) (\<lambda>c. str_append b (KStr (utf8_encode c)))"

definition kpf___stringBuilderString :: "kval \<Rightarrow> kval \<Rightarrow> kval kres" where
  "kpf___stringBuilderString a b = str_append b a"

definition kpf___stringEnd :: "kval \<Rightarrow> kval kres" where
  "kpf___stringEnd a = kbind (str_raw a) (\<lambda>s. Inr (kint (word_of_nat (utf8_scalar_count s))))"

definition kpf___stringCursorOffset :: "gmp \<Rightarrow> kval \<Rightarrow> kval \<Rightarrow> kval kres" where
  "kpf___stringCursorOffset G a ix =
     kbind (kas_int G ix) (\<lambda>i0. kbind (str_raw a) (\<lambda>s.
       let i = (if sint i0 < 0 then 0 else sint i0) in
       Inr (kint (word_of_nat (utf8_scalar_byte_offset s (nat i))))))"

definition kpf___stringNextScalar :: "gmp \<Rightarrow> kval \<Rightarrow> kval \<Rightarrow> kval kres" where
  "kpf___stringNextScalar G a ix =
     kbind (str_raw a) (\<lambda>p. kbind (kas_int G ix) (\<lambda>i.
       let cnt = utf8_scalar_count p in
       if sint i \<ge> 0 \<and> sint i < int cnt then
         (let off = utf8_scalar_byte_offset p (nat (sint i)) in
          Inr (ksome (KRec [(''next'', kint (i + 1)), (''scalar'', KChr (snd (utf8_next (drop off p))))])))
       else Inr knone))"

definition kpf___stringPrevScalar :: "gmp \<Rightarrow> kval \<Rightarrow> kval \<Rightarrow> kval kres" where
  "kpf___stringPrevScalar G a ix =
     kbind (str_raw a) (\<lambda>p. kbind (kas_int G ix) (\<lambda>i.
       let cnt = utf8_scalar_count p in
       if sint i > 0 \<and> sint i \<le> int cnt then
         (let off = utf8_scalar_byte_offset p (nat (sint i - 1)) in
          Inr (ksome (KRec [(''prev'', kint (i - 1)), (''scalar'', KChr (snd (utf8_next (drop off p))))])))
       else Inr knone))"

definition kpf___stringSpan :: "gmp \<Rightarrow> kval \<Rightarrow> kval \<Rightarrow> kval \<Rightarrow> kval kres" where
  "kpf___stringSpan G a x y =
     kbind (str_raw a) (\<lambda>p. kbind (kas_int G x) (\<lambda>aa. kbind (kas_int G y) (\<lambda>bb.
       let cnt = utf8_scalar_count p in
       if sint aa \<ge> 0 \<and> sint bb \<le> int cnt \<and> sint aa \<le> sint bb then
         (let oa = utf8_scalar_byte_offset p (nat (sint aa)); ob = utf8_scalar_byte_offset p (nat (sint bb)) in
          Inr (ksome (KStr (take (ob - oa) (drop oa p)))))
       else Inr knone)))"

text \<open>The incremental decoder: its state is the box of the bytes kept from the last chunk.\<close>

definition kpf___newUtf8Decoder :: kval where
  "kpf___newUtf8Decoder = KBytes []"

definition kpf___decodeUtf8Chunk :: "kval \<Rightarrow> kval \<Rightarrow> kval kres" where
  "kpf___decodeUtf8Chunk a d =
     kbind (as_bytes d) (\<lambda>pend. kbind (as_bytes a) (\<lambda>chunk.
       let comb = pend @ chunk;
           plen = utf8_valid_prefix_len comb;
           rest = drop plen comb
       in if rest \<noteq> [] \<and> \<not> utf8_is_incomplete_tail rest then Inr knone
          else Inr (ksome (KRec [(''decoder'', KBytes rest), (''text'', KStr (take plen comb))]))))"

definition kpf___finishUtf8Decoder :: "kval \<Rightarrow> kval kres" where
  "kpf___finishUtf8Decoder a =
     kbind (as_bytes a) (\<lambda>p. Inr (if length p = 0 then ksome (KStr []) else knone))"

section \<open>Cursors and spans\<close>

lemma cursor_at:
  assumes "list_all scalar cps" "i < length cps"
  shows "snd (utf8_next (drop (utf8_scalar_byte_offset (text_of cps) i) (text_of cps))) = cps ! i"
proof -
  have d: "drop i cps = cps ! i # drop (Suc i) cps" using assms(2) by (simp add: Cons_nth_drop_Suc)
  moreover have "scalar (cps ! i)" using assms by (simp add: list_all_length)
  ultimately show ?thesis
    using assms(1) by (simp add: offset_text drop_text utf8_next_encode)
qed

lemma text_slice:
  assumes "a \<le> b"
  shows "take (length (text_of (take b cps)) - length (text_of (take a cps))) (text_of (drop a cps))
     = text_of (take (b - a) (drop a cps))"
proof -
  have "text_of (take b cps) = text_of (take a cps) @ text_of (take (b - a) (drop a cps))"
    by (metis assms le_add_diff_inverse take_add text_of_simps(3))
  moreover have "text_of (drop a cps) = text_of (take (b - a) (drop a cps)) @ text_of (drop (b - a) (drop a cps))"
    by (metis append_take_drop_id text_of_simps(3))
  ultimately show ?thesis by simp
qed

text \<open>C37: String cursors index scalars, not bytes. On the encoding of a scalar list the forward and the
  backward step return the neighbouring scalar and cursor and refuse an index outside the text; a span
  is the encoding of the scalars between its cursors and is refused when the cursors are out of order
  or out of range.\<close>
theorem string_cursors:
  assumes "list_all scalar cps" "kas_int G x = Inr i" "kas_int G y = Inr j" "length cps < 2 ^ 63"
  shows "kpf___stringNextScalar G (KStr (text_of cps)) x =
      Inr (if 0 \<le> sint i \<and> sint i < int (length cps)
           then ksome (KRec [(''next'', kint (i + 1)), (''scalar'', KChr (cps ! nat (sint i)))]) else knone) \<and>
    kpf___stringPrevScalar G (KStr (text_of cps)) x =
      Inr (if 0 < sint i \<and> sint i \<le> int (length cps)
           then ksome (KRec [(''prev'', kint (i - 1)), (''scalar'', KChr (cps ! nat (sint i - 1)))]) else knone) \<and>
    kpf___stringSpan G (KStr (text_of cps)) x y =
      Inr (if 0 \<le> sint i \<and> sint i \<le> sint j \<and> sint j \<le> int (length cps)
           then ksome (KStr (text_of (take (nat (sint j) - nat (sint i)) (drop (nat (sint i)) cps)))) else knone)"
proof (intro conjI)
  note ev = kbind_simps str_raw.simps assms(2,3) Let_def count_text[OF assms(1)]
  show "kpf___stringNextScalar G (KStr (text_of cps)) x =
      Inr (if 0 \<le> sint i \<and> sint i < int (length cps)
           then ksome (KRec [(''next'', kint (i + 1)), (''scalar'', KChr (cps ! nat (sint i)))]) else knone)"
    using cursor_at[OF assms(1), of "nat (sint i)"] unfolding kpf___stringNextScalar_def ev by auto
  show "kpf___stringPrevScalar G (KStr (text_of cps)) x =
      Inr (if 0 < sint i \<and> sint i \<le> int (length cps)
           then ksome (KRec [(''prev'', kint (i - 1)), (''scalar'', KChr (cps ! nat (sint i - 1)))]) else knone)"
    using cursor_at[OF assms(1), of "nat (sint i - 1)"] unfolding kpf___stringPrevScalar_def ev by auto
  show "kpf___stringSpan G (KStr (text_of cps)) x y =
      Inr (if 0 \<le> sint i \<and> sint i \<le> sint j \<and> sint j \<le> int (length cps)
           then ksome (KStr (text_of (take (nat (sint j) - nat (sint i)) (drop (nat (sint i)) cps)))) else knone)"
    using text_slice[of "nat (sint i)" "nat (sint j)" cps]
    unfolding kpf___stringSpan_def ev by (auto simp: offset_text[OF assms(1)] drop_text)
qed

lemma string_cursors_witness:
  "kpf___stringNextScalar gmp_ref (KStr (text_of [0x48, 0xE9])) (KInt 1) =
     Inr (ksome (KRec [(''next'', kint 2), (''scalar'', KChr 0xE9)]))"
  using string_cursors[of "[0x48, 0xE9]" gmp_ref "KInt 1" 1 "KInt 1" 1]
  by (simp add: scalar_def scalar_range_def)

section \<open>The incremental decoder\<close>

lemma chunk_result:
  "kpf___decodeUtf8Chunk (KBytes c) (KBytes d) =
     (let n = utf8_valid_prefix_len (d @ c); r = drop n (d @ c) in
      if r = [] \<or> (utf8_strict r = Utf8_Incomplete \<and> r \<noteq> [0xE0] \<and> r \<noteq> [0xF0])
      then Inr (ksome (KRec [(''decoder'', KBytes r), (''text'', KStr (take n (d @ c)))]))
      else Inr knone)"
proof -
  let ?r = "drop (utf8_valid_prefix_len (d @ c)) (d @ c)"
  have n: "?r = [] \<or> strict_rd ?r = None" using prefix_len_split[of "d @ c"] by (auto simp: Let_def)
  show ?thesis
  proof (cases "?r = []")
    case True
    then show ?thesis by (simp only: kpf___decodeUtf8Chunk_def Let_def as_bytes.simps kbind_simps) simp
  next
    case False
    with n incomplete_tail_iff[of ?r] show ?thesis
      by (simp only: kpf___decodeUtf8Chunk_def Let_def as_bytes.simps kbind_simps) simp
  qed
qed

text \<open>Feeding chunks one by one and finishing: the text, or \<open>None\<close> when a chunk or the end is refused.\<close>

fun utf8_feed :: "kval \<Rightarrow> byte list list \<Rightarrow> byte list option kres" where
  "utf8_feed d [] =
     kbind (kpf___finishUtf8Decoder d) (\<lambda>r. Inr (if r = knone then None else Some []))"
| "utf8_feed d (c # cs) =
     kbind (kpf___decodeUtf8Chunk (KBytes c) d) (\<lambda>r.
       if r = knone then Inr None
       else kbind (kctor_arg r 0) (\<lambda>f. kbind (kproj f ''decoder'') (\<lambda>d'. kbind (kproj f ''text'') (\<lambda>t.
         kbind (kas_str t) (\<lambda>s. kbind (utf8_feed d' cs) (\<lambda>rest.
           Inr (map_option (\<lambda>u. s @ u) rest)))))))"

lemma ksome_rec: "ksome (KRec fs) \<noteq> knone \<and> kctor_arg (ksome (KRec fs)) 0 = Inr (KRec fs)"
  by (simp add: ksome_def knone_def kctor_def kctor0_def)

lemma ksome_str: "ksome (KStr s) \<noteq> knone"
  by (simp add: ksome_def knone_def kctor_def kctor0_def)

lemma valid_append: "utf8_valid_all p \<Longrightarrow> utf8_valid_all q \<Longrightarrow> utf8_valid_all (p @ q)"
  unfolding valid_all_iff by (metis list_all_append text_of_simps(3))

lemma feed_sound:
  "utf8_feed (KBytes d) cs = Inr (Some t) \<Longrightarrow> t = d @ concat cs \<and> utf8_valid_all t"
proof (induction cs arbitrary: d t)
  case Nil
  then show ?case
    by (auto simp: kpf___finishUtf8Decoder_def utf8_valid_all.simps split: if_splits)
next
  case (Cons c cs)
  let ?n = "utf8_valid_prefix_len (d @ c)"
  let ?r = "drop ?n (d @ c)"
  have ok: "kpf___decodeUtf8Chunk (KBytes c) (KBytes d) =
      Inr (ksome (KRec [(''decoder'', KBytes ?r), (''text'', KStr (take ?n (d @ c)))]))"
    using Cons.prems chunk_result[of c d] by (auto simp: Let_def split: if_splits)
  with Cons.prems obtain u where u: "utf8_feed (KBytes ?r) cs = Inr (Some u)" "t = take ?n (d @ c) @ u"
    by (auto simp: ksome_rec kbind_eq_Inr)
  from Cons.IH[OF u(1)] have "u = ?r @ concat cs" "utf8_valid_all u" by auto
  moreover from this(1) u(2) have "t = (take ?n (d @ c) @ ?r) @ concat cs" by simp
  then have "t = d @ concat (c # cs)" by (simp only: append_take_drop_id) simp
  ultimately show ?case using u(2) valid_append[OF valid_take] by metis
qed

text \<open>C36: The incremental decoder is sound but too strict. When the chunks of a stream are all accepted,
  the text is the concatenation of the chunks and it is valid; a chunk is accepted just when what
  follows its longest valid prefix is an unfinished scalar other than a lone E0 or F0 byte, so a stream
  cut right after such a lead byte is refused although the whole is valid, while the same stream in one
  chunk is read.\<close>
theorem utf8_stream:
  assumes "utf8_feed kpf___newUtf8Decoder cs = Inr (Some t)"
  shows "t = concat cs \<and> utf8_valid_all t \<and>
    kpf___decodeUtf8Chunk (KBytes c) (KBytes d) =
     (let n = utf8_valid_prefix_len (d @ c); r = drop n (d @ c) in
      if r = [] \<or> (utf8_strict r = Utf8_Incomplete \<and> r \<noteq> [0xE0] \<and> r \<noteq> [0xF0])
      then Inr (ksome (KRec [(''decoder'', KBytes r), (''text'', KStr (take n (d @ c)))]))
      else Inr knone) \<and>
    utf8_valid_all (text_of [0x800]) \<and>
    utf8_feed kpf___newUtf8Decoder [[0xE0], [0xA0, 0x80]] = Inr None"
proof -
  have "utf8_valid_prefix_len [0xE0] = 0"
    by (simp add: utf8_valid_prefix_len.simps utf8_strict_def byte_le_nat)
  moreover have "utf8_strict [0xE0] = Utf8_Incomplete"
    by (simp add: utf8_strict_def byte_le_nat)
  ultimately have "utf8_feed kpf___newUtf8Decoder [[0xE0], [0xA0, 0x80]] = Inr None"
    by (simp add: kpf___newUtf8Decoder_def chunk_result)
  moreover have "utf8_valid_all (text_of [0x800])"
    by (rule valid_all_text) (simp add: scalar_def scalar_range_def)
  moreover have "t = concat cs" "utf8_valid_all t"
    using feed_sound[OF assms[unfolded kpf___newUtf8Decoder_def]] by (simp, blast)
  ultimately show ?thesis using chunk_result by blast
qed

lemma utf8_stream_witness:
  "utf8_feed kpf___newUtf8Decoder [[0xC3], [0xA9, 0x21]] = Inr (Some [0xC3, 0xA9, 0x21]) \<and>
   utf8_valid_all [0xC3, 0xA9, 0x21]"
proof -
  have s0: "utf8_strict [0xC3] = Utf8_Incomplete" by (simp add: utf8_strict_def byte_le_nat)
  have s1: "utf8_strict [0xC3, 0xA9, 0x21] = Utf8_Scalar 2 (join2 0xC3 0xA9)" "utf8_strict [0x21] = Utf8_Scalar 1 0x21"
    by (simp_all add: utf8_strict_def byte_le_nat cont_iff)
  have p0: "utf8_valid_prefix_len [] = 0" "utf8_valid_prefix_len [0xC3] = 0"
    by (subst utf8_valid_prefix_len.simps, simp add: s0)+
  have "utf8_valid_prefix_len [0x21] = 1" by (subst utf8_valid_prefix_len.simps) (simp add: s1 p0)
  then have p1: "utf8_valid_prefix_len [0xC3, 0xA9, 0x21] = 3"
    by (subst utf8_valid_prefix_len.simps) (simp add: s1)
  have c1: "kpf___decodeUtf8Chunk (KBytes [0xC3]) (KBytes []) =
      Inr (ksome (KRec [(''decoder'', KBytes [0xC3]), (''text'', KStr [])]))"
    by (simp add: chunk_result p0 s0)
  have c2: "kpf___decodeUtf8Chunk (KBytes [0xA9, 0x21]) (KBytes [0xC3]) =
      Inr (ksome (KRec [(''decoder'', KBytes []), (''text'', KStr [0xC3, 0xA9, 0x21])]))"
    by (simp add: chunk_result p1)
  have "utf8_feed kpf___newUtf8Decoder [[0xC3], [0xA9, 0x21]] = Inr (Some [0xC3, 0xA9, 0x21])"
    by (simp add: kpf___newUtf8Decoder_def c1 c2 ksome_rec ksome_str kpf___finishUtf8Decoder_def)
  from this utf8_stream[OF this, of "[]" "[]"] show ?thesis by blast
qed

end
