(* ===== verification/Kappa_Unicode.thy ===== *)
theory Kappa_Unicode
  imports Kappa_Text
begin

text \<open>
  The table-driven algorithms of \<open>runtime/unicode.c\<close>: lookup, decomposition, canonical ordering,
  composition, grapheme clusters, case folding, and the primitives of \<open>runtime/prims.c\<close> on top. The
  generated tables of \<open>runtime/kappa_ucd.h\<close> are the fields of a record, the parameter of every
  definition; a table entry is the \<open>int32_t\<close> it holds.
\<close>

section \<open>Tables and lookup\<close>

record ucd =
  ku_ccc_cp :: "int list"
  ku_ccc_val :: "int list"
  ku_canon_cp :: "int list"
  ku_canon_off :: "int list"
  ku_canon_len :: "int list"
  ku_canon_pool :: "int list"
  ku_compat_cp :: "int list"
  ku_compat_off :: "int list"
  ku_compat_len :: "int list"
  ku_compat_pool :: "int list"
  ku_comp_a :: "int list"
  ku_comp_b :: "int list"
  ku_comp_r :: "int list"
  ku_gcb_lo :: "int list"
  ku_gcb_hi :: "int list"
  ku_gcb_cls :: "int list"
  ku_fold_cp_arr :: "int list"
  ku_fold_off :: "int list"
  ku_fold_len :: "int list"
  ku_fold_pool :: "int list"

abbreviation (input) at :: "'a list \<Rightarrow> int \<Rightarrow> 'a" where
  "at xs i \<equiv> xs ! nat i"

text \<open>\<open>(lo + hi) / 2\<close> on a non-negative sum.\<close>

lemma mid_bounds: "lo \<le> hi \<Longrightarrow> lo \<le> (lo + hi) div 2 \<and> (lo + hi) div 2 \<le> (hi :: int)"
  by linarith

function ku_bsearch_from :: "int list \<Rightarrow> int \<Rightarrow> int \<Rightarrow> int \<Rightarrow> int" where
  "ku_bsearch_from arr key lo hi =
     (if lo \<le> hi then
        (let mid = (lo + hi) div 2 in
         if at arr mid = key then mid
         else if at arr mid < key then ku_bsearch_from arr key (mid + 1) hi
         else ku_bsearch_from arr key lo (mid - 1))
      else -1)"
  by pat_completeness auto
termination by (relation "measure (\<lambda>(arr, key, lo, hi). nat (hi - lo + 1))") (auto dest: mid_bounds)

declare ku_bsearch_from.simps [simp del]

definition ku_bsearch :: "int list \<Rightarrow> int \<Rightarrow> int" where
  "ku_bsearch arr key = ku_bsearch_from arr key 0 (int (length arr) - 1)"

definition ku_ccc :: "ucd \<Rightarrow> u32 \<Rightarrow> int" where
  "ku_ccc U cp = (let i = ku_bsearch (ku_ccc_cp U) (sint cp) in if i < 0 then 0 else at (ku_ccc_val U) i)"

text \<open>A decomposition: the slice of the pool that the C code returns as a pointer and a length.\<close>

definition pool_slice :: "int list \<Rightarrow> int \<Rightarrow> int \<Rightarrow> u32 list" where
  "pool_slice pool ofs len = map word_of_int (take (nat len) (drop (nat ofs) pool))"

definition ku_decomp :: "ucd \<Rightarrow> bool \<Rightarrow> u32 \<Rightarrow> u32 list option" where
  "ku_decomp U compatb cp =
     (let i = ku_bsearch (ku_compat_cp U) (sint cp) in
      if compatb \<and> i \<ge> 0 then Some (pool_slice (ku_compat_pool U) (at (ku_compat_off U) i) (at (ku_compat_len U) i))
      else
        let j = ku_bsearch (ku_canon_cp U) (sint cp) in
        if j \<ge> 0 then Some (pool_slice (ku_canon_pool U) (at (ku_canon_off U) j) (at (ku_canon_len U) j))
        else None)"

function ku_compose_from :: "ucd \<Rightarrow> int \<Rightarrow> int \<Rightarrow> int \<Rightarrow> int \<Rightarrow> int" where
  "ku_compose_from U a b lo hi =
     (if lo \<le> hi then
        (let mid = (lo + hi) div 2; ca = at (ku_comp_a U) mid; cb = at (ku_comp_b U) mid in
         if ca = a \<and> cb = b then at (ku_comp_r U) mid
         else if ca < a \<or> (ca = a \<and> cb < b) then ku_compose_from U a b (mid + 1) hi
         else ku_compose_from U a b lo (mid - 1))
      else -1)"
  by pat_completeness auto
termination by (relation "measure (\<lambda>(U, a, b, lo, hi). nat (hi - lo + 1))") (auto dest: mid_bounds)

declare ku_compose_from.simps [simp del]

definition ku_compose :: "ucd \<Rightarrow> u32 \<Rightarrow> u32 \<Rightarrow> int" where
  "ku_compose U a b = ku_compose_from U (sint a) (sint b) 0 (int (length (ku_comp_a U)) - 1)"

section \<open>Normalization\<close>

abbreviation (input) "KU_SBASE \<equiv> (0xAC00 :: nat)"
abbreviation (input) "KU_LBASE \<equiv> (0x1100 :: nat)"
abbreviation (input) "KU_VBASE \<equiv> (0x1161 :: nat)"
abbreviation (input) "KU_TBASE \<equiv> (0x11A7 :: nat)"
abbreviation (input) "KU_TCOUNT \<equiv> (28 :: nat)"
abbreviation (input) "KU_NCOUNT \<equiv> (588 :: nat)"
abbreviation (input) "KU_SCOUNT \<equiv> (11172 :: nat)"

definition is_syllable :: "u32 \<Rightarrow> bool" where
  "is_syllable c \<longleftrightarrow> unat c \<ge> KU_SBASE \<and> unat c < KU_SBASE + KU_SCOUNT"

definition hangul_parts :: "u32 \<Rightarrow> u32 list" where
  "hangul_parts c =
     (let s = unat c - KU_SBASE; l = KU_LBASE + s div KU_NCOUNT;
          v = KU_VBASE + (s mod KU_NCOUNT) div KU_TCOUNT; t = KU_TBASE + s mod KU_TCOUNT in
      [of_nat l, of_nat v] @ (if t \<noteq> KU_TBASE then [of_nat t] else []))"

text \<open>The recursion follows the tables, so its depth is theirs: \<open>None\<close> when the fuel runs out.\<close>

fun ku_full_decompose :: "nat \<Rightarrow> ucd \<Rightarrow> bool \<Rightarrow> u32 \<Rightarrow> u32 list option" where
  "ku_full_decompose 0 U compatb c = None"
| "ku_full_decompose (Suc k) U compatb c =
     (if is_syllable c then Some (hangul_parts c)
      else case ku_decomp U compatb c of
        None \<Rightarrow> Some [c]
      | Some d \<Rightarrow> map_option concat (those (map (ku_full_decompose k U compatb) d)))"

text \<open>The insertion step of the canonical ordering: the sorted part of the run is kept in reverse, so
  the shift loop walks its list from the front.\<close>

fun ku_shift :: "(u32 \<Rightarrow> int) \<Rightarrow> u32 \<Rightarrow> u32 list \<Rightarrow> u32 list" where
  "ku_shift ccc v [] = [v]"
| "ku_shift ccc v (x # xs) = (if ccc x > ccc v then x # ku_shift ccc v xs else v # x # xs)"

definition ku_sort_run :: "(u32 \<Rightarrow> int) \<Rightarrow> u32 list \<Rightarrow> u32 list" where
  "ku_sort_run ccc run = rev (foldl (\<lambda>s v. ku_shift ccc v s) [] run)"

function ku_canonical_order :: "(u32 \<Rightarrow> int) \<Rightarrow> u32 list \<Rightarrow> u32 list" where
  "ku_canonical_order ccc a =
     (case a of [] \<Rightarrow> []
      | x # xs \<Rightarrow>
          if ccc x = 0 then x # ku_canonical_order ccc xs
          else ku_sort_run ccc (takeWhile (\<lambda>c. ccc c \<noteq> 0) a)
                 @ ku_canonical_order ccc (dropWhile (\<lambda>c. ccc c \<noteq> 0) a))"
  by pat_completeness auto
termination
  by (relation "measure (length \<circ> snd)") (auto simp: less_Suc_eq_le length_dropWhile_le)

declare ku_canonical_order.simps [simp del]

text \<open>The composition loop over the scalars after the first: \<open>out\<close> what has been written,
  \<open>starter\<close> the current starter and \<open>pend\<close> the marks that follow it.\<close>

fun ku_compose_loop :: "ucd \<Rightarrow> u32 list \<Rightarrow> u32 \<Rightarrow> u32 list \<Rightarrow> u32 list \<Rightarrow> u32 list" where
  "ku_compose_loop U out starter pend [] = out @ [starter] @ pend"
| "ku_compose_loop U out starter pend (c # cs) =
     (let cc = ku_ccc U c; comp = ku_compose U starter c;
          blocked = (pend \<noteq> [] \<and> ku_ccc U (last pend) \<ge> cc);
          keep = (if cc = 0 then ku_compose_loop U (out @ [starter] @ pend) c [] cs
                  else ku_compose_loop U out starter (pend @ [c]) cs)
      in if cc = 0 \<and> pend = [] then
           (if comp \<ge> 0 then ku_compose_loop U out (word_of_int comp) pend cs else keep)
         else if cc \<noteq> 0 then
           (if \<not> blocked \<and> comp \<ge> 0 then ku_compose_loop U out (word_of_int comp) pend cs else keep)
         else keep)"

definition ku_compose_chars :: "ucd \<Rightarrow> u32 list \<Rightarrow> u32 list" where
  "ku_compose_chars U a = (case a of [] \<Rightarrow> [] | x # xs \<Rightarrow> ku_compose_loop U [] x [] xs)"

text \<open>Forms: 0 NFC, 1 NFD, 2 NFKC, 3 NFKD.\<close>

definition ku_normalize :: "nat \<Rightarrow> ucd \<Rightarrow> int \<Rightarrow> byte list \<Rightarrow> kval option" where
  "ku_normalize fuel U form s =
     (let compatb = (form = 2 \<or> form = 3) in
      case those (map (ku_full_decompose fuel U compatb) (ku_decode s)) of
        None \<Rightarrow> None
      | Some ds \<Rightarrow>
          let dec = ku_canonical_order (ku_ccc U) (concat ds);
              fp = (if form = 0 \<or> form = 2 then ku_compose_chars U dec else dec)
          in Some (KStr (text_of fp)))"

definition ku_casefold_scalar :: "ucd \<Rightarrow> u32 \<Rightarrow> u32 list" where
  "ku_casefold_scalar U c =
     (let i = ku_bsearch (ku_fold_cp_arr U) (sint c) in
      if i < 0 then [c] else pool_slice (ku_fold_pool U) (at (ku_fold_off U) i) (at (ku_fold_len U) i))"

section \<open>Binary search\<close>

lemma bsearch_from:
  assumes "sorted arr" "0 \<le> lo" "hi < int (length arr)" "-1 \<le> hi"
    "\<And>k. k < length arr \<Longrightarrow> arr ! k = key \<Longrightarrow> lo \<le> int k \<and> int k \<le> hi"
  shows "(ku_bsearch_from arr key lo hi = -1 \<and> key \<notin> set arr) \<or>
    (0 \<le> ku_bsearch_from arr key lo hi \<and> ku_bsearch_from arr key lo hi < int (length arr)
       \<and> at arr (ku_bsearch_from arr key lo hi) = key)"
  using assms
proof (induction arr key lo hi rule: ku_bsearch_from.induct)
  case (1 arr key lo hi)
  show ?case
  proof (cases "lo \<le> hi")
    case False
    have "key \<notin> set arr"
    proof
      assume "key \<in> set arr"
      then obtain k where "k < length arr" "arr ! k = key" by (auto simp: in_set_conv_nth)
      with 1(7) False show False by fastforce
    qed
    with False show ?thesis by (simp add: ku_bsearch_from.simps[of arr key lo hi])
  next
    case True
    let ?m = "(lo + hi) div 2"
    have m: "lo \<le> ?m" "?m \<le> hi" "nat ?m < length arr" "0 \<le> ?m" "?m < int (length arr)"
      using mid_bounds[OF True] 1(4,5) by linarith+
    consider "at arr ?m = key" | "at arr ?m < key" | "key < at arr ?m" by linarith
    then show ?thesis
    proof cases
      case 1 then show ?thesis using True m by (simp add: ku_bsearch_from.simps[of arr key lo hi] Let_def)
    next
      case 2
      have "?m + 1 \<le> int k \<and> int k \<le> hi" if "k < length arr" "arr ! k = key" for k
      proof -
        have "\<not> k \<le> nat ?m" using 2 that m sorted_nth_mono[OF 1(3), of k "nat ?m"] by auto
        with 1(7)[OF that] m show ?thesis by linarith
      qed
      then show ?thesis using 1(1)[OF True refl] 2 True m 1(3,4,5,6)
        by (simp add: ku_bsearch_from.simps[of arr key lo hi] Let_def)
    next
      case 3
      have "lo \<le> int k \<and> int k \<le> ?m - 1" if "k < length arr" "arr ! k = key" for k
      proof -
        have "\<not> nat ?m \<le> k" using 3 that m sorted_nth_mono[OF 1(3), of "nat ?m" k] by auto
        with 1(7)[OF that] m show ?thesis by linarith
      qed
      then show ?thesis using 1(2)[OF True refl] 3 True m 1(3,4,5,6)
        by (simp add: ku_bsearch_from.simps[of arr key lo hi] Let_def)
    qed
  qed
qed

lemma bsearch_correct:
  assumes "sorted arr"
  shows "(ku_bsearch arr key = -1 \<and> key \<notin> set arr) \<or>
    (0 \<le> ku_bsearch arr key \<and> ku_bsearch arr key < int (length arr) \<and> at arr (ku_bsearch arr key) = key)"
  unfolding ku_bsearch_def by (rule bsearch_from) (use assms in auto)


section \<open>Canonical ordering is the stable sort of each run of marks\<close>

lemma shift_mset: "mset (ku_shift ccc v xs) = {#v#} + mset xs"
  by (induction xs) auto

lemma shift_set: "set (ku_shift ccc v xs) = insert v (set xs)"
  using shift_mset[of ccc v xs] by (metis set_mset_add_mset_insert set_mset_mset add_mset_add_single add.commute)

lemma shift_sorted:
  "sorted_wrt (\<lambda>x y. ccc y \<le> ccc x) xs \<Longrightarrow> sorted_wrt (\<lambda>x y. ccc y \<le> ccc x) (ku_shift ccc v xs)"
  by (induction xs) (auto simp: shift_set)

lemma shift_stable:
  "sorted_wrt (\<lambda>x y. ccc y \<le> ccc x) xs \<Longrightarrow>
   filter (\<lambda>x. ccc x = k) (ku_shift ccc v xs) = filter (\<lambda>x. ccc x = k) (v # xs)"
  by (induction xs) (auto simp: filter_empty_conv)

lemma shift_foldl:
  assumes "sorted_wrt (\<lambda>x y. ccc y \<le> ccc x) acc"
  shows "sorted_wrt (\<lambda>x y. ccc y \<le> ccc x) (foldl (\<lambda>s v. ku_shift ccc v s) acc run) \<and>
    mset (foldl (\<lambda>s v. ku_shift ccc v s) acc run) = mset acc + mset run \<and>
    filter (\<lambda>x. ccc x = k) (foldl (\<lambda>s v. ku_shift ccc v s) acc run) =
      rev (filter (\<lambda>x. ccc x = k) run) @ filter (\<lambda>x. ccc x = k) acc"
  using assms
proof (induction run arbitrary: acc)
  case (Cons v run)
  from Cons.IH[OF shift_sorted[OF Cons.prems, of v]] show ?case
    by (simp add: shift_mset shift_stable[OF Cons.prems])
qed simp

lemma sort_run_eq: "ku_sort_run ccc run = sort_key ccc run"
proof (rule properties_for_sort_key[symmetric])
  let ?r = "foldl (\<lambda>s v. ku_shift ccc v s) [] run"
  have a: "sorted_wrt (\<lambda>x y. ccc y \<le> ccc x) ?r" "mset ?r = mset run"
    "filter (\<lambda>x. ccc x = k) ?r = rev (filter (\<lambda>x. ccc x = k) run)" for k
    using shift_foldl[of ccc "[]" run k] by simp_all
  show "mset (ku_sort_run ccc run) = mset run" by (simp add: ku_sort_run_def a(2))
  show "filter (\<lambda>x. ccc k = ccc x) (ku_sort_run ccc run) = filter (\<lambda>x. ccc k = ccc x) run" for k
    using a(3)[of "ccc k"] by (simp add: ku_sort_run_def eq_commute) (metis rev_filter rev_rev_ident)
  show "sorted (map ccc (ku_sort_run ccc run))"
    using a(1) by (simp add: ku_sort_run_def sorted_wrt_rev sorted_wrt_map flip: rev_map)
qed

text \<open>The reference: starters stay, each maximal run of marks is sorted stably by class (the
  interpreter's \<open>canonicalOrder\<close>).\<close>

function canon_ref :: "(u32 \<Rightarrow> int) \<Rightarrow> u32 list \<Rightarrow> u32 list" where
  "canon_ref ccc a =
     (let rest = dropWhile (\<lambda>c. ccc c = 0) a in
      if rest = [] then a
      else takeWhile (\<lambda>c. ccc c = 0) a @ sort_key ccc (takeWhile (\<lambda>c. ccc c \<noteq> 0) rest)
             @ canon_ref ccc (dropWhile (\<lambda>c. ccc c \<noteq> 0) rest))"
  by pat_completeness auto
termination
proof (relation "measure (length \<circ> snd)", goal_cases)
  case (2 ccc a rest)
  then obtain y ys where r: "rest = y # ys" by (meson neq_Nil_conv)
  have "ccc (hd rest) \<noteq> 0" using 2 hd_dropWhile[of "\<lambda>c. ccc c = 0" a] by metis
  then have "ccc y \<noteq> 0" by (simp add: r)
  then have "length (dropWhile (\<lambda>c. ccc c \<noteq> 0) rest) \<le> length ys" by (simp add: r length_dropWhile_le)
  moreover have "length rest \<le> length a" using 2 by (simp add: length_dropWhile_le)
  ultimately show ?case using r by simp
qed simp

declare canon_ref.simps [simp del]


lemma canon_ref_all: "dropWhile (\<lambda>c. ccc c = 0) a = [] \<Longrightarrow> canon_ref ccc a = a"
  by (subst canon_ref.simps) (simp only: Let_def if_True refl)

lemma canon_ref_step:
  "dropWhile (\<lambda>c. ccc c = 0) a \<noteq> [] \<Longrightarrow>
   canon_ref ccc a = takeWhile (\<lambda>c. ccc c = 0) a
     @ sort_key ccc (takeWhile (\<lambda>c. ccc c \<noteq> 0) (dropWhile (\<lambda>c. ccc c = 0) a))
     @ canon_ref ccc (dropWhile (\<lambda>c. ccc c \<noteq> 0) (dropWhile (\<lambda>c. ccc c = 0) a))"
  by (subst canon_ref.simps) (simp only: Let_def if_False)

lemma canon_ref_starter: "ccc x = 0 \<Longrightarrow> canon_ref ccc (x # xs) = x # canon_ref ccc xs"
  by (simp add: canon_ref.simps[of ccc "x # xs"] canon_ref.simps[of ccc xs] Let_def)

lemma canonical_order_eq: "ku_canonical_order ccc a = canon_ref ccc a"
proof (induction ccc a rule: ku_canonical_order.induct)
  case (1 ccc a)
  show ?case
  proof (cases a)
    case Nil then show ?thesis by (simp add: ku_canonical_order.simps canon_ref.simps)
  next
    case (Cons x xs)
    show ?thesis
    proof (cases "ccc x = 0")
      case True
      then show ?thesis using 1(1)[OF Cons True] unfolding Cons
        by (simp add: ku_canonical_order.simps[of ccc "x # xs"] canon_ref_starter)
    next
      case False
      have "ku_canonical_order ccc a = sort_key ccc (takeWhile (\<lambda>c. ccc c \<noteq> 0) a)
          @ canon_ref ccc (dropWhile (\<lambda>c. ccc c \<noteq> 0) a)"
        using 1(2)[OF Cons False] False unfolding Cons
        by (simp add: ku_canonical_order.simps[of ccc "x # xs"] sort_run_eq)
      moreover have "dropWhile (\<lambda>c. ccc c = 0) a = a" using Cons False by simp
      moreover have "takeWhile (\<lambda>c. ccc c = 0) a = []" using Cons False by simp
      ultimately show ?thesis using canon_ref_step[of ccc a] Cons by (simp only: append_Nil list.distinct not_False_eq_True simp_thms)
    qed
  qed
qed

lemma canon_ref_mset: "mset (canon_ref ccc a) = mset a"
proof (induction ccc a rule: canon_ref.induct)
  case (1 ccc a)
  let ?r = "dropWhile (\<lambda>c. ccc c = 0) a"
  show ?case
  proof (cases "?r = []")
    case False
    have "mset a = mset (takeWhile (\<lambda>c. ccc c = 0) a) + mset ?r"
      by (metis mset_append takeWhile_dropWhile_id)
    also have "mset ?r = mset (takeWhile (\<lambda>c. ccc c \<noteq> 0) ?r) + mset (dropWhile (\<lambda>c. ccc c \<noteq> 0) ?r)"
      by (metis mset_append takeWhile_dropWhile_id)
    finally show ?thesis using 1[OF refl False] by (simp add: canon_ref_step[OF False])
  qed (simp only: canon_ref_all)
qed

text \<open>No two neighbours are marks out of order.\<close>

fun ordered :: "(u32 \<Rightarrow> int) \<Rightarrow> u32 list \<Rightarrow> bool" where
  "ordered ccc (x # y # zs) \<longleftrightarrow> (ccc y = 0 \<or> ccc x \<le> ccc y) \<and> ordered ccc (y # zs)"
| "ordered ccc _ \<longleftrightarrow> True"

lemma ordered_starters: "list_all (\<lambda>c. ccc c = 0) xs \<Longrightarrow> 0 \<le> ccc y \<Longrightarrow> ordered ccc (y # ys) \<Longrightarrow> ordered ccc (xs @ y # ys)"
proof (induction xs)
  case (Cons x xs) then show ?case by (cases xs) auto
qed simp

lemma ordered_sorted: "sorted (map ccc xs) \<Longrightarrow> ordered ccc (ys :: u32 list) \<Longrightarrow> (ys \<noteq> [] \<longrightarrow> ccc (hd ys) = 0) \<Longrightarrow> ordered ccc (xs @ ys)"
proof (induction xs)
  case (Cons x xs)
  then show ?case by (cases xs; cases ys) auto
qed simp

lemma canon_ref_hd:
  "(a \<noteq> [] \<Longrightarrow> ccc (hd a) = 0) \<Longrightarrow> canon_ref ccc a \<noteq> [] \<longrightarrow> ccc (hd (canon_ref ccc a)) = 0"
  by (cases a) (simp_all add: canon_ref_starter canon_ref_all)

lemma ordered_starter_all: "list_all (\<lambda>c. ccc c = 0) xs \<Longrightarrow> ordered ccc xs"
  by (induction ccc xs rule: ordered.induct) auto

lemma canon_ref_ordered: "(\<And>c. 0 \<le> ccc c) \<Longrightarrow> ordered ccc (canon_ref ccc a)"
proof (induction ccc a rule: canon_ref.induct)
  case (1 ccc a)
  let ?t = "takeWhile (\<lambda>c. ccc c = 0) a" let ?r = "dropWhile (\<lambda>c. ccc c = 0) a"
  let ?m = "takeWhile (\<lambda>c. ccc c \<noteq> 0) ?r" let ?q = "dropWhile (\<lambda>c. ccc c \<noteq> 0) ?r"
  have t: "list_all (\<lambda>c. ccc c = 0) ?t" by (metis list_all_iff set_takeWhileD)
  show ?case
  proof (cases "?r = []")
    case True
    have "?t = a" using takeWhile_dropWhile_id[of "\<lambda>c. ccc c = 0" a] unfolding True by (rule trans[OF append_Nil2[symmetric]])
    then show ?thesis using t ordered_starter_all[of ccc a] by (simp only: canon_ref_all[OF True])
  next
    case False
    have q: "?q \<noteq> [] \<Longrightarrow> ccc (hd ?q) = 0" using hd_dropWhile[of "\<lambda>c. ccc c \<noteq> 0" ?r] by simp
    have "ordered ccc (canon_ref ccc ?q)" using 1(1)[OF refl False 1(2)] .
    moreover have "canon_ref ccc ?q \<noteq> [] \<longrightarrow> ccc (hd (canon_ref ccc ?q)) = 0"
      by (rule canon_ref_hd) (rule q)
    ultimately have "ordered ccc (sort_key ccc ?m @ canon_ref ccc ?q)" (is "ordered ccc ?w")
      by (intro ordered_sorted) simp_all
    moreover have "canon_ref ccc a = ?t @ ?w" by (rule canon_ref_step[OF False])
    moreover have "ordered ccc (?t @ ?w)" if o: "ordered ccc ?w" for w
    proof (cases "?w = []")
      case True
      then show ?thesis using ordered_starter_all[OF t] by (simp only: append_Nil2)
    next
      case F: False
      then obtain y ys where w: "?w = y # ys" by (meson neq_Nil_conv)
      show ?thesis using ordered_starters[OF t 1(2)] o unfolding w by blast
    qed
    ultimately show ?thesis by (simp only:)
  qed
qed

text \<open>C38: The in-place insertion sort of the canonical ordering computes the reference ordering: starters
  keep their places and each maximal run of marks is sorted stably by combining class; the result is a
  permutation of the input in which no mark follows a mark of a higher class.\<close>
theorem canonical_order_stable:
  assumes "list_all (\<lambda>v. 0 \<le> v) (ku_ccc_val U)" "sorted (ku_ccc_cp U)" "length (ku_ccc_val U) = length (ku_ccc_cp U)"
  shows "ku_canonical_order (ku_ccc U) a = canon_ref (ku_ccc U) a \<and>
    mset (ku_canonical_order (ku_ccc U) a) = mset a \<and> ordered (ku_ccc U) (ku_canonical_order (ku_ccc U) a)"
proof -
  have "0 \<le> ku_ccc U c" for c
    using assms bsearch_correct[OF assms(2), of "sint c"]
    by (auto simp: ku_ccc_def Let_def list_all_length)
  then show ?thesis by (simp add: canonical_order_eq canon_ref_mset canon_ref_ordered)
qed


definition ucd_small :: ucd where
  "ucd_small =
     \<lparr>ku_ccc_cp = [0x300, 0x323], ku_ccc_val = [230, 220],
      ku_canon_cp = [0xE0], ku_canon_off = [0], ku_canon_len = [2], ku_canon_pool = [0x61, 0x300],
      ku_compat_cp = [], ku_compat_off = [], ku_compat_len = [], ku_compat_pool = [],
      ku_comp_a = [0x61], ku_comp_b = [0x300], ku_comp_r = [0xE0],
      ku_gcb_lo = [0x0A, 0x0D, 0x300, 0x1F1E6], ku_gcb_hi = [0x0A, 0x0D, 0x36F, 0x1F1FF], ku_gcb_cls = [2, 1, 4, 6],
      ku_fold_cp_arr = [0x41], ku_fold_off = [0], ku_fold_len = [1], ku_fold_pool = [0x61]\<rparr>"

lemma ccc_small: "ku_ccc ucd_small 0x300 = 230" "ku_ccc ucd_small 0x323 = 220" "ku_ccc ucd_small 0x61 = 0"
  by (simp_all add: ku_ccc_def ku_bsearch_def ucd_small_def ku_bsearch_from.simps)

lemma canonical_order_stable_witness:
  "mset (ku_canonical_order (ku_ccc ucd_small) [0x61, 0x300, 0x323]) = {#0x61, 0x300, 0x323#} \<and>
   ku_canonical_order (ku_ccc ucd_small) [0x61, 0x300, 0x323] = [0x61, 0x323, 0x300]"
proof -
  have "ku_canonical_order (ku_ccc ucd_small) [0x61, 0x300, 0x323] = [0x61, 0x323, 0x300]"
    by (simp add: ku_canonical_order.simps ccc_small ku_sort_run_def)
  with canonical_order_stable[of ucd_small "[0x61, 0x300, 0x323]"] show ?thesis
    by (simp add: ucd_small_def)
qed

section \<open>Full decomposition\<close>

lemma those_map_total:
  "(\<And>x. x \<in> set xs \<Longrightarrow> \<exists>y. f x = Some y \<and> list_all P y) \<Longrightarrow>
   \<exists>ys. map_option concat (those (map f xs)) = Some ys \<and> list_all P ys"
proof (induction xs)
  case (Cons x xs)
  then obtain y where "f x = Some y" "list_all P y" by fastforce
  moreover obtain ys where "those (map f xs) = Some ys" "list_all P (concat ys)" using Cons by fastforce
  ultimately show ?case by simp
qed simp

text \<open>C39: Full decomposition terminates and is full: when a rank decreases along every table entry (the
  tables are acyclic), fuel above the rank of the scalar is enough, and every scalar of the result is a
  jamo of a decomposed syllable or has no decomposition of its own.\<close>
theorem full_decompose_total:
  assumes "\<And>c d x. ku_decomp U compatb c = Some d \<Longrightarrow> x \<in> set d \<Longrightarrow> rank x < (rank c :: nat)"
    and "rank c < fuel"
  shows "\<exists>out. ku_full_decompose fuel U compatb c = Some out \<and>
    list_all (\<lambda>x. ku_decomp U compatb x = None \<or> (\<exists>s. is_syllable s \<and> x \<in> set (hangul_parts s))) out"
  using assms(2)
proof (induction fuel arbitrary: c)
  case (Suc k)
  show ?case
  proof (cases "is_syllable c \<or> ku_decomp U compatb c = None")
    case True
    then show ?thesis by (auto simp: list_all_iff)
  next
    case False
    then obtain d where d: "ku_decomp U compatb c = Some d" "\<not> is_syllable c" by auto
    have "rank x < k" if "x \<in> set d" for x using assms(1)[OF d(1) that] Suc.prems by simp
    with those_map_total[of d "ku_full_decompose k U compatb", OF Suc.IH] d show ?thesis by auto
  qed
qed simp

lemma sint_E0: "sint (c :: u32) = 0xE0 \<Longrightarrow> c = 0xE0"
  by (rule signed_word_eqI) simp

lemma decomp_small: "ku_decomp ucd_small b c = Some d \<Longrightarrow> c = 0xE0 \<and> d = [0x61, 0x300]"
  by (auto simp: ku_decomp_def ku_bsearch_def ucd_small_def ku_bsearch_from.simps pool_slice_def Let_def
      dest!: sint_E0 split: if_splits)

lemma full_decompose_total_witness:
  "\<exists>out. ku_full_decompose 2 ucd_small False 0xE0 = Some out \<and>
    list_all (\<lambda>x. ku_decomp ucd_small False x = None \<or> (\<exists>s. is_syllable s \<and> x \<in> set (hangul_parts s))) out"
  by (rule full_decompose_total[where rank = "\<lambda>c. if c = 0xE0 then 1 else 0"]) (auto dest!: decomp_small)

section \<open>Hangul\<close>

text \<open>The arithmetic composition of a syllable from its jamo (UAX 15, 3.12).\<close>

fun hangul_join :: "u32 list \<Rightarrow> nat" where
  "hangul_join [l, v] = KU_SBASE + ((unat l - KU_LBASE) * 21 + (unat v - KU_VBASE)) * KU_TCOUNT"
| "hangul_join [l, v, t] =
     KU_SBASE + ((unat l - KU_LBASE) * 21 + (unat v - KU_VBASE)) * KU_TCOUNT + (unat t - KU_TBASE)"
| "hangul_join _ = 0"

lemma unat_small: "n < 2 ^ 32 \<Longrightarrow> unat (of_nat n :: u32) = n"
  by (simp add: unsigned_of_nat take_bit_nat_eq_self)

lemma hangul_index: "(s div 588 * 21 + s mod 588 div 28) * 28 + s mod 28 = (s :: nat)"
proof -
  have "s = 588 * (s div 588) + s mod 588" "s mod 588 = 28 * (s mod 588 div 28) + s mod 588 mod 28" by simp_all
  moreover have "s mod 588 mod 28 = s mod 28" by (rule mod_mod_cancel) simp
  moreover have "(s div 588 * 21 + s mod 588 div 28) * 28 = 588 * (s div 588) + 28 * (s mod 588 div 28)" by simp
  ultimately show ?thesis by linarith
qed

lemma hangul_parts_join:
  assumes "is_syllable c"
  shows "hangul_join (hangul_parts c) = unat c" "length (hangul_parts c) \<ge> 2"
    "list_all (\<lambda>j. 0x1100 \<le> unat j \<and> unat j < 0x1200) (hangul_parts c)"
proof -
  define s where "s = unat c - KU_SBASE"
  have s: "s < 11172" "unat c = KU_SBASE + s" using assms by (auto simp: s_def is_syllable_def)
  have l: "s div 588 < 19" using s(1) by (simp add: less_mult_imp_div_less)
  have v: "s mod 588 div 28 < 21" by (simp add: less_mult_imp_div_less)
  have t: "s mod 28 < 89" using mod_less_divisor[of 28 s] by linarith
  note u = unat_small[of "KU_LBASE + s div 588"] unat_small[of "KU_VBASE + s mod 588 div 28"]
    unat_small[of "KU_TBASE + s mod 28"]
  have p: "hangul_parts c = [of_nat (KU_LBASE + s div 588), of_nat (KU_VBASE + s mod 588 div 28)] @
      (if s mod 28 = 0 then [] else [of_nat (KU_TBASE + s mod 28)])"
    unfolding hangul_parts_def s_def[symmetric] Let_def by simp
  show "length (hangul_parts c) \<ge> 2" unfolding p by simp
  show "hangul_join (hangul_parts c) = unat c"
    using u l v t hangul_index[of s] unfolding p s(2) by (simp del: of_nat_add)
  show "list_all (\<lambda>j. 0x1100 \<le> unat j \<and> unat j < 0x1200) (hangul_parts c)"
    using u l v t unfolding p by (simp del: of_nat_add)
qed


definition no_jamo :: "int list \<Rightarrow> bool" where
  "no_jamo xs \<longleftrightarrow> list_all (\<lambda>x. x < 0x1100 \<or> 0x1200 \<le> x) xs"

lemma jamo_sint: "0x1100 \<le> unat j \<Longrightarrow> unat j < 0x1200 \<Longrightarrow> 0x1100 \<le> sint (j :: u32) \<and> sint j < 0x1200"
proof -
  assume a: "0x1100 \<le> unat j" "unat j < 0x1200"
  have u: "uint j = int (unat j)" by simp
  have "nat (uint j) < 4608" using a(2) by simp
  then have "uint j < 2147483648" by linarith
  moreover have "0 \<le> uint j" by simp
  then have "- 2147483648 \<le> uint j" by linarith
  ultimately have "signed_take_bit 31 (uint j) = uint j" by (intro signed_take_bit_int_eq_self) simp_all
  then have "sint j = int (unat j)" by (simp add: sint_uint)
  with a show ?thesis by linarith
qed

lemma ccc_jamo:
  assumes "no_jamo (ku_ccc_cp U)" "sorted (ku_ccc_cp U)" "0x1100 \<le> unat j" "unat j < 0x1200"
  shows "ku_ccc U j = 0"
proof -
  have "sint j \<notin> set (ku_ccc_cp U)" using jamo_sint[OF assms(3,4)] assms(1) by (auto simp: no_jamo_def list_all_iff)
  moreover have "sint j \<in> set (ku_ccc_cp U)" if "ku_bsearch (ku_ccc_cp U) (sint j) \<noteq> -1"
    using bsearch_correct[OF assms(2), of "sint j"] that by (auto simp: in_set_conv_nth intro: exI[of _ "nat _"])
      (metis nat_less_iff)
  ultimately show ?thesis by (auto simp: ku_ccc_def Let_def)
qed

lemma compose_from_jamo:
  assumes "no_jamo (ku_comp_a U)" "0x1100 \<le> a" "a < 0x1200" "0 \<le> lo" "hi < int (length (ku_comp_a U))"
  shows "ku_compose_from U a b lo hi = -1"
  using assms
proof (induction U a b lo hi rule: ku_compose_from.induct)
  case (1 U a b lo hi)
  show ?case
  proof (cases "lo \<le> hi")
    case True
    let ?m = "(lo + hi) div 2"
    have m: "lo \<le> ?m" "?m \<le> hi" using mid_bounds[OF True] by auto
    then have "nat ?m < length (ku_comp_a U)" using 1(6,7) by linarith
    then have "at (ku_comp_a U) ?m \<noteq> a" using 1(3,4,5) by (auto simp: no_jamo_def list_all_length)
    then show ?thesis using 1(1)[OF True refl refl refl] 1(2)[OF True refl refl refl] 1(3-7) m True
      by (simp add: ku_compose_from.simps[of U a b lo hi] Let_def)
  qed (simp add: ku_compose_from.simps)
qed

lemma compose_jamo:
  assumes "no_jamo (ku_comp_a U)" "0x1100 \<le> unat j" "unat j < 0x1200"
  shows "ku_compose U j b = -1"
  unfolding ku_compose_def using jamo_sint[OF assms(2,3)] by (intro compose_from_jamo assms) auto

lemma starters_order: "list_all (\<lambda>c. ccc c = 0) a \<Longrightarrow> ku_canonical_order ccc a = a"
  by (induction a) (simp_all add: ku_canonical_order.simps)

lemma starters_compose:
  assumes "list_all (\<lambda>j. ku_ccc U j = 0 \<and> (\<forall>b. ku_compose U j b = -1)) (x # xs)"
  shows "ku_compose_loop U out x [] xs = out @ x # xs"
  using assms by (induction xs arbitrary: out x) simp_all

lemma syllable_scalar: "is_syllable c \<Longrightarrow> scalar c"
  by (simp add: is_syllable_def scalar_nat)

text \<open>C40: A Hangul syllable is decomposed by the arithmetic of the standard (its jamo compose back to it),
  but composition never puts it together again: with composition and class tables that have no jamo
  entry, as the generated tables are, the NFC form of a syllable is its two or three jamo, not the
  syllable. The interpreter's \<open>composePair\<close> has the arithmetic composition that \<open>ku_compose\<close> lacks.\<close>
theorem hangul_not_recomposed:
  assumes "is_syllable c" "no_jamo (ku_ccc_cp U)" "sorted (ku_ccc_cp U)" "no_jamo (ku_comp_a U)"
  shows "hangul_join (hangul_parts c) = unat c \<and>
    ku_normalize (Suc fuel) U 0 (utf8_encode c) = Some (KStr (text_of (hangul_parts c))) \<and>
    text_of (hangul_parts c) \<noteq> utf8_encode c"
proof -
  note p = hangul_parts_join[OF assms(1)]
  have j: "list_all (\<lambda>j. ku_ccc U j = 0 \<and> (\<forall>b. ku_compose U j b = -1)) (hangul_parts c)"
    using p(3) ccc_jamo[OF assms(2,3)] compose_jamo[OF assms(4)] by (auto simp: list_all_iff)
  then have "list_all (\<lambda>j. ku_ccc U j = 0) (hangul_parts c)" by (simp add: list_all_iff)
  then have o: "ku_canonical_order (ku_ccc U) (hangul_parts c) = hangul_parts c" by (rule starters_order)
  obtain x xs where x: "hangul_parts c = x # xs" using p(2) by (cases "hangul_parts c") auto
  then have k: "ku_compose_chars U (hangul_parts c) = hangul_parts c"
    using starters_compose[of U x xs "[]"] j by (simp add: ku_compose_chars_def)
  have d: "ku_decode (utf8_encode c) = [c]"
    using decode_text[of "[c]"] syllable_scalar[OF assms(1)] by simp
  have n: "text_of (hangul_parts c) \<noteq> utf8_encode c"
  proof
    assume t: "text_of (hangul_parts c) = utf8_encode c"
    have "list_all scalar (hangul_parts c)" using p(3) by (auto simp: list_all_iff scalar_nat)
    moreover have "list_all scalar [c]" using syllable_scalar[OF assms(1)] by simp
    ultimately have "hangul_parts c = [c]" using t strict.unique[of "hangul_parts c" "[c]"] by (simp add: text_of_def)
    with p(2) show False by simp
  qed
  have "ku_normalize (Suc fuel) U 0 (utf8_encode c) = Some (KStr (text_of (hangul_parts c)))"
    using assms(1) by (simp add: ku_normalize_def d o k Let_def)
  with p(1) n show ?thesis by blast
qed

lemma hangul_not_recomposed_witness:
  "ku_normalize 1 ucd_small 0 (utf8_encode 0xAC00) = Some (KStr (text_of [0x1100, 0x1161]))"
proof -
  have "is_syllable 0xAC00" "hangul_parts 0xAC00 = [0x1100, 0x1161]"
    by (simp_all add: is_syllable_def hangul_parts_def)
  with hangul_not_recomposed[of "0xAC00" ucd_small 0] show ?thesis
    by (simp add: ucd_small_def no_jamo_def)
qed

end
