(* ===== verification/Kappa_Grapheme.thy ===== *)
theory Kappa_Grapheme
  imports Kappa_Unicode
begin

text \<open>
  Segmentation (\<open>runtime/unicode.c\<close>, UAX 29) and the string primitives of \<open>runtime/prims.c\<close> that
  use it: grapheme clusters, words, sentences, normalization and case folding of boxed strings.
\<close>

section \<open>Break classes\<close>

datatype gc_class =
  GcOther | GcCR | GcLF | GcControl | GcExtend | GcZWJ | GcRI | GcPrepend | GcSpacingMark
| GcExtPict | GcL | GcV | GcT | GcLV | GcLVT

text \<open>The last range that starts at or below the scalar.\<close>

function gcb_best :: "ucd \<Rightarrow> int \<Rightarrow> int \<Rightarrow> int \<Rightarrow> int \<Rightarrow> int" where
  "gcb_best U cp lo hi best =
     (if lo \<le> hi then
        (let mid = (lo + hi) div 2 in
         if at (ku_gcb_lo U) mid \<le> cp then gcb_best U cp (mid + 1) hi mid
         else gcb_best U cp lo (mid - 1) best)
      else best)"
  by pat_completeness auto
termination by (relation "measure (\<lambda>(U, cp, lo, hi, best). nat (hi - lo + 1))") (auto dest: mid_bounds)

declare gcb_best.simps [simp del]

definition ku_gcb_raw :: "ucd \<Rightarrow> u32 \<Rightarrow> int" where
  "ku_gcb_raw U cp =
     (let best = gcb_best U (sint cp) 0 (int (length (ku_gcb_lo U)) - 1) (-1) in
      if best \<ge> 0 \<and> sint cp \<le> at (ku_gcb_hi U) best then at (ku_gcb_cls U) best else 0)"

definition ku_gcb_of :: "ucd \<Rightarrow> u32 \<Rightarrow> gc_class" where
  "ku_gcb_of U n =
     (if (n \<ge> 0x1100 \<and> n \<le> 0x115F) \<or> (n \<ge> 0xA960 \<and> n \<le> 0xA97C) then GcL
      else if (n \<ge> 0x1160 \<and> n \<le> 0x11A7) \<or> (n \<ge> 0xD7B0 \<and> n \<le> 0xD7C6) then GcV
      else if (n \<ge> 0x11A8 \<and> n \<le> 0x11FF) \<or> (n \<ge> 0xD7CB \<and> n \<le> 0xD7FB) then GcT
      else if is_syllable n then (if (unat n - KU_SBASE) mod KU_TCOUNT = 0 then GcLV else GcLVT)
      else let c = ku_gcb_raw U n in
        if c = 1 then GcCR else if c = 2 then GcLF else if c = 3 then GcControl
        else if c = 4 then GcExtend else if c = 5 then GcZWJ else if c = 6 then GcRI
        else if c = 7 then GcPrepend else if c = 8 then GcSpacingMark
        else if c = 9 then GcExtPict else GcOther)"

section \<open>Grapheme clusters\<close>

text \<open>The break decision between two neighbours; \<open>pictZWJ\<close> and \<open>riRun\<close> are the loop's history.\<close>

definition ku_break :: "gc_class \<Rightarrow> gc_class \<Rightarrow> bool \<Rightarrow> nat \<Rightarrow> bool" where
  "ku_break prev cls pictZWJ riRun =
     (if prev = GcCR \<and> cls = GcLF then False
      else if prev = GcControl \<or> prev = GcCR \<or> prev = GcLF then True
      else if cls = GcControl \<or> cls = GcCR \<or> cls = GcLF then True
      else if prev = GcL \<and> (cls = GcL \<or> cls = GcV \<or> cls = GcLV \<or> cls = GcLVT) then False
      else if (prev = GcLV \<or> prev = GcV) \<and> (cls = GcV \<or> cls = GcT) then False
      else if (prev = GcLVT \<or> prev = GcT) \<and> cls = GcT then False
      else if cls = GcExtend \<or> cls = GcZWJ then False
      else if cls = GcSpacingMark then False
      else if prev = GcPrepend then False
      else if prev = GcZWJ \<and> cls = GcExtPict \<and> pictZWJ then False
      else if prev = GcRI \<and> cls = GcRI then riRun mod 2 = 0
      else True)"

fun grapheme_loop :: "ucd \<Rightarrow> gc_class \<Rightarrow> bool \<Rightarrow> bool \<Rightarrow> nat \<Rightarrow> u32 list \<Rightarrow> nat" where
  "grapheme_loop U prev pictExtend pictZWJ riRun [] = 0"
| "grapheme_loop U prev pictExtend pictZWJ riRun (c # cs) =
     (let cls = ku_gcb_of U c in
      if ku_break prev cls pictZWJ riRun then 0
      else Suc (grapheme_loop U cls
             (if cls = GcExtPict then True else if cls = GcExtend then pictExtend else False)
             (cls = GcZWJ \<and> pictExtend)
             (if cls = GcRI then riRun + 1 else 0) cs))"

definition ku_grapheme_len :: "ucd \<Rightarrow> u32 list \<Rightarrow> nat \<Rightarrow> nat" where
  "ku_grapheme_len U cps start =
     (if start \<ge> length cps then 0
      else let prev = ku_gcb_of U (cps ! start) in
        Suc (grapheme_loop U prev (prev = GcExtPict) False (if prev = GcRI then 1 else 0) (drop (start + 1) cps)))"

definition ku_grapheme_next :: "ucd \<Rightarrow> u32 list \<Rightarrow> nat \<Rightarrow> nat" where
  "ku_grapheme_next U cps i = (let l = ku_grapheme_len U cps i in i + (if l > 0 then l else 1))"

function ku_grapheme_count_from :: "ucd \<Rightarrow> u32 list \<Rightarrow> nat \<Rightarrow> nat" where
  "ku_grapheme_count_from U cps i =
     (if i < length cps then Suc (ku_grapheme_count_from U cps (ku_grapheme_next U cps i)) else 0)"
  by pat_completeness auto
termination by (relation "measure (\<lambda>(U, cps, i). length cps - i)") (auto simp: ku_grapheme_next_def Let_def)

definition ku_grapheme_count :: "ucd \<Rightarrow> u32 list \<Rightarrow> nat" where
  "ku_grapheme_count U cps = ku_grapheme_count_from U cps 0"

definition ku_encode_range :: "u32 list \<Rightarrow> nat \<Rightarrow> nat \<Rightarrow> kval" where
  "ku_encode_range cps a b = KStr (text_of (take (b - a) (drop a cps)))"

definition ku_is_space :: "u32 \<Rightarrow> bool" where
  "ku_is_space c =
     (if c = 32 \<or> (c \<ge> 9 \<and> c \<le> 13) then True
      else if c = 0x85 \<or> c = 0xA0 \<or> c = 0x1680 then True
      else if c \<ge> 0x2000 \<and> c \<le> 0x200A then True
      else c = 0x2028 \<or> c = 0x2029 \<or> c = 0x202F \<or> c = 0x205F \<or> c = 0x3000)"

section \<open>The primitives\<close>

definition kpf___normalize :: "nat \<Rightarrow> gmp \<Rightarrow> ucd \<Rightarrow> kval \<Rightarrow> kval \<Rightarrow> kval option kres" where
  "kpf___normalize fuel G U f a =
     kbind (str_raw a) (\<lambda>s. kbind (kas_int G f) (\<lambda>form.
       Inr (ku_normalize fuel U (sint (ucast form :: u32)) s)))"

definition kpf___caseFold :: "ucd \<Rightarrow> kval \<Rightarrow> kval kres" where
  "kpf___caseFold U a =
     kbind (str_raw a) (\<lambda>s. Inr (KStr (text_of (concat (map (ku_casefold_scalar U) (ku_decode s))))))"

definition kpf___graphemeCount :: "ucd \<Rightarrow> kval \<Rightarrow> kval kres" where
  "kpf___graphemeCount U a =
     kbind (str_raw a) (\<lambda>s. Inr (kint (word_of_nat (ku_grapheme_count U (ku_decode s)))))"

definition kpf___graphemeValid :: "ucd \<Rightarrow> kval \<Rightarrow> kval kres" where
  "kpf___graphemeValid U a = kbind (str_raw a) (\<lambda>s. Inr (kbool (ku_grapheme_count U (ku_decode s) = 1)))"

definition kpf___graphemeOfString :: "ucd \<Rightarrow> kval \<Rightarrow> kval kres" where
  "kpf___graphemeOfString U a =
     kbind (str_raw a) (\<lambda>s.
       if ku_grapheme_count U (ku_decode s) = 1 then Inr a
       else Inl ''__graphemeOfString: string is not a single grapheme'')"

function ku_bounds :: "ucd \<Rightarrow> u32 list \<Rightarrow> nat \<Rightarrow> nat list" where
  "ku_bounds U cps i = (if i < length cps then i # ku_bounds U cps (ku_grapheme_next U cps i) else [])"
  by pat_completeness auto
termination by (relation "measure (\<lambda>(U, cps, i). length cps - i)") (auto simp: ku_grapheme_next_def Let_def)

declare ku_grapheme_count_from.simps [simp del] ku_bounds.simps [simp del]

text \<open>The descending loop over the bounds: the piece of bound \<open>b\<close> ends at the next bound or at the end.\<close>

fun bound_pieces :: "nat \<Rightarrow> nat list \<Rightarrow> (nat \<times> nat) list" where
  "bound_pieces n [] = []"
| "bound_pieces n [b] = [(b, n)]"
| "bound_pieces n (b # c # bs) = (b, c) # bound_pieces n (c # bs)"

definition pieces_list :: "u32 list \<Rightarrow> (nat \<times> nat) list \<Rightarrow> kval" where
  "pieces_list cps ps = foldr (\<lambda>(st, en) acc. kcons (ku_encode_range cps st en) acc) ps knil"

definition kpf___stringGraphemes :: "ucd \<Rightarrow> kval \<Rightarrow> kval kres" where
  "kpf___stringGraphemes U a =
     kbind (str_raw a) (\<lambda>s. let cps = ku_decode s in
       Inr (pieces_list cps (bound_pieces (length cps) (ku_bounds U cps 0))))"

definition kpf___stringNextGrapheme :: "gmp \<Rightarrow> ucd \<Rightarrow> kval \<Rightarrow> kval \<Rightarrow> kval kres" where
  "kpf___stringNextGrapheme G U a ix =
     kbind (str_raw a) (\<lambda>s. kbind (kas_int G ix) (\<lambda>i. let cps = ku_decode s in
       if sint i \<ge> 0 \<and> sint i < int (length cps) then
         (let l0 = ku_grapheme_len U cps (nat (sint i)); l = (if l0 = 0 then 1 else l0) in
          Inr (ksome (KRec [(''grapheme'', ku_encode_range cps (nat (sint i)) (nat (sint i) + l)),
                            (''next'', kint (i + word_of_nat l))])))
       else Inr knone))"

text \<open>The words: maximal runs of scalars that are not space.\<close>

function word_pieces :: "u32 list \<Rightarrow> nat \<Rightarrow> (nat \<times> nat) list" where
  "word_pieces cps i =
     (if i < length cps then
        (let st = i + length (takeWhile ku_is_space (drop i cps)) in
         if st \<ge> length cps then []
         else let en = st + length (takeWhile (\<lambda>c. \<not> ku_is_space c) (drop st cps)) in
           (st, en) # word_pieces cps en)
      else [])"
  by pat_completeness auto
termination
proof (relation "measure (\<lambda>(cps, i). length cps - i)", goal_cases)
  case (2 cps i st en)
  have "drop st cps \<noteq> []" using 2 by simp
  have "\<not> ku_is_space (cps ! st)"
  proof -
    have "dropWhile ku_is_space (drop i cps) = drop st cps" using 2 by (simp add: dropWhile_eq_drop add.commute)
    then have "\<not> ku_is_space (hd (drop st cps))"
      using hd_dropWhile[of ku_is_space "drop i cps"] \<open>drop st cps \<noteq> []\<close> by metis
    then show ?thesis using 2 by (simp add: hd_drop_conv_nth)
  qed
  then have "takeWhile (\<lambda>c. \<not> ku_is_space c) (drop st cps) \<noteq> []"
    using 2 by (simp add: takeWhile_eq_Nil_iff hd_drop_conv_nth)
  then have "i \<le> st" "st < length cps" "st < en" using 2 by auto
  then have "length cps - en < length cps - i" by linarith
  then show ?case by simp
qed simp

declare word_pieces.simps [simp del]

definition kpf___stringWords :: "kval \<Rightarrow> kval kres" where
  "kpf___stringWords a =
     kbind (str_raw a) (\<lambda>s. let cps = ku_decode s in Inr (pieces_list cps (word_pieces cps 0)))"

text \<open>The sentences: up to and with each full stop, exclamation or question mark, and the rest.\<close>

function sentence_pieces :: "u32 list \<Rightarrow> nat \<Rightarrow> nat \<Rightarrow> (nat \<times> nat) list" where
  "sentence_pieces cps start i =
     (if i < length cps then
        (if cps ! i = 46 \<or> cps ! i = 33 \<or> cps ! i = 63
         then (start, i + 1) # sentence_pieces cps (i + 1) (i + 1)
         else sentence_pieces cps start (i + 1))
      else if start < length cps then [(start, length cps)] else [])"
  by pat_completeness auto
termination by (relation "measure (\<lambda>(cps, st, i). length cps - i)") auto

declare sentence_pieces.simps [simp del]

text \<open>The two trimming loops of a sentence.\<close>

function trim_left :: "u32 list \<Rightarrow> nat \<Rightarrow> nat \<Rightarrow> nat" where
  "trim_left cps st en = (if st < en \<and> ku_is_space (cps ! st) then trim_left cps (st + 1) en else st)"
  by pat_completeness auto
termination by (relation "measure (\<lambda>(cps, st, en). en - st)") auto

fun trim_right :: "u32 list \<Rightarrow> nat \<Rightarrow> nat \<Rightarrow> nat" where
  "trim_right cps st 0 = 0"
| "trim_right cps st (Suc en) =
     (if Suc en > st \<and> ku_is_space (cps ! en) then trim_right cps st en else Suc en)"

declare trim_left.simps [simp del]

definition trim_piece :: "u32 list \<Rightarrow> nat \<times> nat \<Rightarrow> (nat \<times> nat) list" where
  "trim_piece cps p =
     (let st = trim_left cps (fst p) (snd p); en = trim_right cps st (snd p) in
      if en > st then [(st, en)] else [])"

definition kpf___stringSentences :: "kval \<Rightarrow> kval kres" where
  "kpf___stringSentences a =
     kbind (str_raw a) (\<lambda>s. let cps = ku_decode s in
       Inr (pieces_list cps (concat (map (trim_piece cps) (sentence_pieces cps 0 0)))))"

section \<open>Segmentation partitions the text\<close>

definition slice :: "u32 list \<Rightarrow> nat \<times> nat \<Rightarrow> u32 list" where
  "slice cps p = take (snd p - fst p) (drop (fst p) cps)"

lemma pieces_list_klist: "pieces_list cps ps = klist (map (\<lambda>p. KStr (text_of (slice cps p))) ps)"
  by (induction ps) (auto simp: pieces_list_def klist_def ku_encode_range_def slice_def)

lemma grapheme_loop_le: "grapheme_loop U p e z r cs \<le> length cs"
  by (induction cs arbitrary: p e z r) (simp_all add: Let_def)

lemma grapheme_len_le: "start < length cps \<Longrightarrow> ku_grapheme_len U cps start \<le> length cps - start"
  using grapheme_loop_le by (auto simp: ku_grapheme_len_def Let_def intro: order_trans[OF Suc_leI[OF le_imp_less_Suc]])
    (metis Suc_diff_Suc Suc_le_mono grapheme_loop_le length_drop)+

lemma grapheme_next: "i < length cps \<Longrightarrow> i < ku_grapheme_next U cps i \<and> ku_grapheme_next U cps i \<le> length cps"
  using grapheme_len_le[of i cps U] by (auto simp: ku_grapheme_next_def Let_def)

lemma bounds_pieces:
  assumes "i \<le> length cps"
  shows "concat (map (slice cps) (bound_pieces (length cps) (ku_bounds U cps i))) = drop i cps \<and>
    list_all (\<lambda>p. slice cps p \<noteq> []) (bound_pieces (length cps) (ku_bounds U cps i)) \<and>
    length (bound_pieces (length cps) (ku_bounds U cps i)) = ku_grapheme_count_from U cps i"
  using assms
proof (induction U cps i rule: ku_bounds.induct)
  case (1 U cps i)
  show ?case
  proof (cases "i < length cps")
    case False
    then show ?thesis by (simp add: ku_bounds.simps[of U cps i] ku_grapheme_count_from.simps[of U cps i])
  next
    case True
    let ?j = "ku_grapheme_next U cps i"
    note j = grapheme_next[OF True, of U]
    note IH = 1(1)[OF True] j
    have b: "ku_bounds U cps i = i # ku_bounds U cps ?j" using True by (simp add: ku_bounds.simps[of U cps i])
    have c: "ku_grapheme_count_from U cps i = Suc (ku_grapheme_count_from U cps ?j)"
      using True by (simp add: ku_grapheme_count_from.simps[of U cps i])
    have n: "take (?j - i) (drop i cps) \<noteq> []" using True j by simp
    have d: "take (?j - i) (drop i cps) @ drop ?j cps = drop i cps"
      using j append_take_drop_id[of "?j - i" "drop i cps"] by simp
    show ?thesis
    proof (cases "?j < length cps")
      case False
      then have e: "?j = length cps" using j by simp
      have "ku_bounds U cps ?j = []" "ku_grapheme_count_from U cps ?j = 0"
        using False by (simp_all add: ku_bounds.simps[of U cps ?j] ku_grapheme_count_from.simps[of U cps ?j])
      then show ?thesis using b c n d e True by (simp add: slice_def)
    next
      case T: True
      then have "ku_bounds U cps ?j = ?j # ku_bounds U cps (ku_grapheme_next U cps ?j)"
        by (simp add: ku_bounds.simps[of U cps ?j])
      then have p: "bound_pieces (length cps) (ku_bounds U cps i) = (i, ?j) # bound_pieces (length cps) (ku_bounds U cps ?j)"
        by (simp add: b)
      show ?thesis unfolding p using IH c n d by (simp add: slice_def)
    qed
  qed
qed

lemma ri_loop:
  "list_all (\<lambda>c. ku_gcb_of U c = GcRI) cs \<Longrightarrow> grapheme_loop U GcRI e z 1 cs = min 1 (length cs)"
  by (cases cs; cases "tl cs") (auto simp: Let_def ku_break_def)

lemma ri_len:
  assumes "list_all (\<lambda>c. ku_gcb_of U c = GcRI) cps" "i < length cps"
  shows "ku_grapheme_len U cps i = min 2 (length cps - i)"
proof -
  have "ku_gcb_of U (cps ! i) = GcRI" "list_all (\<lambda>c. ku_gcb_of U c = GcRI) (drop (i + 1) cps)"
    using assms by (auto simp: list_all_iff dest: in_set_dropD)
  then show ?thesis using assms(2) ri_loop[of U "drop (i + 1) cps"] by (auto simp add: ku_grapheme_len_def)
qed

lemma ri_count:
  "list_all (\<lambda>c. ku_gcb_of U c = GcRI) cps \<Longrightarrow> ku_grapheme_count_from U cps i = (length cps - i + 1) div 2"
proof (induction U cps i rule: ku_grapheme_count_from.induct)
  case (1 U cps i)
  show ?case
  proof (cases "i < length cps")
    case True
    then show ?thesis using 1(1)[OF True 1(2)] ri_len[OF 1(2) True]
      by (simp add: ku_grapheme_count_from.simps[of U cps i] ku_grapheme_next_def Let_def min_def) linarith?
  qed (simp add: ku_grapheme_count_from.simps[of U cps i])
qed

text \<open>Grapheme segmentation partitions a text: the pieces are non-empty, their concatenation is the
  text, and their number is the grapheme count; a run of regional indicators is cut into pairs.\<close>
theorem graphemes_partition:
  assumes "list_all scalar cps"
  shows "(\<exists>ps. kpf___stringGraphemes U (KStr (text_of cps)) = Inr (klist (map (\<lambda>p. KStr (text_of p)) ps)) \<and>
      concat ps = cps \<and> list_all (\<lambda>p. p \<noteq> []) ps \<and>
      kpf___graphemeCount U (KStr (text_of cps)) = Inr (kint (word_of_nat (length ps)))) \<and>
    (list_all (\<lambda>c. ku_gcb_of U c = GcRI) cps \<longrightarrow> ku_grapheme_count U cps = (length cps + 1) div 2)"
proof -
  let ?b = "bound_pieces (length cps) (ku_bounds U cps 0)"
  let ?ps = "map (slice cps) ?b"
  have b: "concat ?ps = cps" "list_all (\<lambda>p. p \<noteq> []) ?ps" "length ?ps = ku_grapheme_count_from U cps 0"
    using bounds_pieces[of 0 cps U] by (auto simp: list_all_iff)
  have "kpf___stringGraphemes U (KStr (text_of cps)) = Inr (klist (map (\<lambda>p. KStr (text_of p)) ?ps))"
    by (simp add: kpf___stringGraphemes_def decode_text[OF assms] pieces_list_klist Let_def comp_def)
  moreover have "kpf___graphemeCount U (KStr (text_of cps)) = Inr (kint (word_of_nat (length ?ps)))"
    by (simp add: kpf___graphemeCount_def decode_text[OF assms] ku_grapheme_count_def b(3)[simplified])
  moreover have "list_all (\<lambda>c. ku_gcb_of U c = GcRI) cps \<longrightarrow> ku_grapheme_count U cps = (length cps + 1) div 2"
    using ri_count[of U cps 0] by (simp add: ku_grapheme_count_def)
  ultimately show ?thesis using b by blast
qed


lemma graphemes_partition_witness:
  "\<exists>ps. kpf___stringGraphemes ucd_small (KStr (text_of [0x61, 0x300, 0x0D, 0x0A])) =
      Inr (klist (map (\<lambda>p. KStr (text_of p)) ps)) \<and> concat ps = [0x61, 0x300, 0x0D, 0x0A]"
  using graphemes_partition[of "[0x61, 0x300, 0x0D, 0x0A]" ucd_small]
  by (simp add: scalar_def scalar_range_def) blast

section \<open>Words\<close>

text \<open>The reference: Haskell's \<open>words\<close>.\<close>

function words_ref :: "u32 list \<Rightarrow> u32 list list" where
  "words_ref xs =
     (let ys = dropWhile ku_is_space xs in
      if ys = [] then []
      else takeWhile (\<lambda>c. \<not> ku_is_space c) ys # words_ref (dropWhile (\<lambda>c. \<not> ku_is_space c) ys))"
  by pat_completeness auto
termination
proof (relation "measure length", goal_cases)
  case (2 xs ys)
  then obtain z zs where z: "ys = z # zs" by (meson neq_Nil_conv)
  have "\<not> ku_is_space (hd ys)" using 2 hd_dropWhile[of ku_is_space xs] by metis
  then have "length (dropWhile (\<lambda>c. \<not> ku_is_space c) ys) \<le> length zs" by (simp add: z length_dropWhile_le)
  moreover have "length ys \<le> length xs" using 2 by (simp add: length_dropWhile_le)
  ultimately show ?case using z by simp
qed simp

declare words_ref.simps [simp del]

lemma words_ref_nil: "dropWhile ku_is_space xs = [] \<Longrightarrow> words_ref xs = []"
  by (subst words_ref.simps) (simp only: Let_def if_True refl)

lemma words_ref_step: "dropWhile ku_is_space xs \<noteq> [] \<Longrightarrow>
   words_ref xs = takeWhile (\<lambda>c. \<not> ku_is_space c) (dropWhile ku_is_space xs)
     # words_ref (dropWhile (\<lambda>c. \<not> ku_is_space c) (dropWhile ku_is_space xs))"
  by (subst words_ref.simps) (simp only: Let_def if_False)

lemma word_pieces_ref: "map (slice cps) (word_pieces cps i) = words_ref (drop i cps)"
proof (induction cps i rule: word_pieces.induct)
  case (1 cps i)
  let ?st = "i + length (takeWhile ku_is_space (drop i cps))"
  let ?en = "?st + length (takeWhile (\<lambda>c. \<not> ku_is_space c) (drop ?st cps))"
  have st: "dropWhile ku_is_space (drop i cps) = drop ?st cps"
    by (simp add: dropWhile_eq_drop add.commute)
  have en: "dropWhile (\<lambda>c. \<not> ku_is_space c) (drop ?st cps) = drop ?en cps"
    by (subst dropWhile_eq_drop) (simp add: add.commute)
  show ?case
  proof (cases "i < length cps \<and> ?st < length cps")
    case False
    then have "length cps \<le> ?st" by auto
    then have d: "drop ?st cps = []" by simp
    then have "words_ref (drop i cps) = []" using words_ref_nil[of "drop i cps"] unfolding st by blast
    moreover have "word_pieces cps i = []" using False by (subst word_pieces.simps) (auto simp: Let_def)
    ultimately show ?thesis by (simp only: list.map)
  next
    case True
    have n: "\<not> length cps \<le> ?st" using True by linarith
    have w: "word_pieces cps i = (?st, ?en) # word_pieces cps ?en"
      using True n by (subst word_pieces.simps) (simp only: Let_def if_True if_False)
    have "dropWhile ku_is_space (drop i cps) \<noteq> []" unfolding st using n by simp
    from words_ref_step[OF this] have r: "words_ref (drop i cps) =
        takeWhile (\<lambda>c. \<not> ku_is_space c) (drop ?st cps) # words_ref (drop ?en cps)"
      unfolding st en .
    have s: "slice cps (?st, ?en) = takeWhile (\<lambda>c. \<not> ku_is_space c) (drop ?st cps)"
      by (simp add: slice_def) (metis takeWhile_eq_take)
    have "map (slice cps) (word_pieces cps ?en) = words_ref (drop ?en cps)"
      using 1(1)[OF conjunct1[OF True] refl n refl] .
    then show ?thesis unfolding w r list.map s by (simp only:)
  qed
qed

lemma words_ref_concat:
  "concat (words_ref xs) = filter (\<lambda>c. \<not> ku_is_space c) xs \<and> list_all (\<lambda>w. w \<noteq> []) (words_ref xs)"
proof (induction xs rule: words_ref.induct)
  case (1 xs)
  let ?y = "dropWhile ku_is_space xs" let ?P = "\<lambda>c. \<not> ku_is_space c"
  have f: "filter ?P xs = filter ?P ?y"
  proof -
    have "filter ?P (takeWhile ku_is_space xs) = []" by (auto simp: filter_empty_conv dest: set_takeWhileD)
    then show ?thesis by (metis append_Nil filter_append takeWhile_dropWhile_id)
  qed
  show ?case
  proof (cases "?y = []")
    case True
    have "filter ?P xs = []" unfolding f True by simp
    then show ?thesis unfolding words_ref_nil[OF True] by (simp only: concat.simps list.pred_inject simp_thms)
  next
    case False
    have "?P (hd ?y)" using False hd_dropWhile[of ku_is_space xs] by metis
    then have n: "takeWhile ?P ?y \<noteq> []" using False by (simp add: takeWhile_eq_Nil_iff)
    have "filter ?P ?y = takeWhile ?P ?y @ filter ?P (dropWhile ?P ?y)"
      by (metis filter_append takeWhile_dropWhile_id filter_True set_takeWhileD)
    then show ?thesis using f 1[OF refl False] n unfolding words_ref_step[OF False] by simp
  qed
qed

text \<open>Word splitting agrees with the reference \<open>words\<close>: the pieces are its words, none is empty, and
  together they are the scalars of the text that are not space, in order.\<close>
theorem string_words:
  assumes "list_all scalar cps"
  shows "kpf___stringWords (KStr (text_of cps)) = Inr (klist (map (\<lambda>w. KStr (text_of w)) (words_ref cps))) \<and>
    concat (words_ref cps) = filter (\<lambda>c. \<not> ku_is_space c) cps \<and> list_all (\<lambda>w. w \<noteq> []) (words_ref cps)"
proof -
  have "map (\<lambda>p. KStr (text_of (slice cps p))) (word_pieces cps 0) = map (\<lambda>w. KStr (text_of w)) (words_ref cps)"
    using arg_cong[OF word_pieces_ref[of cps 0], of "map (\<lambda>w. KStr (text_of w))"] by (simp add: comp_def)
  then show ?thesis
    using words_ref_concat by (simp add: kpf___stringWords_def decode_text[OF assms] pieces_list_klist Let_def)
qed

lemma string_words_witness:
  "kpf___stringWords (KStr (text_of [0x61, 0x20, 0x62])) = Inr (klist (map (\<lambda>w. KStr (text_of w)) (words_ref [0x61, 0x20, 0x62])))"
  using string_words[of "[0x61, 0x20, 0x62]"] by (simp add: scalar_def scalar_range_def)

end
