(* ===== verification/Kappa_Show.thy ===== *)
theory Kappa_Show
  imports Kappa_Text
begin

text \<open>
  The text of values (\<open>runtime/show.c\<close>): Integers, scalars and string literals as Haskell's
  \<open>show\<close> writes them. The growable buffer \<open>sbuf\<close> is the string of its characters. A reader of
  Haskell string literals is the specification of \<open>show_string_lit\<close>: it reads back the scalars.
\<close>

section \<open>The code\<close>

definition kstr0 :: "string \<Rightarrow> kval" where
  "kstr0 s = KStr (map of_char s)"

text \<open>\<open>show_int_val\<close>; the buffer of 32 bytes takes any \<open>int64_t\<close>, and GMP prints a big one.\<close>

fun show_int_val :: "gmp \<Rightarrow> kval \<Rightarrow> kval kres" where
  "show_int_val G (KInt w) = Inr (kstr0 (snprintf 32 (int_dec (sint w))))"
| "show_int_val G (KImm w) =
     (if kis_imm_int w then Inr (kstr0 (snprintf 32 (int_dec (sint (kimm_int_val w)))))
      else Inl ''showInt: not an Int'')"
| "show_int_val G (KBig z) = Inr (kstr0 (mpz_get_str G z))"
| "show_int_val G _ = Inl ''showInt: not an Int''"

definition ascii_tab :: "string list" where
  "ascii_tab =
     [''NUL'', ''SOH'', ''STX'', ''ETX'', ''EOT'', ''ENQ'', ''ACK'', ''a'', ''b'', ''t'', ''n'', ''v'', ''f'', ''r'', ''SO'', ''SI'',
      ''DLE'', ''DC1'', ''DC2'', ''DC3'', ''DC4'', ''NAK'', ''SYN'', ''ETB'', ''CAN'', ''EM'', ''SUB'', ''ESC'', ''FS'', ''GS'', ''RS'', ''US'']"

text \<open>The text of one scalar with the flags \<open>numeric\<close> and \<open>so\<close>.\<close>

definition show_lit_char :: "u32 \<Rightarrow> string \<times> bool \<times> bool" where
  "show_lit_char cp =
     (if cp = 92 then ([CHR 0x5C, CHR 0x5C], False, False)
      else if cp \<ge> 0x20 \<and> cp \<le> 0x7E then ([char_of (unat cp)], False, False)
      else if cp = 0x7F then (CHR 0x5C # ''DEL'', False, False)
      else if cp < 0x20 then (CHR 0x5C # (ascii_tab ! unat cp), False, cp = 14)
      else (snprintf 16 (CHR 0x5C # nat_dec (unat cp)), True, False))"

fun show_scalar :: "kval \<Rightarrow> kval kres" where
  "show_scalar (KChr c) =
     Inr (kstr0 ([CHR 0x27] @ (if c = 0x27 then [CHR 0x5C, CHR 0x27] else fst (show_lit_char c)) @ [CHR 0x27]))"
| "show_scalar _ = Inl ''showScalar: not a scalar''"

text \<open>The loop of \<open>show_string_lit\<close> over the scalars that \<open>utf8_next\<close> reads, with the flags of the
  previous escape.\<close>

fun show_string_loop :: "bool \<Rightarrow> bool \<Rightarrow> u32 list \<Rightarrow> string" where
  "show_string_loop pn pso [] = []"
| "show_string_loop pn pso (cp # cps) =
     (let prot = (if (pn \<and> cp \<ge> 48 \<and> cp \<le> 57) \<or> (pso \<and> cp = 72) then [CHR 0x5C, CHR ''&''] else []) in
      if cp = 34 then prot @ [CHR 0x5C, CHR 0x22] @ show_string_loop False False cps
      else let (t, n, s) = show_lit_char cp in prot @ t @ show_string_loop n s cps)"

fun show_string_lit :: "kval \<Rightarrow> kval kres" where
  "show_string_lit (KStr bs) =
     Inr (kstr0 ([CHR 0x22] @ show_string_loop False False (ku_decode bs) @ [CHR 0x22]))"
| "show_string_lit _ = Inl ''showStringLit: not a String''"

section \<open>Decimal text\<close>

definition is_dig :: "char \<Rightarrow> bool" where
  "is_dig c \<longleftrightarrow> 48 \<le> (of_char c :: nat) \<and> (of_char c :: nat) \<le> 57"

lemma digit_char: "d < 10 \<Longrightarrow> is_dig (digit_char d) \<and> of_char (digit_char d) = 48 + d"
proof -
  assume "d < 10"
  then have "d \<in> {0, 1, 2, 3, 4, 5, 6, 7, 8, 9}" by auto
  then show ?thesis by (auto simp: digit_char_def is_dig_def)
qed

text \<open>Reading a run of digits.\<close>

fun dec_run :: "nat \<Rightarrow> string \<Rightarrow> nat \<times> string" where
  "dec_run a [] = (a, [])"
| "dec_run a (c # cs) = (if is_dig c then dec_run (10 * a + (of_char c - 48)) cs else (a, c # cs))"

lemma dec_run_app: "list_all is_dig xs \<Longrightarrow> dec_run a (xs @ ys) = dec_run (foldl (\<lambda>a c. 10 * a + (of_char c - 48)) a xs) ys"
  by (induction xs arbitrary: a) auto

lemma nat_dec_digits: "list_all is_dig (nat_dec n) \<and> nat_dec n \<noteq> [] \<and>
   foldl (\<lambda>a c. 10 * a + (of_char c - 48)) 0 (nat_dec n) = n"
proof (induction n rule: nat_dec.induct)
  case (1 n)
  show ?case
  proof (cases "n < 10")
    case True
    then show ?thesis using digit_char[of n] by (simp add: nat_dec.simps[of n])
  next
    case False
    then show ?thesis using 1 digit_char[of "n mod 10"] by (simp add: nat_dec.simps[of n])
  qed
qed

lemma nat_dec_length: "n < 10 ^ Suc k \<Longrightarrow> length (nat_dec n) \<le> Suc k"
proof (induction k arbitrary: n)
  case 0
  then show ?case by (simp add: nat_dec.simps[of n])
next
  case (Suc k)
  then have "n div 10 < 10 ^ Suc k" by (simp add: less_mult_imp_div_less)
  from Suc.IH[OF this] show ?case by (simp add: nat_dec.simps[of n])
qed

lemma dec_run_nat: "(r = [] \<or> \<not> is_dig (hd r)) \<Longrightarrow> dec_run 0 (nat_dec n @ r) = (n, r)"
  using dec_run_app[of "nat_dec n" 0 r] nat_dec_digits[of n] by (cases r) auto

section \<open>A reader of Haskell string literals\<close>

text \<open>The escape after a backslash: a character, or the empty escape \<open>\&\<close>; of two names of which one
  is a prefix of the other the longer one is taken.\<close>

definition escape_names :: "(string \<times> nat) list" where
  "escape_names =
     [(''SOH'', 1), (''NUL'', 0), (''STX'', 2), (''ETX'', 3), (''EOT'', 4), (''ENQ'', 5), (''ACK'', 6),
      (''a'', 7), (''b'', 8), (''t'', 9), (''n'', 10), (''v'', 11), (''f'', 12), (''r'', 13), (''SO'', 14), (''SI'', 15),
      (''DLE'', 16), (''DC1'', 17), (''DC2'', 18), (''DC3'', 19), (''DC4'', 20), (''NAK'', 21), (''SYN'', 22), (''ETB'', 23),
      (''CAN'', 24), (''EM'', 25), (''SUB'', 26), (''ESC'', 27), (''FS'', 28), (''GS'', 29), (''RS'', 30), (''US'', 31),
      (''DEL'', 127), ([CHR 0x5C], 92), ([CHR 0x22], 34), ([CHR 0x27], 39)]"

fun read_name :: "(string \<times> nat) list \<Rightarrow> string \<Rightarrow> (nat \<times> string) option" where
  "read_name [] s = None"
| "read_name ((nm, v) # ns) s = (if take (length nm) s = nm then Some (v, drop (length nm) s) else read_name ns s)"

text \<open>One item of the literal: a character, the empty escape (\<open>None\<close>) or the closing quote.\<close>

datatype lit_item = LChar nat | LEmpty | LEnd

definition read_item :: "string \<Rightarrow> (lit_item \<times> string) option" where
  "read_item s =
     (case s of
        [] \<Rightarrow> None
      | c # cs \<Rightarrow>
          if c = CHR 0x22 then Some (LEnd, cs)
          else if c \<noteq> CHR 0x5C then Some (LChar (of_char c), cs)
          else case cs of
              [] \<Rightarrow> None
            | d # ds \<Rightarrow>
                if d = CHR ''&'' then Some (LEmpty, ds)
                else if is_dig d then (case dec_run 0 cs of (n, r) \<Rightarrow> Some (LChar n, r))
                else map_option (\<lambda>(v, r). (LChar v, r)) (read_name escape_names cs))"

fun read_lit :: "nat \<Rightarrow> string \<Rightarrow> (nat list \<times> string) option" where
  "read_lit 0 s = None"
| "read_lit (Suc k) s =
     (case read_item s of
        None \<Rightarrow> None
      | Some (LEnd, r) \<Rightarrow> Some ([], r)
      | Some (LEmpty, r) \<Rightarrow> read_lit k r
      | Some (LChar n, r) \<Rightarrow> map_option (\<lambda>(ns, t). (n # ns, t)) (read_lit k r))"

section \<open>The literal is read back\<close>

lemma lit_char_ascii:
  assumes "k < 32" "r = [] \<or> k \<noteq> 14 \<or> hd r \<noteq> CHR ''H''"
  shows "read_item (CHR 0x5C # (ascii_tab ! k) @ r) = Some (LChar k, r)"
proof -
  have "k \<in> {0, 1, 2, 3, 4, 5, 6, 7, 8, 9, 10, 11, 12, 13, 14, 15, 16, 17, 18, 19, 20, 21,
      22, 23, 24, 25, 26, 27, 28, 29, 30, 31}" using assms(1) by (simp, presburger)
  with assms(2) show ?thesis
    by (elim insertE emptyE; cases r)
      (simp_all add: ascii_tab_def read_item_def escape_names_def is_dig_def)
qed

lemma read_item_plain: "c \<noteq> CHR 0x22 \<Longrightarrow> c \<noteq> CHR 0x5C \<Longrightarrow> read_item (c # r) = Some (LChar (of_char c), r)"
  by (simp add: read_item_def)

lemma read_item_dec:
  assumes "r = [] \<or> \<not> is_dig (hd r)"
  shows "read_item (CHR 0x5C # nat_dec n @ r) = Some (LChar n, r)"
proof -
  obtain d ds where d: "nat_dec n = d # ds" "is_dig d" using nat_dec_digits[of n] by (cases "nat_dec n") auto
  have "d \<noteq> CHR ''&''" using d(2) by (auto simp: is_dig_def)
  then show ?thesis using d dec_run_nat[OF assms, of n] by (simp add: read_item_def)
qed

lemma char_of_byte: "n < 256 \<Longrightarrow> of_char (char_of n :: char) = (n :: nat)"
  by simp

text \<open>What may follow the text of a scalar: no digit after a numeric escape, no \<open>H\<close> after \<open>\SO\<close>.\<close>

definition may_follow :: "bool \<Rightarrow> bool \<Rightarrow> string \<Rightarrow> bool" where
  "may_follow n s r \<longleftrightarrow> (n \<longrightarrow> r = [] \<or> \<not> is_dig (hd r)) \<and> (s \<longrightarrow> r = [] \<or> hd r \<noteq> CHR ''H'')"

lemma u32_nat:
  "(cp :: u32) = 92 \<longleftrightarrow> unat cp = 92" "cp = 34 \<longleftrightarrow> unat cp = 34" "cp = 39 \<longleftrightarrow> unat cp = 39"
  "cp = 0x7F \<longleftrightarrow> unat cp = 127" "cp = 14 \<longleftrightarrow> unat cp = 14" "cp = 72 \<longleftrightarrow> unat cp = 72"
  "cp \<ge> 0x20 \<longleftrightarrow> 32 \<le> unat cp" "cp \<le> 0x7E \<longleftrightarrow> unat cp \<le> 126" "cp < 0x20 \<longleftrightarrow> unat cp < 32"
  "cp \<ge> 48 \<longleftrightarrow> 48 \<le> unat cp" "cp \<le> 57 \<longleftrightarrow> unat cp \<le> 57"
  by (simp_all add: word_unat_eq_iff word_le_nat_alt word_less_nat_alt)

lemma show_numeric_fits: "snprintf 16 (CHR 0x5C # nat_dec (unat (cp :: u32))) = CHR 0x5C # nat_dec (unat cp)"
proof -
  have "unat cp < 2 ^ 32" using unsigned_less[of cp] by simp
  then have "length (nat_dec (unat cp)) \<le> 10" using nat_dec_length[of "unat cp" 9] by simp
  then show ?thesis by (simp add: snprintf_def)
qed

lemma read_lit_char:
  assumes "show_lit_char cp = (t, n, s)" "cp \<noteq> 34" "may_follow n s r"
  shows "read_item (t @ r) = Some (LChar (unat cp), r)"
proof -
  consider "unat cp < 32" | "unat cp = 92" | "32 \<le> unat cp" "unat cp \<le> 126" "unat cp \<noteq> 92" | "unat cp = 127" | "127 < unat cp"
    by linarith
  then show ?thesis
  proof cases
    case 1
    then have "t = CHR 0x5C # (ascii_tab ! unat cp)" "s = (cp = 14)"
      using assms(1) by (auto simp: show_lit_char_def u32_nat)
    then show ?thesis using lit_char_ascii[OF 1, of r] assms(3) by (auto simp: may_follow_def u32_nat)
  next
    case 2
    then show ?thesis using assms(1)
      by (auto simp: show_lit_char_def u32_nat read_item_def escape_names_def is_dig_def)
  next
    case 3
    then have t: "t = [char_of (unat cp)]" using assms(1) by (auto simp: show_lit_char_def u32_nat)
    have o: "of_char (char_of (unat cp) :: char) = unat cp" using 3 by (intro char_of_byte) simp
    have "char_of (unat cp) \<noteq> CHR 0x22" "char_of (unat cp) \<noteq> CHR 0x5C"
    proof -
      show "char_of (unat cp) \<noteq> CHR 0x22"
      proof
        assume "char_of (unat cp) = CHR 0x22"
        then have "unat cp = of_char (CHR 0x22)" using o by metis
        then show False using assms(2) by (simp add: u32_nat)
      qed
      show "char_of (unat cp) \<noteq> CHR 0x5C"
      proof
        assume "char_of (unat cp) = CHR 0x5C"
        then have "unat cp = of_char (CHR 0x5C)" using o by metis
        then show False using 3 by simp
      qed
    qed
    then show ?thesis using o by (simp add: t read_item_plain)
  next
    case 4
    then have "t = CHR 0x5C # ''DEL''" using assms(1) by (auto simp: show_lit_char_def u32_nat)
    then show ?thesis using 4 by (simp add: read_item_def escape_names_def is_dig_def)
  next
    case 5
    then have "t = CHR 0x5C # nat_dec (unat cp)" "n"
      using assms(1) show_numeric_fits[of cp] by (auto simp: show_lit_char_def u32_nat)
    then show ?thesis using read_item_dec[of r "unat cp"] assms(3) by (simp add: may_follow_def)
  qed
qed


lemma show_lit_char_head:
  assumes "show_lit_char cp = (t, n, s)"
  shows "t \<noteq> [] \<and> (hd t = CHR 0x5C \<or> (32 \<le> unat cp \<and> unat cp \<le> 126 \<and> t = [char_of (unat cp)]))"
  using assms show_numeric_fits[of cp]
  by (auto simp: show_lit_char_def u32_nat split: if_splits)

lemma loop_follows: "may_follow pn pso (show_string_loop pn pso cps @ CHR 0x22 # r)"
proof (cases cps)
  case Nil
  then show ?thesis by (simp add: may_follow_def is_dig_def)
next
  case (Cons cp ds)
  obtain t n s where t: "show_lit_char cp = (t, n, s)" by (cases "show_lit_char cp") auto
  note h = show_lit_char_head[OF t]
  have d: "is_dig (char_of (unat cp)) \<longleftrightarrow> 48 \<le> unat cp \<and> unat cp \<le> 57" if "unat cp \<le> 126"
    using that char_of_byte[of "unat cp"] by (simp add: is_dig_def del: of_char_of)
  have H: "char_of (unat cp) = CHR ''H'' \<longleftrightarrow> unat cp = 72" if "unat cp \<le> 126"
  proof
    assume "char_of (unat cp) = CHR ''H''"
    then have "of_char (char_of (unat cp) :: char) = (72 :: nat)" by simp
    then show "unat cp = 72" using that char_of_byte[of "unat cp"] by linarith
  qed (simp add: char_of_eq_iff)
  have b: "\<not> is_dig (CHR 0x5C)" by (simp add: is_dig_def)
  show ?thesis
  proof (cases "(pn \<and> cp \<ge> 48 \<and> cp \<le> 57) \<or> (pso \<and> cp = 72)")
    case True
    then show ?thesis using Cons b by (auto simp: may_follow_def Let_def split: prod.splits)
  next
    case False
    then show ?thesis using Cons b t h d H
      by (cases t) (auto simp: may_follow_def Let_def u32_nat)
  qed
qed

lemma read_loop:
  "2 * length cps < k \<Longrightarrow> read_lit k (show_string_loop pn pso cps @ [CHR 0x22]) = Some (map unat cps, [])"
proof (induction cps arbitrary: k pn pso)
  case Nil
  then show ?case by (cases k) (simp_all add: read_item_def)
next
  case (Cons cp cps)
  obtain t n s where t: "show_lit_char cp = (t, n, s)" by (cases "show_lit_char cp") auto
  let ?b = "(if cp = 34 then [CHR 0x5C, CHR 0x22] @ show_string_loop False False cps else t @ show_string_loop n s cps) @ [CHR 0x22]"
  have body: "read_lit (Suc j) ?b = Some (map unat (cp # cps), [])" if "2 * length cps < j" for j
  proof (cases "cp = 34")
    case True
    then show ?thesis using Cons.IH[OF that]
      by (simp add: read_item_def escape_names_def is_dig_def)
  next
    case False
    have "read_item (t @ show_string_loop n s cps @ [CHR 0x22]) = Some (LChar (unat cp), show_string_loop n s cps @ [CHR 0x22])"
      by (rule read_lit_char[OF t False loop_follows])
    then show ?thesis using False Cons.IH[OF that] by simp
  qed
  obtain j where k: "k = Suc (Suc j)" "2 * length cps < j" using Cons.prems by (cases k; cases "k - 1") auto
  show ?case
  proof (cases "(pn \<and> cp \<ge> 48 \<and> cp \<le> 57) \<or> (pso \<and> cp = 72)")
    case True
    then have l: "show_string_loop pn pso (cp # cps) @ [CHR 0x22] = CHR 0x5C # CHR ''&'' # ?b" using t by auto
    have "read_item (CHR 0x5C # CHR ''&'' # ?b) = Some (LEmpty, ?b)" by (simp add: read_item_def)
    then show ?thesis using body[OF k(2)] unfolding l k(1) by (simp only: read_lit.simps option.case prod.case lit_item.case)
  next
    case False
    then have "show_string_loop pn pso (cp # cps) @ [CHR 0x22] = ?b" using t by auto
    then show ?thesis using body[of "Suc j"] k by simp
  qed
qed

text \<open>C30: A shown string literal reads back. For the encoding of any scalars, \<open>show_string_lit\<close> writes an
  opening quote and a text that a reader of Haskell string literals turns back into exactly those
  scalars up to the closing quote: every escape is unambiguous, with the empty escape after a numeric
  escape before a digit and after \<open>\SO\<close> before \<open>H\<close>.\<close>
theorem show_string_reads_back:
  assumes "list_all scalar cps"
  shows "\<exists>s. show_string_lit (KStr (text_of cps)) = Inr (kstr0 (CHR 0x22 # s)) \<and>
    read_lit (2 * length cps + 1) s = Some (map unat cps, [])"
proof (intro exI conjI)
  show "show_string_lit (KStr (text_of cps)) =
      Inr (kstr0 (CHR 0x22 # show_string_loop False False cps @ [CHR 0x22]))"
    by (simp add: decode_text[OF assms])
  show "read_lit (2 * length cps + 1) (show_string_loop False False cps @ [CHR 0x22]) = Some (map unat cps, [])"
    by (rule read_loop) simp
qed

lemma show_string_reads_back_witness:
  "\<exists>s. show_string_lit (KStr (text_of [0x0E, 0x48, 0xE9, 0x31])) = Inr (kstr0 (CHR 0x22 # s)) \<and>
    read_lit 9 s = Some ([14, 72, 233, 49], [])"
  using show_string_reads_back[of "[0x0E, 0x48, 0xE9, 0x31]"] by (simp add: scalar_def scalar_range_def)

end
