(* ===== verification/Kappa_Dragon.thy ===== *)
theory Kappa_Dragon
  imports Complex_Main Kappa_Show
begin

text \<open>
  Doubles as text (\<open>runtime/show.c\<close>): \<open>decode_double\<close>, the digit generation \<open>float_to_digits10\<close>
  (Burger and Dybvig's algorithm over GMP) and the formatter \<open>show_double\<close>. A double is its 64 bits.
  The three unbounded loops take fuel; the theorem gives fuel that is enough for every finite double.
\<close>

section \<open>The code\<close>

text \<open>\<open>while (m < (1ULL << 52)) { m <<= 1; e--; }\<close>\<close>

fun norm_loop :: "nat \<Rightarrow> kword \<Rightarrow> int \<Rightarrow> (kword \<times> int) option" where
  "norm_loop 0 m e = (if m < push_bit 52 1 then None else Some (m, e))"
| "norm_loop (Suc k) m e = (if m < push_bit 52 1 then norm_loop k (push_bit 1 m) (e - 1) else Some (m, e))"

definition decode_double :: "kword \<Rightarrow> (kword \<times> int) option" where
  "decode_double bits =
     (let mant = bits AND mask 52; rexp = uint (drop_bit 52 bits AND 0x7FF) in
      if rexp = 0 then norm_loop 52 mant (-1074)
      else Some (push_bit 52 1 OR mant, rexp - 1075))"

text \<open>The fractions of the algorithm: the value, half the gap above and half the gap below, over \<open>s\<close>.\<close>

definition dragon_init :: "gmp \<Rightarrow> int \<Rightarrow> int \<Rightarrow> int \<times> int \<times> int \<times> int" where
  "dragon_init G f e =
     (let b = 2; bpm1 = mpz_ui_pow_ui G 2 52 in
      if e \<ge> 0 then
        (let be = mpz_ui_pow_ui G 2 (nat e) in
         if mpz_cmp G f bpm1 = 0
         then (mpz_mul G (mpz_mul G (mpz_mul G f be) b) 2, 2 * b, mpz_mul G be b, be)
         else (mpz_mul G (mpz_mul G f be) 2, 2, be, be))
      else if e > -1074 \<and> mpz_cmp G f bpm1 = 0
        then (mpz_mul G (mpz_mul G f b) 2, mpz_mul G (mpz_ui_pow_ui G 2 (nat (- e + 1))) 2, b, 1)
        else (mpz_mul G f 2, mpz_mul G (mpz_ui_pow_ui G 2 (nat (- e))) 2, 1, 1))"

text \<open>The fixup loop for the decimal exponent.\<close>

fun dragon_fix :: "gmp \<Rightarrow> nat \<Rightarrow> int \<Rightarrow> int \<Rightarrow> int \<Rightarrow> int option" where
  "dragon_fix G 0 rpUp s k = None"
| "dragon_fix G (Suc fuel) rpUp s k =
     (if k \<ge> 0 then
        (if mpz_cmp G rpUp (mpz_mul G (mpz_ui_pow_ui G 10 (nat k)) s) \<le> 0 then Some k
         else dragon_fix G fuel rpUp s (k + 1))
      else
        (if mpz_cmp G (mpz_mul G (mpz_ui_pow_ui G 10 (nat (- k))) rpUp) s \<le> 0 then Some k
         else dragon_fix G fuel rpUp s (k + 1)))"

text \<open>The generate loop.\<close>

fun dragon_gen :: "gmp \<Rightarrow> nat \<Rightarrow> int \<Rightarrow> int \<Rightarrow> int \<Rightarrow> int \<Rightarrow> nat list option" where
  "dragon_gen G 0 r s mUp mDn = None"
| "dragon_gen G (Suc fuel) r s mUp mDn =
     (let r10 = mpz_mul G r 10;
          dn = mpz_fdiv_q G r10 s;
          r' = mpz_fdiv_r G r10 s;
          mUp' = mpz_mul G mUp 10;
          mDn' = mpz_mul G mDn 10;
          digit = unat (mpz_get_ui G dn);
          low = mpz_cmp G r' mDn' < 0;
          high = mpz_cmp G (mpz_add G r' mUp') s > 0
      in if \<not> low \<and> \<not> high then map_option (\<lambda>ds. digit # ds) (dragon_gen G fuel r' s mUp' mDn')
         else if low \<and> \<not> high then Some [digit]
         else if \<not> low \<and> high then Some [digit + 1]
         else Some [if mpz_cmp G (mpz_mul G r' 2) s < 0 then digit else digit + 1])"

definition float_to_digits10 :: "gmp \<Rightarrow> nat \<Rightarrow> kword \<Rightarrow> (nat list \<times> int) option" where
  "float_to_digits10 G fuel bits =
     (case decode_double bits of
        None \<Rightarrow> None
      | Some (f0, e0) \<Rightarrow>
          let f1 = mpz_add G (mpz_mul G (uint (drop_bit 32 f0)) (mpz_ui_pow_ui G 2 32)) (uint (f0 AND 0xFFFFFFFF));
              n = -1074 - e0;
              f = (if n > 0 then mpz_fdiv_q G f1 (mpz_ui_pow_ui G 2 (nat n)) else f1);
              e = (if n > 0 then e0 + n else e0);
              (r, s, mUp, mDn) = dragon_init G f e;
              lx = 52 + e0;
              k1 = (lx * 8651) sdiv 28738;
              k0 = (if lx \<ge> 0 then k1 + 1 else k1)
          in case dragon_fix G fuel (mpz_add G r mUp) s k0 of
               None \<Rightarrow> None
             | Some k \<Rightarrow>
                 let bk = mpz_ui_pow_ui G 10 (nat \<bar>k\<bar>);
                     (r2, s2, u2, d2) = (if k \<ge> 0 then (r, mpz_mul G s bk, mUp, mDn)
                                         else (mpz_mul G r bk, s, mpz_mul G mUp bk, mpz_mul G mDn bk))
                 in map_option (\<lambda>ds. (ds, k)) (dragon_gen G fuel r2 s2 u2 d2))"

text \<open>\<open>isnan\<close>, \<open>isinf\<close>, the sign and the zero of the 64 bits, and the layout of the digits.\<close>

definition dbl_exp :: "kword \<Rightarrow> int" where
  "dbl_exp bits = uint (drop_bit 52 bits AND 0x7FF)"

definition dbl_mant :: "kword \<Rightarrow> kword" where
  "dbl_mant bits = bits AND mask 52"

definition dbl_neg :: "kword \<Rightarrow> bool" where
  "dbl_neg bits = bit bits 63"

definition show_digits :: "bool \<Rightarrow> nat list \<Rightarrow> int \<Rightarrow> string" where
  "show_digits neg ds e =
     (let digits = map digit_char ds; nd = length ds in
      (if neg then ''-'' else '''') @
      (if e < 0 \<or> e > 7 then
         take 1 digits @ ''.'' @ (if nd = 1 then ''0'' else drop 1 digits) @ snprintf 16 (''e'' @ int_dec (e - 1))
       else if e \<le> 0 then ''0.'' @ replicate (nat (- e)) (CHR ''0'') @ digits
       else map (\<lambda>i. if i < nd then digits ! i else CHR ''0'') [0..<nat e] @ ''.''
              @ (if nat e \<ge> nd then ''0'' else drop (nat e) digits)))"

definition show_double :: "gmp \<Rightarrow> nat \<Rightarrow> kword \<Rightarrow> kval option" where
  "show_double G fuel x =
     (if dbl_exp x = 0x7FF \<and> dbl_mant x \<noteq> 0 then Some (kstr0 ''NaN'')
      else if dbl_exp x = 0x7FF then Some (kstr0 (if dbl_neg x then ''-Infinity'' else ''Infinity''))
      else if dbl_exp x = 0 \<and> dbl_mant x = 0 then Some (kstr0 (if dbl_neg x then ''-0.0'' else ''0.0''))
      else map_option (\<lambda>(ds, e). kstr0 (show_digits (dbl_neg x) ds e))
             (float_to_digits10 G fuel (x AND mask 63)))"

section \<open>GMP calls as arithmetic\<close>

lemma gmp_ops:
  assumes "gmp_ok G"
  shows "mpz_add G a b = a + b" "mpz_mul G a b = a * b" "mpz_ui_pow_ui G m n = int m ^ n"
    "b \<noteq> 0 \<Longrightarrow> mpz_fdiv_q G a b = a div b" "b \<noteq> 0 \<Longrightarrow> mpz_fdiv_r G a b = a mod b"
    "mpz_get_ui G a = word_of_int \<bar>a\<bar>"
  using assms by (auto simp: gmp_ok_def)

section \<open>The generate loop\<close>

definition dig_val :: "nat list \<Rightarrow> int" where
  "dig_val ds = foldl (\<lambda>a d. 10 * a + int d) 0 ds"

lemma dig_val_Cons: "dig_val (d # ds) = int d * 10 ^ length ds + dig_val ds"
proof -
  have f: "foldl (\<lambda>a d. 10 * a + int d) a ds = a * 10 ^ length ds + foldl (\<lambda>a d. 10 * a + int d) 0 ds" for a
  proof (induction ds arbitrary: a)
    case (Cons x xs)
    have "foldl (\<lambda>a d. 10 * a + int d) a (x # xs) =
        (10 * a + int x) * 10 ^ length xs + foldl (\<lambda>a d. 10 * a + int d) 0 xs"
      using Cons[of "10 * a + int x"] by simp
    also have "\<dots> = a * 10 ^ length (x # xs) + (int x * 10 ^ length xs + foldl (\<lambda>a d. 10 * a + int d) 0 xs)"
      by (simp add: distrib_right)
    also have "int x * 10 ^ length xs + foldl (\<lambda>a d. 10 * a + int d) 0 xs = foldl (\<lambda>a d. 10 * a + int d) 0 (x # xs)"
      using Cons[of "int x"] by simp
    finally show ?case .
  qed simp
  show ?thesis unfolding dig_val_def using f[of "int d"] by simp
qed

lemma gen_correct:
  assumes G: "gmp_ok G" and "0 \<le> r" "0 < s" "0 < u" "0 < d" "r + u \<le> s" "nat (s - u) < fuel"
  shows "\<exists>ds. dragon_gen G fuel r s u d = Some ds \<and> ds \<noteq> [] \<and> list_all (\<lambda>x. x \<le> 9) ds \<and>
    r * 10 ^ length ds - dig_val ds * s < d * 10 ^ length ds \<and>
    dig_val ds * s - r * 10 ^ length ds < u * 10 ^ length ds"
  using assms(2-)
proof (induction fuel arbitrary: r u d)
  case (Suc fuel)
  define q where "q = r * 10 div s"
  define r' where "r' = r * 10 mod s"
  have qr: "r * 10 = q * s + r'" "0 \<le> r'" "r' < s" using Suc.prems by (simp_all add: q_def r'_def)
  have q0: "0 \<le> q" using Suc.prems by (simp add: q_def pos_imp_zdiv_nonneg_iff)
  have q9: "q < 10"
  proof -
    have "q * s < 10 * s" using qr Suc.prems by linarith
    then show ?thesis using Suc.prems(2) by (simp add: mult_less_cancel_right)
  qed
  have dg: "unat (word_of_int \<bar>q\<bar> :: kword) = nat q"
    using q0 q9 by (simp add: unsigned_of_int take_bit_int_eq_self)
  let ?low = "r' < d * 10" let ?high = "r' + u * 10 > s"
  have q8: "q \<le> 8" if ?high
  proof (rule ccontr)
    assume "\<not> q \<le> 8"
    then have "q = 9" using q9 by simp
    then show False using qr(1) that Suc.prems(5) by simp
  qed
  have st: "dragon_gen G (Suc fuel) r s u d =
      (if \<not> ?low \<and> \<not> ?high then map_option (\<lambda>ds. nat q # ds) (dragon_gen G fuel r' s (u * 10) (d * 10))
       else if ?low \<and> \<not> ?high then Some [nat q]
       else if \<not> ?low \<and> ?high then Some [nat q + 1]
       else Some [if r' * 2 < s then nat q else nat q + 1])"
    using Suc.prems(2) by (simp add: gmp_ops[OF G] gmp_cmp_iff[OF G] Let_def dg flip: q_def r'_def)
  have one: "dig_val [x] = int x" for x by (simp add: dig_val_def)
  have keep: "r * 10 ^ 1 - dig_val [nat q] * s = r'" using qr(1) q0 by (simp add: one)
  have up: "dig_val [nat q + 1] * s - r * 10 ^ 1 = s - r'" using qr(1) q0 by (simp add: one algebra_simps)
  consider "\<not> ?low" "\<not> ?high" | "?low" "\<not> ?high" | "\<not> ?low" "?high" | "?low" "?high" by blast
  then show ?case
  proof cases
    case 1
    have "nat (s - u * 10) < fuel" using 1 Suc.prems qr by linarith
    with Suc.IH[OF qr(2) Suc.prems(2), of "u * 10" "d * 10"] 1 Suc.prems obtain ds where
      ds: "dragon_gen G fuel r' s (u * 10) (d * 10) = Some ds" "ds \<noteq> []" "list_all (\<lambda>x. x \<le> 9) ds"
        "r' * 10 ^ length ds - dig_val ds * s < d * 10 * 10 ^ length ds"
        "dig_val ds * s - r' * 10 ^ length ds < u * 10 * 10 ^ length ds" by auto
    have e: "r * 10 ^ length (nat q # ds) - dig_val (nat q # ds) * s = r' * 10 ^ length ds - dig_val ds * s"
    proof -
      have "r * 10 ^ length (nat q # ds) = (q * s + r') * 10 ^ length ds" using qr(1) by (metis length_Cons mult.assoc power_Suc)
      then show ?thesis using q0 by (simp add: dig_val_Cons algebra_simps)
    qed
    then have e2: "dig_val (nat q # ds) * s - r * 10 ^ length (nat q # ds) = dig_val ds * s - r' * 10 ^ length ds" by linarith
    have "dragon_gen G (Suc fuel) r s u d = Some (nat q # ds)" using st 1 ds(1) by simp
    moreover have "list_all (\<lambda>x. x \<le> 9) (nat q # ds)" using ds(3) q9 by simp
    moreover have "d * 10 ^ length (nat q # ds) = d * 10 * 10 ^ length ds" "u * 10 ^ length (nat q # ds) = u * 10 * 10 ^ length ds" by simp_all
    ultimately show ?thesis using ds(4,5) e e2 by (intro exI[of _ "nat q # ds"]) (simp only: list.distinct simp_thms)
  next
    case 2
    then have "dragon_gen G (Suc fuel) r s u d = Some [nat q]" using st by simp
    then show ?thesis using 2 keep q9 Suc.prems qr by (intro exI[of _ "[nat q]"]) auto
  next
    case 3
    then have "dragon_gen G (Suc fuel) r s u d = Some [nat q + 1]" using st by simp
    then show ?thesis using 3 up q8 q0 Suc.prems qr by (intro exI[of _ "[nat q + 1]"]) auto
  next
    case 4
    show ?thesis
    proof (cases "r' * 2 < s")
      case True
      then have "dragon_gen G (Suc fuel) r s u d = Some [nat q]" using st 4 by simp
      then show ?thesis using 4 keep q9 Suc.prems qr by (intro exI[of _ "[nat q]"]) auto
    next
      case False
      then have "dragon_gen G (Suc fuel) r s u d = Some [nat q + 1]" using st 4 by simp
      then show ?thesis using 4 up q8 q0 Suc.prems qr by (intro exI[of _ "[nat q + 1]"]) auto
    qed
  qed
qed simp


lemma gen_mono: "dragon_gen G fuel r s u d = Some ds \<Longrightarrow> dragon_gen G (fuel + m) r s u d = Some ds"
proof (induction fuel arbitrary: r u d ds)
  case (Suc fuel)
  then show ?case by (auto simp: Let_def split: if_splits)
qed simp

lemma fix_mono: "dragon_fix G fuel x s k = Some j \<Longrightarrow> dragon_fix G (fuel + m) x s k = Some j"
  by (induction fuel arbitrary: k) (auto split: if_splits)

section \<open>The decimal exponent\<close>

lemma pow10_ge: "x \<le> int n \<Longrightarrow> 0 < s \<Longrightarrow> x \<le> 10 ^ n * (s :: int)"
proof -
  assume a: "x \<le> int n" "0 < s"
  have "(2 :: nat) ^ n \<le> 10 ^ n" by (rule power_mono) simp_all
  then have "n < 10 ^ n" using less_exp[of n] by linarith
  then have "int n < 10 ^ n" by (metis of_nat_less_iff of_nat_numeral of_nat_power)
  moreover have "10 ^ n * 1 \<le> 10 ^ n * s" using a(2) by (intro mult_left_mono) auto
  ultimately show ?thesis using a(1) by linarith
qed

lemma fix_correct:
  assumes G: "gmp_ok G" and "0 < s" "0 < x" "nat (x - k) < fuel"
  shows "\<exists>j. dragon_fix G fuel x s k = Some j \<and>
    (if j \<ge> 0 then x \<le> 10 ^ nat j * s else 10 ^ nat (- j) * x \<le> s)"
  using assms(4)
proof (induction fuel arbitrary: k)
  case (Suc fuel)
  show ?case
  proof (cases "if k \<ge> 0 then x \<le> 10 ^ nat k * s else 10 ^ nat (- k) * x \<le> s")
    case True
    then show ?thesis by (intro exI[of _ k]) (auto simp: gmp_ops[OF G] gmp_cmp_iff[OF G])
  next
    case False
    have "k < x"
    proof (rule ccontr)
      assume "\<not> k < x"
      then have "k \<ge> 0" "x \<le> int (nat k)" using assms(3) by linarith+
      with False pow10_ge[of x "nat k" s] assms(2) show False by simp
    qed
    then have "nat (x - (k + 1)) < fuel" using Suc.prems by linarith
    moreover have "dragon_fix G (Suc fuel) x s k = dragon_fix G fuel x s (k + 1)"
      using False by (cases "k \<ge> 0") (simp_all add: gmp_ops[OF G] gmp_cmp_iff[OF G])
    ultimately show ?thesis using Suc.IH by simp
  qed
qed simp

section \<open>Decoding\<close>

text \<open>The fraction and the exponent of a finite double by IEEE 754: the value is \<open>f * 2 ^ e\<close>.\<close>

definition ieee_f :: "kword \<Rightarrow> int" where
  "ieee_f bits = (if dbl_exp bits = 0 then uint (dbl_mant bits) else 2 ^ 52 + uint (dbl_mant bits))"

definition ieee_e :: "kword \<Rightarrow> int" where
  "ieee_e bits = (if dbl_exp bits = 0 then -1074 else dbl_exp bits - 1075)"

definition ieee_val :: "kword \<Rightarrow> real" where
  "ieee_val bits = real_of_int (ieee_f bits) * 2 powi ieee_e bits"

lemma uint_push1: "uint m < 2 ^ 63 \<Longrightarrow> uint (push_bit 1 (m :: kword)) = 2 * uint m"
  by (subst unsigned_push_bit_eq) (simp add: push_bit_eq_mult take_bit_int_eq_self)

lemma lt52: "(m :: kword) < 4503599627370496 \<longleftrightarrow> uint m < 4503599627370496"
  by (simp add: word_less_def)

lemma norm_loop_correct:
  assumes "0 < uint m" "uint m < 2 ^ 53" "2 ^ 52 \<le> uint m * 2 ^ k"
  shows "\<exists>j m'. norm_loop k m e = Some (m', e - int j) \<and> uint m' = uint m * 2 ^ j \<and>
    2 ^ 52 \<le> uint m' \<and> uint m' < 2 ^ 53 \<and> (uint m < 2 ^ 52 \<longrightarrow> 0 < j)"
  using assms
proof (induction k arbitrary: m e)
  case 0
  then show ?case by (intro exI[of _ 0] exI[of _ m]) (simp add: lt52)
next
  case (Suc k)
  show ?case
  proof (cases "uint m < 2 ^ 52")
    case True
    have d: "uint (push_bit 1 m) = 2 * uint m" using True by (intro uint_push1) simp
    have "0 < uint (push_bit 1 m)" "uint (push_bit 1 m) < 2 ^ 53" "2 ^ 52 \<le> uint (push_bit 1 m) * 2 ^ k"
      using d True Suc.prems by simp_all
    from Suc.IH[OF this, of "e - 1"] obtain j m' where
      j: "norm_loop k (push_bit 1 m) (e - 1) = Some (m', e - 1 - int j)" "uint m' = uint (push_bit 1 m) * 2 ^ j"
        "2 ^ 52 \<le> uint m'" "uint m' < 2 ^ 53" by blast
    then show ?thesis using True d
      by (intro exI[of _ "Suc j"] exI[of _ m']) (simp add: lt52 algebra_simps)
  next
    case False
    then show ?thesis using Suc.prems by (intro exI[of _ 0] exI[of _ m]) (simp add: lt52)
  qed
qed

lemma uint_mant: "0 \<le> uint (dbl_mant b)" "uint (dbl_mant b) < 2 ^ 52"
proof -
  have "uint (dbl_mant b) = take_bit 52 (uint b)"
    unfolding dbl_mant_def by (simp add: unsigned_take_bit_eq flip: take_bit_eq_mask)
  then show "uint (dbl_mant b) < 2 ^ 52" using take_bit_int_less_exp[of 52 "uint b"] by simp
qed (simp add: dbl_mant_def)

lemma uint_exp: "0 \<le> dbl_exp b" "dbl_exp b < 2048"
proof -
  have "uint (drop_bit 52 b AND 0x7FF) = uint (drop_bit 52 b AND mask 11)" by (simp add: mask_eq_exp_minus_1)
  then have "dbl_exp b = take_bit 11 (uint (drop_bit 52 b))"
    unfolding dbl_exp_def by (simp add: unsigned_take_bit_eq flip: take_bit_eq_mask)
  then show "dbl_exp b < 2048" using take_bit_int_less_exp[of 11 "uint (drop_bit 52 b)"] by simp
qed (simp add: dbl_exp_def)


lemma uint_or52: "uint m < 2 ^ 52 \<Longrightarrow> uint (push_bit 52 1 OR m :: kword) = 2 ^ 52 + uint m"
proof -
  assume a: "uint m < 2 ^ 52"
  have u: "uint (4503599627370496 :: kword) = 2 ^ 52" by simp
  have "uint (push_bit 52 1 OR m) = 2 ^ 52 OR uint m" by (simp add: unsigned_or_eq u)
  also have "\<dots> = 2 ^ 52 + uint m"
  proof (rule disjunctive_add_eq_or[symmetric], rule bit_eqI)
    fix n
    have "take_bit 52 (uint m) = uint m" using a by (simp add: take_bit_int_eq_self)
    then have "\<not> bit (uint m) 52" by (metis bit_take_bit_iff less_irrefl)
    then show "bit (2 ^ 52 AND uint m) n = bit (0 :: int) n"
      by (cases "n = 52") (auto simp: bit_and_iff bit_exp_iff simp del: power_numeral)
  qed
  finally show ?thesis .
qed

lemma decode_ieee:
  assumes "dbl_exp b \<noteq> 0 \<or> dbl_mant b \<noteq> 0"
  shows "\<exists>f0 e0. decode_double b = Some (f0, e0) \<and>
    (if -1074 - e0 > 0 then uint f0 div 2 ^ nat (-1074 - e0) else uint f0) = ieee_f b \<and>
    (if -1074 - e0 > 0 then e0 + (-1074 - e0) else e0) = ieee_e b"
proof (cases "dbl_exp b = 0")
  case False
  then have "1 \<le> dbl_exp b" using uint_exp(1)[of b] by linarith
  moreover have "decode_double b = Some (push_bit 52 1 OR dbl_mant b, dbl_exp b - 1075)"
    using False unfolding decode_double_def dbl_exp_def dbl_mant_def Let_def by (simp only: if_False)
  ultimately show ?thesis using False uint_or52[OF uint_mant(2)[of b]]
    by (simp only:) (simp add: ieee_f_def ieee_e_def)
next
  case True
  then have m: "0 < uint (dbl_mant b)" using assms uint_mant(1)[of b] by (metis antisym_conv2 unsigned_eq_0_iff)
  have "uint (dbl_mant b) < 2 ^ 53" using uint_mant(2)[of b] by simp
  moreover have "2 ^ 52 \<le> uint (dbl_mant b) * 2 ^ 52" using m by simp
  ultimately obtain j m' where j: "norm_loop 52 (dbl_mant b) (-1074) = Some (m', -1074 - int j)"
      "uint m' = uint (dbl_mant b) * 2 ^ j"
    using norm_loop_correct[OF m, of 52 "-1074"] by blast
  have d: "decode_double b = Some (m', -1074 - int j)"
    using True j(1) unfolding decode_double_def dbl_exp_def dbl_mant_def Let_def by (simp only: if_True simp_thms)
  show ?thesis using True j(2) by (intro exI[of _ m'] exI[of _ "-1074 - int j"]) (simp add: d ieee_f_def ieee_e_def)
qed

definition half_up :: "kword \<Rightarrow> real" where
  "half_up b = 2 powi ieee_e b / 2"

definition half_down :: "kword \<Rightarrow> real" where
  "half_down b = (if ieee_f b = 2 ^ 52 \<and> ieee_e b > -1074 then 2 powi ieee_e b / 4 else 2 powi ieee_e b / 2)"

lemma powi_neg: "e < 0 \<Longrightarrow> (2 :: real) powi e = 1 / 2 ^ nat (- e)"
  by (simp add: power_int_def field_simps)

lemma powi_pos: "0 \<le> e \<Longrightarrow> (b :: real) powi e = b ^ nat e"
  by (simp add: power_int_def)

lemma init_correct:
  assumes G: "gmp_ok G" and "0 < f" "dragon_init G f e = (r, s, u, d)"
  shows "0 < s \<and> 0 < u \<and> 0 < d \<and> 0 < r \<and> real_of_int r = real_of_int f * 2 powi e * real_of_int s \<and>
    real_of_int u = 2 powi e / 2 * real_of_int s \<and>
    real_of_int d = (if f = 2 ^ 52 \<and> e > -1074 then 2 powi e / 4 else 2 powi e / 2) * real_of_int s"
proof -
  consider "0 \<le> e" "f = 2 ^ 52" | "0 \<le> e" "f \<noteq> 2 ^ 52" | "e < 0" "e > -1074" "f = 2 ^ 52" | "e < 0" "\<not> (e > -1074 \<and> f = 2 ^ 52)"
    by linarith
  then show ?thesis
  proof cases
    case 1
    then have "r = f * 2 ^ nat e * 2 * 2" "s = 4" "u = 2 ^ nat e * 2" "d = 2 ^ nat e"
      using assms(3) by (simp_all add: dragon_init_def gmp_ops[OF G] gmp_cmp_iff[OF G] Let_def)
    then show ?thesis using 1 by (simp add: powi_pos)
  next
    case 2
    then have "r = f * 2 ^ nat e * 2" "s = 2" "u = 2 ^ nat e" "d = 2 ^ nat e"
      using assms(3) by (auto simp: dragon_init_def gmp_ops[OF G] gmp_cmp_iff[OF G] Let_def)
    then show ?thesis using 2 assms(2) by (auto simp: powi_pos)
  next
    case 3
    then have "r = f * 2 * 2" "s = 2 ^ nat (- e + 1) * 2" "u = 2" "d = 1"
      using assms(3) by (simp_all add: dragon_init_def gmp_ops[OF G] gmp_cmp_iff[OF G] Let_def)
    moreover have "nat (- e + 1) = Suc (nat (- e))" using 3 by simp
    ultimately show ?thesis using 3 by (simp add: powi_neg)
  next
    case 4
    then have "r = f * 2" "s = 2 ^ nat (- e) * 2" "u = 1" "d = 1"
      using assms(3) by (auto simp: dragon_init_def gmp_ops[OF G] gmp_cmp_iff[OF G] Let_def split: if_splits)
    then show ?thesis using 4 assms(2) by (auto simp: powi_neg)
  qed
qed


definition dec_real :: "nat list \<Rightarrow> int \<Rightarrow> real" where
  "dec_real ds k = real_of_int (dig_val ds) * 10 powi (k - int (length ds))"

lemma scaled_real:
  fixes v x p q s D :: real
  assumes "0 < p" "0 < q" "0 < s"
  shows "v / p * s * q - D * s < x / p * s * q \<Longrightarrow> v - D * p / q < x"
    "D * s - v / p * s * q < x / p * s * q \<Longrightarrow> D * p / q - v < x"
proof -
  have k: "x / p * s * q = x * (s * q / p)" "v / p * s * q = v * (s * q / p)" "D * s = (D * p / q) * (s * q / p)"
    using assms by (simp_all add: field_simps)
  have pos: "0 < s * q / p" using assms by simp
  show "v / p * s * q - D * s < x / p * s * q \<Longrightarrow> v - D * p / q < x"
    unfolding k using pos by (metis left_diff_distrib mult_less_cancel_right_pos)
  show "D * s - v / p * s * q < x / p * s * q \<Longrightarrow> D * p / q - v < x"
    unfolding k using pos by (metis left_diff_distrib mult_less_cancel_right_pos)
qed

text \<open>From the integers of the generate loop to the real value: dividing by the common denominator.\<close>

lemma scaled_error:
  fixes v hi lo :: real
  assumes s: "0 < s" and r: "real_of_int r = v / 10 powi k * real_of_int s"
    and u: "real_of_int u = hi / 10 powi k * real_of_int s" and d: "real_of_int d = lo / 10 powi k * real_of_int s"
    and lo: "r * 10 ^ n - D * s < d * 10 ^ n" and up: "D * s - r * 10 ^ n < u * 10 ^ n"
  shows "v - real_of_int D * 10 powi (k - int n) < lo \<and> real_of_int D * 10 powi (k - int n) - v < hi"
proof -
  let ?p = "10 powi k :: real" let ?q = "10 ^ n :: real" let ?s = "real_of_int s"
  have pos: "0 < ?p" "0 < ?q" "0 < ?s" using s by simp_all
  have w: "real_of_int D * 10 powi (k - int n) = real_of_int D * ?p / ?q"
    by (simp add: power_int_diff)
  have lr: "real_of_int r * ?q - real_of_int D * ?s < real_of_int d * ?q"
    using lo[folded of_int_less_iff[where 'a = real]] by (simp only: of_int_diff of_int_mult of_int_power of_int_numeral)
  have ur: "real_of_int D * ?s - real_of_int r * ?q < real_of_int u * ?q"
    using up[folded of_int_less_iff[where 'a = real]] by (simp only: of_int_diff of_int_mult of_int_power of_int_numeral)
  show ?thesis unfolding w
    using scaled_real(1)[OF pos lr[unfolded r d]] scaled_real(2)[OF pos ur[unfolded r u]] by (rule conjI)
qed

text \<open>C29: The digits of a double denote it. For every positive finite double and enough fuel the three
  loops end; the digits are decimal digits, and the decimal number they spell lies strictly between
  the midpoints to the two neighbouring doubles, so that it reads back as this double.\<close>
theorem dragon_digits_correct:
  assumes G: "gmp_ok G" and "dbl_exp b \<noteq> 0x7FF" "dbl_exp b \<noteq> 0 \<or> dbl_mant b \<noteq> 0"
  shows "\<exists>N ds k. (\<forall>m. float_to_digits10 G (N + m) b = Some (ds, k)) \<and> ds \<noteq> [] \<and> list_all (\<lambda>d. d \<le> 9) ds \<and>
    ieee_val b - dec_real ds k < half_down b \<and> dec_real ds k - ieee_val b < half_up b"
proof -
  obtain f0 e0 where de: "decode_double b = Some (f0, e0)"
    "(if -1074 - e0 > 0 then uint f0 div 2 ^ nat (-1074 - e0) else uint f0) = ieee_f b"
    "(if -1074 - e0 > 0 then e0 + (-1074 - e0) else e0) = ieee_e b"
    using decode_ieee[OF assms(3)] by blast
  have f: "0 < ieee_f b"
  proof (cases "dbl_exp b = 0")
    case True
    then have "uint (dbl_mant b) \<noteq> 0" using assms(3) by (simp add: unsigned_eq_0_iff)
    then have "0 < uint (dbl_mant b)" using uint_mant(1)[of b] by linarith
    then show ?thesis using True by (simp add: ieee_f_def)
  next
    case False
    have "0 < 2 ^ 52 + uint (dbl_mant b)" using uint_mant(1)[of b] by (intro add_pos_nonneg) simp_all
    then show ?thesis using False by (simp add: ieee_f_def)
  qed
  obtain r s u d where i: "dragon_init G (ieee_f b) (ieee_e b) = (r, s, u, d)" by (metis prod_cases4)
  note ic = init_correct[OF G f i]
  define k0 where "k0 = (let lx = 52 + e0; k1 = (lx * 8651) sdiv 28738 in if lx \<ge> 0 then k1 + 1 else k1)"
  obtain N1 where N1: "N1 = Suc (nat (r + u - k0))" by simp
  then obtain k where k: "dragon_fix G N1 (r + u) s k0 = Some k"
    "if k \<ge> 0 then r + u \<le> 10 ^ nat k * s else 10 ^ nat (- k) * (r + u) \<le> s"
    using fix_correct[OF G, of s "r + u" k0 N1] ic by auto
  define p :: int where "p = 10 ^ nat \<bar>k\<bar>"
  have p: "0 < p" by (simp add: p_def)
  obtain r2 s2 u2 d2 where q: "(if k \<ge> 0 then (r, s * p, u, d) else (r * p, s, u * p, d * p)) = (r2, s2, u2, d2)"
    by (metis prod_cases4)
  have pos: "0 \<le> r2" "0 < s2" "0 < u2" "0 < d2" "r2 + u2 \<le> s2"
    using q ic p k(2) by (auto simp: p_def algebra_simps split: if_splits)
  define N2 where "N2 = Suc (nat (s2 - u2))"
  obtain ds where ds: "dragon_gen G N2 r2 s2 u2 d2 = Some ds" "ds \<noteq> []" "list_all (\<lambda>x. x \<le> 9) ds"
    "r2 * 10 ^ length ds - dig_val ds * s2 < d2 * 10 ^ length ds" "dig_val ds * s2 - r2 * 10 ^ length ds < u2 * 10 ^ length ds"
    using gen_correct[OF G pos, of N2] N2_def by auto
  have sc: "real_of_int x2 = y / 10 powi k * real_of_int s2"
    if "real_of_int x = y * real_of_int s" "x2 = (if k \<ge> 0 then x else x * p)" for x x2 y
  proof (cases "k \<ge> 0")
    case True
    then show ?thesis using that q by (auto simp: p_def powi_pos)
  next
    case False
    then have "10 powi k = (1 :: real) / 10 ^ nat (- k)" by (simp add: power_int_def field_simps)
    then show ?thesis using that q False by (auto simp: p_def)
  qed
  have err: "ieee_val b - dec_real ds k < half_down b \<and> dec_real ds k - ieee_val b < half_up b"
    unfolding dec_real_def
  proof (rule scaled_error[OF pos(2) _ _ _ ds(4,5)])
    show "real_of_int r2 = ieee_val b / 10 powi k * real_of_int s2"
      using ic q by (intro sc[of r]) (auto simp: ieee_val_def split: if_splits)
    show "real_of_int u2 = half_up b / 10 powi k * real_of_int s2"
      using ic q by (intro sc[of u]) (auto simp: half_up_def split: if_splits)
    show "real_of_int d2 = half_down b / 10 powi k * real_of_int s2"
      using ic q by (intro sc[of d]) (auto simp: half_down_def split: if_splits)
  qed
  have run: "float_to_digits10 G (N1 + N2 + m) b = Some (ds, k)" for m
  proof -
    have fx: "dragon_fix G (N1 + N2 + m) (r + u) s k0 = Some k"
      using fix_mono[OF k(1), of "N2 + m"] by (simp add: add.assoc)
    have gn: "dragon_gen G (N1 + N2 + m) r2 s2 u2 d2 = Some ds"
      using gen_mono[OF ds(1), of "N1 + m"] by (simp add: ac_simps)
    have lo: "uint (drop_bit 32 f0) * 2 ^ 32 + uint (f0 AND 0xFFFFFFFF) = uint f0"
    proof -
      have "uint (f0 AND 0xFFFFFFFF) = uint (f0 AND mask 32)" by (simp add: mask_eq_exp_minus_1)
      also have "\<dots> = take_bit 32 (uint f0)" by (simp only: take_bit_eq_mask[symmetric] unsigned_take_bit_eq)
      finally have l: "uint (f0 AND 0xFFFFFFFF) = uint f0 mod 2 ^ 32" by (simp only: take_bit_eq_mod)
      have h: "uint (drop_bit 32 f0) = uint f0 div 2 ^ 32"
        using arg_cong[OF unat_shift[of 32 f0], of int] by (simp add: zdiv_int)
      show ?thesis unfolding l h by (rule div_mult_mod_eq)
    qed
    have f1: "mpz_add G (mpz_mul G (uint (drop_bit 32 f0)) (mpz_ui_pow_ui G 2 32)) (uint (f0 AND 0xFFFFFFFF)) = uint f0"
      using lo by (simp add: gmp_ops[OF G])
    have f2: "(if -1074 - e0 > 0 then mpz_fdiv_q G (uint f0) (mpz_ui_pow_ui G 2 (nat (-1074 - e0))) else uint f0) = ieee_f b"
      using de(2) by (simp add: gmp_ops[OF G] split: if_splits)
    have bk: "(if k \<ge> 0 then (r, mpz_mul G s (mpz_ui_pow_ui G 10 (nat \<bar>k\<bar>)), u, d)
        else (mpz_mul G r (mpz_ui_pow_ui G 10 (nat \<bar>k\<bar>)), s, mpz_mul G u (mpz_ui_pow_ui G 10 (nat \<bar>k\<bar>)),
              mpz_mul G d (mpz_ui_pow_ui G 10 (nat \<bar>k\<bar>)))) = (r2, s2, u2, d2)"
      using q unfolding p_def by (simp only: gmp_ops(2,3)[OF G] of_nat_numeral)
    have ad: "mpz_add G r u = r + u" by (simp add: gmp_ops[OF G])
    show ?thesis
      unfolding float_to_digits10_def de(1) option.case prod.case Let_def f1 f2 de(3) i ad k0_def[unfolded Let_def, symmetric] fx
        bk gn by simp
  qed
  show ?thesis using run ds(2,3) err by blast
qed


lemma dragon_digits_correct_witness:
  "\<exists>N ds k. (\<forall>m. float_to_digits10 gmp_ref (N + m) 0x3FF0000000000000 = Some (ds, k)) \<and> ds \<noteq> [] \<and>
    list_all (\<lambda>d. d \<le> 9) ds \<and> ieee_val 0x3FF0000000000000 - dec_real ds k < half_down 0x3FF0000000000000 \<and>
    dec_real ds k - ieee_val 0x3FF0000000000000 < half_up 0x3FF0000000000000"
proof -
  have "dbl_exp 0x3FF0000000000000 = 0x3FF" by (simp add: dbl_exp_def)
  then show ?thesis by (intro dragon_digits_correct gmp_ok_ref) simp_all
qed

end
