(* ===== verification/Kappa_Action.thy ===== *)
theory Kappa_Action
  imports Kappa_Ctor
begin

text \<open>
  The action nodes of the second runtime (\<open>runtime/internal.h\<close>, \<open>runtime/rt.c\<close>): an IO action is a
  constructor whose tag id is an \<open>OP_\<close> code and whose fields are the operands. This theory has the
  codes, the builders (\<open>krt2_...\<close>), the \<open>Exit\<close> and \<open>Cause\<close> values, and the reasons an action ends
  with, together with the composition of a reason with the failure of an exit action. A NULL
  \<open>rval\<close> is \<open>None\<close>.
\<close>

text \<open>Application of a generated function value (\<open>kapp\<close>).\<close>

type_synonym kapp_fn = "kval \<Rightarrow> kval \<Rightarrow> kval kres"

section \<open>Codes\<close>

abbreviation (input) "OP_PURE \<equiv> (0x40000000 :: int)"
abbreviation (input) "OP_BIND \<equiv> (0x40000001 :: int)"
abbreviation (input) "OP_THEN \<equiv> (0x40000002 :: int)"
abbreviation (input) "OP_CATCH \<equiv> (0x40000003 :: int)"
abbreviation (input) "OP_THROW \<equiv> (0x40000004 :: int)"
abbreviation (input) "OP_RERAISE \<equiv> (0x40000005 :: int)"
abbreviation (input) "OP_PRINT \<equiv> (0x40000006 :: int)"
abbreviation (input) "OP_PRINTLN \<equiv> (0x40000007 :: int)"
abbreviation (input) "OP_FORK \<equiv> (0x40000008 :: int)"
abbreviation (input) "OP_FORK_DAEMON \<equiv> (0x40000009 :: int)"
abbreviation (input) "OP_AWAIT \<equiv> (0x4000000A :: int)"
abbreviation (input) "OP_CEDE \<equiv> (0x4000000B :: int)"
abbreviation (input) "OP_SLEEP \<equiv> (0x4000000C :: int)"
abbreviation (input) "OP_NOW \<equiv> (0x4000000D :: int)"
abbreviation (input) "OP_NEW_PROMISE \<equiv> (0x4000000E :: int)"
abbreviation (input) "OP_COMPLETE_PROMISE \<equiv> (0x4000000F :: int)"
abbreviation (input) "OP_AWAIT_PROMISE_EXIT \<equiv> (0x40000010 :: int)"
abbreviation (input) "OP_CURRENT_FIBER_ID \<equiv> (0x40000011 :: int)"
abbreviation (input) "OP_FIBER_ID \<equiv> (0x40000012 :: int)"
abbreviation (input) "OP_INTERRUPT \<equiv> (0x40000013 :: int)"
abbreviation (input) "OP_INTERRUPT_FORK \<equiv> (0x40000014 :: int)"
abbreviation (input) "OP_UNINTERRUPTIBLE \<equiv> (0x40000015 :: int)"
abbreviation (input) "OP_UNINTERRUPTIBLE_MASK \<equiv> (0x40000016 :: int)"
abbreviation (input) "OP_POLL \<equiv> (0x40000017 :: int)"
abbreviation (input) "OP_MASK \<equiv> (0x40000018 :: int)"
abbreviation (input) "OP_RESTORE \<equiv> (0x40000019 :: int)"
abbreviation (input) "OP_NEW_SCOPE \<equiv> (0x4000001A :: int)"
abbreviation (input) "OP_FORK_IN \<equiv> (0x4000001B :: int)"
abbreviation (input) "OP_SHUTDOWN_SCOPE \<equiv> (0x4000001C :: int)"
abbreviation (input) "OP_MONITOR \<equiv> (0x4000001D :: int)"
abbreviation (input) "OP_AWAIT_MONITOR \<equiv> (0x4000001E :: int)"
abbreviation (input) "OP_DOSCOPE \<equiv> (0x4000001F :: int)"
abbreviation (input) "OP_DEFER \<equiv> (0x40000020 :: int)"
abbreviation (input) "OP_RETURN \<equiv> (0x40000021 :: int)"
abbreviation (input) "OP_RETSCOPE \<equiv> (0x40000022 :: int)"
abbreviation (input) "OP_WHILE \<equiv> (0x40000023 :: int)"
abbreviation (input) "OP_BREAK \<equiv> (0x40000024 :: int)"
abbreviation (input) "OP_CONTINUE \<equiv> (0x40000025 :: int)"
abbreviation (input) "OP_NEW_REF \<equiv> (0x40000026 :: int)"
abbreviation (input) "OP_READ_REF \<equiv> (0x40000027 :: int)"
abbreviation (input) "OP_WRITE_REF \<equiv> (0x40000028 :: int)"
abbreviation (input) "OP_TRY_EXIT \<equiv> (0x40000029 :: int)"
abbreviation (input) "OP_ATOMICALLY \<equiv> (0x4000002A :: int)"
abbreviation (input) "OP_HANDLE \<equiv> (0x4000002B :: int)"
abbreviation (input) "OP_PERFORM \<equiv> (0x4000002C :: int)"
abbreviation (input) "OP_RESUME \<equiv> (0x4000002D :: int)"
abbreviation (input) "OP_ONEXIT_FIN \<equiv> (0x4000002E :: int)"
abbreviation (input) "OP_ONINT_FIN \<equiv> (0x4000002F :: int)"
abbreviation (input) "OP_ABORT_EXIT_FIN \<equiv> (0x40000030 :: int)"
abbreviation (input) "OP_NEW_FIBER_REF \<equiv> (0x40000031 :: int)"
abbreviation (input) "OP_GET_FIBER_REF \<equiv> (0x40000032 :: int)"
abbreviation (input) "OP_SET_FIBER_REF \<equiv> (0x40000033 :: int)"
abbreviation (input) "OP_MODIFY_FIBER_REF \<equiv> (0x40000034 :: int)"
abbreviation (input) "OP_POLL_PROMISE \<equiv> (0x40000035 :: int)"
abbreviation (input) "OP_IS_DONE_PROMISE \<equiv> (0x40000036 :: int)"
abbreviation (input) "OP_BLOCKING \<equiv> (0x40000037 :: int)"

abbreviation (input) "KRT2_OP_BASE \<equiv> (0x40000000 :: int)"

definition KRT2_KIND_RESUMPTION :: string where
  "KRT2_KIND_RESUMPTION = ''rt.Resumption''"

definition KRT2_KIND_MASK_FRAME :: string where
  "KRT2_KIND_MASK_FRAME = ''krt2.maskFrame''"

definition KRT2_KIND_ABORT_EXIT :: string where
  "KRT2_KIND_ABORT_EXIT = ''krt2.abortExit''"

section \<open>Exit and Cause values\<close>

definition idc1 :: "int \<Rightarrow> string \<Rightarrow> kval \<Rightarrow> kval" where
  "idc1 i name a = kctor i name [a]"

definition idc2 :: "int \<Rightarrow> string \<Rightarrow> kval \<Rightarrow> kval \<Rightarrow> kval" where
  "idc2 i name a b = kctor i name [a, b]"

definition krt2_success :: "kval \<Rightarrow> kval" where
  "krt2_success v = idc1 KCT_SUCCESS ''Success'' v"

definition krt2_failure :: "kval \<Rightarrow> kval" where
  "krt2_failure v = idc1 KCT_FAILURE ''Failure'' v"

definition krt2_cause_fail :: "kval \<Rightarrow> kval" where
  "krt2_cause_fail v = idc1 KCT_FAIL ''Fail'' v"

definition krt2_cause_interrupt :: "kval \<Rightarrow> kval" where
  "krt2_cause_interrupt v = idc1 KCT_INTERRUPT ''Interrupt'' v"

definition krt2_cause_defect :: "kval \<Rightarrow> kval" where
  "krt2_cause_defect v = idc1 KCT_DEFECT ''Defect'' v"

definition krt2_cause_both :: "kval \<Rightarrow> kval \<Rightarrow> kval" where
  "krt2_cause_both a b = idc2 KCT_BOTH ''Both'' a b"

definition krt2_cause_then :: "kval \<Rightarrow> kval \<Rightarrow> kval" where
  "krt2_cause_then a b = idc2 KCT_THEN ''Then'' a b"

definition krt2i_interrupt_tag_id :: "string \<Rightarrow> int" where
  "krt2i_interrupt_tag_id tag =
     (if tag = ''Requested'' then KCT_IT_REQUESTED
      else if tag = ''ScopeShutdown'' then KCT_IT_SCOPE_SHUTDOWN
      else if tag = ''TimedOut'' then KCT_IT_TIMED_OUT
      else if tag = ''RaceLost'' then KCT_IT_RACE_LOST
      else if tag = ''External'' then KCT_IT_EXTERNAL
      else KCT_OTHER)"

definition krt2i_interrupt_cause :: "string \<Rightarrow> kval \<Rightarrow> kval" where
  "krt2i_interrupt_cause tag by_opt =
     kctor KCT_MK_INTERRUPT_CAUSE ''InterruptCause'' [kctor0 (krt2i_interrupt_tag_id tag) tag, by_opt]"

section \<open>Builders\<close>

definition op0 :: "int \<Rightarrow> string \<Rightarrow> kval" where
  "op0 p n = kctor0 p n"

definition op1 :: "int \<Rightarrow> string \<Rightarrow> kval \<Rightarrow> kval" where
  "op1 p n a = kctor p n [a]"

definition op2 :: "int \<Rightarrow> string \<Rightarrow> kval \<Rightarrow> kval \<Rightarrow> kval" where
  "op2 p n a b = kctor p n [a, b]"

definition op3 :: "int \<Rightarrow> string \<Rightarrow> kval \<Rightarrow> kval \<Rightarrow> kval \<Rightarrow> kval" where
  "op3 p n a b c = kctor p n [a, b, c]"

definition op5 :: "int \<Rightarrow> string \<Rightarrow> kval \<Rightarrow> kval \<Rightarrow> kval \<Rightarrow> kval \<Rightarrow> kval \<Rightarrow> kval" where
  "op5 p n a b c d e = kctor p n [a, b, c, d, e]"

definition krt2_pure :: "kval \<Rightarrow> kval" where
  "krt2_pure v = op1 OP_PURE ''rt.pure'' v"

definition krt2_bind :: "kval \<Rightarrow> kval \<Rightarrow> kval" where
  "krt2_bind m k = op2 OP_BIND ''rt.bind'' m k"

definition krt2_then :: "kval \<Rightarrow> kval \<Rightarrow> kval" where
  "krt2_then m n = op2 OP_THEN ''rt.then'' m n"

definition krt2_catch :: "kval \<Rightarrow> kval \<Rightarrow> kval" where
  "krt2_catch b h = op2 OP_CATCH ''rt.catch'' b h"

definition krt2_throw :: "kval \<Rightarrow> kval" where
  "krt2_throw e = op1 OP_THROW ''rt.throw'' e"

definition krt2_reraise :: "kval \<Rightarrow> kval" where
  "krt2_reraise c = op1 OP_RERAISE ''rt.reraise'' c"

definition krt2_fork :: "kval \<Rightarrow> kval" where
  "krt2_fork a = op1 OP_FORK ''rt.fork'' a"

definition krt2_fork_daemon :: "kval \<Rightarrow> kval" where
  "krt2_fork_daemon a = op1 OP_FORK_DAEMON ''rt.forkDaemon'' a"

definition krt2_await :: "kval \<Rightarrow> kval" where
  "krt2_await f = op1 OP_AWAIT ''rt.await'' f"

definition krt2_cede :: "kval" where
  "krt2_cede = op0 OP_CEDE ''rt.cede''"

definition krt2_sleep_for :: "kval \<Rightarrow> kval" where
  "krt2_sleep_for d = op1 OP_SLEEP ''rt.sleep'' d"

definition krt2_now_monotonic :: "kval" where
  "krt2_now_monotonic = op0 OP_NOW ''rt.now''"

definition krt2_new_promise :: "kval" where
  "krt2_new_promise = op0 OP_NEW_PROMISE ''rt.newPromise''"

definition krt2_complete_promise :: "kval \<Rightarrow> kval \<Rightarrow> kval" where
  "krt2_complete_promise p e = op2 OP_COMPLETE_PROMISE ''rt.completeP'' p e"

definition krt2_await_promise_exit :: "kval \<Rightarrow> kval" where
  "krt2_await_promise_exit p = op1 OP_AWAIT_PROMISE_EXIT ''rt.awaitP'' p"

definition krt2_current_fiber_id :: "kval" where
  "krt2_current_fiber_id = op0 OP_CURRENT_FIBER_ID ''rt.curFiberId''"

definition krt2_fiber_id :: "kval \<Rightarrow> kval" where
  "krt2_fiber_id f = op1 OP_FIBER_ID ''rt.fiberId'' f"

definition krt2_interrupt :: "kval \<Rightarrow> kval" where
  "krt2_interrupt f = op1 OP_INTERRUPT ''rt.interrupt'' f"

definition krt2_interrupt_fork :: "kval \<Rightarrow> kval" where
  "krt2_interrupt_fork f = op1 OP_INTERRUPT_FORK ''rt.interruptFork'' f"

definition krt2_interrupt_as :: "kval \<Rightarrow> kval \<Rightarrow> kval" where
  "krt2_interrupt_as c f = op2 OP_INTERRUPT ''rt.interruptAs'' f c"

definition krt2_interrupt_fork_as :: "kval \<Rightarrow> kval \<Rightarrow> kval" where
  "krt2_interrupt_fork_as c f = op2 OP_INTERRUPT_FORK ''rt.interruptForkAs'' f c"

definition krt2_uninterruptible :: "kval \<Rightarrow> kval" where
  "krt2_uninterruptible b = op1 OP_UNINTERRUPTIBLE ''rt.uninterruptible'' b"

definition krt2_poll :: "kval" where
  "krt2_poll = op0 OP_POLL ''rt.poll''"

definition krt2_mask :: "kval \<Rightarrow> kval" where
  "krt2_mask f = op1 OP_MASK ''rt.mask'' f"

definition krt2_uninterruptible_mask :: "kval \<Rightarrow> kval" where
  "krt2_uninterruptible_mask f = op1 OP_UNINTERRUPTIBLE_MASK ''rt.uninterruptibleMask'' f"

definition krt2_blocking :: "kval \<Rightarrow> kval" where
  "krt2_blocking body = op1 OP_BLOCKING ''rt.blocking'' body"

definition krt2_new_scope :: "kval" where
  "krt2_new_scope = op0 OP_NEW_SCOPE ''rt.newScope''"

definition krt2_fork_in :: "kval \<Rightarrow> kval \<Rightarrow> kval" where
  "krt2_fork_in s a = op2 OP_FORK_IN ''rt.forkIn'' s a"

definition krt2_shutdown_scope :: "kval \<Rightarrow> kval" where
  "krt2_shutdown_scope s = op1 OP_SHUTDOWN_SCOPE ''rt.shutdownScope'' s"

definition krt2_monitor :: "kval \<Rightarrow> kval" where
  "krt2_monitor f = op1 OP_MONITOR ''rt.monitor'' f"

definition krt2_await_monitor :: "kval \<Rightarrow> kval" where
  "krt2_await_monitor m = op1 OP_AWAIT_MONITOR ''rt.awaitMonitor'' m"

definition krt2_doscope :: "kval \<Rightarrow> kval" where
  "krt2_doscope body = op1 OP_DOSCOPE ''rt.doscope'' body"

definition krt2_defer :: "kval \<Rightarrow> kval" where
  "krt2_defer a = op1 OP_DEFER ''rt.defer'' a"

definition krt2_return :: "kval \<Rightarrow> kval" where
  "krt2_return v = op1 OP_RETURN ''rt.return'' v"

definition krt2_retscope :: "kval \<Rightarrow> kval" where
  "krt2_retscope b = op1 OP_RETSCOPE ''rt.retscope'' b"

definition krt2_break :: "kval" where
  "krt2_break = op0 OP_BREAK ''rt.break''"

definition krt2_continue :: "kval" where
  "krt2_continue = op0 OP_CONTINUE ''rt.continue''"

definition krt2_while :: "kval \<Rightarrow> kval \<Rightarrow> kval" where
  "krt2_while cond body = op2 OP_WHILE ''rt.while'' cond body"

definition krt2_new_ref :: "kval \<Rightarrow> kval" where
  "krt2_new_ref v = op1 OP_NEW_REF ''rt.newRef'' v"

definition krt2_read_ref :: "kval \<Rightarrow> kval" where
  "krt2_read_ref r = op1 OP_READ_REF ''rt.readRef'' r"

definition krt2_write_ref :: "kval \<Rightarrow> kval \<Rightarrow> kval" where
  "krt2_write_ref r v = op2 OP_WRITE_REF ''rt.writeRef'' r v"

definition krt2i_try_exit :: "kval \<Rightarrow> kval" where
  "krt2i_try_exit fiber = op1 OP_TRY_EXIT ''rt.tryExit'' fiber"

definition krt2_new_fiber_ref :: "kval \<Rightarrow> kval" where
  "krt2_new_fiber_ref init = op1 OP_NEW_FIBER_REF ''rt.newFiberRef'' init"

definition krt2_get_fiber_ref :: "kval \<Rightarrow> kval" where
  "krt2_get_fiber_ref r = op1 OP_GET_FIBER_REF ''rt.getFiberRef'' r"

definition krt2_set_fiber_ref :: "kval \<Rightarrow> kval \<Rightarrow> kval" where
  "krt2_set_fiber_ref r v = op2 OP_SET_FIBER_REF ''rt.setFiberRef'' r v"

definition krt2_modify_fiber_ref :: "kval \<Rightarrow> kval \<Rightarrow> kval" where
  "krt2_modify_fiber_ref r fn = op2 OP_MODIFY_FIBER_REF ''rt.modifyFiberRef'' r fn"

definition krt2_poll_promise :: "kval \<Rightarrow> kval" where
  "krt2_poll_promise p = op1 OP_POLL_PROMISE ''rt.pollP'' p"

definition krt2_is_done_promise :: "kval \<Rightarrow> kval" where
  "krt2_is_done_promise p = op1 OP_IS_DONE_PROMISE ''rt.isDoneP'' p"

definition krt2_handle :: "kval \<Rightarrow> kval \<Rightarrow> kval \<Rightarrow> kval \<Rightarrow> kval \<Rightarrow> kval" where
  "krt2_handle deep label ret ops body = op5 OP_HANDLE ''rt.handle'' deep label ret ops body"

definition krt2_perform :: "kval \<Rightarrow> kval \<Rightarrow> kval \<Rightarrow> kval" where
  "krt2_perform label p payload = op3 OP_PERFORM ''rt.perform'' label p payload"

definition krt2_resume :: "kval \<Rightarrow> kval \<Rightarrow> kval" where
  "krt2_resume k v = op2 OP_RESUME ''rt.resume'' k v"

definition krt2_abort_exit_finalizer :: "kval \<Rightarrow> kval" where
  "krt2_abort_exit_finalizer token = op1 OP_ABORT_EXIT_FIN ''rt.abortExitFin'' token"

definition krt2_demonitor :: "kval \<Rightarrow> kval" where
  "krt2_demonitor m = krt2_pure kunit"

definition krt2_finally :: "kval \<Rightarrow> kval \<Rightarrow> kval" where
  "krt2_finally body fin = krt2_doscope (krt2_then (krt2_defer fin) body)"

definition krt2_ensuring :: "kval \<Rightarrow> kval \<Rightarrow> kval" where
  "krt2_ensuring body fin = krt2_finally body fin"

definition krt2_on_exit :: "kval \<Rightarrow> kval \<Rightarrow> kval" where
  "krt2_on_exit body handler =
     (let marker = op1 OP_ONEXIT_FIN ''rt.onExitFin'' handler in krt2_doscope (krt2_then (krt2_defer marker) body))"

definition krt2_on_interrupt :: "kval \<Rightarrow> kval \<Rightarrow> kval" where
  "krt2_on_interrupt body handler =
     (let marker = op1 OP_ONINT_FIN ''rt.onIntFin'' handler in krt2_doscope (krt2_then (krt2_defer marker) body))"

definition krt2_with_scope :: "kval \<Rightarrow> kval" where
  "krt2_with_scope use = krt2_bind krt2_new_scope (KClo CWithScope (kpush use []))"

definition krt2_locally_fiber_ref :: "kval \<Rightarrow> kval \<Rightarrow> kval \<Rightarrow> kval" where
  "krt2_locally_fiber_ref r val body =
     krt2_bind (krt2_get_fiber_ref r) (KClo CLocallyWithOld (kpush r (kpush val (kpush body []))))"

definition locally_with_old :: "kval list \<Rightarrow> kval \<Rightarrow> kval kres" where
  "locally_with_old env old =
     kbind (kvar env 0) (\<lambda>r. kbind (kvar env 1) (\<lambda>val. kbind (kvar env 2) (\<lambda>body.
       Inr (krt2_then (krt2_set_fiber_ref r val) (krt2_finally body (krt2_set_fiber_ref r old))))))"

definition krt2_acquire_release :: "kval \<Rightarrow> kval \<Rightarrow> kval \<Rightarrow> kval" where
  "krt2_acquire_release acquire release use =
     krt2_mask (KClo CArMasked (kpush acquire (kpush release (kpush use []))))"

definition ar_masked :: "kval list \<Rightarrow> kval \<Rightarrow> kval kres" where
  "ar_masked env restore =
     kbind (kvar env 0) (\<lambda>acq. kbind (kvar env 1) (\<lambda>rel. kbind (kvar env 2) (\<lambda>use.
       Inr (krt2_bind acq (KClo CArWithR (kpush rel (kpush use (kpush restore []))))))))"

definition loop_branch :: "kval list \<Rightarrow> kval \<Rightarrow> kval kres" where
  "loop_branch env c = kbind (kvar env 0) (\<lambda>body. kbind (kas_bool c) (\<lambda>b.
     Inr (if b then krt2_doscope body else krt2_break)))"

definition restore_fn :: "kval list \<Rightarrow> kval \<Rightarrow> kval kres" where
  "restore_fn env act = kbind (kvar env 0) (\<lambda>fr. Inr (op2 OP_RESTORE ''rt.restore'' act fr))"

definition resume_thunk :: "kval list \<Rightarrow> kval \<Rightarrow> kval kres" where
  "resume_thunk env v = kbind (kvar env 0) (\<lambda>box. Inr (krt2_resume box v))"

definition krt2_is_reraise_action :: "kval \<Rightarrow> bool" where
  "krt2_is_reraise_action v \<longleftrightarrow> \<not> kv_imm v \<and> kctor_tagid v = OP_RERAISE"

lemmas op_defs = op0_def op1_def op2_def op3_def op5_def idc1_def idc2_def

lemmas builder_defs =
  krt2_pure_def krt2_bind_def krt2_then_def krt2_catch_def
  krt2_throw_def krt2_reraise_def krt2_fork_def krt2_fork_daemon_def
  krt2_await_def krt2_cede_def krt2_sleep_for_def krt2_now_monotonic_def
  krt2_new_promise_def krt2_complete_promise_def krt2_await_promise_exit_def krt2_current_fiber_id_def
  krt2_fiber_id_def krt2_interrupt_def krt2_interrupt_fork_def krt2_interrupt_as_def
  krt2_interrupt_fork_as_def krt2_uninterruptible_def krt2_poll_def krt2_mask_def
  krt2_uninterruptible_mask_def krt2_blocking_def krt2_new_scope_def krt2_fork_in_def
  krt2_shutdown_scope_def krt2_monitor_def krt2_await_monitor_def krt2_doscope_def
  krt2_defer_def krt2_return_def krt2_retscope_def krt2_break_def
  krt2_continue_def krt2_while_def krt2_new_ref_def krt2_read_ref_def
  krt2_write_ref_def krt2i_try_exit_def krt2_new_fiber_ref_def krt2_get_fiber_ref_def
  krt2_set_fiber_ref_def krt2_modify_fiber_ref_def krt2_poll_promise_def krt2_is_done_promise_def
  krt2_handle_def krt2_perform_def krt2_resume_def krt2_abort_exit_finalizer_def

section \<open>Reasons\<close>

datatype rkind = RK_NORMAL | RK_FAIL | RK_RETURN | RK_BREAK | RK_CONTINUE | RK_INTERRUPT | RK_RERAISE | RK_DRAIN

type_synonym reason = "rkind \<times> kval option"

text \<open>A reason's value where the code reads it without a check.\<close>

definition rval :: "kval option \<Rightarrow> kval kres" where
  "rval v = (case v of None \<Rightarrow> kundef | Some x \<Rightarrow> Inr x)"

fun exit_of_reason :: "rkind \<Rightarrow> kval option \<Rightarrow> kval kres" where
  "exit_of_reason RK_NORMAL v = kbind (rval v) (\<lambda>x. Inr (krt2_success x))"
| "exit_of_reason RK_RETURN v = Inr (krt2_success (case v of Some x \<Rightarrow> x | None \<Rightarrow> kunit))"
| "exit_of_reason RK_FAIL v = kbind (rval v) (\<lambda>x. Inr (krt2_failure (krt2_cause_fail x)))"
| "exit_of_reason RK_INTERRUPT v = kbind (rval v) (\<lambda>x. Inr (krt2_failure (krt2_cause_interrupt x)))"
| "exit_of_reason RK_RERAISE v = kbind (rval v) (\<lambda>x. Inr (krt2_failure x))"
| "exit_of_reason _ v = Inr (krt2_success kunit)"

fun reason_to_cause :: "rkind \<Rightarrow> kval option \<Rightarrow> kval option" where
  "reason_to_cause RK_FAIL v = map_option krt2_cause_fail v"
| "reason_to_cause RK_INTERRUPT v = map_option krt2_cause_interrupt v"
| "reason_to_cause RK_RERAISE v = v"
| "reason_to_cause _ v = None"

definition compose_reason_into :: "reason \<Rightarrow> reason \<Rightarrow> reason" where
  "compose_reason_into io c =
     (case reason_to_cause (fst c) (snd c) of
        None \<Rightarrow> io
      | Some cleanup \<Rightarrow>
          (RK_RERAISE, Some (case reason_to_cause (fst io) (snd io) of
             Some primary \<Rightarrow> krt2_cause_then primary cleanup
           | None \<Rightarrow> cleanup)))"

lemma packed_is_imm: "kis_imm_packed w \<Longrightarrow> kis_imm w"
  by (simp add: kis_imm_packed_def kis_imm_def KIMM_PACKED_def KIMM_PTR_def)

lemma kctor_arg_size: "\<not> kv_imm c \<Longrightarrow> kctor_arg c i = Inr a \<Longrightarrow> size a < size c"
proof (cases c)
  case (KCtor t n args)
  assume "kctor_arg c i = Inr a"
  then have "a = args ! nat i" "nat i < length args" using KCtor by (auto split: if_splits)
  then have "a \<in> set args" by simp
  then show ?thesis using KCtor by (simp add: size_list_estimation less_Suc_eq_le size_list_estimation')
qed (auto simp: packed_is_imm split: if_splits)

function (sequential) interrupt_cause_of_cause :: "kval \<Rightarrow> kval option" where
  "interrupt_cause_of_cause cause =
     (if kv_imm cause then None
      else if kctor_tagid cause = KCT_INTERRUPT then (case kctor_arg cause 0 of Inl _ \<Rightarrow> None | Inr v \<Rightarrow> Some v)
      else if kctor_tagid cause = KCT_THEN then
        (case kctor_arg cause 0 of Inl _ \<Rightarrow> None | Inr p \<Rightarrow> interrupt_cause_of_cause p)
      else if kctor_tagid cause = KCT_BOTH then
        (case (case kctor_arg cause 0 of Inl _ \<Rightarrow> None | Inr l \<Rightarrow> interrupt_cause_of_cause l) of
           Some x \<Rightarrow> Some x
         | None \<Rightarrow> (case kctor_arg cause 1 of Inl _ \<Rightarrow> None | Inr r \<Rightarrow> interrupt_cause_of_cause r))
      else None)"
  by pat_completeness auto
termination by (relation "measure size") (auto intro: kctor_arg_size)

declare interrupt_cause_of_cause.simps [simp del]

fun interrupt_cause_of_reason :: "rkind \<Rightarrow> kval option \<Rightarrow> kval option" where
  "interrupt_cause_of_reason RK_INTERRUPT v = v"
| "interrupt_cause_of_reason RK_RERAISE v = (case v of None \<Rightarrow> None | Some c \<Rightarrow> interrupt_cause_of_cause c)"
| "interrupt_cause_of_reason _ v = None"

section \<open>Composition keeps the first failure leftmost\<close>

text \<open>The failures of a sequence of reasons, and the left spine they form.\<close>

definition reason_causes :: "reason list \<Rightarrow> kval list" where
  "reason_causes rs = List.map_filter (\<lambda>r. reason_to_cause (fst r) (snd r)) rs"

definition cause_spine :: "kval \<Rightarrow> kval list \<Rightarrow> kval" where
  "cause_spine p cs = foldl krt2_cause_then p cs"

definition compose_all :: "reason \<Rightarrow> reason list \<Rightarrow> reason" where
  "compose_all r cs =
     (let fs = reason_causes cs in
      if fs = [] then r
      else (RK_RERAISE, Some (case reason_to_cause (fst r) (snd r) of
                                None \<Rightarrow> cause_spine (hd fs) (tl fs) | Some p \<Rightarrow> cause_spine p fs)))"

lemma reason_causes_simps [simp]:
  "reason_causes [] = []"
  "reason_causes (c # cs) = (case reason_to_cause (fst c) (snd c) of None \<Rightarrow> reason_causes cs | Some x \<Rightarrow> x # reason_causes cs)"
  by (simp_all add: reason_causes_def List.map_filter_def split: option.splits)

lemma compose_foldl: "foldl compose_reason_into r cs = compose_all r cs"
proof (induction cs arbitrary: r)
  case Nil
  then show ?case by (simp add: compose_all_def split: option.splits)
next
  case (Cons c cs)
  show ?case unfolding compose_all_def Let_def reason_causes_simps foldl_Cons Cons
    by (cases "reason_to_cause (fst c) (snd c)"; cases "reason_to_cause (fst r) (snd r)"; cases "reason_causes cs")
      (simp_all add: compose_reason_into_def cause_spine_def)
qed

lemma cause_then_interrupt:
  assumes "\<not> kv_imm (krt2_cause_then p c)"
  shows "interrupt_cause_of_cause (krt2_cause_then p c) = interrupt_cause_of_cause p"
  using assms by (subst interrupt_cause_of_cause.simps) (simp add: krt2_cause_then_def op_defs)

end
