(* ===== verification/Kappa_Stm.thy ===== *)
theory Kappa_Stm
  imports Kappa_Action "HOL-Library.Sublist"
begin

text \<open>
  Software transactional memory (\<open>runtime/stm.c\<close>). A transaction is a tree of \<open>STM_\<close> nodes that
  \<open>stm_run\<close> interprets against a journal; \<open>krt2i_op_atomically\<close> validates and installs it, or parks
  the fiber. A \<open>TVar*\<close> is an address; the shared store maps an address to the box and the watcher
  list of the TVar. The transaction body runs outside the global lock, so each read that reaches the
  store sees the store of its own moment: \<open>env k\<close> is the store at the \<open>k\<close>-th recorded read. The
  continuations of bind nodes are generated code, the parameter \<open>app\<close> (\<open>kapp\<close>); the addresses that
  \<open>GC_MALLOC\<close> returns are the parameter \<open>mal\<close>. Counts of values (\<open>kdup\<close>, \<open>kdrop\<close>) do not show at
  this level.
\<close>

section \<open>Nodes\<close>

abbreviation (input) "STM_PURE \<equiv> (0x40001000 :: int)"
abbreviation (input) "STM_BIND \<equiv> (0x40001001 :: int)"
abbreviation (input) "STM_READ \<equiv> (0x40001002 :: int)"
abbreviation (input) "STM_WRITE \<equiv> (0x40001003 :: int)"
abbreviation (input) "STM_RETRY \<equiv> (0x40001004 :: int)"
abbreviation (input) "STM_ORELSE \<equiv> (0x40001005 :: int)"
abbreviation (input) "STM_NEW \<equiv> (0x40001006 :: int)"

definition KRT2_KIND_TVAR :: string where
  "KRT2_KIND_TVAR = ''rt.TVar''"

definition krt2_stm_pure :: "kval \<Rightarrow> kval" where
  "krt2_stm_pure v = kctor STM_PURE ''stm.pure'' [v]"

definition krt2_stm_bind :: "kval \<Rightarrow> kval \<Rightarrow> kval" where
  "krt2_stm_bind m k = kctor STM_BIND ''stm.bind'' [m, k]"

definition krt2_new_tvar :: "kval \<Rightarrow> kval" where
  "krt2_new_tvar v = kctor STM_NEW ''stm.newTVar'' [v]"

definition krt2_read_tvar :: "kval \<Rightarrow> kval" where
  "krt2_read_tvar tv = kctor STM_READ ''stm.readTVar'' [tv]"

definition krt2_write_tvar :: "kval \<Rightarrow> kval \<Rightarrow> kval" where
  "krt2_write_tvar tv v = kctor STM_WRITE ''stm.writeTVar'' [tv, v]"

definition krt2_retry :: kval where
  "krt2_retry = kctor0 STM_RETRY ''stm.retry''"

definition krt2_or_else :: "kval \<Rightarrow> kval \<Rightarrow> kval" where
  "krt2_or_else l r = kctor STM_ORELSE ''stm.orElse'' [l, r]"

definition krt2_check :: "kval \<Rightarrow> kval kres" where
  "krt2_check b = kbind (kas_bool b) (\<lambda>c. Inr (if c then krt2_stm_pure kunit else krt2_retry))"

section \<open>Store and journal\<close>

record tvar =
  tv_val :: kval
  tv_ver :: kword
  tv_watch :: "nat list"

type_synonym tstore = "nat \<rightharpoonup> tvar"

record journal =
  jr :: "(nat \<times> kword) list"
  jw :: "(nat \<times> kval) list"
  jnew :: "(nat \<times> kval) list"

definition j_empty :: journal where
  "j_empty = \<lparr>jr = [], jw = [], jnew = []\<rparr>"

definition j_read_record :: "journal \<Rightarrow> nat \<Rightarrow> kword \<Rightarrow> journal" where
  "j_read_record J tv ver = J\<lparr>jr := jr J @ [(tv, ver)]\<rparr>"

definition j_write :: "journal \<Rightarrow> nat \<Rightarrow> kval \<Rightarrow> journal" where
  "j_write J tv v = J\<lparr>jw := jw J @ [(tv, v)]\<rparr>"

definition j_truncate_writes :: "journal \<Rightarrow> nat \<Rightarrow> journal" where
  "j_truncate_writes J nw = J\<lparr>jw := take nw (jw J)\<rparr>"

text \<open>The newest entry of the append-only log.\<close>

definition j_newest :: "(nat \<times> kval) list \<Rightarrow> nat \<Rightarrow> kval option" where
  "j_newest w tv = map_of (rev w) tv"

text \<open>The box a read finds: of a TVar of this transaction, or of the shared store.\<close>

definition tv_box :: "tstore \<Rightarrow> journal \<Rightarrow> nat \<Rightarrow> (kval \<times> kword) option" where
  "tv_box S J tv =
     (case map_of (jnew J) tv of
        Some v \<Rightarrow> Some (v, 0)
      | None \<Rightarrow> map_option (\<lambda>t. (tv_val t, tv_ver t)) (S tv))"

definition j_read :: "(nat \<Rightarrow> tstore) \<Rightarrow> journal \<Rightarrow> nat \<Rightarrow> (kval \<times> journal) kres" where
  "j_read env J tv =
     (case j_newest (jw J) tv of
        Some v \<Rightarrow> Inr (v, J)
      | None \<Rightarrow>
          (case tv_box (env (length (jr J))) J tv of
             None \<Rightarrow> kundef
           | Some (v, ver) \<Rightarrow> Inr (v, j_read_record J tv ver)))"

text \<open>Is the TVar of entry \<open>i\<close> written again by a later entry?\<close>

definition j_newer_write :: "(nat \<times> kval) list \<Rightarrow> nat \<Rightarrow> bool" where
  "j_newer_write w i \<longleftrightarrow> fst (w ! i) \<in> set (map fst (drop (Suc i) w))"

section \<open>The interpreter\<close>



datatype stm_frame = FK_BIND kval | FK_ORELSE kval nat

datatype stm_act = SVal kval journal | SRetry journal | SPush kval stm_frame

text \<open>The switch on the node.\<close>

definition stm_dispatch :: "(nat \<Rightarrow> tstore) \<Rightarrow> (nat \<Rightarrow> nat) \<Rightarrow> kval \<Rightarrow> journal \<Rightarrow> stm_act kres" where
  "stm_dispatch env mal cur J =
     (let op = kctor_tagid cur in
      if op = STM_PURE then kbind (kctor_arg cur 0) (\<lambda>v. Inr (SVal v J))
      else if op = STM_READ then
        kbind (kctor_arg cur 0) (\<lambda>a. kbind (kas_fgn_kind a KRT2_KIND_TVAR) (\<lambda>tv.
          kbind (j_read env J tv) (\<lambda>(v, J'). Inr (SVal v J'))))
      else if op = STM_WRITE then
        kbind (kctor_arg cur 0) (\<lambda>a. kbind (kas_fgn_kind a KRT2_KIND_TVAR) (\<lambda>tv.
          kbind (kctor_arg cur 1) (\<lambda>v. Inr (SVal kunit (j_write J tv v)))))
      else if op = STM_NEW then
        kbind (kctor_arg cur 0) (\<lambda>v. let tv = mal (length (jnew J)) in
          Inr (SVal (KFgn tv KRT2_KIND_TVAR) (J\<lparr>jnew := (tv, v) # jnew J\<rparr>)))
      else if op = STM_BIND then
        kbind (kctor_arg cur 1) (\<lambda>k. kbind (kctor_arg cur 0) (\<lambda>m. Inr (SPush m (FK_BIND k))))
      else if op = STM_ORELSE then
        kbind (kctor_arg cur 1) (\<lambda>r. kbind (kctor_arg cur 0) (\<lambda>l. Inr (SPush l (FK_ORELSE r (length (jw J))))))
      else if op = STM_RETRY then Inr (SRetry J)
      else Inr (SVal cur J))"

text \<open>The two pop loops; \<open>None\<close> when the frames are exhausted.\<close>

fun pop_value :: "kapp_fn \<Rightarrow> kval \<Rightarrow> stm_frame list \<Rightarrow> (kval \<times> stm_frame list) option kres" where
  "pop_value app v [] = Inr None"
| "pop_value app v (FK_BIND k # fr) = kbind (app k v) (\<lambda>c. Inr (Some (c, fr)))"
| "pop_value app v (FK_ORELSE r n # fr) = pop_value app v fr"

fun pop_retry :: "stm_frame list \<Rightarrow> journal \<Rightarrow> (kval \<times> stm_frame list \<times> journal) option" where
  "pop_retry [] J = None"
| "pop_retry (FK_BIND k # fr) J = pop_retry fr J"
| "pop_retry (FK_ORELSE r n # fr) J = Some (r, fr, j_truncate_writes J n)"

datatype stm_out = StmDone kval journal | StmRetry journal

text \<open>The interpreter's loop may run forever: then there is no result.\<close>

partial_function (option) stm_run ::
  "kapp_fn \<Rightarrow> (nat \<Rightarrow> tstore) \<Rightarrow> (nat \<Rightarrow> nat) \<Rightarrow> kval \<Rightarrow> stm_frame list \<Rightarrow> journal \<Rightarrow> stm_out kres option" where
  "stm_run app env mal cur fr J =
     (case stm_dispatch env mal cur J of
        Inl m \<Rightarrow> Some (Inl m)
      | Inr act \<Rightarrow>
          (case act of
             SPush c f \<Rightarrow> stm_run app env mal c (f # fr) J
           | SVal v J' \<Rightarrow>
               (case pop_value app v fr of
                  Inl m \<Rightarrow> Some (Inl m)
                | Inr None \<Rightarrow> Some (Inr (StmDone v J'))
                | Inr (Some cf) \<Rightarrow> stm_run app env mal (fst cf) (snd cf) J')
           | SRetry J' \<Rightarrow>
               (case pop_retry fr J' of
                  None \<Rightarrow> Some (Inr (StmRetry J'))
                | Some cf \<Rightarrow> stm_run app env mal (fst cf) (fst (snd cf)) (snd (snd cf)))))"

section \<open>Meaning of a transaction\<close>

text \<open>The specification without frames: a transaction takes a journal to a value or to a retry.\<close>

datatype stm_res = RVal kval | RRetry

inductive stm_eval :: "kapp_fn \<Rightarrow> (nat \<Rightarrow> tstore) \<Rightarrow> (nat \<Rightarrow> nat) \<Rightarrow> kval \<Rightarrow> journal \<Rightarrow> stm_res \<Rightarrow> journal \<Rightarrow> bool"
  for app env mal where
  ev_leaf: "stm_dispatch env mal m J = Inr (SVal v J') \<Longrightarrow> stm_eval app env mal m J (RVal v) J'"
| ev_retry: "stm_dispatch env mal m J = Inr (SRetry J') \<Longrightarrow> stm_eval app env mal m J RRetry J'"
| ev_bind: "stm_dispatch env mal m J = Inr (SPush c (FK_BIND k)) \<Longrightarrow> stm_eval app env mal c J (RVal v) J1 \<Longrightarrow>
    app k v = Inr n \<Longrightarrow> stm_eval app env mal n J1 r J2 \<Longrightarrow> stm_eval app env mal m J r J2"
| ev_bind_retry: "stm_dispatch env mal m J = Inr (SPush c (FK_BIND k)) \<Longrightarrow> stm_eval app env mal c J RRetry J1 \<Longrightarrow>
    stm_eval app env mal m J RRetry J1"
| ev_left: "stm_dispatch env mal m J = Inr (SPush c (FK_ORELSE d n)) \<Longrightarrow> stm_eval app env mal c J (RVal v) J1 \<Longrightarrow>
    stm_eval app env mal m J (RVal v) J1"
| ev_right: "stm_dispatch env mal m J = Inr (SPush c (FK_ORELSE d n)) \<Longrightarrow> stm_eval app env mal c J RRetry J1 \<Longrightarrow>
    stm_eval app env mal d (J1\<lparr>jw := jw J\<rparr>) r J2 \<Longrightarrow> stm_eval app env mal m J r J2"

section \<open>The journal only grows\<close>

definition j_ext :: "journal \<Rightarrow> journal \<Rightarrow> bool" where
  "j_ext J J' \<longleftrightarrow> prefix (jr J) (jr J') \<and> prefix (jw J) (jw J') \<and> suffix (jnew J) (jnew J')"

lemma j_ext_refl [simp]: "j_ext J J"
  by (simp add: j_ext_def)

lemma j_ext_trans: "j_ext J J' \<Longrightarrow> j_ext J' J'' \<Longrightarrow> j_ext J J''"
  unfolding j_ext_def by (meson prefix_order.trans suffix_order.trans)

lemma j_read_ext: "j_read env J tv = Inr (v, J') \<Longrightarrow> j_ext J J'"
  by (auto simp: j_read_def j_read_record_def j_ext_def kundef_def split: option.splits)

lemma dispatch_ext: "stm_dispatch env mal m J = Inr (SVal v J') \<Longrightarrow> j_ext J J'"
  by (auto simp: stm_dispatch_def Let_def kbind_eq_Inr j_write_def dest: j_read_ext split: if_splits)
    (auto simp: j_ext_def suffix_ConsI)

lemma dispatch_retry: "stm_dispatch env mal m J = Inr (SRetry J') \<Longrightarrow> J' = J"
  by (auto simp: stm_dispatch_def Let_def kbind_eq_Inr split: if_splits)

lemma dispatch_push: "stm_dispatch env mal m J = Inr (SPush c (FK_ORELSE d n)) \<Longrightarrow> n = length (jw J)"
  by (auto simp: stm_dispatch_def Let_def kbind_eq_Inr split: if_splits)

lemma eval_ext: "stm_eval app env mal m J r J' \<Longrightarrow> j_ext J J'"
proof (induction rule: stm_eval.induct)
  case (ev_right m J c d n J1 r J2)
  then show ?case by (auto simp: j_ext_def intro: prefix_order.trans suffix_order.trans)
qed (auto intro: j_ext_trans dest: dispatch_ext dispatch_retry)

lemma truncate_ext: "j_ext J J1 \<Longrightarrow> j_truncate_writes J1 (length (jw J)) = J1\<lparr>jw := jw J\<rparr>"
  by (auto simp: j_truncate_writes_def j_ext_def prefix_def)

section \<open>The interpreter implements the meaning\<close>

definition stm_resume ::
  "kapp_fn \<Rightarrow> (nat \<Rightarrow> tstore) \<Rightarrow> (nat \<Rightarrow> nat) \<Rightarrow> stm_res \<Rightarrow> stm_frame list \<Rightarrow> journal \<Rightarrow> stm_out kres option" where
  "stm_resume app env mal r fr J =
     (case r of
        RVal v \<Rightarrow> (case pop_value app v fr of
            Inl m \<Rightarrow> Some (Inl m)
          | Inr None \<Rightarrow> Some (Inr (StmDone v J))
          | Inr (Some cf) \<Rightarrow> stm_run app env mal (fst cf) (snd cf) J)
      | RRetry \<Rightarrow> (case pop_retry fr J of
            None \<Rightarrow> Some (Inr (StmRetry J))
          | Some cf \<Rightarrow> stm_run app env mal (fst cf) (fst (snd cf)) (snd (snd cf))))"

lemma run_eval: "stm_eval app env mal m J r J' \<Longrightarrow> stm_run app env mal m fr J = stm_resume app env mal r fr J'"
proof (induction arbitrary: fr rule: stm_eval.induct)
  case (ev_right m J c d n J1 r J2)
  have t: "j_truncate_writes J1 n = J1\<lparr>jw := jw J\<rparr>"
    using truncate_ext[OF eval_ext[OF ev_right.hyps(2)]] dispatch_push[OF ev_right.hyps(1)] by simp
  show ?case using ev_right
    by (subst stm_run.simps) (simp add: stm_resume_def[of _ _ _ RRetry] t)
qed (subst stm_run.simps; simp add: stm_resume_def)+

inductive stm_stack :: "kapp_fn \<Rightarrow> (nat \<Rightarrow> tstore) \<Rightarrow> (nat \<Rightarrow> nat) \<Rightarrow> stm_frame list \<Rightarrow> stm_res \<Rightarrow> journal \<Rightarrow> stm_out \<Rightarrow> bool"
  for app env mal where
  st_done: "stm_stack app env mal [] (RVal v) J (StmDone v J)"
| st_retry: "stm_stack app env mal [] RRetry J (StmRetry J)"
| st_bind: "app k v = Inr n \<Longrightarrow> stm_eval app env mal n J r J' \<Longrightarrow> stm_stack app env mal fr r J' out \<Longrightarrow>
    stm_stack app env mal (FK_BIND k # fr) (RVal v) J out"
| st_bind_retry: "stm_stack app env mal fr RRetry J out \<Longrightarrow> stm_stack app env mal (FK_BIND k # fr) RRetry J out"
| st_left: "stm_stack app env mal fr (RVal v) J out \<Longrightarrow> stm_stack app env mal (FK_ORELSE d n # fr) (RVal v) J out"
| st_right: "stm_eval app env mal d (j_truncate_writes J n) r J' \<Longrightarrow> stm_stack app env mal fr r J' out \<Longrightarrow>
    stm_stack app env mal (FK_ORELSE d n # fr) RRetry J out"

inductive_cases stack_bindE: "stm_stack app env mal (FK_BIND k # fr) r J out"
inductive_cases stack_orE: "stm_stack app env mal (FK_ORELSE d n # fr) r J out"
inductive_cases stack_nilE: "stm_stack app env mal [] r J out"

lemma pop_value_stack:
  "pop_value app v fr = Inr None \<Longrightarrow> stm_stack app env mal fr (RVal v) J (StmDone v J)"
  "pop_value app v fr = Inr (Some (c, fr')) \<Longrightarrow> stm_eval app env mal c J r J' \<Longrightarrow> stm_stack app env mal fr' r J' out \<Longrightarrow>
   stm_stack app env mal fr (RVal v) J out"
  by (induction app v fr rule: pop_value.induct) (auto simp: kbind_eq_Inr intro: stm_stack.intros)

lemma pop_retry_stack:
  "pop_retry fr J = None \<Longrightarrow> stm_stack app env mal fr RRetry J (StmRetry J)"
  "pop_retry fr J = Some (c, fr', J1) \<Longrightarrow> stm_eval app env mal c J1 r J' \<Longrightarrow> stm_stack app env mal fr' r J' out \<Longrightarrow>
   stm_stack app env mal fr RRetry J out"
  by (induction fr J rule: pop_retry.induct) (auto intro: stm_stack.intros)

lemma run_stack:
  assumes "stm_run app env mal m fr J = Some res"
  shows "\<forall>out. res = Inr out \<longrightarrow> (\<exists>r J'. stm_eval app env mal m J r J' \<and> stm_stack app env mal fr r J' out)"
proof (rule stm_run.raw_induct[of "\<lambda>app env mal m fr J res.
    \<forall>out. res = Inr out \<longrightarrow> (\<exists>r J'. stm_eval app env mal m J r J' \<and> stm_stack app env mal fr r J' out)", OF _ assms],
    intro allI impI)
  fix rec :: "kapp_fn \<Rightarrow> (nat \<Rightarrow> tstore) \<Rightarrow> (nat \<Rightarrow> nat) \<Rightarrow> kval \<Rightarrow> stm_frame list \<Rightarrow> journal \<Rightarrow> stm_out kres option"
    and app env mal m fr J y out
  assume ih: "\<And>app env mal m fr J y. rec app env mal m fr J = Some y \<Longrightarrow>
      \<forall>out. y = Inr out \<longrightarrow> (\<exists>r J'. stm_eval app env mal m J r J' \<and> stm_stack app env mal fr r J' out)"
  note IH = ih[rule_format]
  assume 1: "(case stm_dispatch env mal m J of
        Inl m \<Rightarrow> Some (Inl m)
      | Inr act \<Rightarrow>
          (case act of
             SPush c f \<Rightarrow> rec app env mal c (f # fr) J
           | SVal v J' \<Rightarrow>
               (case pop_value app v fr of
                  Inl m \<Rightarrow> Some (Inl m)
                | Inr None \<Rightarrow> Some (Inr (StmDone v J'))
                | Inr (Some cf) \<Rightarrow> rec app env mal (fst cf) (snd cf) J')
           | SRetry J' \<Rightarrow>
               (case pop_retry fr J' of
                  None \<Rightarrow> Some (Inr (StmRetry J'))
                | Some cf \<Rightarrow> rec app env mal (fst cf) (fst (snd cf)) (snd (snd cf))))) = Some y" "y = Inr out"
  obtain act where d: "stm_dispatch env mal m J = Inr act" using 1 by (cases "stm_dispatch env mal m J") auto
  show "\<exists>r J'. stm_eval app env mal m J r J' \<and> stm_stack app env mal fr r J' out"
  proof (cases act)
    case (SVal v J1)
    then have e: "stm_eval app env mal m J (RVal v) J1" using d by (auto intro: ev_leaf)
    obtain o' where o: "pop_value app v fr = Inr o'" using 1 d SVal by (cases "pop_value app v fr") auto
    show ?thesis
    proof (cases o')
      case None
      then have "out = StmDone v J1" using 1 d SVal o by auto
      then show ?thesis using e pop_value_stack(1) o None by blast
    next
      case (Some cf)
      then have "rec app env mal (fst cf) (snd cf) J1 = Some (Inr out)" using 1 d SVal o by simp
      from IH[OF this refl] obtain r J2 where
        "stm_eval app env mal (fst cf) J1 r J2" "stm_stack app env mal (snd cf) r J2 out" by blast
      then have "stm_stack app env mal fr (RVal v) J1 out"
        using pop_value_stack(2)[of app v fr "fst cf" "snd cf" env mal J1 r J2 out] o Some by simp
      then show ?thesis using e by blast
    qed
  next
    case (SRetry J1)
    then have e: "stm_eval app env mal m J RRetry J1" using d by (auto intro: ev_retry)
    show ?thesis
    proof (cases "pop_retry fr J1")
      case None
      then have "out = StmRetry J1" using 1 d SRetry by auto
      then show ?thesis using e pop_retry_stack(1)[OF None] by blast
    next
      case (Some cf)
      then have "rec app env mal (fst cf) (fst (snd cf)) (snd (snd cf)) = Some (Inr out)" using 1 d SRetry by simp
      from IH[OF this refl] obtain r J2 where
        "stm_eval app env mal (fst cf) (snd (snd cf)) r J2" "stm_stack app env mal (fst (snd cf)) r J2 out" by blast
      then have "stm_stack app env mal fr RRetry J1 out"
        using pop_retry_stack(2)[of fr J1 "fst cf" "fst (snd cf)" "snd (snd cf)" app env mal r J2 out] Some by simp
      then show ?thesis using e by blast
    qed
  next
    case (SPush c f)
    then have "rec app env mal c (f # fr) J = Some (Inr out)" using 1 d by simp
    from IH[OF this refl] obtain r J1 where
      r: "stm_eval app env mal c J r J1" "stm_stack app env mal (f # fr) r J1 out" by blast
    show ?thesis
    proof (cases f)
      case (FK_BIND k)
      from r(2)[unfolded FK_BIND] show ?thesis
      proof (rule stack_bindE)
        fix v n r' J2
        assume "r = RVal v" "app k v = Inr n" "stm_eval app env mal n J1 r' J2" "stm_stack app env mal fr r' J2 out"
        then show ?thesis using r(1) d SPush FK_BIND by (blast intro: ev_bind)
      next
        assume "r = RRetry" "stm_stack app env mal fr RRetry J1 out"
        then show ?thesis using r(1) d SPush FK_BIND by (blast intro: ev_bind_retry)
      qed
    next
      case (FK_ORELSE d' n)
      from r(2)[unfolded FK_ORELSE] show ?thesis
      proof (rule stack_orE)
        fix v
        assume "r = RVal v" "stm_stack app env mal fr (RVal v) J1 out"
        then show ?thesis using r(1) d SPush FK_ORELSE by (blast intro: ev_left)
      next
        fix r' J2
        assume a: "stm_eval app env mal d' (j_truncate_writes J1 n) r' J2" "stm_stack app env mal fr r' J2 out" "r = RRetry"
        have "j_truncate_writes J1 n = J1\<lparr>jw := jw J\<rparr>"
          using truncate_ext[OF eval_ext[OF r(1)]] dispatch_push d SPush FK_ORELSE by blast
        then show ?thesis using a r(1) d SPush FK_ORELSE by (auto intro: ev_right)
      qed
    qed
  qed
qed

text \<open>The result of a whole transaction.\<close>

fun out_of :: "stm_res \<Rightarrow> journal \<Rightarrow> stm_out" where
  "out_of (RVal v) J = StmDone v J"
| "out_of RRetry J = StmRetry J"

text \<open>C17: The iterative interpreter, with its explicit frame stack and its truncation of the write log,
  implements the meaning of transactions: it ends with an outcome just when the transaction evaluates
  to it, where a retry runs the right branch of the nearest enclosing \<open>orElse\<close> with the writes of the
  left branch undone and its reads kept.\<close>
theorem stm_run_refines:
  "stm_run app env mal m [] J = Some (Inr (out_of r J')) \<longleftrightarrow> stm_eval app env mal m J r J'"
proof
  assume "stm_eval app env mal m J r J'"
  from run_eval[OF this, of "[]"] show "stm_run app env mal m [] J = Some (Inr (out_of r J'))"
    by (cases r) (simp_all add: stm_resume_def)
next
  assume "stm_run app env mal m [] J = Some (Inr (out_of r J'))"
  from run_stack[OF this] obtain r1 J1 where
    "stm_eval app env mal m J r1 J1" "stm_stack app env mal [] r1 J1 (out_of r J')" by blast
  then show "stm_eval app env mal m J r J'" by (cases r) (auto elim: stack_nilE)
qed

section \<open>Commit and park\<close>

text \<open>The store with the TVars this transaction made: their boxes have version 0 and no watcher.\<close>

definition with_new :: "tstore \<Rightarrow> (nat \<times> kval) list \<Rightarrow> tstore" where
  "with_new S nw = (\<lambda>tv. case map_of nw tv of
     Some v \<Rightarrow> Some \<lparr>tv_val = v, tv_ver = 0, tv_watch = []\<rparr> | None \<Rightarrow> S tv)"

text \<open>The validation loop over the read set.\<close>

fun stm_valid :: "tstore \<Rightarrow> (nat \<times> kword) list \<Rightarrow> bool" where
  "stm_valid S [] = True"
| "stm_valid S ((tv, ver) # rs) = (case S tv of None \<Rightarrow> False | Some t \<Rightarrow> tv_ver t = ver \<and> stm_valid S rs)"

text \<open>The install loop from entry \<open>i\<close>: an entry written again later is skipped, and the watchers of an
  installed TVar are moved, one by one from the front, onto the wake list.\<close>

fun stm_install :: "kword \<Rightarrow> (nat \<times> kval) list \<Rightarrow> tstore \<Rightarrow> nat list \<Rightarrow> tstore \<times> nat list" where
  "stm_install tick [] S wake = (S, wake)"
| "stm_install tick ((tv, v) # w) S wake =
     (if tv \<in> set (map fst w) then stm_install tick w S wake
      else stm_install tick w (S(tv \<mapsto> \<lparr>tv_val = v, tv_ver = tick, tv_watch = []\<rparr>))
             (rev (case S tv of None \<Rightarrow> [] | Some t \<Rightarrow> tv_watch t) @ wake))"

text \<open>Pushing a waiter for fiber \<open>f\<close> on the list of every TVar read.\<close>

fun stm_watch :: "nat \<Rightarrow> (nat \<times> kword) list \<Rightarrow> tstore \<Rightarrow> tstore" where
  "stm_watch f [] S = S"
| "stm_watch f ((tv, ver) # rs) S =
     stm_watch f rs (case S tv of None \<Rightarrow> S | Some t \<Rightarrow> S(tv \<mapsto> t\<lparr>tv_watch := f # tv_watch t\<rparr>))"

definition krt2i_stm_unpark :: "nat \<Rightarrow> nat list \<Rightarrow> tstore \<Rightarrow> tstore" where
  "krt2i_stm_unpark f rds S =
     (if rds = [] then S
      else foldl (\<lambda>S tv. case S tv of None \<Rightarrow> S
                      | Some t \<Rightarrow> S(tv \<mapsto> t\<lparr>tv_watch := filter (\<lambda>g. g \<noteq> f) (tv_watch t)\<rparr>)) S rds)"

text \<open>One pass of the loop of \<open>krt2i_op_atomically\<close>. \<open>S\<close> is the store when the lock is first taken after
  the run, \<open>S2\<close> when it is taken again to park; \<open>dp\<close> is what \<open>krt2i_deliver_pending_before_park\<close>
  answers in between. A conflict or a stale read set is another pass.\<close>

datatype stm_pass =
  PassFail string
| PassCommit kval tstore kword "nat list"
| PassAgain
| PassPending int
| PassPark tstore "nat list"

definition krt2i_op_atomically ::
  "kapp_fn \<Rightarrow> (nat \<Rightarrow> tstore) \<Rightarrow> (nat \<Rightarrow> nat) \<Rightarrow> tstore \<Rightarrow> tstore \<Rightarrow> kword \<Rightarrow> int \<Rightarrow> nat \<Rightarrow> kval \<Rightarrow> stm_pass option" where
  "krt2i_op_atomically app env mal S S2 tick dp f stm =
     (case stm_run app env mal stm [] j_empty of
        None \<Rightarrow> None
      | Some (Inl m) \<Rightarrow> Some (PassFail m)
      | Some (Inr (StmDone v J)) \<Rightarrow>
          Some (if \<not> stm_valid (with_new S (jnew J)) (jr J) then PassAgain
            else let tick' = tick + 1; (S', wake) = stm_install tick' (jw J) (with_new S (jnew J)) [] in
              PassCommit v S' tick' wake)
      | Some (Inr (StmRetry J)) \<Rightarrow>
          Some (if \<not> stm_valid (with_new S (jnew J)) (jr J) then PassAgain
            else if dp < 0 \<or> dp > 0 then PassPending dp
            else if \<not> stm_valid (with_new S2 (jnew J)) (jr J) then PassAgain
            else PassPark (stm_watch f (jr J) (with_new S2 (jnew J))) (map fst (jr J))))"

lemma with_new_Nil [simp]: "with_new S [] = S"
  by (simp add: with_new_def)

section \<open>Installing writes\<close>

lemma newest_simps:
  "j_newest [] tv = None" "j_newest (w @ [(t, v)]) tv = (if tv = t then Some v else j_newest w tv)"
  by (auto simp: j_newest_def)

lemma newest_Cons: "j_newest ((t, v) # w) tv = (case j_newest w tv of None \<Rightarrow> if tv = t then Some v else None | Some u \<Rightarrow> Some u)"
  by (auto simp: j_newest_def map_add_def split: option.splits)

lemma newest_none: "j_newest w tv = None \<longleftrightarrow> tv \<notin> set (map fst w)"
  by (auto simp: j_newest_def map_of_eq_None_iff)

lemma install_store:
  "fst (stm_install tick w S wake) tv =
     (case j_newest w tv of None \<Rightarrow> S tv | Some v \<Rightarrow> Some \<lparr>tv_val = v, tv_ver = tick, tv_watch = []\<rparr>)"
proof (induction w arbitrary: S wake)
  case (Cons e w)
  obtain t v where e: "e = (t, v)" by (cases e)
  show ?case
  proof (cases "t \<in> set (map fst w)")
    case True
    then show ?thesis using newest_none[of w t] unfolding e stm_install.simps Cons[of S]
      by (auto simp: Cons newest_Cons split: option.splits)
  next
    case False
    then have "j_newest w t = None" by (simp add: newest_none)
    then show ?thesis using False unfolding e stm_install.simps
      by (simp add: Cons newest_Cons split: option.splits)
  qed
qed (simp add: newest_simps)

lemma install_wake:
  "set (snd (stm_install tick w S wake)) =
     set wake \<union> {f. \<exists>tv t. tv \<in> set (map fst w) \<and> S tv = Some t \<and> f \<in> set (tv_watch t)}"
proof (induction w arbitrary: S wake)
  case (Cons e w)
  obtain t v where e: "e = (t, v)" by (cases e)
  show ?case
  proof (cases "t \<in> set (map fst w)")
    case True
    then show ?thesis unfolding e stm_install.simps by (simp add: Cons) blast
  next
    case False
    let ?S = "S(t \<mapsto> \<lparr>tv_val = v, tv_ver = tick, tv_watch = []\<rparr>)"
    have w: "(\<exists>tv u. tv \<in> set (map fst w) \<and> ?S tv = Some u \<and> f \<in> set (tv_watch u)) \<longleftrightarrow>
        (\<exists>tv u. tv \<in> set (map fst w) \<and> S tv = Some u \<and> f \<in> set (tv_watch u))" for f
    proof -
      have "?S tv = S tv" if "tv \<in> set (map fst w)" for tv using False that by (simp, metis)
      then show ?thesis by metis
    qed
    have "set (snd (stm_install tick (e # w) S wake)) =
        set (rev (case S t of None \<Rightarrow> [] | Some t \<Rightarrow> tv_watch t) @ wake) \<union>
        {f. \<exists>tv u. tv \<in> set (map fst w) \<and> ?S tv = Some u \<and> f \<in> set (tv_watch u)}"
      using False unfolding e stm_install.simps by (simp only: Cons if_False)
    also have "\<dots> = set wake \<union> {f. \<exists>tv u. tv \<in> set (map fst (e # w)) \<and> S tv = Some u \<and> f \<in> set (tv_watch u)}"
      unfolding w by (cases "S t") (auto simp: e)
    finally show ?thesis .
  qed
qed simp

section \<open>Versions identify values\<close>

text \<open>The changes of the shared store: a commit installs a write log over new and old TVars under a
  fresh version; parking and unparking touch watcher lists only.\<close>

inductive stm_step :: "tstore \<times> kword \<Rightarrow> tstore \<times> kword \<Rightarrow> bool" where
  step_commit: "tick \<noteq> -1 \<Longrightarrow> (\<And>tv. tv \<in> set (map fst nw) \<Longrightarrow> S tv = None) \<Longrightarrow>
    S' = fst (stm_install (tick + 1) w (with_new S nw) []) \<Longrightarrow> stm_step (S, tick) (S', tick + 1)"
| step_watch: "(\<And>tv. map_option (\<lambda>t. (tv_val t, tv_ver t)) (S' tv) = map_option (\<lambda>t. (tv_val t, tv_ver t)) (S tv)) \<Longrightarrow>
    stm_step (S, tick) (S', tick)"

definition versions_ok :: "tstore \<times> kword \<Rightarrow> bool" where
  "versions_ok St \<longleftrightarrow> (\<forall>tv t. fst St tv = Some t \<longrightarrow> tv_ver t \<le> snd St)"

text \<open>What a state may become: the same TVar with the same version has the same value, and a version
  that changed is above the old tick.\<close>

definition later :: "tstore \<times> kword \<Rightarrow> tstore \<times> kword \<Rightarrow> bool" where
  "later A B \<longleftrightarrow> snd A \<le> snd B \<and> (\<forall>tv t. fst A tv = Some t \<longrightarrow>
     (\<exists>t'. fst B tv = Some t' \<and> (tv_ver t' = tv_ver t \<and> tv_val t' = tv_val t \<or> snd A < tv_ver t')))"

lemma word_plus1: "x \<noteq> -1 \<Longrightarrow> x < x + 1" for x :: kword
proof -
  assume "x \<noteq> -1"
  then have "1 + x \<noteq> 0" by (metis add_eq_0_iff)
  then have "unat (1 + x) = Suc (unat x)" by (rule unatSuc)
  then show "x < x + 1" by (simp add: word_less_nat_alt add.commute)
qed

lemma with_new_old: "S tv = Some t \<Longrightarrow> (\<And>tv. tv \<in> set (map fst nw) \<Longrightarrow> S tv = None) \<Longrightarrow> with_new S nw tv = Some t"
proof -
  assume a: "S tv = Some t" "\<And>tv. tv \<in> set (map fst nw) \<Longrightarrow> S tv = None"
  have "tv \<notin> set (map fst nw)" using a(1) a(2)[of tv] by auto
  then have "map_of nw tv = None" by (simp add: map_of_eq_None_iff)
  with a(1) show ?thesis by (simp add: with_new_def)
qed

lemma step_later:
  assumes "stm_step A B" "versions_ok A"
  shows "versions_ok B \<and> later A B"
  using assms(1)
proof cases
  case (step_commit tick nw S S' w)
  have t: "tick < tick + 1" using step_commit(3) by (rule word_plus1)
  have ok: "tv_ver t' \<le> tick + 1" if "S' tv = Some t'" for tv t'
  proof (cases "j_newest w tv")
    case None
    then have "with_new S nw tv = Some t'" using that step_commit(5) by (simp add: install_store)
    then show ?thesis using assms(2) t step_commit(1)
      by (auto simp: with_new_def versions_ok_def split: option.splits intro: order_trans[OF _ less_imp_le])
  next
    case (Some v)
    then show ?thesis using that step_commit(5) by (auto simp: install_store)
  qed
  have "\<exists>t'. S' tv = Some t' \<and> (tv_ver t' = tv_ver u \<and> tv_val t' = tv_val u \<or> tick < tv_ver t')" if "S tv = Some u" for tv u
    using that step_commit(5) with_new_old[of S tv u nw] step_commit(4) t
    by (cases "j_newest w tv") (auto simp: install_store)
  then show ?thesis using step_commit(1,2) ok t by (auto simp: versions_ok_def later_def)
next
  case (step_watch S' S tick)
  have "S' tv = Some t' \<Longrightarrow> \<exists>t. S tv = Some t \<and> tv_val t = tv_val t' \<and> tv_ver t = tv_ver t'" for tv t'
    using step_watch(3)[of tv] by (cases "S tv") auto
  moreover have "S tv = Some t \<Longrightarrow> \<exists>t'. S' tv = Some t' \<and> tv_val t' = tv_val t \<and> tv_ver t' = tv_ver t" for tv t
    using step_watch(3)[of tv] by (cases "S' tv") auto
  ultimately show ?thesis using assms(2) step_watch(1,2) by (fastforce simp: versions_ok_def later_def)
qed

lemma later_trans: "later A B \<Longrightarrow> later B C \<Longrightarrow> versions_ok A \<Longrightarrow> later A C"
  unfolding later_def
proof (intro conjI allI impI, elim conjE)
  assume "snd A \<le> snd B" "snd B \<le> snd C" then show "snd A \<le> snd C" by simp
next
  fix tv t
  assume a: "snd A \<le> snd B \<and> (\<forall>tv t. fst A tv = Some t \<longrightarrow> (\<exists>t'. fst B tv = Some t' \<and>
        (tv_ver t' = tv_ver t \<and> tv_val t' = tv_val t \<or> snd A < tv_ver t')))"
    and b: "snd B \<le> snd C \<and> (\<forall>tv t. fst B tv = Some t \<longrightarrow> (\<exists>t'. fst C tv = Some t' \<and>
        (tv_ver t' = tv_ver t \<and> tv_val t' = tv_val t \<or> snd B < tv_ver t')))"
    and t: "fst A tv = Some t"
  from a t obtain u where u: "fst B tv = Some u" "tv_ver u = tv_ver t \<and> tv_val u = tv_val t \<or> snd A < tv_ver u" by blast
  from b u(1) obtain w where w: "fst C tv = Some w" "tv_ver w = tv_ver u \<and> tv_val w = tv_val u \<or> snd B < tv_ver w" by blast
  from a have "snd B < tv_ver w \<Longrightarrow> snd A < tv_ver w" by (meson order_le_less_trans)
  then have "tv_ver w = tv_ver t \<and> tv_val w = tv_val t \<or> snd A < tv_ver w" using w(2) u(2) by auto
  with w(1) show "\<exists>t'. fst C tv = Some t' \<and> (tv_ver t' = tv_ver t \<and> tv_val t' = tv_val t \<or> snd A < tv_ver t')"
    by blast
qed

lemma steps_later: "stm_step\<^sup>*\<^sup>* A B \<Longrightarrow> versions_ok A \<Longrightarrow> versions_ok B \<and> later A B"
proof (induction rule: rtranclp_induct)
  case base
  then show ?case by (auto simp: later_def)
next
  case (step B C)
  then show ?case using step_later[of B C] later_trans[of A B C] by blast
qed

lemma same_version_same_value:
  assumes "later A B" "versions_ok A" "fst A tv = Some t" "fst B tv = Some t'" "tv_ver t = tv_ver t'"
  shows "tv_val t = tv_val t'"
proof -
  have "tv_ver t \<le> snd A" using assms(2,3) by (auto simp: versions_ok_def)
  then show ?thesis using assms by (auto simp: later_def dest!: spec)
qed

section \<open>Serializability\<close>

text \<open>The reads of the journal agree with one store.\<close>

definition reads_agree :: "(nat \<Rightarrow> tstore) \<Rightarrow> tstore \<Rightarrow> journal \<Rightarrow> bool" where
  "reads_agree env S J \<longleftrightarrow> (\<forall>k tv ver t. k < length (jr J) \<longrightarrow> jr J ! k = (tv, ver) \<longrightarrow> env k tv = Some t \<longrightarrow> tv_ver t = ver \<longrightarrow>
     (\<exists>t'. S tv = Some t' \<and> tv_ver t' = ver \<and> tv_val t' = tv_val t))"

lemma reads_agree_ext: "reads_agree env S J' \<Longrightarrow> j_ext J J' \<Longrightarrow> reads_agree env S J"
  unfolding reads_agree_def j_ext_def
  by (metis (no_types, lifting) length_append nth_append prefixE trans_less_add1)

lemma j_read_serial:
  assumes "j_read env J tv = Inr (v, J')" "reads_agree env S J'"
  shows "j_read (\<lambda>_. S) J tv = Inr (v, J')"
proof (cases "j_newest (jw J) tv = None \<and> map_of (jnew J) tv = None")
  case False
  then show ?thesis using assms(1) by (auto simp: j_read_def tv_box_def split: option.splits)
next
  case True
  with assms(1) obtain t where t: "env (length (jr J)) tv = Some t" "v = tv_val t" "J' = j_read_record J tv (tv_ver t)"
    by (auto simp: j_read_def tv_box_def kundef_def split: option.splits)
  then have "length (jr J) < length (jr J')" "jr J' ! length (jr J) = (tv, tv_ver t)"
    by (simp_all add: j_read_record_def)
  with assms(2) t(1) obtain t' where "S tv = Some t'" "tv_ver t' = tv_ver t" "tv_val t' = tv_val t"
    unfolding reads_agree_def by blast
  then show ?thesis using True t by (simp add: j_read_def tv_box_def)
qed

lemma dispatch_serial:
  assumes "stm_dispatch env mal m J = Inr act" "\<And>v J'. act = SVal v J' \<Longrightarrow> reads_agree env S J'"
  shows "stm_dispatch (\<lambda>_. S) mal m J = Inr act"
proof (cases "kctor_tagid m = STM_READ")
  case False
  then have "stm_dispatch (\<lambda>_. S) mal m J = stm_dispatch env mal m J"
    unfolding stm_dispatch_def Let_def by (simp only: if_False)
  then show ?thesis using assms(1) by simp
next
  case True
  have e: "stm_dispatch env' mal m J = kbind (kctor_arg m 0) (\<lambda>a. kbind (kas_fgn_kind a KRT2_KIND_TVAR) (\<lambda>tv.
          kbind (j_read env' J tv) (\<lambda>(v, J'). Inr (SVal v J'))))" for env'
    using True by (simp add: stm_dispatch_def)
  from assms(1)[unfolded e] obtain a tv v J' where a: "kctor_arg m 0 = Inr a" "kas_fgn_kind a KRT2_KIND_TVAR = Inr tv"
    "j_read env J tv = Inr (v, J')" "act = SVal v J'" by (auto simp: kbind_eq_Inr)
  have "j_read (\<lambda>_. S) J tv = Inr (v, J')" by (rule j_read_serial[OF a(3) assms(2)[OF a(4)]])
  then show ?thesis unfolding e a(1) kbind_simps a(2) a(4) by simp
qed

lemma eval_serial:
  "stm_eval app env mal m J r J' \<Longrightarrow> reads_agree env S J' \<Longrightarrow> stm_eval app (\<lambda>_. S) mal m J r J'"
proof (induction rule: stm_eval.induct)
  case (ev_leaf m J v J')
  then show ?case by (intro stm_eval.ev_leaf dispatch_serial) auto
next
  case (ev_retry m J J')
  then show ?case by (intro stm_eval.ev_retry dispatch_serial[where env = env]) auto
next
  case (ev_bind m J c k v J1 n r J2)
  have "reads_agree env S J1" using reads_agree_ext ev_bind.prems eval_ext[OF ev_bind.hyps(4)] by blast
  then show ?case using ev_bind dispatch_serial[OF ev_bind.hyps(1)] by (auto intro: stm_eval.ev_bind)
next
  case (ev_bind_retry m J c k J1)
  then show ?case using dispatch_serial[OF ev_bind_retry.hyps(1)] by (auto intro: stm_eval.ev_bind_retry)
next
  case (ev_left m J c d n v J1)
  then show ?case using dispatch_serial[OF ev_left.hyps(1)] by (auto intro: stm_eval.ev_left)
next
  case (ev_right m J c d n J1 r J2)
  have "j_ext (J1\<lparr>jw := jw J\<rparr>) J2" by (rule eval_ext[OF ev_right.hyps(3)])
  then have "reads_agree env S (J1\<lparr>jw := jw J\<rparr>)" using reads_agree_ext ev_right.prems by blast
  then have "reads_agree env S J1" by (simp add: reads_agree_def)
  then show ?case using ev_right dispatch_serial[OF ev_right.hyps(1)] by (auto intro: stm_eval.ev_right)
qed

text \<open>New TVars come from the allocator.\<close>

lemma dispatch_new: "stm_dispatch env mal m J = Inr (SVal v J') \<Longrightarrow> list_all (\<lambda>p. fst p \<in> range mal) (jnew J) \<Longrightarrow> list_all (\<lambda>p. fst p \<in> range mal) (jnew J')"
  by (auto simp: stm_dispatch_def Let_def kbind_eq_Inr j_write_def j_read_def j_read_record_def kundef_def
      split: if_splits option.splits)

lemma eval_new: "stm_eval app env mal m J r J' \<Longrightarrow> list_all (\<lambda>p. fst p \<in> range mal) (jnew J) \<Longrightarrow> list_all (\<lambda>p. fst p \<in> range mal) (jnew J')"
  by (induction rule: stm_eval.induct) (auto dest: dispatch_new dispatch_retry)

lemma stm_valid_nth: "stm_valid S rs \<Longrightarrow> k < length rs \<Longrightarrow> rs ! k = (tv, ver) \<Longrightarrow> \<exists>t. S tv = Some t \<and> tv_ver t = ver"
  by (induction S rs arbitrary: k rule: stm_valid.induct) (auto simp: nth_Cons split: option.splits nat.splits)

lemma valid_reads_agree:
  assumes h: "\<And>k. stm_step\<^sup>*\<^sup>* (env k, tk k) (S, tick)" "\<And>k. versions_ok (env k, tk k)"
    and f: "\<And>k n. env k (mal n) = None" and nw: "list_all (\<lambda>p. fst p \<in> range mal) (jnew J)"
    and v: "stm_valid (with_new S (jnew J)) (jr J)"
  shows "reads_agree env S J"
  unfolding reads_agree_def
proof (intro allI impI)
  fix k tv ver t
  assume a: "k < length (jr J)" "jr J ! k = (tv, ver)" "env k tv = Some t" "tv_ver t = ver"
  have "tv \<notin> set (map fst (jnew J))" using nw f[of k] a(3) by (auto simp: list_all_iff)
  then have "map_of (jnew J) tv = None" by (simp add: map_of_eq_None_iff)
  with stm_valid_nth[OF v a(1,2)] obtain t' where t': "S tv = Some t'" "tv_ver t' = ver" by (auto simp: with_new_def)
  have "later (env k, tk k) (S, tick)" using steps_later[OF h] by blast
  from same_version_same_value[OF this h(2), of tv t t'] a t' show "\<exists>t'. S tv = Some t' \<and> tv_ver t' = ver \<and> tv_val t' = tv_val t"
    by auto
qed

text \<open>C3: Transactions are serializable. The body may read each TVar at a different moment of a history
  of commits and parks; if validation lets it commit, then the whole pass is the one of a transaction
  that ran at the moment of its commit, alone: same value, same store, same wake-ups. Every TVar of the
  write log holds its last written value under the new version and every other TVar is unchanged.\<close>
theorem stm_serializable:
  assumes "\<And>k. stm_step\<^sup>*\<^sup>* (env k, tk k) (S, tick)" "\<And>k. versions_ok (env k, tk k)"
    "\<And>k n. env k (mal n) = None"
    "krt2i_op_atomically app env mal S S2 tick dp f stm = Some (PassCommit v S' tick' wake)"
  shows "krt2i_op_atomically app (\<lambda>_. S) mal S S2 tick dp f stm = Some (PassCommit v S' tick' wake) \<and>
    (\<exists>J. stm_eval app (\<lambda>_. S) mal stm j_empty (RVal v) J \<and>
      (\<forall>tv. S' tv = (case j_newest (jw J) tv of None \<Rightarrow> with_new S (jnew J) tv
         | Some u \<Rightarrow> Some \<lparr>tv_val = u, tv_ver = tick', tv_watch = []\<rparr>)))"
proof -
  from assms(4) obtain J where J: "stm_run app env mal stm [] j_empty = Some (Inr (StmDone v J))"
    "stm_valid (with_new S (jnew J)) (jr J)" "stm_install (tick + 1) (jw J) (with_new S (jnew J)) [] = (S', wake)" "tick' = tick + 1"
    by (auto simp: krt2i_op_atomically_def Let_def split: option.splits sum.splits stm_out.splits if_splits prod.splits)
  have e: "stm_eval app env mal stm j_empty (RVal v) J"
    using J(1) stm_run_refines[of app env mal stm j_empty "RVal v" J] by simp
  have "list_all (\<lambda>p. fst p \<in> range mal) (jnew J)" using eval_new[OF e] by (simp add: j_empty_def)
  from valid_reads_agree[OF assms(1,2,3) this J(2)] have s: "stm_eval app (\<lambda>_. S) mal stm j_empty (RVal v) J"
    by (rule eval_serial[OF e])
  then have "stm_run app (\<lambda>_. S) mal stm [] j_empty = Some (Inr (StmDone v J))"
    using stm_run_refines[of app "\<lambda>_. S" mal stm j_empty "RVal v" J] by simp
  then have "krt2i_op_atomically app (\<lambda>_. S) mal S S2 tick dp f stm = Some (PassCommit v S' tick' wake)"
    using J(2,3,4) by (simp add: krt2i_op_atomically_def)
  moreover have "S' tv = (case j_newest (jw J) tv of None \<Rightarrow> with_new S (jnew J) tv
         | Some u \<Rightarrow> Some \<lparr>tv_val = u, tv_ver = tick', tv_watch = []\<rparr>)" for tv
    using install_store[of "tick + 1" "jw J" "with_new S (jnew J)" "[]" tv] J(3) unfolding J(4) by simp
  ultimately show ?thesis using s by blast
qed

text \<open>The nodes the constructors build.\<close>

lemma dispatch_builders:
  "stm_dispatch env mal (krt2_stm_pure v) J = Inr (SVal v J)"
  "stm_dispatch env mal (krt2_write_tvar (KFgn p KRT2_KIND_TVAR) v) J = Inr (SVal kunit (j_write J p v))"
  "stm_dispatch env mal (krt2_read_tvar (KFgn p KRT2_KIND_TVAR)) J = kbind (j_read env J p) (\<lambda>(v, J'). Inr (SVal v J'))"
  "stm_dispatch env mal (krt2_new_tvar v) J =
     (let tv = mal (length (jnew J)) in Inr (SVal (KFgn tv KRT2_KIND_TVAR) (J\<lparr>jnew := (tv, v) # jnew J\<rparr>)))"
  "stm_dispatch env mal (krt2_stm_bind m k) J = Inr (SPush m (FK_BIND k))"
  "stm_dispatch env mal (krt2_or_else l r) J = Inr (SPush l (FK_ORELSE r (length (jw J))))"
  "stm_dispatch env mal krt2_retry J = Inr (SRetry J)"
  by (simp_all add: stm_dispatch_def krt2_stm_pure_def krt2_write_tvar_def krt2_read_tvar_def krt2_new_tvar_def
      krt2_stm_bind_def krt2_or_else_def krt2_retry_def)

lemma stm_serializable_witness:
  "let S = [5 \<mapsto> \<lparr>tv_val = KCtor 4 ''a'' [], tv_ver = 2, tv_watch = [9]\<rparr>]; mal = (\<lambda>n. 100 + n);
       v = KCtor 4 ''b'' []; stm = krt2_write_tvar (KFgn 5 KRT2_KIND_TVAR) v;
       S' = fst (stm_install 3 [(5, v)] S [])
   in krt2i_op_atomically (\<lambda>_ _. kundef) (\<lambda>_. S) mal S S 2 0 7 stm = Some (PassCommit kunit S' 3 [9])"
proof -
  let ?S = "[5 \<mapsto> \<lparr>tv_val = KCtor 4 ''a'' [], tv_ver = 2, tv_watch = [9]\<rparr>] :: tstore"
  let ?m = "\<lambda>n :: nat. 100 + n" and ?v = "KCtor 4 ''b'' []"
  let ?w = "krt2_write_tvar (KFgn 5 KRT2_KIND_TVAR) ?v"
  have r: "krt2i_op_atomically (\<lambda>_ _. kundef) (\<lambda>_. ?S) ?m ?S ?S 2 0 7 ?w
      = Some (PassCommit kunit (fst (stm_install 3 [(5, ?v)] ?S [])) 3 [9])"
    by (subst krt2i_op_atomically_def, subst stm_run.simps)
      (simp add: dispatch_builders j_empty_def j_write_def)
  show ?thesis
    using stm_serializable[where env = "\<lambda>_. ?S" and tk = "\<lambda>_. 2", OF _ _ _ r] r
    by (simp add: versions_ok_def)
qed

section \<open>Parked transactions\<close>

text \<open>What the other fibers may do while \<open>f\<close> is parked, with the set of fibers woken so far.\<close>

inductive stm_hist :: "nat \<Rightarrow> tstore \<times> kword \<Rightarrow> tstore \<times> kword \<Rightarrow> nat set \<Rightarrow> bool" for f A where
  h_refl: "stm_hist f A A {}"
| h_commit: "stm_hist f A (S, tick) W \<Longrightarrow> (\<And>tv. tv \<in> set (map fst nw) \<Longrightarrow> S tv = None) \<Longrightarrow>
    stm_install (tick + 1) w (with_new S nw) [] = (S', wake) \<Longrightarrow> stm_hist f A (S', tick + 1) (W \<union> set wake)"
| h_park: "stm_hist f A (S, tick) W \<Longrightarrow> (\<And>tv. tv \<in> set (map fst nw) \<Longrightarrow> S tv = None) \<Longrightarrow>
    stm_hist f A (stm_watch g rs (with_new S nw), tick) W"
| h_unpark: "stm_hist f A (S, tick) W \<Longrightarrow> g \<noteq> f \<Longrightarrow> stm_hist f A (krt2i_stm_unpark g rds S, tick) W"

definition watched :: "nat \<Rightarrow> tstore \<Rightarrow> nat \<Rightarrow> (kval \<times> kword) \<Rightarrow> bool" where
  "watched f S tv b \<longleftrightarrow> (\<exists>t. S tv = Some t \<and> (tv_val t, tv_ver t) = b \<and> f \<in> set (tv_watch t))"

lemma watched_push: "watched f S tv b \<Longrightarrow> S x = Some u \<Longrightarrow> watched f (S(x \<mapsto> u\<lparr>tv_watch := g # tv_watch u\<rparr>)) tv b"
  by (auto simp: watched_def)

lemma watched_drop:
  "watched f S tv b \<Longrightarrow> g \<noteq> f \<Longrightarrow> S x = Some u \<Longrightarrow>
   watched f (S(x \<mapsto> u\<lparr>tv_watch := filter (\<lambda>h. h \<noteq> g) (tv_watch u)\<rparr>)) tv b"
  by (auto simp: watched_def)

lemma watched_watch: "watched f S tv b \<Longrightarrow> watched f (stm_watch g rs S) tv b"
  by (induction g rs S rule: stm_watch.induct) (simp_all add: watched_push split: option.splits)

lemma watch_adds: "tv \<in> set (map fst rs) \<Longrightarrow> S tv = Some t \<Longrightarrow> watched f (stm_watch f rs S) tv (tv_val t, tv_ver t)"
proof (induction f rs S arbitrary: t rule: stm_watch.induct)
  case (2 f tv' ver rs S)
  show ?case
  proof (cases "tv = tv'")
    case True
    have "watched f (S(tv \<mapsto> t\<lparr>tv_watch := f # tv_watch t\<rparr>)) tv (tv_val t, tv_ver t)" by (simp add: watched_def)
    then show ?thesis using 2(3) True by (simp add: watched_watch)
  next
    case False
    then show ?thesis using 2 by (auto split: option.splits)
  qed
qed simp

lemma watched_new: "watched f S tv b \<Longrightarrow> (\<And>tv. tv \<in> set (map fst nw) \<Longrightarrow> S tv = None) \<Longrightarrow> watched f (with_new S nw) tv b"
  unfolding watched_def using with_new_old by blast

lemma watched_unpark: "watched f S tv b \<Longrightarrow> g \<noteq> f \<Longrightarrow> watched f (krt2i_stm_unpark g rds S) tv b"
proof -
  have "watched f (foldl (\<lambda>S tv. case S tv of None \<Rightarrow> S
      | Some t \<Rightarrow> S(tv \<mapsto> t\<lparr>tv_watch := filter (\<lambda>h. h \<noteq> g) (tv_watch t)\<rparr>)) S rds) tv b" if "watched f S tv b" "g \<noteq> f"
    using that by (induction rds arbitrary: S) (simp_all add: watched_drop split: option.splits)
  then show "watched f S tv b \<Longrightarrow> g \<noteq> f \<Longrightarrow> ?thesis" by (simp add: krt2i_stm_unpark_def)
qed

lemma watched_install:
  assumes "stm_install tick w S [] = (S', wake)" "watched f S tv b" "f \<notin> set wake"
  shows "watched f S' tv b"
proof -
  have n: "tv \<notin> set (map fst w)" using assms install_wake[of tick w S "[]"] by (auto simp: watched_def)
  have "S' tv = S tv" using install_store[of tick w S "[]" tv] assms(1) n newest_none[of w tv] by simp
  then show ?thesis using assms(2) by (simp add: watched_def)
qed

lemma hist_watched:
  "stm_hist f A B W \<Longrightarrow> watched f (fst A) tv b \<Longrightarrow> f \<notin> W \<Longrightarrow> watched f (fst B) tv b"
proof (induction rule: stm_hist.induct)
  case (h_commit S tick W nw w S' wake)
  then show ?case using watched_install[OF h_commit(3) watched_new] by auto
next
  case (h_park S tick W nw g rs)
  then show ?case using watched_watch[OF watched_new[of f S tv b nw]] by simp
qed (auto intro: watched_unpark)

text \<open>C16: No wake-up is lost. When \<open>atomically\<close> parks its fiber after a retry, the fiber watches every
  TVar the transaction read, at the version it read; and whatever the other fibers commit, park or unpark
  afterwards, either a commit has put the fiber on its wake list, or every TVar of the read set still has
  the value and the version of the retry and is still watched.\<close>
theorem stm_no_lost_wakeup:
  assumes "krt2i_op_atomically app env mal S S2 tick dp f stm = Some (PassPark S' rds)"
    "stm_hist f (S', tick') (T, tick'') W"
  shows "f \<in> W \<or> (\<exists>J. stm_eval app env mal stm j_empty RRetry J \<and> rds = map fst (jr J) \<and>
    (\<forall>(tv, ver)\<in>set (jr J). \<exists>t t'. S' tv = Some t \<and> tv_ver t = ver \<and> T tv = Some t' \<and>
       tv_ver t' = ver \<and> tv_val t' = tv_val t \<and> f \<in> set (tv_watch t')))"
proof (cases "f \<in> W")
  case False
  from assms(1) obtain J where J: "stm_run app env mal stm [] j_empty = Some (Inr (StmRetry J))"
    "stm_valid (with_new S2 (jnew J)) (jr J)" "S' = stm_watch f (jr J) (with_new S2 (jnew J))" "rds = map fst (jr J)"
    by (auto simp: krt2i_op_atomically_def Let_def split: option.splits sum.splits stm_out.splits if_splits prod.splits)
  have e: "stm_eval app env mal stm j_empty RRetry J"
    using J(1) stm_run_refines[of app env mal stm j_empty RRetry J] by simp
  have "\<exists>t t'. S' tv = Some t \<and> tv_ver t = ver \<and> T tv = Some t' \<and>
       tv_ver t' = ver \<and> tv_val t' = tv_val t \<and> f \<in> set (tv_watch t')" if "(tv, ver) \<in> set (jr J)" for tv ver
  proof -
    from that obtain k where "k < length (jr J)" "jr J ! k = (tv, ver)" by (auto simp: in_set_conv_nth)
    with stm_valid_nth[OF J(2)] obtain t where t: "with_new S2 (jnew J) tv = Some t" "tv_ver t = ver" by blast
    have "tv \<in> set (map fst (jr J))" using that by force
    then have w: "watched f S' tv (tv_val t, ver)"
      using watch_adds[of tv "jr J" "with_new S2 (jnew J)" t f] t J(3) by simp
    then have "watched f T tv (tv_val t, ver)" using hist_watched[OF assms(2)] False by simp
    with w show ?thesis by (auto simp: watched_def)
  qed
  then show ?thesis using e J(4) by blast
qed simp

lemma stm_no_lost_wakeup_witness:
  "let S = [5 \<mapsto> \<lparr>tv_val = KCtor 4 ''a'' [], tv_ver = 2, tv_watch = []\<rparr>];
       stm = krt2_stm_bind (krt2_read_tvar (KFgn 5 KRT2_KIND_TVAR)) kunit;
       S' = stm_watch 7 [(5, 2)] (with_new S []);
       T = S'(5 \<mapsto> \<lparr>tv_val = kunit, tv_ver = 3, tv_watch = []\<rparr>)
   in krt2i_op_atomically (\<lambda>_ _. Inr krt2_retry) (\<lambda>_. S) (\<lambda>n. 100 + n) S S 2 0 7 stm = Some (PassPark S' [5])
      \<and> stm_hist 7 (S', 2) (T, 3) {7} \<and> stm_hist 7 (S', 2) (S', 2) {} \<and>
      (\<exists>J. map fst (jr J) = [5] \<and> stm_eval (\<lambda>_ _. Inr krt2_retry) (\<lambda>_. S) (\<lambda>n. 100 + n) stm j_empty RRetry J)"
proof -
  let ?S = "[5 \<mapsto> \<lparr>tv_val = KCtor 4 ''a'' [], tv_ver = 2, tv_watch = []\<rparr>] :: tstore"
  let ?s = "krt2_stm_bind (krt2_read_tvar (KFgn 5 KRT2_KIND_TVAR)) kunit"
  let ?S' = "stm_watch 7 [(5, 2)] (with_new ?S [])"
  let ?T = "?S'(5 \<mapsto> \<lparr>tv_val = kunit, tv_ver = 3, tv_watch = []\<rparr>)"
  let ?op = "krt2i_op_atomically (\<lambda>_ _. Inr krt2_retry) (\<lambda>_. ?S) (\<lambda>n. 100 + n) ?S ?S 2 0 7 ?s"
  have r: "?op = Some (PassPark ?S' [5])"
    by (subst krt2i_op_atomically_def, subst stm_run.simps, simp add: dispatch_builders, subst stm_run.simps,
        simp add: dispatch_builders j_read_def j_read_record_def j_empty_def j_newest_def tv_box_def, subst stm_run.simps)
      (simp add: dispatch_builders)
  have h: "stm_hist 7 (?S', 2) (?S', 2) {}" by (rule h_refl)
  have "stm_install (2 + 1) [(5, kunit)] (with_new ?S' []) [] = (?T, [7])" by simp
  from h_commit[OF h _ this] have "stm_hist 7 (?S', 2) (?T, 3) {7}" by simp
  moreover have "\<exists>J. map fst (jr J) = [5] \<and> stm_eval (\<lambda>_ _. Inr krt2_retry) (\<lambda>_. ?S) (\<lambda>n. 100 + n) ?s j_empty RRetry J"
    by (rule disjE[OF stm_no_lost_wakeup[OF r h]], erule emptyE, elim exE conjE, rule exI, rule conjI, erule sym)
  ultimately show ?thesis using r h unfolding Let_def by (intro conjI)
qed

end
