(* ===== verification/Kappa_Mask.thy ===== *)
theory Kappa_Mask
  imports Kappa_Prelude
begin

text \<open>
  Interruption masks of a fiber (\<open>runtime/rt.c\<close>, \<open>krt2i_mask_...\<close>). A mask frame is an object whose
  identity matters: a restore closure keeps its address and may suspend it only while it is the
  topmost active frame of its own fiber. The frames live in a store by address; \<open>brk\<close> is the next
  free address, so a frame's \<open>prev\<close> is below the frame, which is what makes the walks over the chain
  end. \<open>mask_eff\<close> is the cached effective state.
\<close>

datatype kmask = KMASK_INTERRUPTIBLE | KMASK_MASKED | KMASK_UNINTERRUPTIBLE

instantiation kmask :: linorder
begin

primrec kmask_num :: "kmask \<Rightarrow> nat" where
  "kmask_num KMASK_INTERRUPTIBLE = 0"
| "kmask_num KMASK_MASKED = 1"
| "kmask_num KMASK_UNINTERRUPTIBLE = 2"

definition less_eq_kmask :: "kmask \<Rightarrow> kmask \<Rightarrow> bool" where
  "less_eq_kmask a b \<longleftrightarrow> kmask_num a \<le> kmask_num b"

definition less_kmask :: "kmask \<Rightarrow> kmask \<Rightarrow> bool" where
  "less_kmask a b \<longleftrightarrow> kmask_num a < kmask_num b"

instance
proof
  fix a b :: kmask
  assume "a \<le> b" "b \<le> a"
  then show "a = b" by (cases a; cases b) (simp_all add: less_eq_kmask_def)
qed (auto simp: less_eq_kmask_def less_kmask_def)

end

record mask_frame =
  mf_owner :: "nat option"
  mf_state :: kmask
  mf_active :: bool
  mf_susp :: bool
  mf_prev :: "nat option"

record mask_st =
  fid :: nat
  brk :: nat
  frames :: "nat \<rightharpoonup> mask_frame"
  mask_base :: kmask
  mask_eff :: kmask
  mask_top :: "nat option"

section \<open>Walking the frames\<close>

function mask_chain :: "(nat \<rightharpoonup> mask_frame) \<Rightarrow> nat option \<Rightarrow> (nat \<times> mask_frame) list" where
  "mask_chain h None = []"
| "mask_chain h (Some a) =
     (case h a of
        None \<Rightarrow> []
      | Some fr \<Rightarrow> (a, fr) # (case mf_prev fr of None \<Rightarrow> [] | Some p \<Rightarrow> if p < a then mask_chain h (Some p) else []))"
  by pat_completeness auto
termination by (relation "measure (\<lambda>(h, t). case t of None \<Rightarrow> 0 | Some a \<Rightarrow> Suc a)") auto

declare mask_chain.simps(2) [simp del]

definition mf_counts :: "mask_frame \<Rightarrow> bool" where
  "mf_counts fr \<longleftrightarrow> mf_active fr \<and> \<not> mf_susp fr"

definition recompute_mask_state :: "'a mask_st_scheme \<Rightarrow> 'a mask_st_scheme" where
  "recompute_mask_state f =
     f\<lparr>mask_eff := foldl (\<lambda>effective p. if mf_counts (snd p) \<and> mf_state (snd p) > effective
                                     then mf_state (snd p) else effective)
                      (mask_base f) (mask_chain (frames f) (mask_top f))\<rparr>"

definition krt2i_mask_state :: "'a mask_st_scheme \<Rightarrow> kmask" where
  "krt2i_mask_state f = mask_eff f"

definition krt2i_mask_interruptible :: "'a mask_st_scheme \<Rightarrow> bool" where
  "krt2i_mask_interruptible f \<longleftrightarrow> krt2i_mask_state f = KMASK_INTERRUPTIBLE"

definition krt2i_mask_uninterruptible :: "'a mask_st_scheme \<Rightarrow> bool" where
  "krt2i_mask_uninterruptible f \<longleftrightarrow> krt2i_mask_state f = KMASK_UNINTERRUPTIBLE"

section \<open>Operations\<close>

definition krt2i_mask_push :: "'a mask_st_scheme \<Rightarrow> kmask \<Rightarrow> 'a mask_st_scheme \<times> nat" where
  "krt2i_mask_push f state =
     (let a = brk f;
          fr = \<lparr>mf_owner = Some (fid f), mf_state = state, mf_active = True, mf_susp = False, mf_prev = mask_top f\<rparr>
      in (recompute_mask_state (f\<lparr>brk := Suc a, frames := (frames f)(a \<mapsto> fr), mask_top := Some a\<rparr>), a))"

definition retire_mask_frame :: "mask_frame \<Rightarrow> mask_frame" where
  "retire_mask_frame fr = fr\<lparr>mf_active := False, mf_susp := False, mf_owner := None, mf_prev := None\<rparr>"

definition krt2i_mask_pop :: "'a mask_st_scheme \<Rightarrow> nat \<Rightarrow> 'a mask_st_scheme kres" where
  "krt2i_mask_pop f a =
     (case frames f a of
        None \<Rightarrow> Inl ''internal: interruption mask-frame stack mismatch''
      | Some fr \<Rightarrow>
          if mf_owner fr \<noteq> Some (fid f) \<or> \<not> mf_active fr \<or> mask_top f \<noteq> Some a
          then Inl ''internal: interruption mask-frame stack mismatch''
          else Inr (recompute_mask_state
                 (f\<lparr>frames := (frames f)(a \<mapsto> retire_mask_frame fr), mask_top := mf_prev fr\<rparr>)))"

text \<open>The topmost frame that is active and not suspended.\<close>

definition mask_topmost :: "'a mask_st_scheme \<Rightarrow> nat option" where
  "mask_topmost f = map_option fst (find (\<lambda>p. mf_counts (snd p)) (mask_chain (frames f) (mask_top f)))"

definition krt2i_mask_suspend :: "'a mask_st_scheme \<Rightarrow> nat \<Rightarrow> 'a mask_st_scheme \<times> bool" where
  "krt2i_mask_suspend f a =
     (case frames f a of
        None \<Rightarrow> (f, False)
      | Some fr \<Rightarrow>
          if mf_owner fr \<noteq> Some (fid f) \<or> \<not> mf_active fr \<or> mf_susp fr then (f, False)
          else if mask_topmost f \<noteq> Some a then (f, False)
          else (recompute_mask_state (f\<lparr>frames := (frames f)(a \<mapsto> fr\<lparr>mf_susp := True\<rparr>)\<rparr>), True))"

definition krt2i_mask_reinstate :: "'a mask_st_scheme \<Rightarrow> nat \<Rightarrow> 'a mask_st_scheme kres" where
  "krt2i_mask_reinstate f a =
     (case frames f a of
        None \<Rightarrow> Inl ''internal: interruption mask-frame restore mismatch''
      | Some fr \<Rightarrow>
          if mf_owner fr \<noteq> Some (fid f) \<or> \<not> mf_active fr \<or> \<not> mf_susp fr
          then Inl ''internal: interruption mask-frame restore mismatch''
          else Inr (recompute_mask_state (f\<lparr>frames := (frames f)(a \<mapsto> fr\<lparr>mf_susp := False\<rparr>)\<rparr>)))"

text \<open>The loop of \<open>discard_masks_to\<close>, before its final recomputation.\<close>

function discard_loop :: "(nat \<rightharpoonup> mask_frame) \<Rightarrow> nat \<Rightarrow> nat option \<Rightarrow> nat option \<Rightarrow> (nat \<rightharpoonup> mask_frame) kres" where
  "discard_loop h me boundary tp =
     (if tp = boundary then Inr h
      else case tp of
        None \<Rightarrow> Inl ''internal: tail resumption crossed an invalid mask boundary''
      | Some a \<Rightarrow>
          (case h a of
             None \<Rightarrow> kundef
           | Some fr \<Rightarrow>
               if mf_owner fr \<noteq> Some me \<or> \<not> mf_active fr
               then Inl ''internal: tail resumption crossed an invalid mask boundary''
               else (case mf_prev fr of
                       None \<Rightarrow> discard_loop (h(a \<mapsto> retire_mask_frame fr)) me boundary None
                     | Some p \<Rightarrow> if p < a then discard_loop (h(a \<mapsto> retire_mask_frame fr)) me boundary (Some p)
                                else kundef)))"
  by pat_completeness auto
termination
  by (relation "measure (\<lambda>(h, me, b, t). case t of None \<Rightarrow> 0 | Some a \<Rightarrow> Suc a)") auto

declare discard_loop.simps [simp del]

definition discard_masks_to :: "'a mask_st_scheme \<Rightarrow> nat option \<Rightarrow> 'a mask_st_scheme kres" where
  "discard_masks_to f boundary =
     kbind (discard_loop (frames f) (fid f) boundary (mask_top f)) (\<lambda>h.
       Inr (recompute_mask_state (f\<lparr>frames := h, mask_top := boundary\<rparr>)))"

section \<open>The cached state is the maximum\<close>

definition mask_max :: "'a mask_st_scheme \<Rightarrow> kmask" where
  "mask_max f = Max (insert (mask_base f)
     (mf_state ` snd ` {p \<in> set (mask_chain (frames f) (mask_top f)). mf_counts (snd p)}))"

lemma foldl_max:
  "foldl (\<lambda>e p. if mf_counts (snd p) \<and> mf_state (snd p) > e then mf_state (snd p) else e) b ps =
   Max (insert b (mf_state ` snd ` {p \<in> set ps. mf_counts (snd p)}))"
proof (induction ps arbitrary: b)
  case (Cons p ps)
  let ?M = "mf_state ` snd ` {p \<in> set ps. mf_counts (snd p)}"
  have f: "finite ?M" by simp
  show ?case
  proof (cases "mf_counts (snd p)")
    case True
    have e: "mf_state ` snd ` {q \<in> set (p # ps). mf_counts (snd q)} = insert (mf_state (snd p)) ?M"
      using True by auto
    have m: "Max (insert (max b x) M) = Max (insert b (insert x M))" if "finite M" for x :: kmask and M
      using that by (cases "M = {}") (simp_all add: max.assoc)
    have "(if mf_counts (snd p) \<and> mf_state (snd p) > b then mf_state (snd p) else b) = max b (mf_state (snd p))"
      using True by (auto simp: max_def)
    then have "foldl (\<lambda>e p. if mf_counts (snd p) \<and> mf_state (snd p) > e then mf_state (snd p) else e) b (p # ps)
      = Max (insert (max b (mf_state (snd p))) ?M)" by (simp only: foldl_Cons Cons)
    also have "\<dots> = Max (insert b (insert (mf_state (snd p)) ?M))"
      using f by (rule m)
    finally show ?thesis unfolding e .
  next
    case False
    then have "{q \<in> set (p # ps). mf_counts (snd q)} = {q \<in> set ps. mf_counts (snd q)}" by auto
    then show ?thesis using False Cons[of b] by simp
  qed
qed simp

lemma recompute_max: "mask_eff (recompute_mask_state f) = mask_max (recompute_mask_state f)"
  by (simp add: recompute_mask_state_def mask_max_def foldl_max)

text \<open>The invariant of the mask state.\<close>

definition mask_inv :: "'a mask_st_scheme \<Rightarrow> bool" where
  "mask_inv f \<longleftrightarrow> mask_eff f = mask_max f \<and>
     (\<forall>a fr. frames f a = Some fr \<longrightarrow> a < brk f \<and> (\<forall>p. mf_prev fr = Some p \<longrightarrow> p < a)) \<and>
     (\<forall>a. mask_top f = Some a \<longrightarrow> a < brk f)"

lemma recompute_fields [simp]:
  "fid (recompute_mask_state f) = fid f" "brk (recompute_mask_state f) = brk f"
  "frames (recompute_mask_state f) = frames f" "mask_base (recompute_mask_state f) = mask_base f"
  "mask_top (recompute_mask_state f) = mask_top f"
  by (simp_all add: recompute_mask_state_def)

section \<open>Every operation keeps the invariant\<close>

definition frames_ok :: "(nat \<rightharpoonup> mask_frame) \<Rightarrow> nat \<Rightarrow> bool" where
  "frames_ok h n \<longleftrightarrow> (\<forall>a fr. h a = Some fr \<longrightarrow> a < n \<and> (\<forall>p. mf_prev fr = Some p \<longrightarrow> p < a))"

lemma mask_invI: "frames_ok (frames f) (brk f) \<Longrightarrow> (\<forall>a. mask_top f = Some a \<longrightarrow> a < brk f) \<Longrightarrow>
    mask_inv (recompute_mask_state f)"
  using recompute_max[of f] by (simp add: mask_inv_def frames_ok_def)

lemma mask_invD: "mask_inv f \<Longrightarrow> frames_ok (frames f) (brk f)" "mask_inv f \<Longrightarrow> mask_top f = Some a \<Longrightarrow> a < brk f"
  by (simp_all add: mask_inv_def frames_ok_def)

lemma frames_ok_upd: "frames_ok h n \<Longrightarrow> a < n \<Longrightarrow> (\<And>p. mf_prev fr = Some p \<Longrightarrow> p < a) \<Longrightarrow> frames_ok (h(a \<mapsto> fr)) n"
  by (auto simp: frames_ok_def)

lemma frames_ok_mono: "frames_ok h n \<Longrightarrow> n \<le> m \<Longrightarrow> frames_ok h m"
  by (fastforce simp: frames_ok_def)

lemma frames_okD: "frames_ok h n \<Longrightarrow> h a = Some fr \<Longrightarrow> a < n" "frames_ok h n \<Longrightarrow> h a = Some fr \<Longrightarrow> mf_prev fr = Some p \<Longrightarrow> p < a"
  by (auto simp: frames_ok_def)

lemma frames_ok_set: "frames_ok h n \<Longrightarrow> h a = Some fr \<Longrightarrow> mf_prev fr' = mf_prev fr \<Longrightarrow> frames_ok (h(a \<mapsto> fr')) n"
  by (auto simp: frames_ok_def)

lemma push_inv: "mask_inv f \<Longrightarrow> mask_inv (fst (krt2i_mask_push f s))"
  unfolding krt2i_mask_push_def Let_def fst_conv
  by (intro mask_invI) (auto intro!: frames_ok_upd intro: frames_ok_mono dest: mask_invD)

lemma pop_inv: "mask_inv f \<Longrightarrow> krt2i_mask_pop f a = Inr f' \<Longrightarrow> mask_inv f'"
proof -
  assume i: "mask_inv f" and "krt2i_mask_pop f a = Inr f'"
  then obtain fr where fr: "frames f a = Some fr" and
    f': "f' = recompute_mask_state (f\<lparr>frames := (frames f)(a \<mapsto> retire_mask_frame fr), mask_top := mf_prev fr\<rparr>)"
    by (auto simp: krt2i_mask_pop_def split: option.splits if_splits)
  note d = frames_okD[OF mask_invD(1)[OF i] fr]
  show ?thesis unfolding f'
    using mask_invD(1)[OF i] d by (intro mask_invI) (auto intro!: frames_ok_upd simp: retire_mask_frame_def dest: less_trans)
qed

lemma suspend_inv: "mask_inv f \<Longrightarrow> mask_inv (fst (krt2i_mask_suspend f a))"
  unfolding krt2i_mask_suspend_def
  by (auto split: option.splits intro!: mask_invI elim!: frames_ok_set[rotated] dest: mask_invD)

lemma reinstate_inv: "mask_inv f \<Longrightarrow> krt2i_mask_reinstate f a = Inr f' \<Longrightarrow> mask_inv f'"
  unfolding krt2i_mask_reinstate_def
  by (auto split: option.splits if_splits intro!: mask_invI elim!: frames_ok_set[rotated] dest: mask_invD)

lemma discard_loop_ok:
  "discard_loop h me b t = Inr h' \<Longrightarrow> frames_ok h n \<Longrightarrow> frames_ok h' n"
proof (induction h me b t rule: discard_loop.induct)
  case (1 h me b t)
  show ?case
  proof (cases t)
    case None
    then show ?thesis using "1.prems" by (auto simp: discard_loop.simps[of h me b None] split: if_splits)
  next
    case (Some a)
    show ?thesis
    proof (cases "t = b \<or> h a = None")
      case True
      then show ?thesis using "1.prems" Some
        by (auto simp: discard_loop.simps[of h me b "Some a"] discard_loop.simps[of h me "Some a" "Some a"]
            kundef_def split: if_splits)
    next
      case False
      then obtain fr where fr: "h a = Some fr" by auto
      let ?h = "h(a \<mapsto> retire_mask_frame fr)"
      have ok: "frames_ok ?h n" using "1.prems"(2) frames_okD(1)[OF "1.prems"(2) fr]
        by (intro frames_ok_upd) (simp_all add: retire_mask_frame_def)
      have c: "\<not> (mf_owner fr \<noteq> Some me \<or> \<not> mf_active fr)"
        using "1.prems"(1) False Some fr by (auto simp: discard_loop.simps[of h me b "Some a"] split: if_splits)
      show ?thesis
      proof (cases "mf_prev fr")
        case None
        then have "discard_loop ?h me b None = Inr h'"
          using "1.prems"(1) False \<open>t = Some a\<close> fr c None by (simp add: discard_loop.simps[of h me b "Some a"])
        from "1.IH"(1)[OF _ Some fr c None this ok] False show ?thesis by simp
      next
        case (Some p)
        then have p: "p < a" "discard_loop ?h me b (Some p) = Inr h'"
          using "1.prems"(1) False \<open>t = Some a\<close> fr c
          by (auto simp: discard_loop.simps[of h me b "Some a"] kundef_def split: if_splits)
        from "1.IH"(2)[OF _ \<open>t = Some a\<close> fr c Some p(1) p(2) ok] False show ?thesis by simp
      qed
    qed
  qed
qed

lemma discard_inv:
  assumes "mask_inv f" "discard_masks_to f b = Inr f'" "\<And>a. b = Some a \<Longrightarrow> a < brk f"
  shows "mask_inv f'"
proof -
  from assms(2) obtain h where h: "discard_loop (frames f) (fid f) b (mask_top f) = Inr h"
    "f' = recompute_mask_state (f\<lparr>frames := h, mask_top := b\<rparr>)" by (auto simp: discard_masks_to_def kbind_eq_Inr)
  have "frames_ok h (brk f)" by (rule discard_loop_ok[OF h(1) mask_invD(1)[OF assms(1)]])
  then show ?thesis unfolding h(2) using assms(3) by (intro mask_invI) simp_all
qed

section \<open>Round trips\<close>

lemma chain_above: "frames_ok h n \<Longrightarrow> n \<le> a \<Longrightarrow> (\<And>b. t = Some b \<Longrightarrow> b < n) \<Longrightarrow> mask_chain (h(a := x)) t = mask_chain h t"
proof (induction h t rule: mask_chain.induct)
  case (2 h b)
  then have ab: "b \<noteq> a" by auto
  show ?case
  proof (cases "h b")
    case None
    then show ?thesis using ab by (simp add: mask_chain.simps(2))
  next
    case (Some fr)
    show ?thesis
    proof (cases "mf_prev fr")
      case None
      then show ?thesis using ab Some by (simp add: mask_chain.simps(2))
    next
      case (Some p)
      then have "p < b" "p < n" using frames_okD[OF 2(2) \<open>h b = Some fr\<close>] by auto
      then have c: "mask_chain (h(a := x)) (Some p) = mask_chain h (Some p)"
        using 2(1)[OF \<open>h b = Some fr\<close> Some \<open>p < b\<close> 2(2,3)] \<open>p < n\<close>
        by (simp add: fun_upd_def)
      have "(h(a := x)) b = Some fr" using ab \<open>h b = Some fr\<close> by simp
      then show ?thesis using Some \<open>h b = Some fr\<close> \<open>p < b\<close> c
        by (simp add: mask_chain.simps(2)[of h b] mask_chain.simps(2)[of "h(a := x)" b] del: fun_upd_apply)
    qed
  qed
qed simp

text \<open>Leaving a region restores the state before it, whatever the frame's state was.\<close>

lemma pop_push:
  assumes "mask_inv f" "krt2i_mask_push f s = (f1, a)"
  obtains f2 where "krt2i_mask_pop f1 a = Inr f2" "mask_eff f2 = mask_eff f" "mask_top f2 = mask_top f"
proof -
  let ?fr = "\<lparr>mf_owner = Some (fid f), mf_state = s, mf_active = True, mf_susp = False, mf_prev = mask_top f\<rparr>"
  let ?f = "f\<lparr>brk := Suc (brk f), frames := (frames f)(brk f \<mapsto> ?fr), mask_top := Some (brk f)\<rparr>"
  have e: "f1 = recompute_mask_state ?f" "a = brk f" using assms(2) by (auto simp: krt2i_mask_push_def Let_def)
  let ?f2 = "recompute_mask_state (f1\<lparr>frames := (frames f1)(a \<mapsto> retire_mask_frame ?fr), mask_top := mask_top f\<rparr>)"
  have "mask_chain (frames ?f2) (mask_top f) = mask_chain (frames f) (mask_top f)"
    using chain_above[OF mask_invD(1)[OF assms(1)], of "brk f" "mask_top f"] mask_invD(2)[OF assms(1)] e by simp
  then have "mask_max ?f2 = mask_max f" using e by (simp add: mask_max_def)
  then have "mask_eff ?f2 = mask_eff f" using assms(1) by (simp add: recompute_max mask_inv_def)
  moreover have "krt2i_mask_pop f1 a = Inr ?f2" by (simp add: krt2i_mask_pop_def e)
  ultimately show ?thesis using that by simp
qed

end
