(* ===== verification/Kappa_Race.thy ===== *)
theory Kappa_Race
  imports Kappa_Action Kappa_Show
begin

text \<open>
  \<open>race\<close> and \<open>timeout\<close> (\<open>runtime/race.c\<close>): action trees over fork, await, interrupt and promises whose
  continuations are the runtime's own closures. Each \<open>race_...\<close> and \<open>timeout_...\<close> function is the body
  of the \<open>cfn\<close> of the same name; \<open>env\<close> is its captured environment.
\<close>

definition won :: "int \<Rightarrow> string \<Rightarrow> kval \<Rightarrow> kval" where
  "won i side ex = kctor i side [ex]"

definition krt2i_some :: "kval \<Rightarrow> kval" where
  "krt2i_some v = idc1 KCT_SOME ''Some'' v"

definition krt2i_none :: kval where
  "krt2i_none = kctor0 KCT_NONE ''None''"

definition signal_on :: "kval \<Rightarrow> kval \<Rightarrow> kval" where
  "signal_on child_action_done signal =
     krt2_then child_action_done
       (krt2_then (krt2_complete_promise signal (krt2_success kunit)) (krt2_pure kunit))"

definition race_decide_r :: "kval list \<Rightarrow> kval \<Rightarrow> kval kres" where
  "race_decide_r env mre =
     kbind (kvar env 0) (\<lambda>lf.
       if kctor_is mre ''Some''
       then kbind (kctor_arg mre 0) (\<lambda>ex. Inr (krt2_then (krt2_interrupt lf) (krt2_pure (won KCT_RO_RIGHT ''RaceWonRight'' ex))))
       else Inr (krt2_pure (won KCT_RO_LEFT ''RaceWonLeft'' (krt2_failure (krt2_cause_defect (kstr0 ''race: no winner''))))))"

definition race_decide_l :: "kval list \<Rightarrow> kval \<Rightarrow> kval kres" where
  "race_decide_l env mle =
     kbind (kvar env 0) (\<lambda>lf. kbind (kvar env 1) (\<lambda>rf.
       if kctor_is mle ''Some''
       then kbind (kctor_arg mle 0) (\<lambda>ex. Inr (krt2_then (krt2_interrupt rf) (krt2_pure (won KCT_RO_LEFT ''RaceWonLeft'' ex))))
       else Inr (krt2_bind (krt2i_try_exit rf) (KClo CRaceDecideR (kpush lf [])))))"

definition race_k_rf :: "kval list \<Rightarrow> kval \<Rightarrow> kval kres" where
  "race_k_rf env rf =
     kbind (kvar env 0) (\<lambda>signal. kbind (kvar env 1) (\<lambda>lf.
       let decide = krt2_bind (krt2i_try_exit lf) (KClo CRaceDecideL (kpush lf (kpush rf []))) in
       Inr (krt2_then (krt2_fork_daemon (signal_on (krt2_await lf) signal))
             (krt2_then (krt2_fork_daemon (signal_on (krt2_await rf) signal))
               (krt2_then (krt2_await_promise_exit signal) decide)))))"

definition race_k_lf :: "kval list \<Rightarrow> kval \<Rightarrow> kval kres" where
  "race_k_lf env lf =
     kbind (kvar env 0) (\<lambda>right. kbind (kvar env 1) (\<lambda>signal.
       Inr (krt2_bind (krt2_fork right) (KClo CRaceKRf (kpush signal (kpush lf []))))))"

definition race_k_signal :: "kval list \<Rightarrow> kval \<Rightarrow> kval kres" where
  "race_k_signal env signal =
     kbind (kvar env 0) (\<lambda>left. kbind (kvar env 1) (\<lambda>right.
       Inr (krt2_bind (krt2_fork left) (KClo CRaceKLf (kpush right (kpush signal []))))))"

definition race_left_pure_k :: "kval list \<Rightarrow> kval \<Rightarrow> kval kres" where
  "race_left_pure_k env rf =
     kbind (kvar env 0) (\<lambda>left_value.
       let left_exit = krt2_success left_value in
       Inr (krt2_then (krt2_interrupt rf) (krt2_pure (won KCT_RO_LEFT ''RaceWonLeft'' left_exit))))"

definition krt2_race :: "kval \<Rightarrow> kval \<Rightarrow> kval kres" where
  "krt2_race left right =
     (if kctor_tagid left = OP_PURE
      then kbind (kctor_arg left 0) (\<lambda>left_value.
             Inr (krt2_bind (krt2_fork right) (KClo CRaceLeftPure (kpush left_value []))))
      else Inr (krt2_bind krt2_new_promise (KClo CRaceKSignal (kpush left (kpush right [])))))"

definition timeout_decide :: "kval list \<Rightarrow> kval \<Rightarrow> kval kres" where
  "timeout_decide env mae =
     kbind (kvar env 0) (\<lambda>af. kbind (kvar env 1) (\<lambda>tf.
       if kctor_is mae ''Some''
       then kbind (kctor_arg mae 0) (\<lambda>ex. Inr (krt2_then (krt2_interrupt tf) (krt2_pure (won KCT_TO_EXIT ''TimeoutDone'' ex))))
       else let cause = krt2i_interrupt_cause ''TimedOut'' krt2i_none in
         Inr (krt2_then (krt2_interrupt_as cause af) (krt2_pure (kctor0 KCT_TO_TIMED_OUT ''TimeoutFired'')))))"

definition timeout_k_tf :: "kval list \<Rightarrow> kval \<Rightarrow> kval kres" where
  "timeout_k_tf env tf =
     kbind (kvar env 0) (\<lambda>af. kbind (kvar env 1) (\<lambda>signal.
       let decide = krt2_bind (krt2i_try_exit af) (KClo CTimeoutDecide (kpush af (kpush tf []))) in
       Inr (krt2_then (krt2_fork_daemon (signal_on (krt2_await af) signal))
             (krt2_then (krt2_await_promise_exit signal) decide))))"

definition timeout_k_af :: "kval list \<Rightarrow> kval \<Rightarrow> kval kres" where
  "timeout_k_af env af =
     kbind (kvar env 0) (\<lambda>dur. kbind (kvar env 1) (\<lambda>signal.
       let timer = signal_on (krt2_sleep_for dur) signal in
       Inr (krt2_bind (krt2_fork_daemon timer) (KClo CTimeoutKTf (kpush af (kpush signal []))))))"

definition timeout_k_signal :: "kval list \<Rightarrow> kval \<Rightarrow> kval kres" where
  "timeout_k_signal env signal =
     kbind (kvar env 0) (\<lambda>dur. kbind (kvar env 1) (\<lambda>action.
       Inr (krt2_bind (krt2_fork action) (KClo CTimeoutKAf (kpush dur (kpush signal []))))))"

definition krt2_timeout :: "kval \<Rightarrow> kval \<Rightarrow> kval" where
  "krt2_timeout dur action = krt2_bind krt2_new_promise (KClo CTimeoutKSignal (kpush dur (kpush action [])))"

lemmas race_bodies =
  race_decide_r_def race_decide_l_def race_k_rf_def race_k_lf_def race_k_signal_def race_left_pure_k_def
  timeout_decide_def timeout_k_tf_def timeout_k_af_def timeout_k_signal_def

end
