(* ===== verification/Kappa_Machine.thy ===== *)
theory Kappa_Machine
  imports Kappa_Mask Kappa_Race
begin

text \<open>
  The CK-machine of one fiber (\<open>runtime/rt.c\<close>: continuation frames, do-scopes and their exit
  actions, finalizer sequences, effect handlers with one-shot resumptions, abandonment). Every object
  the C code links by pointer and mutates in place (continuation nodes, exit stacks, finalizer
  sequences, resumptions, abandonment terminals, abort exits, mask frames) is a cell of a store by
  address, with \<open>brk\<close> as the next free address; node 0 is \<open>g_done\<close>. Immutable records
  (\<open>Handler\<close>, \<open>DynamicState\<close>) are values.

  The C functions \<open>deliver\<close>, \<open>unwind\<close> and \<open>apply_reason\<close> call each other in tail position and loop; here
  the pending call is a control word \<open>ctl\<close>, and \<open>mstep\<close> runs one turn of it: one turn of the stepping
  loop (\<open>C_STEP\<close>), one delivery, one iteration of the unwinding loop, one iteration of the handler
  search. \<open>C_STOP\<close> is a return from \<open>fiber_step_run\<close>: the fiber finished, yielded, or reached an
  operation of the scheduler or of the legacy bridge. Generated code behind \<open>kapp\<close> is the parameter
  \<open>app\<close>; a bare GMP predicate of \<open>kas_int\<close> is the parameter \<open>G\<close>.
\<close>

section \<open>State\<close>

record dynst =
  d_exits :: "nat option"
  d_mask :: "nat option"

record handler =
  h_ret :: kval
  h_ops :: kval
  h_deep :: bool

datatype kkind =
  KK_DONE
| KK_BIND kval
| KK_THEN kval
| KK_CATCH kval
| KK_POPMASK nat
| KK_SETMASK nat
| KK_RESTORESTATE dynst
| KK_DOSCOPE nat "nat option"
| KK_FINSEQ nat
| KK_LOOP kval
| KK_RETSCOPE
| KK_HANDLER kval handler dynst
| KK_BLOCKING
| KK_ABANDON nat
| KK_ABANDEND nat

record finseq =
  fs_xs :: nat
  fs_i :: int
  fs_r :: reason
  fs_origin :: reason
  fs_drain :: "nat option"

record aend =
  ae_kont :: nat
  ae_dyn :: dynst
  ae_r :: reason
  ae_prev :: "nat option"

record resum =
  r_head :: "nat option"
  r_tail :: "nat option"
  r_captured :: dynst
  r_prompt :: dynst
  r_handler :: "(kval \<times> handler) option"
  r_used :: bool
  r_tail_res :: bool

record mach = mask_st +
  cur :: kval
  kont :: nat
  conts :: "nat \<rightharpoonup> kkind \<times> nat"
  cur_exits :: "nat option"
  xss :: "nat \<rightharpoonup> kval list"
  finseqs :: "nat \<rightharpoonup> finseq"
  aends :: "nat \<rightharpoonup> aend"
  resums :: "nat \<rightharpoonup> resum"
  aborts :: "nat \<rightharpoonup> kval \<times> bool"
  abort_exits :: "nat list"
  drain_ae :: "nat option"
  pending :: bool
  icause :: "kval option"
  resumed :: bool
  safepoint_hit :: bool
  budget :: nat
  blocking_depth :: int
  refs :: "nat \<rightharpoonup> kval"
  frefs :: "kval list"
  locals :: "nat \<rightharpoonup> kval"
  out :: "byte list"

datatype mstop = M_FINISHED kval | M_YIELD | M_DRAINED | M_SCHED | M_BRIDGE

datatype ctl =
  C_STEP
| C_DELIVER kval
| C_UNWIND rkind "kval option"
| C_SEARCH kval kval kval "nat option" nat
| C_STOP mstop

type_synonym mres = "(mach \<times> ctl) kres"

definition KRT2_BACKEDGE_QUANTUM :: nat where
  "KRT2_BACKEDGE_QUANTUM = 4096"

text \<open>A C string: the bytes before the first NUL.\<close>

definition cstr :: "byte list \<Rightarrow> string" where
  "cstr bs = map (\<lambda>b. char_of (unat b)) (takeWhile (\<lambda>b. b \<noteq> 0) bs)"

section \<open>Continuation nodes and dynamic state\<close>

definition cont_new :: "mach \<Rightarrow> kkind \<Rightarrow> nat \<Rightarrow> mach \<times> nat" where
  "cont_new m kk nx = (m\<lparr>conts := (conts m)(brk m \<mapsto> (kk, nx)), brk := Suc (brk m)\<rparr>, brk m)"

text \<open>\<open>f->k = cont_new(kk, ..., f->k)\<close>.\<close>

definition push_k :: "mach \<Rightarrow> kkind \<Rightarrow> mach" where
  "push_k m kk = (let (m', a) = cont_new m kk (kont m) in m'\<lparr>kont := a\<rparr>)"

text \<open>\<open>c->next = n\<close>.\<close>

definition set_next :: "(nat \<rightharpoonup> kkind \<times> nat) \<Rightarrow> nat \<Rightarrow> nat \<Rightarrow> (nat \<rightharpoonup> kkind \<times> nat)" where
  "set_next h c n = (case h c of None \<Rightarrow> h | Some (kk, _) \<Rightarrow> h(c \<mapsto> (kk, n)))"

definition exitstack_new :: "mach \<Rightarrow> mach \<times> nat" where
  "exitstack_new m = (m\<lparr>xss := (xss m)(brk m \<mapsto> []), brk := Suc (brk m)\<rparr>, brk m)"

definition exitstack_push :: "mach \<Rightarrow> nat \<Rightarrow> kval \<Rightarrow> mach kres" where
  "exitstack_push m s action =
     (case xss m s of None \<Rightarrow> kundef | Some items \<Rightarrow> Inr (m\<lparr>xss := (xss m)(s \<mapsto> items @ [action])\<rparr>))"

definition capture_dynamic_state :: "mach \<Rightarrow> dynst" where
  "capture_dynamic_state m = \<lparr>d_exits = cur_exits m, d_mask = mask_top m\<rparr>"

definition install_dynamic_state :: "mach \<Rightarrow> dynst \<Rightarrow> mach" where
  "install_dynamic_state m d = recompute_mask_state (m\<lparr>cur_exits := d_exits d, mask_top := d_mask d\<rparr>)"

section \<open>Abort exits\<close>

definition krt2_abort_exit_push :: "mach \<Rightarrow> kval \<Rightarrow> mach \<times> kval" where
  "krt2_abort_exit_push m exit_action =
     (m\<lparr>aborts := (aborts m)(brk m \<mapsto> (exit_action, True)), abort_exits := brk m # abort_exits m, brk := Suc (brk m)\<rparr>,
      KFgn (brk m) KRT2_KIND_ABORT_EXIT)"

fun abort_exit_from_token :: "kval \<Rightarrow> nat kres" where
  "abort_exit_from_token (KFgn p kind) =
     (if kind \<noteq> KRT2_KIND_ABORT_EXIT then Inl ''internal: wrong foreign token kind for abort-exit finalizer'' else Inr p)"
| "abort_exit_from_token _ = Inl ''internal: invalid abort-exit token''"

definition abort_exit_take :: "mach \<Rightarrow> kval \<Rightarrow> (mach \<times> kval option) kres" where
  "abort_exit_take m token =
     kbind (abort_exit_from_token token) (\<lambda>p.
       case aborts m p of
         None \<Rightarrow> kundef
       | Some (action, active) \<Rightarrow>
           if \<not> active then Inr (m, None)
           else Inr (m\<lparr>aborts := (aborts m)(p \<mapsto> (action, False)), abort_exits := remove1 p (abort_exits m)\<rparr>, Some action))"

definition abort_exit_scope_finalizer :: "mach \<Rightarrow> kval \<Rightarrow> mach \<times> kval" where
  "abort_exit_scope_finalizer m exit_action =
     (if kctor_tagid exit_action = OP_ABORT_EXIT_FIN then (m, exit_action)
      else let (m', token) = krt2_abort_exit_push m exit_action in (m', krt2_abort_exit_finalizer token))"

text \<open>The active actions, oldest first; every abort exit is left inactive and unlinked.\<close>

definition abort_exit_drain_stack :: "mach \<Rightarrow> (mach \<times> nat option) kres" where
  "abort_exit_drain_stack m =
     (if abort_exits m = [] then Inr (m, None)
      else if \<exists>p\<in>set (abort_exits m). aborts m p = None then kundef
      else let act = filter (\<lambda>p. snd (the (aborts m p))) (abort_exits m);
               (m1, s) = exitstack_new m in
           Inr (m1\<lparr>xss := (xss m1)(s \<mapsto> rev (map (\<lambda>p. fst (the (aborts m p))) act)),
                   aborts := (\<lambda>p. if p \<in> set (abort_exits m) then map_option (\<lambda>x. (fst x, False)) (aborts m p) else aborts m p),
                   abort_exits := []\<rparr>, Some s))"

section \<open>Application\<close>

text \<open>\<open>kapp\<close> on the runtime's own closures; any other function value is generated code.\<close>

lemma kvar_size: "kvar env i = Inr v \<Longrightarrow> size v < Suc (size_list size env)"
proof -
  have "kvar_at env n = Inr v \<Longrightarrow> v \<in> set env" for n by (induction env n rule: kvar_at.induct) auto
  then show "kvar env i = Inr v \<Longrightarrow> ?thesis"
    by (auto simp: kvar_def less_Suc_eq_le intro: size_list_estimation')
qed

function (sequential) kapp_rt :: "kapp_fn \<Rightarrow> mach \<Rightarrow> kval \<Rightarrow> kval \<Rightarrow> (mach \<times> kval) kres" where
  "kapp_rt app m (KClo CWithScope env) sc =
     (case kvar env 0 of Inl e \<Rightarrow> Inl e | Inr use \<Rightarrow>
        kbind (kapp_rt app m use sc) (\<lambda>(m1, a). Inr (m1, krt2_ensuring a (krt2_shutdown_scope sc))))"
| "kapp_rt app m (KClo CArWithR env) r =
     (case kvar env 0 of Inl e \<Rightarrow> Inl e | Inr release \<Rightarrow>
      (case kvar env 1 of Inl e \<Rightarrow> Inl e | Inr use \<Rightarrow>
       (case kvar env 2 of Inl e \<Rightarrow> Inl e | Inr restore \<Rightarrow>
          kbind (kapp_rt app m release r) (\<lambda>(m1, release_action).
            let (m2, release_token) = krt2_abort_exit_push m1 release_action;
                use_action = krt2_bind (krt2_pure r) use in
            kbind (kapp_rt app m2 restore use_action) (\<lambda>(m3, body).
              Inr (m3, krt2_finally body (krt2_abort_exit_finalizer release_token)))))))"
| "kapp_rt app m (KClo code env) x =
     kbind (case code of
        CLocallyWithOld \<Rightarrow> locally_with_old env x
      | CLoopBranch \<Rightarrow> loop_branch env x
      | CRestore \<Rightarrow> restore_fn env x
      | CArMasked \<Rightarrow> ar_masked env x
      | CResumeThunk \<Rightarrow> resume_thunk env x
      | CRaceDecideR \<Rightarrow> race_decide_r env x
      | CRaceDecideL \<Rightarrow> race_decide_l env x
      | CRaceKRf \<Rightarrow> race_k_rf env x
      | CRaceKLf \<Rightarrow> race_k_lf env x
      | CRaceKSignal \<Rightarrow> race_k_signal env x
      | CRaceLeftPure \<Rightarrow> race_left_pure_k env x
      | CTimeoutDecide \<Rightarrow> timeout_decide env x
      | CTimeoutKTf \<Rightarrow> timeout_k_tf env x
      | CTimeoutKAf \<Rightarrow> timeout_k_af env x
      | CTimeoutKSignal \<Rightarrow> timeout_k_signal env x
      | _ \<Rightarrow> app (KClo code env) x) (\<lambda>v. Inr (m, v))"
| "kapp_rt app m f x = kbind (app f x) (\<lambda>v. Inr (m, v))"
  by pat_completeness auto
termination by (relation "measure (\<lambda>(app, m, f, x). size f)") (auto dest: kvar_size)

declare kapp_rt.simps [simp del]

text \<open>\<open>f->cur = kapp(g, x)\<close> and back to the stepping loop.\<close>

definition step_app :: "kapp_fn \<Rightarrow> mach \<Rightarrow> kval \<Rightarrow> kval \<Rightarrow> mres" where
  "step_app app m g x = kbind (kapp_rt app m g x) (\<lambda>(m', a). Inr (m'\<lparr>cur := a\<rparr>, C_STEP))"

definition step_cur :: "mach \<Rightarrow> kval \<Rightarrow> mres" where
  "step_cur m a = Inr (m\<lparr>cur := a\<rparr>, C_STEP)"

section \<open>Applying a reason, exit actions and finalizers\<close>

definition apply_reason :: "mach \<Rightarrow> reason \<Rightarrow> mres" where
  "apply_reason m r =
     (if fst r = RK_NORMAL then kbind (rval (snd r)) (\<lambda>v. Inr (m, C_DELIVER v))
      else Inr (m, C_UNWIND (fst r) (snd r)))"

definition begin_finseq :: "mach \<Rightarrow> nat option \<Rightarrow> nat option \<Rightarrow> reason \<Rightarrow> nat option \<Rightarrow> mres" where
  "begin_finseq m xs restore r drain =
     (let m0 = m\<lparr>cur_exits := restore\<rparr> in
      case (case xs of None \<Rightarrow> Inr [] | Some s \<Rightarrow> (case xss m s of None \<Rightarrow> kundef | Some items \<Rightarrow> Inr items)) of
        Inl e \<Rightarrow> Inl e
      | Inr items \<Rightarrow>
          if items = [] then
            (if drain \<noteq> None then Inr (m0, C_UNWIND RK_DRAIN None) else apply_reason m0 r)
          else
            let (m1, finalizer_mask) = krt2i_mask_push m0 KMASK_MASKED;
                m2 = push_k m1 (KK_POPMASK finalizer_mask) in
            (case (case drain of None \<Rightarrow> Inr r
                   | Some d \<Rightarrow> (case aends m2 d of None \<Rightarrow> kundef | Some ae \<Rightarrow> Inr (ae_r ae))) of
               Inl e \<Rightarrow> Inl e
             | Inr primary \<Rightarrow>
                 let fs = \<lparr>fs_xs = the xs, fs_i = int (length items) - 1, fs_r = primary,
                           fs_origin = (if drain \<noteq> None then (RK_DRAIN, None) else r), fs_drain = drain\<rparr>;
                     m3 = push_k (m2\<lparr>finseqs := (finseqs m2)(brk m2 \<mapsto> fs), brk := Suc (brk m2)\<rparr>) (KK_FINSEQ (brk m2)) in
                 step_cur m3 (krt2_pure kunit)))"

definition finalizer_action_for_reason :: "kapp_fn \<Rightarrow> mach \<Rightarrow> kval \<Rightarrow> reason \<Rightarrow> (mach \<times> kval) kres" where
  "finalizer_action_for_reason app m fin er =
     kbind (if kctor_tagid fin = OP_ABORT_EXIT_FIN
            then kbind (kctor_arg fin 0) (\<lambda>token. abort_exit_take m token)
            else Inr (m, Some fin)) (\<lambda>(m1, fo).
       case fo of
         None \<Rightarrow> Inr (m1, krt2_pure kunit)
       | Some f \<Rightarrow>
           if kctor_tagid f = OP_ONEXIT_FIN then
             kbind (kctor_arg f 0) (\<lambda>h. kbind (exit_of_reason (fst er) (snd er)) (\<lambda>ex. kapp_rt app m1 h ex))
           else if kctor_tagid f = OP_ONINT_FIN then
             (case interrupt_cause_of_reason (fst er) (snd er) of
                Some cause \<Rightarrow> kbind (kctor_arg f 0) (\<lambda>h. kapp_rt app m1 h cause)
              | None \<Rightarrow> Inr (m1, krt2_pure kunit))
           else Inr (m1, f))"

section \<open>Abandonment\<close>

definition begin_abandon_drain :: "mach \<Rightarrow> nat \<Rightarrow> reason \<Rightarrow> mres" where
  "begin_abandon_drain m r post =
     (case resums m r of
        None \<Rightarrow> kundef
      | Some rs \<Rightarrow>
          (case (r_head rs, r_tail rs) of
             (Some h0, Some t0) \<Rightarrow>
               let a = brk m;
                   ae = \<lparr>ae_kont = kont m, ae_dyn = capture_dynamic_state m, ae_r = post, ae_prev = drain_ae m\<rparr>;
                   (m1, c) = cont_new (m\<lparr>aends := (aends m)(a \<mapsto> ae), brk := Suc a\<rparr>) (KK_ABANDEND a) (kont m);
                   m2 = m1\<lparr>conts := set_next (conts m1) t0 c, drain_ae := Some a, kont := h0\<rparr> in
               Inr (install_dynamic_state m2 (r_captured rs), C_UNWIND RK_DRAIN None)
           | _ \<Rightarrow> kundef))"

text \<open>The terminal of abandonment \<open>a\<close> reached with the live reason; \<open>nx\<close> is the terminal's live successor.\<close>

definition finish_abandon_drain :: "mach \<Rightarrow> nat \<Rightarrow> nat \<Rightarrow> reason \<Rightarrow> mres" where
  "finish_abandon_drain m a nx live =
     (case aends m a of
        None \<Rightarrow> kundef
      | Some ae \<Rightarrow>
          let r = compose_reason_into (ae_r ae) live;
              m1 = install_dynamic_state m (ae_dyn ae) in
          if drain_ae m \<noteq> Some a then apply_reason (m1\<lparr>kont := ae_kont ae, drain_ae := ae_prev ae\<rparr>) r
          else let m2 = m1\<lparr>kont := nx, drain_ae := ae_prev ae\<rparr> in
            (case ae_prev ae of
               None \<Rightarrow> apply_reason m2 r
             | Some p \<Rightarrow>
                 (case aends m2 p of
                    None \<Rightarrow> kundef
                  | Some pe \<Rightarrow> Inr (m2\<lparr>aends := (aends m2)(p \<mapsto> pe\<lparr>ae_r := compose_reason_into (ae_r pe) r\<rparr>)\<rparr>,
                                   C_UNWIND RK_DRAIN None))))"

section \<open>Effect handlers\<close>

definition kproj_opt :: "kval \<Rightarrow> string \<Rightarrow> kval option" where
  "kproj_opt r name = (case r of KRec fs \<Rightarrow> map_of fs name | _ \<Rightarrow> None)"

definition op_is_tail_resumptive :: "handler \<Rightarrow> string \<Rightarrow> bool" where
  "op_is_tail_resumptive h opn =
     (case kproj_opt (h_ops h) ''__tailResumptive'' of None \<Rightarrow> False | Some t \<Rightarrow> kproj_opt t opn \<noteq> None)"

text \<open>Reading the tag of an immediate is undefined.\<close>

definition eff_label_same :: "kval \<Rightarrow> kval \<Rightarrow> bool kres" where
  "eff_label_same a b =
     (case a of
        KImm _ \<Rightarrow> kundef
      | KStr x \<Rightarrow> (case b of KImm _ \<Rightarrow> kundef | KStr y \<Rightarrow> Inr (x = y) | _ \<Rightarrow> Inr False)
      | _ \<Rightarrow> Inr False)"

definition run_op_clause :: "kapp_fn \<Rightarrow> mach \<Rightarrow> kval \<Rightarrow> kval \<Rightarrow> kval \<Rightarrow> mres" where
  "run_op_clause app m clause payload kbox =
     (let kfn = KClo CResumeThunk (kpush kbox []) in
      kbind (kapp_rt app m clause payload) (\<lambda>(m1, g). step_app app m1 g kfn))"

text \<open>The resumption of an operation whose clause resumes in tail position: nothing is severed.\<close>

definition perform_tail :: "kapp_fn \<Rightarrow> mach \<Rightarrow> nat \<Rightarrow> dynst \<Rightarrow> kval \<Rightarrow> kval \<Rightarrow> mres" where
  "perform_tail app m nx prompt clause payload =
     (let rs = \<lparr>r_head = Some (kont m), r_tail = None, r_captured = capture_dynamic_state m, r_prompt = prompt,
                r_handler = None, r_used = False, r_tail_res = True\<rparr>;
          r = brk m;
          m1 = m\<lparr>resums := (resums m)(r \<mapsto> rs), brk := Suc r, kont := nx\<rparr> in
      run_op_clause app (install_dynamic_state m1 prompt) clause payload (KFgn r KRT2_KIND_RESUMPTION))"

text \<open>The general case: the frames up to \<open>prev\<close> are severed and an abandonment guard is put under the clause.\<close>

definition sever_slice :: "mach \<Rightarrow> nat option \<Rightarrow> nat \<Rightarrow> kval \<Rightarrow> handler \<Rightarrow> dynst \<Rightarrow> mach \<times> nat" where
  "sever_slice m prev nx lab h prompt =
     (let rs = \<lparr>r_head = (case prev of None \<Rightarrow> None | Some _ \<Rightarrow> Some (kont m)), r_tail = prev,
                r_captured = capture_dynamic_state m, r_prompt = prompt,
                r_handler = (if h_deep h then Some (lab, h) else None), r_used = False, r_tail_res = False\<rparr>;
          r = brk m;
          m1 = m\<lparr>resums := (resums m)(r \<mapsto> rs), brk := Suc r,
                 conts := (case prev of None \<Rightarrow> conts m | Some p \<Rightarrow> set_next (conts m) p 0), kont := nx\<rparr>;
          m2 = (case prev of None \<Rightarrow> m1 | Some _ \<Rightarrow> push_k m1 (KK_ABANDON r)) in
      (install_dynamic_state m2 prompt, r))"

definition perform_sever :: "kapp_fn \<Rightarrow> mach \<Rightarrow> nat option \<Rightarrow> nat \<Rightarrow> kval \<Rightarrow> handler \<Rightarrow> dynst \<Rightarrow> kval \<Rightarrow> kval \<Rightarrow> mres" where
  "perform_sever app m prev nx lab h prompt clause payload =
     (let (m2, r) = sever_slice m prev nx lab h prompt in
      run_op_clause app m2 clause payload (KFgn r KRT2_KIND_RESUMPTION))"

definition perform_at :: "kapp_fn \<Rightarrow> mach \<Rightarrow> nat option \<Rightarrow> nat \<Rightarrow> kval \<Rightarrow> handler \<Rightarrow> dynst \<Rightarrow> kval \<Rightarrow> kval \<Rightarrow> mres" where
  "perform_at app m prev nx lab h prompt opv payload =
     (case opv of
        KImm _ \<Rightarrow> kundef
      | KStr bs \<Rightarrow>
          kbind (kproj (h_ops h) (cstr bs)) (\<lambda>clause.
            if h_deep h \<and> op_is_tail_resumptive h (cstr bs)
            then perform_tail app m nx prompt clause payload
            else perform_sever app m prev nx lab h prompt clause payload)
      | _ \<Rightarrow> Inr (m, C_UNWIND RK_FAIL (Some (kstr0 ''internal: effect operation name is not a string''))))"

text \<open>One iteration of the search of \<open>do_perform\<close>, at node \<open>c\<close> with \<open>prev\<close> trailing.\<close>

definition do_perform :: "kapp_fn \<Rightarrow> mach \<Rightarrow> kval \<Rightarrow> kval \<Rightarrow> kval \<Rightarrow> nat option \<Rightarrow> nat \<Rightarrow> mres" where
  "do_perform app m lab opv payload prev c =
     (case conts m c of
        None \<Rightarrow> kundef
      | Some (kk, nx) \<Rightarrow>
          (case kk of
             KK_DONE \<Rightarrow>
               (case opv of
                  KImm _ \<Rightarrow> kundef
                | _ \<Rightarrow> let nm = (case opv of KStr bs \<Rightarrow> cstr bs | _ \<Rightarrow> ''?'') in
                    Inr (m, C_UNWIND RK_FAIL (Some (kstr0 (snprintf 160 (''internal: perform '' @ [CHR 0x27] @ nm @
                      [CHR 0x27] @ '' escaped all handlers (unhandled effect op)''))))))
           | KK_HANDLER l h prompt \<Rightarrow>
               kbind (eff_label_same l lab) (\<lambda>same.
                 if same then perform_at app m prev nx l h prompt opv payload
                 else Inr (m, C_SEARCH lab opv payload (Some c) nx))
           | _ \<Rightarrow> Inr (m, C_SEARCH lab opv payload (Some c) nx)))"

definition resume_spliced :: "mach \<Rightarrow> nat \<Rightarrow> resum \<Rightarrow> mach" where
  "resume_spliced m r rs =
     (let caller = capture_dynamic_state m;
          m1 = push_k m (KK_RESTORESTATE caller);
          m2 = (case r_handler rs of None \<Rightarrow> m1 | Some (l, h) \<Rightarrow> push_k m1 (KK_HANDLER l h caller));
          m3 = install_dynamic_state m2 (r_captured rs) in
      case (r_head rs, r_tail rs) of
        (Some h0, Some t0) \<Rightarrow> m3\<lparr>conts := set_next (conts m3) t0 (kont m3), kont := h0\<rparr>
      | _ \<Rightarrow> m3)"

definition do_resume :: "mach \<Rightarrow> kval \<Rightarrow> kval \<Rightarrow> mres" where
  "do_resume m kbox v =
     (case kbox of
        KImm _ \<Rightarrow> kundef
      | KFgn _ _ \<Rightarrow>
          kbind (kas_fgn_kind kbox KRT2_KIND_RESUMPTION) (\<lambda>r.
            case resums m r of
              None \<Rightarrow> kundef
            | Some rs \<Rightarrow>
                if r_used rs then
                  Inr (m, C_UNWIND RK_FAIL (Some (kstr0
                    ''internal: one-shot resumption used more than once (rt-multishot-effects absent)'')))
                else let m0 = m\<lparr>resums := (resums m)(r \<mapsto> rs\<lparr>r_used := True\<rparr>)\<rparr> in
                  if r_tail_res rs then
                    (case r_head rs of
                       None \<Rightarrow> kundef
                     | Some h0 \<Rightarrow> kbind (discard_masks_to m0 (d_mask (r_prompt rs))) (\<lambda>m1.
                         Inr (install_dynamic_state (m1\<lparr>kont := h0\<rparr>) (r_captured rs), C_DELIVER v)))
                  else Inr (resume_spliced m0 r rs, C_DELIVER v))
      | _ \<Rightarrow> Inr (m, C_UNWIND RK_FAIL (Some (kstr0 ''internal: resume of a non-resumption value''))))"

section \<open>Delivering a value\<close>

text \<open>A loop back edge: a safe point for a pending interrupt, and a cede when the budget is spent.\<close>

definition loop_backedge :: "mach \<Rightarrow> mres" where
  "loop_backedge m =
     (let m1 = (if pending m \<and> krt2i_mask_interruptible m then m\<lparr>safepoint_hit := True\<rparr> else m) in
      if budget m1 = 0 then Inr (m1\<lparr>budget := KRT2_BACKEDGE_QUANTUM, resumed := True\<rparr>, C_STOP M_YIELD)
      else Inr (m1\<lparr>budget := budget m1 - 1\<rparr>, C_STEP))"

definition leave_blocking_region :: "mach \<Rightarrow> mach kres" where
  "leave_blocking_region m =
     (if blocking_depth m \<le> 0 then Inl ''internal: source blocking delimiter underflow''
      else Inr (m\<lparr>blocking_depth := blocking_depth m - 1\<rparr>))"

text \<open>A finalizer completed: run the next one, or leave the sequence.\<close>

definition deliver_finseq :: "kapp_fn \<Rightarrow> mach \<Rightarrow> nat \<Rightarrow> nat \<Rightarrow> mres" where
  "deliver_finseq app m a nx =
     (case finseqs m a of
        None \<Rightarrow> kundef
      | Some fs \<Rightarrow>
          if fs_i fs \<ge> 0 then
            (case xss m (fs_xs fs) of
               None \<Rightarrow> kundef
             | Some items \<Rightarrow>
                 if nat (fs_i fs) \<ge> length items then kundef
                 else kbind (finalizer_action_for_reason app
                               (m\<lparr>finseqs := (finseqs m)(a \<mapsto> fs\<lparr>fs_i := fs_i fs - 1\<rparr>)\<rparr>)
                               (items ! nat (fs_i fs)) (fs_origin fs)) (\<lambda>(m1, e). step_cur m1 e))
          else (let m1 = m\<lparr>kont := nx\<rparr> in
            case fs_drain fs of
              None \<Rightarrow> apply_reason m1 (fs_r fs)
            | Some d \<Rightarrow>
                (case aends m1 d of
                   None \<Rightarrow> kundef
                 | Some ae \<Rightarrow> Inr (m1\<lparr>aends := (aends m1)(d \<mapsto> ae\<lparr>ae_r := fs_r fs\<rparr>)\<rparr>, C_UNWIND RK_DRAIN None))))"

definition deliver :: "kapp_fn \<Rightarrow> mach \<Rightarrow> kval \<Rightarrow> mres" where
  "deliver app m v =
     (case conts m (kont m) of
        None \<Rightarrow> kundef
      | Some (kk, nx) \<Rightarrow>
          let m' = m\<lparr>kont := nx\<rparr> in
          (case kk of
             KK_DONE \<Rightarrow> Inr (m, C_STOP (M_FINISHED (krt2_success v)))
           | KK_BIND k \<Rightarrow> step_app app m' k v
           | KK_THEN a \<Rightarrow> step_cur m' a
           | KK_CATCH h \<Rightarrow> step_cur m' (krt2_pure v)
           | KK_POPMASK a \<Rightarrow> kbind (krt2i_mask_pop m a) (\<lambda>m1. step_cur (m1\<lparr>kont := nx\<rparr>) (krt2_pure v))
           | KK_SETMASK a \<Rightarrow> kbind (krt2i_mask_reinstate m a) (\<lambda>m1. step_cur (m1\<lparr>kont := nx\<rparr>) (krt2_pure v))
           | KK_RESTORESTATE d \<Rightarrow> step_cur ((install_dynamic_state m d)\<lparr>kont := nx\<rparr>) (krt2_pure v)
           | KK_LOOP a \<Rightarrow> loop_backedge (m\<lparr>cur := a\<rparr>)
           | KK_RETSCOPE \<Rightarrow> step_cur m' (krt2_pure v)
           | KK_DOSCOPE xs restore \<Rightarrow> begin_finseq m' (Some xs) restore (RK_NORMAL, Some v) None
           | KK_FINSEQ a \<Rightarrow> deliver_finseq app m a nx
           | KK_HANDLER l h d \<Rightarrow> step_app app (install_dynamic_state m' d) (h_ret h) v
           | KK_BLOCKING \<Rightarrow> kbind (leave_blocking_region m) (\<lambda>m1. step_cur (m1\<lparr>kont := nx\<rparr>) (krt2_pure v))
           | KK_ABANDON r \<Rightarrow>
               (case resums m r of
                  None \<Rightarrow> kundef
                | Some rs \<Rightarrow> if r_used rs then step_cur m' (krt2_pure v)
                             else begin_abandon_drain m' r (RK_NORMAL, Some v))
           | KK_ABANDEND a \<Rightarrow> finish_abandon_drain m a nx (RK_NORMAL, Some v)))"

section \<open>Unwinding\<close>

text \<open>How the base of the stack ends a fiber; no exit for a drain.\<close>

fun done_exit :: "rkind \<Rightarrow> kval option \<Rightarrow> kval option kres" where
  "done_exit RK_RETURN v = kbind (rval v) (\<lambda>x. Inr (Some (krt2_success x)))"
| "done_exit RK_FAIL v = kbind (rval v) (\<lambda>x. Inr (Some (krt2_failure (krt2_cause_fail x))))"
| "done_exit RK_INTERRUPT v = kbind (rval v) (\<lambda>x. Inr (Some (krt2_failure (krt2_cause_interrupt x))))"
| "done_exit RK_RERAISE v = kbind (rval v) (\<lambda>x. Inr (Some (krt2_failure x)))"
| "done_exit RK_DRAIN v = Inr None"
| "done_exit _ v = Inr (Some (krt2_failure (krt2_cause_fail (kstr0 ''internal: break/continue escaped its loop''))))"

text \<open>What a \<open>catch\<close> frame hands to its handler, if anything.\<close>

definition caught :: "rkind \<Rightarrow> kval option \<Rightarrow> kval option kres" where
  "caught rk v =
     (if rk = RK_FAIL then kbind (rval v) (\<lambda>e. Inr (Some e))
      else if rk = RK_RERAISE then
        kbind (rval v) (\<lambda>c. if kctor_tagid c = KCT_FAIL then kbind (kctor_arg c 0) (\<lambda>e. Inr (Some e)) else Inr None)
      else Inr None)"

text \<open>One iteration of the loop of \<open>unwind\<close>.\<close>

definition unwind :: "kapp_fn \<Rightarrow> mach \<Rightarrow> rkind \<Rightarrow> kval option \<Rightarrow> mres" where
  "unwind app m rk v =
     (case conts m (kont m) of
        None \<Rightarrow> kundef
      | Some (kk, nx) \<Rightarrow>
          let m' = m\<lparr>kont := nx\<rparr>; go = (\<lambda>m1. Inr (m1\<lparr>kont := nx\<rparr>, C_UNWIND rk v)) in
          (case kk of
             KK_DONE \<Rightarrow> kbind (done_exit rk v) (\<lambda>ex. Inr (m, C_STOP (case ex of None \<Rightarrow> M_DRAINED | Some e \<Rightarrow> M_FINISHED e)))
           | KK_BIND _ \<Rightarrow> go m
           | KK_THEN _ \<Rightarrow> go m
           | KK_CATCH h \<Rightarrow> kbind (caught rk v) (\<lambda>e. case e of Some x \<Rightarrow> step_app app m' h x | None \<Rightarrow> go m)
           | KK_POPMASK a \<Rightarrow> kbind (krt2i_mask_pop m a) go
           | KK_SETMASK a \<Rightarrow> kbind (krt2i_mask_reinstate m a) go
           | KK_RESTORESTATE d \<Rightarrow> go (install_dynamic_state m d)
           | KK_LOOP a \<Rightarrow>
               if rk = RK_BREAK then step_cur m' (krt2_pure kunit)
               else if rk = RK_CONTINUE then loop_backedge (m\<lparr>cur := a\<rparr>)
               else go m
           | KK_RETSCOPE \<Rightarrow> if rk = RK_RETURN then kbind (rval v) (\<lambda>x. step_cur m' (krt2_pure x)) else go m
           | KK_DOSCOPE xs restore \<Rightarrow>
               begin_finseq m' (Some xs) restore (rk, v) (if rk = RK_DRAIN then drain_ae m else None)
           | KK_FINSEQ a \<Rightarrow>
               (case finseqs m a of
                  None \<Rightarrow> kundef
                | Some fs \<Rightarrow> step_cur (m\<lparr>finseqs := (finseqs m)(a \<mapsto> fs\<lparr>fs_r := compose_reason_into (fs_r fs) (rk, v)\<rparr>)\<rparr>)
                              (krt2_pure kunit))
           | KK_HANDLER l h d \<Rightarrow> go (install_dynamic_state m d)
           | KK_BLOCKING \<Rightarrow> kbind (leave_blocking_region m) go
           | KK_ABANDON r \<Rightarrow>
               (case resums m r of
                  None \<Rightarrow> kundef
                | Some rs \<Rightarrow> if r_used rs then go m else begin_abandon_drain m' r (rk, v))
           | KK_ABANDEND a \<Rightarrow> finish_abandon_drain m a nx (rk, v)))"

definition deliver_interrupt :: "mach \<Rightarrow> mres" where
  "deliver_interrupt m = Inr (m\<lparr>pending := False\<rparr>, C_UNWIND RK_INTERRUPT (icause m))"

section \<open>Cells\<close>

definition kref_new :: "mach \<Rightarrow> kval \<Rightarrow> mach \<times> kval" where
  "kref_new m init = (m\<lparr>refs := (refs m)(brk m \<mapsto> init), brk := Suc (brk m)\<rparr>, KRef (brk m))"

definition kref_get :: "mach \<Rightarrow> kval \<Rightarrow> kval kres" where
  "kref_get m r = (case r of KRef a \<Rightarrow> (case refs m a of None \<Rightarrow> kundef | Some v \<Rightarrow> Inr v)
     | _ \<Rightarrow> Inl ''kref_get: not a ref'')"

definition kref_set :: "mach \<Rightarrow> kval \<Rightarrow> kval \<Rightarrow> mach kres" where
  "kref_set m r v = (case r of KRef a \<Rightarrow> Inr (m\<lparr>refs := (refs m)(a \<mapsto> v)\<rparr>) | _ \<Rightarrow> Inl ''kref_set: not a ref'')"

definition fiber_ref_new :: "mach \<Rightarrow> kval \<Rightarrow> mach \<times> kval" where
  "fiber_ref_new m init = (m\<lparr>frefs := frefs m @ [init]\<rparr>, kint (word_of_nat (length (frefs m))))"

definition fiber_ref_init_of :: "mach \<Rightarrow> int \<Rightarrow> kval" where
  "fiber_ref_init_of m i = (if i \<ge> 0 \<and> i < int (length (frefs m)) then frefs m ! nat i else kunit)"

definition fiber_local_get :: "mach \<Rightarrow> int \<Rightarrow> kval" where
  "fiber_local_get m i =
     (if i \<ge> 0 then (case locals m (nat i) of Some v \<Rightarrow> v | None \<Rightarrow> fiber_ref_init_of m i) else fiber_ref_init_of m i)"

text \<open>Growing the array to an index of \<open>2 ^ 30\<close> or more overflows its \<open>int\<close> capacity.\<close>

definition fiber_local_set :: "mach \<Rightarrow> int \<Rightarrow> kval \<Rightarrow> mach kres" where
  "fiber_local_set m i v =
     (if i < 0 then Inr m
      else if i \<ge> 1073741824 then kundef
      else Inr (m\<lparr>locals := (locals m)(nat i \<mapsto> v)\<rparr>))"

definition fref_id :: "gmp \<Rightarrow> kval \<Rightarrow> int kres" where
  "fref_id G r = kbind (kas_int G r) (\<lambda>w. Inr (sint (ucast w :: u32)))"

definition emit_kstr :: "mach \<Rightarrow> kval \<Rightarrow> bool \<Rightarrow> mach kres" where
  "emit_kstr m s newline = kbind (kas_str s) (\<lambda>bs.
     Inr (m\<lparr>out := out m @ takeWhile (\<lambda>b. b \<noteq> 0) bs @ (if newline then [10] else [])\<rparr>))"

section \<open>Operations\<close>

abbreviation (input) with_arg :: "mach \<Rightarrow> int \<Rightarrow> (kval \<Rightarrow> 'r kres) \<Rightarrow> 'r kres" where
  "with_arg m i f \<equiv> kbind (kctor_arg (cur m) i) f"

definition op_push :: "mach \<Rightarrow> (kval \<Rightarrow> kkind) \<Rightarrow> mres" where
  "op_push m fr = with_arg m 1 (\<lambda>b. with_arg m 0 (\<lambda>a. step_cur (push_k m (fr b)) a))"

definition op_uninterruptible :: "mach \<Rightarrow> mres" where
  "op_uninterruptible m =
     (let (m1, frame) = krt2i_mask_push m KMASK_UNINTERRUPTIBLE in
      with_arg m 0 (\<lambda>a. step_cur (push_k m1 (KK_POPMASK frame)) a))"

definition op_mask :: "kapp_fn \<Rightarrow> mach \<Rightarrow> kmask \<Rightarrow> mres" where
  "op_mask app m state =
     (let (m1, frame) = krt2i_mask_push m state;
          m2 = push_k m1 (KK_POPMASK frame);
          token = KFgn frame KRT2_KIND_MASK_FRAME;
          restore = KClo CRestore (kpush token []) in
      with_arg m 0 (\<lambda>g. step_app app m2 g restore))"

definition op_restore :: "mach \<Rightarrow> mres" where
  "op_restore m =
     with_arg m 1 (\<lambda>tok. kbind (kas_fgn_kind tok KRT2_KIND_MASK_FRAME) (\<lambda>frame.
       let (m1, suspended) = krt2i_mask_suspend m frame;
           m2 = (if suspended then push_k m1 (KK_SETMASK frame) else m1) in
       with_arg m 0 (\<lambda>a.
         let m3 = m2\<lparr>cur := a\<rparr> in
         if suspended \<and> pending m3 \<and> krt2i_mask_interruptible m3 then deliver_interrupt m3
         else Inr (m3, C_STEP))))"

definition op_poll :: "mach \<Rightarrow> mres" where
  "op_poll m =
     (if \<not> krt2i_mask_uninterruptible m \<and> pending m then deliver_interrupt m else Inr (m, C_DELIVER kunit))"

definition op_doscope :: "mach \<Rightarrow> mres" where
  "op_doscope m =
     (let (m1, xs) = exitstack_new m;
          m2 = push_k m1 (KK_DOSCOPE xs (cur_exits m1)) in
      with_arg m 0 (\<lambda>a. step_cur (m2\<lparr>cur_exits := Some xs\<rparr>) a))"

definition op_defer :: "mach \<Rightarrow> mres" where
  "op_defer m =
     (case cur_exits m of
        None \<Rightarrow> Inl (''internal: defer outside any do-scope (mis-lowered '' @ [CHR 0xC2, CHR 0xA7] @ ''18.7 defer)'')
      | Some s \<Rightarrow>
          with_arg m 0 (\<lambda>a. let (m1, fin) = abort_exit_scope_finalizer m a in
            kbind (exitstack_push m1 s fin) (\<lambda>m2. Inr (m2, C_DELIVER kunit))))"

definition op_abort_exit_fin :: "mach \<Rightarrow> mres" where
  "op_abort_exit_fin m =
     with_arg m 0 (\<lambda>t. kbind (abort_exit_take m t) (\<lambda>(m1, a).
       step_cur m1 (case a of Some x \<Rightarrow> x | None \<Rightarrow> krt2_pure kunit)))"

definition op_while :: "mach \<Rightarrow> mres" where
  "op_while m =
     with_arg m 0 (\<lambda>c. with_arg m 1 (\<lambda>b.
       let iterate = krt2_bind c (KClo CLoopBranch (kpush b [])) in
       step_cur (push_k m (KK_LOOP iterate)) iterate))"

definition op_handle :: "mach \<Rightarrow> mres" where
  "op_handle m =
     with_arg m 0 (\<lambda>d. with_arg m 2 (\<lambda>ret. with_arg m 3 (\<lambda>ops. with_arg m 1 (\<lambda>l. with_arg m 4 (\<lambda>body.
       let h = \<lparr>h_ret = ret, h_ops = ops, h_deep = (kctor_tagid d = KCT_TRUE)\<rparr> in
       step_cur (push_k m (KK_HANDLER l h (capture_dynamic_state m))) body)))))"

definition op_fref :: "kapp_fn \<Rightarrow> gmp \<Rightarrow> mach \<Rightarrow> int \<Rightarrow> mres" where
  "op_fref app G m p =
     (if p = OP_NEW_FIBER_REF then
        with_arg m 0 (\<lambda>init. let (m1, r) = fiber_ref_new m init in Inr (m1, C_DELIVER r))
      else with_arg m 0 (\<lambda>r. kbind (fref_id G r) (\<lambda>i.
        if p = OP_GET_FIBER_REF then Inr (m, C_DELIVER (fiber_local_get m i))
        else if p = OP_SET_FIBER_REF then
          with_arg m 1 (\<lambda>v. kbind (fiber_local_set m i v) (\<lambda>m1. Inr (m1, C_DELIVER kunit)))
        else with_arg m 1 (\<lambda>g. kbind (kapp_rt app m g (fiber_local_get m i)) (\<lambda>(m1, nv).
          kbind (fiber_local_set m1 i nv) (\<lambda>m2. Inr (m2, C_DELIVER nv)))))))"

definition op_ref :: "mach \<Rightarrow> int \<Rightarrow> mres" where
  "op_ref m p =
     with_arg m 0 (\<lambda>a.
       if p = OP_NEW_REF then (let (m1, r) = kref_new m a in Inr (m1, C_DELIVER r))
       else if p = OP_READ_REF then kbind (kref_get m a) (\<lambda>v. Inr (m, C_DELIVER v))
       else with_arg m 1 (\<lambda>v. kbind (kref_set m a v) (\<lambda>m1. Inr (m1, C_DELIVER kunit))))"

definition op_print :: "mach \<Rightarrow> bool \<Rightarrow> mres" where
  "op_print m newline = with_arg m 0 (\<lambda>s. kbind (emit_kstr m s newline) (\<lambda>m1. Inr (m1, C_DELIVER kunit)))"

text \<open>The operations that belong to the scheduler: they touch other fibers, timers or threads.\<close>

definition sched_op :: "int \<Rightarrow> bool" where
  "sched_op p \<longleftrightarrow> p \<in> {OP_FORK, OP_FORK_DAEMON, OP_AWAIT, OP_CEDE, OP_SLEEP, OP_NOW, OP_NEW_PROMISE, OP_COMPLETE_PROMISE,
     OP_AWAIT_PROMISE_EXIT, OP_FIBER_ID, OP_INTERRUPT, OP_INTERRUPT_FORK, OP_NEW_SCOPE, OP_FORK_IN, OP_SHUTDOWN_SCOPE,
     OP_MONITOR, OP_AWAIT_MONITOR, OP_TRY_EXIT, OP_POLL_PROMISE, OP_IS_DONE_PROMISE, OP_BLOCKING, OP_ATOMICALLY}"

text \<open>A node outside the operations: effect-term nodes, bare values, legacy actions.\<close>

definition step_other :: "mach \<Rightarrow> mres" where
  "step_other m =
     (let p = kctor_tagid (cur m) in
      if p = KCT_EFFPURE then with_arg m 0 (\<lambda>v. Inr (m, C_DELIVER v))
      else if p = KCT_EFFOP then
        with_arg m 3 (\<lambda>k. with_arg m 0 (\<lambda>l. with_arg m 1 (\<lambda>f. with_arg m 2 (\<lambda>x.
          step_cur (push_k m (KK_BIND k)) (krt2_perform l f x)))))
      else if kv_imm (cur m) then Inr (m, C_DELIVER (cur m))
      else case cur m of
          KIo _ _ \<Rightarrow> Inr (m, C_STOP M_BRIDGE)
        | KIoTail _ \<Rightarrow> Inr (m, C_STOP M_BRIDGE)
        | KIoEffect _ \<Rightarrow> Inr (m, C_STOP M_BRIDGE)
        | KIoFinally _ _ \<Rightarrow> Inr (m, C_STOP M_BRIDGE)
        | KBounce _ _ \<Rightarrow> Inr (m, C_STOP M_BRIDGE)
        | KNative _ _ _ _ _ _ \<Rightarrow> Inr (m, C_STOP M_BRIDGE)
        | KFail _ \<Rightarrow> Inr (m, C_STOP M_BRIDGE)
        | v \<Rightarrow> Inr (m, C_DELIVER v))"

definition step_op :: "kapp_fn \<Rightarrow> gmp \<Rightarrow> mach \<Rightarrow> mres" where
  "step_op app G m =
     (let p = kctor_tagid (cur m) in
      if p = OP_PURE then with_arg m 0 (\<lambda>v. Inr (m, C_DELIVER v))
      else if p = OP_BIND then op_push m KK_BIND
      else if p = OP_THEN then op_push m KK_THEN
      else if p = OP_CATCH then op_push m KK_CATCH
      else if p = OP_THROW then with_arg m 0 (\<lambda>e. Inr (m, C_UNWIND RK_FAIL (Some e)))
      else if p = OP_RERAISE then with_arg m 0 (\<lambda>c. Inr (m, C_UNWIND RK_RERAISE (Some c)))
      else if p = OP_PRINT then op_print m False
      else if p = OP_PRINTLN then op_print m True
      else if sched_op p then Inr (m, C_STOP M_SCHED)
      else if p = OP_CURRENT_FIBER_ID then Inr (m, C_DELIVER (kint (word_of_nat (fid m))))
      else if p = OP_UNINTERRUPTIBLE then op_uninterruptible m
      else if p = OP_POLL then op_poll m
      else if p = OP_MASK then op_mask app m KMASK_MASKED
      else if p = OP_UNINTERRUPTIBLE_MASK then op_mask app m KMASK_UNINTERRUPTIBLE
      else if p = OP_RESTORE then op_restore m
      else if p = OP_DOSCOPE then op_doscope m
      else if p = OP_DEFER then op_defer m
      else if p = OP_ABORT_EXIT_FIN then op_abort_exit_fin m
      else if p = OP_RETURN then with_arg m 0 (\<lambda>v. Inr (m, C_UNWIND RK_RETURN (Some v)))
      else if p = OP_RETSCOPE then with_arg m 0 (\<lambda>b. step_cur (push_k m KK_RETSCOPE) b)
      else if p = OP_BREAK then Inr (m, C_UNWIND RK_BREAK None)
      else if p = OP_CONTINUE then Inr (m, C_UNWIND RK_CONTINUE None)
      else if p = OP_WHILE then op_while m
      else if p \<in> {OP_NEW_REF, OP_READ_REF, OP_WRITE_REF} then op_ref m p
      else if p \<in> {OP_NEW_FIBER_REF, OP_GET_FIBER_REF, OP_SET_FIBER_REF, OP_MODIFY_FIBER_REF} then op_fref app G m p
      else if p = OP_HANDLE then op_handle m
      else if p = OP_PERFORM then
        with_arg m 0 (\<lambda>l. with_arg m 1 (\<lambda>f. with_arg m 2 (\<lambda>x. Inr (m, C_SEARCH l f x None (kont m)))))
      else if p = OP_RESUME then with_arg m 0 (\<lambda>k. with_arg m 1 (\<lambda>v. do_resume m k v))
      else step_other m)"

text \<open>One turn of the stepping loop: the interruption gate, then the operation.\<close>

definition entering_mask :: "int \<Rightarrow> bool" where
  "entering_mask p \<longleftrightarrow> p = OP_UNINTERRUPTIBLE \<or> p = OP_UNINTERRUPTIBLE_MASK \<or> p = OP_MASK"

definition fiber_step_turn :: "kapp_fn \<Rightarrow> gmp \<Rightarrow> mach \<Rightarrow> mres" where
  "fiber_step_turn app G m =
     (if \<not> entering_mask (kctor_tagid (cur m)) \<and> (resumed m \<or> safepoint_hit m) \<and> pending m \<and> krt2i_mask_interruptible m
      then deliver_interrupt (m\<lparr>resumed := False, safepoint_hit := False\<rparr>)
      else step_op app G (m\<lparr>resumed := False, safepoint_hit := False\<rparr>))"

text \<open>What the stepping loop does with the result \<open>r\<close> of a legacy action it ran; \<open>blocking\<close> is whether
  the action was a native call completed on the blocking lane.\<close>

definition bridge_return :: "mach \<Rightarrow> bool \<Rightarrow> kval \<Rightarrow> mres" where
  "bridge_return m blocking r =
     (if blocking \<and> pending m \<and> krt2i_mask_interruptible m then deliver_interrupt m
      else if safepoint_hit m \<and> pending m \<and> krt2i_mask_interruptible m then
        (let m1 = m\<lparr>safepoint_hit := False\<rparr> in
         if kis_fail r \<or> krt2_is_reraise_action r then
           kbind (rval (icause m)) (\<lambda>ic. kbind (case r of KFail e \<Rightarrow> Inr (krt2_cause_fail e) | _ \<Rightarrow> kctor_arg r 0) (\<lambda>cleanup.
             Inr (m1\<lparr>pending := False\<rparr>, C_UNWIND RK_RERAISE (Some (krt2_cause_then (krt2_cause_interrupt ic) cleanup)))))
         else deliver_interrupt m1)
      else
        (let m1 = m\<lparr>safepoint_hit := False\<rparr> in
         if krt2_is_reraise_action r then kbind (kctor_arg r 0) (\<lambda>c. Inr (m1, C_UNWIND RK_RERAISE (Some c)))
         else case r of KFail e \<Rightarrow> Inr (m1, C_UNWIND RK_FAIL (Some e)) | _ \<Rightarrow> Inr (m1, C_DELIVER r)))"

text \<open>A generated native loop that gave up at a safe point.\<close>

definition scalar_abort :: "mach \<Rightarrow> mres" where
  "scalar_abort m =
     (if safepoint_hit m \<and> pending m \<and> krt2i_mask_interruptible m then
        kbind (abort_exit_drain_stack (m\<lparr>resumed := False, safepoint_hit := False, pending := False\<rparr>)) (\<lambda>(m1, xs).
          case xs of
            None \<Rightarrow> Inr (m1, C_UNWIND RK_INTERRUPT (icause m1))
          | Some s \<Rightarrow> if xss m1 s = Some [] then Inr (m1, C_UNWIND RK_INTERRUPT (icause m1))
                      else begin_finseq m1 (Some s) (cur_exits m1) (RK_INTERRUPT, icause m1) None)
      else Inl ''internal: scalar-worker abort reached runtime without a deliverable interrupt'')"

section \<open>The machine\<close>

definition mstep :: "kapp_fn \<Rightarrow> gmp \<Rightarrow> mach \<Rightarrow> ctl \<Rightarrow> mres" where
  "mstep app G m c =
     (case c of
        C_STEP \<Rightarrow> fiber_step_turn app G m
      | C_DELIVER v \<Rightarrow> deliver app m v
      | C_UNWIND rk v \<Rightarrow> unwind app m rk v
      | C_SEARCH l p x prev a \<Rightarrow> do_perform app m l p x prev a
      | C_STOP s \<Rightarrow> Inr (m, C_STOP s))"

text \<open>Running a bounded number of turns.\<close>

fun mrun :: "kapp_fn \<Rightarrow> gmp \<Rightarrow> nat \<Rightarrow> mach \<Rightarrow> ctl \<Rightarrow> mres" where
  "mrun app G 0 m c = Inr (m, c)"
| "mrun app G (Suc n) m c = kbind (mstep app G m c) (\<lambda>(m', c'). mrun app G n m' c')"

text \<open>A fresh fiber, and the start of a step of it: the loop budget is refilled.\<close>

definition fiber_new :: "nat \<Rightarrow> kval \<Rightarrow> mach" where
  "fiber_new i action =
     \<lparr>fid = i, brk = 1, frames = Map.empty, mask_base = KMASK_INTERRUPTIBLE, mask_eff = KMASK_INTERRUPTIBLE, mask_top = None,
      cur = action, kont = 0, conts = [0 \<mapsto> (KK_DONE, 0)], cur_exits = None, xss = Map.empty, finseqs = Map.empty,
      aends = Map.empty, resums = Map.empty, aborts = Map.empty, abort_exits = [], drain_ae = None, pending = False,
      icause = None, resumed = False, safepoint_hit = False, budget = 0, blocking_depth = 0,
      refs = Map.empty, frefs = [], locals = Map.empty, out = []\<rparr>"

definition fiber_step_begin :: "mach \<Rightarrow> mach" where
  "fiber_step_begin m = m\<lparr>budget := KRT2_BACKEDGE_QUANTUM\<rparr>"

end
