(* ===== verification/Kappa_Steps.thy ===== *)
theory Kappa_Steps
  imports Kappa_Machine
begin

text \<open>
  How the machine runs each node the builders of \<open>runtime/rt.c\<close> make (\<open>krt2_pure\<close>, \<open>krt2_then\<close>,
  \<open>krt2_defer\<close>, ...), and what a turn of the loop does when no interruption is due: the equations by
  which the proofs about exit actions, masks and effects follow a run.
\<close>

named_theorems run_nodes \<open>turns of the machine on the nodes of the builders\<close>

lemma turn_gate:
  "\<not> ((resumed m \<or> safepoint_hit m) \<and> pending m \<and> krt2i_mask_interruptible m) \<Longrightarrow>
   mstep app G m C_STEP = step_op app G (m\<lparr>resumed := False, safepoint_hit := False\<rparr>)"
  by (auto simp: mstep_def fiber_step_turn_def)

lemma turn_plain [run_nodes]:
  "\<not> resumed m \<Longrightarrow> \<not> safepoint_hit m \<Longrightarrow> mstep app G m C_STEP = step_op app G m"
proof -
  assume "\<not> resumed m" "\<not> safepoint_hit m"
  then have "m\<lparr>resumed := False, safepoint_hit := False\<rparr> = m" by (cases m) simp
  with turn_gate[of m app G] show ?thesis using \<open>\<not> resumed m\<close> \<open>\<not> safepoint_hit m\<close> by simp
qed

lemma turn_ctl [run_nodes]:
  "mstep app G m (C_DELIVER v) = deliver app m v" "mstep app G m (C_UNWIND rk r) = unwind app m rk r"
  "mstep app G m (C_SEARCH l p x prev a) = do_perform app m l p x prev a" "mstep app G m (C_STOP s) = Inr (m, C_STOP s)"
  by (simp_all add: mstep_def)

lemma step_nodes:
  "cur m = krt2_pure v \<Longrightarrow> step_op app G m = Inr (m, C_DELIVER v)"
  "cur m = krt2_bind a k \<Longrightarrow> step_op app G m = step_cur (push_k m (KK_BIND k)) a"
  "cur m = krt2_then a b \<Longrightarrow> step_op app G m = step_cur (push_k m (KK_THEN b)) a"
  "cur m = krt2_catch a h \<Longrightarrow> step_op app G m = step_cur (push_k m (KK_CATCH h)) a"
  "cur m = krt2_throw e \<Longrightarrow> step_op app G m = Inr (m, C_UNWIND RK_FAIL (Some e))"
  "cur m = krt2_reraise c \<Longrightarrow> step_op app G m = Inr (m, C_UNWIND RK_RERAISE (Some c))"
  "cur m = krt2_uninterruptible a \<Longrightarrow> step_op app G m =
     (let (m1, fr) = krt2i_mask_push m KMASK_UNINTERRUPTIBLE in step_cur (push_k m1 (KK_POPMASK fr)) a)"
  "cur m = krt2_mask f \<Longrightarrow> step_op app G m = op_mask app m KMASK_MASKED"
  "cur m = krt2_poll \<Longrightarrow> step_op app G m = op_poll m"
  "cur m = krt2_doscope a \<Longrightarrow> step_op app G m =
     (let (m1, xs) = exitstack_new m; m2 = push_k m1 (KK_DOSCOPE xs (cur_exits m1)) in step_cur (m2\<lparr>cur_exits := Some xs\<rparr>) a)"
  "cur m = krt2_defer a \<Longrightarrow> step_op app G m = op_defer m"
  "cur m = krt2_return v \<Longrightarrow> step_op app G m = Inr (m, C_UNWIND RK_RETURN (Some v))"
  "cur m = krt2_perform l f x \<Longrightarrow> step_op app G m = Inr (m, C_SEARCH l f x None (kont m))"
  "cur m = krt2_resume k v \<Longrightarrow> step_op app G m = do_resume m k v"
  "cur m = krt2_abort_exit_finalizer t \<Longrightarrow> step_op app G m = op_abort_exit_fin m"
  by (simp_all add: step_op_def builder_defs op_defs sched_op_def op_push_def op_uninterruptible_def op_doscope_def
      exitstack_new_def krt2i_mask_push_def Let_def)

lemmas [run_nodes] = step_nodes

section \<open>Fields the operations leave alone\<close>

lemma recompute_mach [simp]:
  fixes m :: mach
  shows "conts (recompute_mask_state m) = conts m" "aends (recompute_mask_state m) = aends m"
    "resums (recompute_mask_state m) = resums m" "pending (recompute_mask_state m) = pending m"
    "icause (recompute_mask_state m) = icause m" "cur (recompute_mask_state m) = cur m"
    "kont (recompute_mask_state m) = kont m" "xss (recompute_mask_state m) = xss m"
    "finseqs (recompute_mask_state m) = finseqs m" "aborts (recompute_mask_state m) = aborts m"
    "abort_exits (recompute_mask_state m) = abort_exits m" "cur_exits (recompute_mask_state m) = cur_exits m"
    "drain_ae (recompute_mask_state m) = drain_ae m"
  by (simp_all add: recompute_mask_state_def)

lemma mask_push_fields:
  fixes m :: mach
  assumes "krt2i_mask_push m s = (m', a)"
  shows "brk m' = Suc (brk m)" "conts m' = conts m" "aends m' = aends m" "resums m' = resums m" "a = brk m"
    "pending m' = pending m" "icause m' = icause m" "cur m' = cur m" "finseqs m' = finseqs m" "xss m' = xss m"
  using assms by (auto simp: krt2i_mask_push_def Let_def)

lemma mask_pop_fields:
  fixes m :: mach
  assumes "krt2i_mask_pop m a = Inr m'"
  shows "brk m' = brk m" "conts m' = conts m" "aends m' = aends m" "resums m' = resums m" "pending m' = pending m"
    "icause m' = icause m" "finseqs m' = finseqs m" "xss m' = xss m"
  using assms by (auto simp: krt2i_mask_pop_def split: option.splits if_splits)

lemma mask_reinstate_fields:
  fixes m :: mach
  assumes "krt2i_mask_reinstate m a = Inr m'"
  shows "brk m' = brk m" "conts m' = conts m" "aends m' = aends m" "resums m' = resums m" "pending m' = pending m"
    "icause m' = icause m" "finseqs m' = finseqs m" "xss m' = xss m"
  using assms by (auto simp: krt2i_mask_reinstate_def split: option.splits if_splits)

lemma mask_suspend_fields:
  fixes m :: mach
  assumes "krt2i_mask_suspend m a = (m', b)"
  shows "brk m' = brk m" "conts m' = conts m" "aends m' = aends m" "resums m' = resums m" "pending m' = pending m"
    "icause m' = icause m" "cur m' = cur m" "finseqs m' = finseqs m" "xss m' = xss m"
  using assms by (auto simp: krt2i_mask_suspend_def split: option.splits if_splits)

lemma discard_fields:
  fixes m :: mach
  assumes "discard_masks_to m b = Inr m'"
  shows "brk m' = brk m" "conts m' = conts m" "aends m' = aends m" "resums m' = resums m" "pending m' = pending m" "finseqs m' = finseqs m" "xss m' = xss m"
  using assms by (auto simp: discard_masks_to_def kbind_eq_Inr)

lemma install_fields [simp]:
  "brk (install_dynamic_state m d) = brk m" "conts (install_dynamic_state m d) = conts m"
  "aends (install_dynamic_state m d) = aends m" "resums (install_dynamic_state m d) = resums m"
  "pending (install_dynamic_state m d) = pending m" "icause (install_dynamic_state m d) = icause m"
  "kont (install_dynamic_state m d) = kont m" "drain_ae (install_dynamic_state m d) = drain_ae m"
  "finseqs (install_dynamic_state m d) = finseqs m" "xss (install_dynamic_state m d) = xss m"
  by (simp_all add: install_dynamic_state_def)

lemma push_k_fields [simp]:
  "brk (push_k m kk) = Suc (brk m)" "pending (push_k m kk) = pending m" "icause (push_k m kk) = icause m"
  "aends (push_k m kk) = aends m" "resums (push_k m kk) = resums m" "cur (push_k m kk) = cur m"
  "mask_eff (push_k m kk) = mask_eff m" "finseqs (push_k m kk) = finseqs m" "xss (push_k m kk) = xss m"
  by (simp_all add: push_k_def cont_new_def)

section \<open>Applications and exit actions\<close>

text \<open>The runtime's closures touch the abort exits only.\<close>

definition core_step :: "mach \<Rightarrow> mach \<Rightarrow> bool" where
  "core_step m m' \<longleftrightarrow> (\<exists>ab ae b. m' = m\<lparr>aborts := ab, abort_exits := ae, brk := b\<rparr> \<and> brk m \<le> b)"

lemma core_refl [simp]: "core_step m m"
proof -
  have "m = m\<lparr>aborts := aborts m, abort_exits := abort_exits m, brk := brk m\<rparr>" by simp
  then show ?thesis unfolding core_step_def by blast
qed

lemma core_trans: "core_step m m1 \<Longrightarrow> core_step m1 m2 \<Longrightarrow> core_step m m2"
proof -
  assume a: "core_step m m1" "core_step m1 m2"
  then obtain ab ae b ab' ae' b' where
    e: "m1 = m\<lparr>aborts := ab, abort_exits := ae, brk := b\<rparr>" "m2 = m1\<lparr>aborts := ab', abort_exits := ae', brk := b'\<rparr>"
      "brk m \<le> b" "brk m1 \<le> b'" unfolding core_step_def by blast
  then have "m2 = m\<lparr>aborts := ab', abort_exits := ae', brk := b'\<rparr>" "brk m \<le> b'" by simp_all
  then show "core_step m m2" unfolding core_step_def by blast
qed

lemma core_fields:
  assumes "core_step m m'"
  shows "pending m' = pending m" "icause m' = icause m" "brk m \<le> brk m'" "mask_eff m' = mask_eff m" "conts m' = conts m"
    "kont m' = kont m" "finseqs m' = finseqs m" "xss m' = xss m" "resums m' = resums m" "aends m' = aends m"
  using assms by (auto simp: core_step_def)

lemma abort_push_core: "krt2_abort_exit_push m a = (m', t) \<Longrightarrow> core_step m m'"
proof -
  assume "krt2_abort_exit_push m a = (m', t)"
  then have "m' = m\<lparr>aborts := (aborts m)(brk m \<mapsto> (a, True)), abort_exits := brk m # abort_exits m, brk := Suc (brk m)\<rparr>"
    by (auto simp: krt2_abort_exit_push_def)
  then show ?thesis unfolding core_step_def by (intro exI conjI) auto
qed

lemma abort_take_core: "abort_exit_take m t = Inr (m', a) \<Longrightarrow> core_step m m'"
proof -
  assume a: "abort_exit_take m t = Inr (m', a)"
  then obtain p action active where p: "abort_exit_from_token t = Inr p" "aborts m p = Some (action, active)"
    by (auto simp: abort_exit_take_def kbind_eq_Inr kundef_def split: option.splits)
  show ?thesis
  proof (cases active)
    case True
    then have "m' = m\<lparr>aborts := (aborts m)(p \<mapsto> (action, False)), abort_exits := remove1 p (abort_exits m), brk := brk m\<rparr>"
      using a p by (auto simp: abort_exit_take_def)
    then show ?thesis unfolding core_step_def by (intro exI conjI) auto
  qed (use a p in \<open>simp add: abort_exit_take_def\<close>)
qed

lemma abort_scope_core: "abort_exit_scope_finalizer m a = (m', t) \<Longrightarrow> core_step m m'"
  by (auto simp: abort_exit_scope_finalizer_def split: if_splits prod.splits dest: abort_push_core)

lemma kapp_core: "kapp_rt app m f x = Inr (m', v) \<Longrightarrow> core_step m m'"
proof (induction app m f x arbitrary: m' v rule: kapp_rt.induct)
  case (1 app m env sc)
  then show ?case by (auto simp: kapp_rt.simps kbind_eq_Inr split: sum.splits)
next
  case (2 app m env r)
  obtain release use restore where k: "kvar env 0 = Inr release" "kvar env 1 = Inr use" "kvar env 2 = Inr restore"
    using "2.prems" by (cases "kvar env 0"; cases "kvar env 1"; cases "kvar env 2") (simp_all add: kapp_rt.simps)
  obtain m1 ra where r1: "kapp_rt app m release r = Inr (m1, ra)"
    using "2.prems" k by (auto simp: kapp_rt.simps kbind_eq_Inr)
  obtain m2 t where r2: "krt2_abort_exit_push m1 ra = (m2, t)" by fastforce
  obtain b where r3: "kapp_rt app m2 restore (krt2_bind (krt2_pure r) use) = Inr (m', b)"
    using "2.prems" k r1 r2 by (auto simp: kapp_rt.simps kbind_eq_Inr)
  have "core_step m m1" by (rule "2.IH"(1)[OF k r1])
  moreover have "core_step m1 m2" by (rule abort_push_core[OF r2])
  moreover have "core_step m2 m'" by (rule "2.IH"(2)[OF k refl r2[symmetric] refl r3])
  ultimately show ?case by (blast intro: core_trans)
qed (auto simp: kapp_rt.simps kbind_eq_Inr)

lemma finalizer_core: "finalizer_action_for_reason app m fin er = Inr (m', e) \<Longrightarrow> core_step m m'"
proof -
  assume a: "finalizer_action_for_reason app m fin er = Inr (m', e)"
  then obtain m1 fo where m1: "(if kctor_tagid fin = OP_ABORT_EXIT_FIN
            then kbind (kctor_arg fin 0) (\<lambda>token. abort_exit_take m token) else Inr (m, Some fin)) = Inr (m1, fo)"
    unfolding finalizer_action_for_reason_def kbind_eq_Inr by auto
  then have c: "core_step m m1" by (auto simp: kbind_eq_Inr split: if_splits dest: abort_take_core)
  have "core_step m1 m'" using a unfolding finalizer_action_for_reason_def m1
    by (auto simp: kbind_eq_Inr split: option.splits if_splits dest: kapp_core)
  with c show ?thesis by (rule core_trans)
qed

section \<open>The environment of a fiber\<close>

text \<open>Requests arrive at any time, but the first one wins; the scheduler resumes a fiber that yielded or
  stopped at one of its operations, with another action or with a value; a legacy action returns,
  having pushed abort exits or hit a safe point, or is abandoned at the safe point.\<close>

inductive env :: "mach \<Rightarrow> ctl \<Rightarrow> mach \<Rightarrow> ctl \<Rightarrow> bool" where
  e_request: "\<not> pending m \<Longrightarrow> env m c (m\<lparr>pending := True, icause := Some ic\<rparr>) c"
| e_yield: "env m (C_STOP M_YIELD) (fiber_step_begin m) C_STEP"
| e_wake: "env m (C_STOP M_SCHED) (fiber_step_begin (m\<lparr>cur := a, resumed := True\<rparr>)) C_STEP"
| e_value: "env m (C_STOP M_SCHED) m (C_DELIVER v)"
| e_push: "env m (C_STOP M_BRIDGE) (fst (krt2_abort_exit_push m a)) (C_STOP M_BRIDGE)"
| e_safepoint: "pending m \<Longrightarrow> krt2i_mask_interruptible m \<Longrightarrow> env m (C_STOP M_BRIDGE) (m\<lparr>safepoint_hit := True\<rparr>) (C_STOP M_BRIDGE)"
| e_return: "bridge_return m bl r = Inr (m', c') \<Longrightarrow> env m (C_STOP M_BRIDGE) m' c'"
| e_abort: "scalar_abort m = Inr (m', c') \<Longrightarrow> env m (C_STOP M_BRIDGE) m' c'"

inductive_cases env_cases: "env m c m' c'"

text \<open>The states a fiber can reach under every such environment.\<close>

inductive mreach :: "kapp_fn \<Rightarrow> gmp \<Rightarrow> mach \<Rightarrow> ctl \<Rightarrow> bool" for app G where
  mr_start: "mreach app G (fiber_step_begin (fiber_new i a)) C_STEP"
| mr_step: "mreach app G m c \<Longrightarrow> mstep app G m c = Inr (m', c') \<Longrightarrow> mreach app G m' c'"
| mr_env: "mreach app G m c \<Longrightarrow> env m c m' c' \<Longrightarrow> mreach app G m' c'"

lemma fiber_new_fields [simp]:
  "resumed (fiber_new i a) = False" "safepoint_hit (fiber_new i a) = False" "cur (fiber_new i a) = a"
  "pending (fiber_new i a) = False" "kont (fiber_new i a) = 0" "brk (fiber_new i a) = 1" "mask_top (fiber_new i a) = None"
  "mask_base (fiber_new i a) = KMASK_INTERRUPTIBLE" "frames (fiber_new i a) = Map.empty" "fid (fiber_new i a) = i"
  "conts (fiber_new i a) = [0 \<mapsto> (KK_DONE, 0)]" "xss (fiber_new i a) = Map.empty" "finseqs (fiber_new i a) = Map.empty"
  "resums (fiber_new i a) = Map.empty" "aends (fiber_new i a) = Map.empty" "cur_exits (fiber_new i a) = None"
  by (simp_all add: fiber_new_def)

lemma step_begin_fields [simp]:
  "resumed (fiber_step_begin m) = resumed m" "safepoint_hit (fiber_step_begin m) = safepoint_hit m" "cur (fiber_step_begin m) = cur m"
  "pending (fiber_step_begin m) = pending m" "kont (fiber_step_begin m) = kont m" "brk (fiber_step_begin m) = brk m"
  "mask_top (fiber_step_begin m) = mask_top m" "mask_base (fiber_step_begin m) = mask_base m"
  "frames (fiber_step_begin m) = frames m" "fid (fiber_step_begin m) = fid m" "conts (fiber_step_begin m) = conts m"
  "xss (fiber_step_begin m) = xss m" "finseqs (fiber_step_begin m) = finseqs m" "resums (fiber_step_begin m) = resums m"
  "aends (fiber_step_begin m) = aends m" "cur_exits (fiber_step_begin m) = cur_exits m" "mask_eff (fiber_step_begin m) = mask_eff m"
  by (simp_all add: fiber_step_begin_def)

end
