(* ===== verification/Kappa_Interrupt.thy ===== *)
theory Kappa_Interrupt
  imports Kappa_Steps Kappa_Int
begin

text \<open>
  Interruption of a fiber. The machine is open: between its turns other threads request an
  interruption, the scheduler answers its operations and generated code runs behind the legacy
  bridge. \<open>mreach\<close> are the states of a fiber under every such environment. The invariant \<open>minv\<close> says
  that the cached mask state is the maximum of the active frames and that every saved dynamic state
  points into the allocated part of the store; it is kept by every operation of the machine, one
  lemma for each.
\<close>

named_theorems minv_intros \<open>operations that keep the invariant of the machine\<close>

section \<open>The invariant\<close>

definition dyn_ok :: "nat \<Rightarrow> dynst \<Rightarrow> bool" where
  "dyn_ok n d \<longleftrightarrow> (\<forall>a. d_mask d = Some a \<longrightarrow> a < n)"

definition kk_ok :: "nat \<Rightarrow> kkind \<Rightarrow> bool" where
  "kk_ok n kk \<longleftrightarrow> (case kk of KK_RESTORESTATE d \<Rightarrow> dyn_ok n d | KK_HANDLER _ _ d \<Rightarrow> dyn_ok n d | _ \<Rightarrow> True)"

definition conts_ok :: "nat \<Rightarrow> (nat \<rightharpoonup> kkind \<times> nat) \<Rightarrow> bool" where
  "conts_ok n h \<longleftrightarrow> (\<forall>a kk nx. h a = Some (kk, nx) \<longrightarrow> kk_ok n kk)"

definition aends_ok :: "nat \<Rightarrow> (nat \<rightharpoonup> aend) \<Rightarrow> bool" where
  "aends_ok n h \<longleftrightarrow> (\<forall>a e. h a = Some e \<longrightarrow> dyn_ok n (ae_dyn e))"

definition resums_ok :: "nat \<Rightarrow> (nat \<rightharpoonup> resum) \<Rightarrow> bool" where
  "resums_ok n h \<longleftrightarrow> (\<forall>a r. h a = Some r \<longrightarrow> dyn_ok n (r_captured r) \<and> dyn_ok n (r_prompt r))"

definition minv :: "mach \<Rightarrow> bool" where
  "minv m \<longleftrightarrow> mask_inv m \<and> conts_ok (brk m) (conts m) \<and> aends_ok (brk m) (aends m) \<and> resums_ok (brk m) (resums m)"

lemma dyn_ok_mono: "dyn_ok n d \<Longrightarrow> n \<le> k \<Longrightarrow> dyn_ok k d"
  by (fastforce simp: dyn_ok_def)

lemma dyn_ok_Suc: "dyn_ok n d \<Longrightarrow> dyn_ok (Suc n) d"
  by (simp add: dyn_ok_def less_SucI)

lemma kk_ok_mono: "kk_ok n kk \<Longrightarrow> n \<le> k \<Longrightarrow> kk_ok k kk"
  by (cases kk) (auto simp: kk_ok_def intro: dyn_ok_mono)

lemma stores_mono:
  "conts_ok n h \<Longrightarrow> n \<le> k \<Longrightarrow> conts_ok k h" "aends_ok n g \<Longrightarrow> n \<le> k \<Longrightarrow> aends_ok k g"
  "resums_ok n f \<Longrightarrow> n \<le> k \<Longrightarrow> resums_ok k f"
  by (auto simp: conts_ok_def aends_ok_def resums_ok_def intro: kk_ok_mono dyn_ok_mono)

lemma stores_upd:
  "conts_ok n h \<Longrightarrow> kk_ok n kk \<Longrightarrow> conts_ok n (h(a \<mapsto> (kk, nx)))"
  "aends_ok n g \<Longrightarrow> dyn_ok n (ae_dyn e) \<Longrightarrow> aends_ok n (g(a \<mapsto> e))"
  "resums_ok n f \<Longrightarrow> dyn_ok n (r_captured r) \<Longrightarrow> dyn_ok n (r_prompt r) \<Longrightarrow> resums_ok n (f(a \<mapsto> r))"
  by (auto simp: conts_ok_def aends_ok_def resums_ok_def)

lemma stores_get:
  "conts_ok n h \<Longrightarrow> h a = Some (kk, nx) \<Longrightarrow> kk_ok n kk" "aends_ok n g \<Longrightarrow> g a = Some e \<Longrightarrow> dyn_ok n (ae_dyn e)"
  "resums_ok n f \<Longrightarrow> f a = Some r \<Longrightarrow> dyn_ok n (r_captured r) \<and> dyn_ok n (r_prompt r)"
  by (auto simp: conts_ok_def aends_ok_def resums_ok_def)

lemma conts_ok_set_next: "conts_ok n h \<Longrightarrow> conts_ok n (set_next h c x)"
  by (auto simp: set_next_def intro!: stores_upd dest: stores_get split: option.splits)

section \<open>Fields outside the invariant\<close>

lemma mask_inv_other [simp]:
  fixes m :: mach
  shows "mask_inv (m\<lparr>cur := x1\<rparr>) = mask_inv m" "mask_inv (m\<lparr>kont := x2\<rparr>) = mask_inv m"
    "mask_inv (m\<lparr>conts := x3\<rparr>) = mask_inv m" "mask_inv (m\<lparr>cur_exits := x4\<rparr>) = mask_inv m"
    "mask_inv (m\<lparr>xss := x5\<rparr>) = mask_inv m" "mask_inv (m\<lparr>finseqs := x6\<rparr>) = mask_inv m"
    "mask_inv (m\<lparr>aends := x7\<rparr>) = mask_inv m" "mask_inv (m\<lparr>resums := x8\<rparr>) = mask_inv m"
    "mask_inv (m\<lparr>aborts := x9\<rparr>) = mask_inv m" "mask_inv (m\<lparr>abort_exits := x10\<rparr>) = mask_inv m"
    "mask_inv (m\<lparr>drain_ae := x11\<rparr>) = mask_inv m" "mask_inv (m\<lparr>pending := x12\<rparr>) = mask_inv m"
    "mask_inv (m\<lparr>icause := x13\<rparr>) = mask_inv m" "mask_inv (m\<lparr>resumed := x14\<rparr>) = mask_inv m"
    "mask_inv (m\<lparr>safepoint_hit := x15\<rparr>) = mask_inv m" "mask_inv (m\<lparr>budget := x16\<rparr>) = mask_inv m"
    "mask_inv (m\<lparr>blocking_depth := x17\<rparr>) = mask_inv m" "mask_inv (m\<lparr>refs := x18\<rparr>) = mask_inv m"
    "mask_inv (m\<lparr>frefs := x19\<rparr>) = mask_inv m" "mask_inv (m\<lparr>locals := x20\<rparr>) = mask_inv m"
    "mask_inv (m\<lparr>out := x21\<rparr>) = mask_inv m"
  by (simp_all add: mask_inv_def mask_max_def)

lemma minv_other [simp]:
  "minv (m\<lparr>cur := x1\<rparr>) = minv m" "minv (m\<lparr>kont := x2\<rparr>) = minv m" "minv (m\<lparr>cur_exits := x4\<rparr>) = minv m"
  "minv (m\<lparr>xss := x5\<rparr>) = minv m" "minv (m\<lparr>finseqs := x6\<rparr>) = minv m" "minv (m\<lparr>aborts := x9\<rparr>) = minv m"
  "minv (m\<lparr>abort_exits := x10\<rparr>) = minv m" "minv (m\<lparr>drain_ae := x11\<rparr>) = minv m" "minv (m\<lparr>pending := x12\<rparr>) = minv m"
  "minv (m\<lparr>icause := x13\<rparr>) = minv m" "minv (m\<lparr>resumed := x14\<rparr>) = minv m" "minv (m\<lparr>safepoint_hit := x15\<rparr>) = minv m"
  "minv (m\<lparr>budget := x16\<rparr>) = minv m" "minv (m\<lparr>blocking_depth := x17\<rparr>) = minv m" "minv (m\<lparr>refs := x18\<rparr>) = minv m"
  "minv (m\<lparr>frefs := x19\<rparr>) = minv m" "minv (m\<lparr>locals := x20\<rparr>) = minv m" "minv (m\<lparr>out := x21\<rparr>) = minv m"
  by (simp_all add: minv_def)

lemma mask_inv_brk: "mask_inv (m :: mach) \<Longrightarrow> brk m \<le> b \<Longrightarrow> mask_inv (m\<lparr>brk := b\<rparr>)"
  by (fastforce simp: mask_inv_def mask_max_def)

lemma minv_brk: "minv m \<Longrightarrow> brk m \<le> b \<Longrightarrow> minv (m\<lparr>brk := b\<rparr>)"
  by (auto simp: minv_def intro: mask_inv_brk stores_mono)

lemma minv_stores [minv_intros]:
  "minv m \<Longrightarrow> conts_ok (brk m) h \<Longrightarrow> minv (m\<lparr>conts := h\<rparr>)"
  "minv m \<Longrightarrow> aends_ok (brk m) g \<Longrightarrow> minv (m\<lparr>aends := g\<rparr>)"
  "minv m \<Longrightarrow> resums_ok (brk m) f \<Longrightarrow> minv (m\<lparr>resums := f\<rparr>)"
  by (auto simp: minv_def)

lemma minvD:
  "minv m \<Longrightarrow> mask_inv m" "minv m \<Longrightarrow> conts_ok (brk m) (conts m)" "minv m \<Longrightarrow> aends_ok (brk m) (aends m)"
  "minv m \<Longrightarrow> resums_ok (brk m) (resums m)"
  by (auto simp: minv_def)

lemma minv_cont [dest]: "minv m \<Longrightarrow> conts m a = Some (kk, nx) \<Longrightarrow> kk_ok (brk m) kk"
  using minvD(2) stores_get(1) by blast

section \<open>Masks and dynamic state\<close>

lemma minv_keep:
  assumes "minv m" "mask_inv m'" "brk m \<le> brk m'" "conts m' = conts m" "aends m' = aends m" "resums m' = resums m"
  shows "minv m'"
  using assms by (auto simp: minv_def intro: stores_mono)

lemma minv_mask_push [minv_intros]: "minv m \<Longrightarrow> krt2i_mask_push m s = (m', a) \<Longrightarrow> minv m'"
  using mask_push_fields[of m s m' a] push_inv[of m s] by (intro minv_keep[of m m']) (simp_all add: minvD)

lemma minv_mask_pop [minv_intros]: "minv m \<Longrightarrow> krt2i_mask_pop m a = Inr m' \<Longrightarrow> minv m'"
  using mask_pop_fields[of m a m'] pop_inv[of m a m'] by (intro minv_keep[of m m']) (simp_all add: minvD)

lemma minv_reinstate [minv_intros]: "minv m \<Longrightarrow> krt2i_mask_reinstate m a = Inr m' \<Longrightarrow> minv m'"
  using mask_reinstate_fields[of m a m'] reinstate_inv[of m a m'] by (intro minv_keep[of m m']) (simp_all add: minvD)

lemma minv_suspend [minv_intros]: "minv m \<Longrightarrow> krt2i_mask_suspend m a = (m', b) \<Longrightarrow> minv m'"
  using mask_suspend_fields[of m a m' b] suspend_inv[of m a] by (intro minv_keep[of m m']) (simp_all add: minvD)

lemma minv_discard [minv_intros]:
  "minv m \<Longrightarrow> discard_masks_to m b = Inr m' \<Longrightarrow> (\<And>a. b = Some a \<Longrightarrow> a < brk m) \<Longrightarrow> minv m'"
  using discard_fields[of m b m'] discard_inv[of m b m'] by (intro minv_keep[of m m']) (simp_all add: minvD)

lemma minv_install [minv_intros]: "minv m \<Longrightarrow> dyn_ok (brk m) d \<Longrightarrow> minv (install_dynamic_state m d)"
proof (rule minv_keep[of m "install_dynamic_state m d"])
  assume m: "minv m" and d: "dyn_ok (brk m) d"
  show "mask_inv (install_dynamic_state m d)" unfolding install_dynamic_state_def
    by (rule mask_invI) (use mask_invD(1)[OF minvD(1)[OF m]] d in \<open>simp_all add: dyn_ok_def\<close>)
qed simp_all

lemma dyn_ok_capture [minv_intros]: "minv m \<Longrightarrow> dyn_ok (brk m) (capture_dynamic_state m)"
  by (auto simp: capture_dynamic_state_def dyn_ok_def intro: mask_invD(2) minvD(1))

lemma minv_push_k [minv_intros]: "minv m \<Longrightarrow> kk_ok (brk m) kk \<Longrightarrow> minv (push_k m kk)"
  by (auto simp: minv_def push_k_def cont_new_def intro!: mask_inv_brk stores_upd intro: stores_mono kk_ok_mono)

lemma kk_ok_simps [simp]:
  "kk_ok n (KK_BIND v)" "kk_ok n (KK_THEN v)" "kk_ok n (KK_CATCH v)" "kk_ok n (KK_POPMASK a)" "kk_ok n (KK_SETMASK a)"
  "kk_ok n (KK_DOSCOPE a b)" "kk_ok n (KK_FINSEQ a)" "kk_ok n (KK_LOOP v)" "kk_ok n KK_RETSCOPE" "kk_ok n KK_BLOCKING"
  "kk_ok n (KK_ABANDON a)" "kk_ok n (KK_ABANDEND a)" "kk_ok n (KK_RESTORESTATE d) = dyn_ok n d"
  "kk_ok n (KK_HANDLER v h d) = dyn_ok n d" "kk_ok n KK_DONE"
  by (simp_all add: kk_ok_def)

lemma minv_core [minv_intros]: "minv m \<Longrightarrow> core_step m m' \<Longrightarrow> minv m'"
  by (auto simp: core_step_def intro: minv_brk)

section \<open>Every turn keeps the invariant\<close>

text \<open>A turn that does not consume the pending request.\<close>

definition keeps :: "mach \<Rightarrow> mres \<Rightarrow> bool" where
  "keeps m r \<longleftrightarrow> (\<forall>m' c'. r = Inr (m', c') \<longrightarrow> minv m' \<and> pending m' = pending m)"

lemma keepsI: "(\<And>m' c'. r = Inr (m', c') \<Longrightarrow> minv m' \<and> pending m' = pending m) \<Longrightarrow> keeps m r"
  by (simp add: keeps_def)

lemma keeps_simps [simp]:
  "keeps m (Inl e)" "keeps m kundef" "keeps m (Inr (m', c')) \<longleftrightarrow> minv m' \<and> pending m' = pending m"
  by (auto simp: keeps_def kundef_def)

lemma keeps_bind: "(\<And>v. r = Inr v \<Longrightarrow> keeps m (f v)) \<Longrightarrow> keeps m (kbind r f)"
  by (cases r) auto

lemma keeps_step_cur [simp]: "keeps m (step_cur m1 a) \<longleftrightarrow> minv m1 \<and> pending m1 = pending m"
  by (simp add: step_cur_def)

lemma keeps_step_app: "minv m1 \<Longrightarrow> pending m1 = pending m \<Longrightarrow> keeps m (step_app app m1 g x)"
  unfolding step_app_def
  by (intro keeps_bind) (auto dest!: kapp_core simp: core_fields(1) intro: minv_core)

lemma keeps_apply_reason: "minv m1 \<Longrightarrow> pending m1 = pending m \<Longrightarrow> keeps m (apply_reason m1 r)"
  by (auto simp: apply_reason_def intro: keeps_bind)

lemma keeps_begin_finseq:
  assumes "minv m1" "pending m1 = pending m"
  shows "keeps m (begin_finseq m1 xs restore r drain)"
proof -
  let ?m0 = "m1\<lparr>cur_exits := restore\<rparr>"
  obtain m2 f where p: "krt2i_mask_push ?m0 KMASK_MASKED = (m2, f)" by fastforce
  have m2: "minv (push_k m2 (KK_POPMASK f))" "pending m2 = pending m"
    using assms minv_mask_push[OF _ p] mask_push_fields[OF p] by (auto intro!: minv_push_k)
  have m3: "minv (push_k ((push_k m2 (KK_POPMASK f))\<lparr>finseqs := h, brk := Suc b\<rparr>) (KK_FINSEQ a))"
    if "b = brk (push_k m2 (KK_POPMASK f))" for h a b
    using m2 that by (intro minv_push_k minv_brk) auto
  show ?thesis unfolding begin_finseq_def Let_def p prod.case
    using assms m2 m3 by (auto split: sum.splits option.splits intro!: keeps_apply_reason)
qed

lemma keeps_begin_abandon:
  assumes "minv m1" "pending m1 = pending m"
  shows "keeps m (begin_abandon_drain m1 r post)"
proof (cases "resums m1 r")
  case (Some rs)
  let ?n = "Suc (Suc (brk m1))"
  have s: "conts_ok ?n (conts m1)" "aends_ok ?n (aends m1)" "resums_ok ?n (resums m1)" "dyn_ok ?n (capture_dynamic_state m1)"
    using minvD[OF assms(1)] dyn_ok_capture[OF assms(1)] by (auto intro: stores_mono dyn_ok_mono)
  have d: "dyn_ok ?n (r_captured rs)"
    using stores_get(3)[OF minvD(4)[OF assms(1)] Some] by (auto intro: dyn_ok_mono)
  have "minv (m1\<lparr>aends := (aends m1)(brk m1 \<mapsto> \<lparr>ae_kont = kont m1, ae_dyn = capture_dynamic_state m1, ae_r = post, ae_prev = drain_ae m1\<rparr>),
       brk := ?n, conts := set_next ((conts m1)(Suc (brk m1) \<mapsto> (KK_ABANDEND (brk m1), kont m1))) t0 (Suc (brk m1)),
       drain_ae := Some (brk m1), kont := h0\<rparr>)" for t0 h0
    using s minvD(1)[OF assms(1)] by (auto simp: minv_def intro!: conts_ok_set_next stores_upd mask_inv_brk)
  from minv_install[OF this] show ?thesis using assms(2) Some d
    by (auto simp: begin_abandon_drain_def Let_def cont_new_def split: option.splits)
qed (simp add: begin_abandon_drain_def)

lemma minv_ae_upd: "minv m \<Longrightarrow> aends m p = Some pe \<Longrightarrow> minv (m\<lparr>aends := (aends m)(p \<mapsto> pe\<lparr>ae_r := x\<rparr>)\<rparr>)"
proof -
  assume m: "minv m" and p: "aends m p = Some pe"
  have "dyn_ok (brk m) (ae_dyn pe)" by (rule stores_get(2)[OF minvD(3)[OF m] p])
  then show ?thesis using m minvD(3)[OF m] by (intro minv_stores stores_upd) simp_all
qed

lemma keeps_finish_abandon:
  assumes "minv m1" "pending m1 = pending m"
  shows "keeps m (finish_abandon_drain m1 a nx live)"
proof (cases "aends m1 a")
  case (Some ae)
  let ?m = "\<lambda>k d. install_dynamic_state m1 (ae_dyn ae)\<lparr>kont := k, drain_ae := d\<rparr>"
  have i: "minv (?m k d)" for k d
    using assms(1) stores_get(2)[OF minvD(3)[OF assms(1)] Some] by (auto intro: minv_install)
  show ?thesis
  proof (cases "drain_ae m1 = Some a")
    case False
    then show ?thesis using assms(2) i Some by (simp add: finish_abandon_drain_def Let_def keeps_apply_reason)
  next
    case True
    show ?thesis
    proof (cases "ae_prev ae")
      case None
      then show ?thesis using True assms(2) i Some by (simp add: finish_abandon_drain_def Let_def keeps_apply_reason)
    next
      case (Some p)
      show ?thesis
      proof (cases "aends m1 p")
        case pe: (Some pe)
        from minv_ae_upd[OF i, where p = p and pe = pe] show ?thesis using True assms(2) pe Some \<open>aends m1 a = Some ae\<close>
          by (simp add: finish_abandon_drain_def Let_def)
      qed (use True Some \<open>aends m1 a = Some ae\<close> in \<open>simp add: finish_abandon_drain_def Let_def\<close>)
    qed
  qed
qed (simp add: finish_abandon_drain_def)

lemma keeps_deliver_finseq:
  assumes "minv m"
  shows "keeps m (deliver_finseq app m a nx)"
proof (cases "finseqs m a")
  case (Some fs)
  have f: "keeps m (kbind (finalizer_action_for_reason app (m\<lparr>finseqs := h\<rparr>) e r) (\<lambda>(m1, e). step_cur m1 e))" for h e r
  proof (rule keeps_bind)
    fix v assume v: "finalizer_action_for_reason app (m\<lparr>finseqs := h\<rparr>) e r = Inr v"
    obtain m1 b where b: "v = (m1, b)" by (cases v)
    have "core_step (m\<lparr>finseqs := h\<rparr>) m1" using v unfolding b by (rule finalizer_core)
    then show "keeps m (case v of (m1, e) \<Rightarrow> step_cur m1 e)"
      using minv_core[of "m\<lparr>finseqs := h\<rparr>" m1] core_fields(1)[of "m\<lparr>finseqs := h\<rparr>" m1] assms by (simp add: b)
  qed
  have r: "keeps m (apply_reason (m\<lparr>kont := nx\<rparr>) x)" for x using assms by (simp add: keeps_apply_reason)
  show ?thesis
  proof (cases "fs_i fs \<ge> 0")
    case True
    then show ?thesis using Some f by (cases "xss m (fs_xs fs)") (simp_all add: deliver_finseq_def)
  next
    case False
    show ?thesis
    proof (cases "fs_drain fs")
      case None
      then show ?thesis using Some False r by (simp add: deliver_finseq_def)
    next
      case d: (Some d)
      show ?thesis using Some False d minv_ae_upd[of "m\<lparr>kont := nx\<rparr>" d] assms
        by (cases "aends m d") (simp_all add: deliver_finseq_def Let_def)
    qed
  qed
qed (simp add: deliver_finseq_def)

lemma keeps_backedge: "minv m1 \<Longrightarrow> pending m1 = pending m \<Longrightarrow> keeps m (loop_backedge m1)"
  by (simp add: loop_backedge_def Let_def)

lemma leave_blocking_keeps: "leave_blocking_region m = Inr m' \<Longrightarrow> minv m' = minv m \<and> pending m' = pending m"
  by (auto simp: leave_blocking_region_def split: if_splits)

lemma keeps_pop: "minv m \<Longrightarrow> krt2i_mask_pop m a = Inr m1 \<Longrightarrow> minv m1 \<and> pending m1 = pending m"
  using mask_pop_fields(5) minv_mask_pop by blast

lemma keeps_reinstate: "minv m \<Longrightarrow> krt2i_mask_reinstate m a = Inr m1 \<Longrightarrow> minv m1 \<and> pending m1 = pending m"
  using mask_reinstate_fields(5) minv_reinstate by blast

lemma keeps_go: "(\<And>m1. r = Inr m1 \<Longrightarrow> minv m1 \<and> pending m1 = pending m) \<Longrightarrow>
    (\<And>m1. minv m1 \<Longrightarrow> pending m1 = pending m \<Longrightarrow> keeps m (f m1)) \<Longrightarrow> keeps m (kbind r f)"
  by (cases r) auto

lemmas keeps_rules = keeps_step_app keeps_begin_finseq keeps_deliver_finseq keeps_begin_abandon keeps_finish_abandon
  keeps_backedge minv_install

lemma keeps_deliver: "minv m \<Longrightarrow> keeps m (deliver app m v)"
proof (cases "conts m (kont m)")
  case (Some c)
  assume m: "minv m"
  obtain kk nx where c: "conts m (kont m) = Some (kk, nx)" using Some by (cases c) auto
  note k = minv_cont[OF m c]
  show ?thesis
  proof (cases kk)
    case (KK_POPMASK a)
    then show ?thesis using c by (simp add: deliver_def) (rule keeps_go[OF keeps_pop[OF m]], auto)
  next
    case (KK_SETMASK a)
    then show ?thesis using c by (simp add: deliver_def) (rule keeps_go[OF keeps_reinstate[OF m]], auto)
  next
    case KK_BLOCKING
    then show ?thesis using c m by (simp add: deliver_def) (rule keeps_go, auto dest: leave_blocking_keeps)
  next
    case (KK_ABANDON r)
    then show ?thesis using c m by (cases "resums m r") (simp_all add: deliver_def Let_def keeps_begin_abandon)
  qed (use m k in \<open>simp_all add: deliver_def c Let_def keeps_rules\<close>)
qed (simp add: deliver_def)

lemma keeps_unwind: "minv m \<Longrightarrow> keeps m (unwind app m rk v)"
proof (cases "conts m (kont m)")
  case (Some c)
  assume m: "minv m"
  obtain kk nx where c: "conts m (kont m) = Some (kk, nx)" using Some by (cases c) auto
  note k = minv_cont[OF m c]
  show ?thesis
  proof (cases kk)
    case (KK_POPMASK a)
    then show ?thesis using c by (simp add: unwind_def) (rule keeps_go[OF keeps_pop[OF m]], auto)
  next
    case (KK_SETMASK a)
    then show ?thesis using c by (simp add: unwind_def) (rule keeps_go[OF keeps_reinstate[OF m]], auto)
  next
    case KK_BLOCKING
    then show ?thesis using c m by (simp add: unwind_def) (rule keeps_go, auto dest: leave_blocking_keeps)
  next
    case (KK_ABANDON r)
    then show ?thesis using c m by (cases "resums m r") (simp_all add: unwind_def Let_def keeps_begin_abandon)
  next
    case (KK_FINSEQ a)
    then show ?thesis using c m by (cases "finseqs m a") (simp_all add: unwind_def)
  next
    case (KK_CATCH h)
    then show ?thesis using c m
      by (simp add: unwind_def Let_def) (rule keeps_bind, simp add: keeps_step_app split: option.split)
  next
    case KK_RETSCOPE
    then show ?thesis using c m by (auto simp: unwind_def Let_def intro!: keeps_bind)
  next
    case KK_DONE
    then show ?thesis using c m by (auto simp: unwind_def Let_def intro!: keeps_bind)
  qed (use m k in \<open>simp_all add: unwind_def c Let_def keeps_rules\<close>)
qed (simp add: unwind_def)

lemma keeps_run_op_clause: "minv m1 \<Longrightarrow> pending m1 = pending m \<Longrightarrow> keeps m (run_op_clause app m1 cl pl kb)"
  unfolding run_op_clause_def Let_def
  by (intro keeps_bind) (auto dest!: kapp_core simp: core_fields(1) intro!: keeps_step_app intro: minv_core)

lemma minv_new_resum:
  assumes "minv m" "dyn_ok (brk m) d"
  shows "minv (m\<lparr>resums := (resums m)(brk m \<mapsto> \<lparr>r_head = hd1, r_tail = tl1, r_captured = capture_dynamic_state m,
      r_prompt = d, r_handler = hl, r_used = u, r_tail_res = t\<rparr>), brk := Suc (brk m)\<rparr>)"
proof -
  have "resums_ok (brk m) ((resums m)(brk m \<mapsto> \<lparr>r_head = hd1, r_tail = tl1, r_captured = capture_dynamic_state m,
      r_prompt = d, r_handler = hl, r_used = u, r_tail_res = t\<rparr>))"
    using assms minvD(4)[OF assms(1)] dyn_ok_capture[OF assms(1)] by (intro stores_upd) simp_all
  from minv_stores(3)[OF assms(1) this] show ?thesis by (auto intro: minv_brk)
qed

lemma keeps_perform_at:
  assumes m: "minv m" and d: "dyn_ok (brk m) d"
  shows "keeps m (perform_at app m prev nx lab h d opv pl)"
proof -
  have t: "keeps m (perform_tail app m nx d cl pl)" for cl
  proof -
    have "minv (m\<lparr>resums := (resums m)(brk m \<mapsto> \<lparr>r_head = Some (kont m), r_tail = None, r_captured = capture_dynamic_state m,
        r_prompt = d, r_handler = None, r_used = False, r_tail_res = True\<rparr>), brk := Suc (brk m)\<rparr>)"
      by (rule minv_new_resum[OF m d])
    then show ?thesis unfolding perform_tail_def Let_def
      using d by (intro keeps_run_op_clause minv_install) (auto intro: dyn_ok_mono)
  qed
  have s: "keeps m (perform_sever app m prev nx lab h d cl pl)" for cl
  proof -
    have i: "minv (m\<lparr>resums := (resums m)(brk m \<mapsto> \<lparr>r_head = hd1, r_tail = tl1, r_captured = capture_dynamic_state m,
        r_prompt = d, r_handler = hl, r_used = False, r_tail_res = False\<rparr>), brk := Suc (brk m)\<rparr>)" for hd1 tl1 hl
      by (rule minv_new_resum[OF m d])
    have "conts_ok (Suc (brk m)) (case prev of None \<Rightarrow> conts m | Some p \<Rightarrow> set_next (conts m) p 0)"
      using stores_mono(1)[OF minvD(2)[OF m]] by (auto intro: conts_ok_set_next split: option.split)
    then have "minv (m\<lparr>resums := (resums m)(brk m \<mapsto> \<lparr>r_head = hd1, r_tail = tl1, r_captured = capture_dynamic_state m,
        r_prompt = d, r_handler = hl, r_used = False, r_tail_res = False\<rparr>), brk := Suc (brk m),
        conts := (case prev of None \<Rightarrow> conts m | Some p \<Rightarrow> set_next (conts m) p 0), kont := nx\<rparr>)" for hd1 tl1 hl
      using minv_stores(1)[OF i] by simp
    then show ?thesis unfolding perform_sever_def sever_slice_def Let_def prod.case
      using d by (cases prev) (auto intro!: keeps_run_op_clause minv_install minv_push_k intro: dyn_ok_mono)
  qed
  show ?thesis unfolding perform_at_def using t s m by (cases opv) (auto intro!: keeps_bind)
qed

lemma keeps_do_perform: "minv m \<Longrightarrow> keeps m (do_perform app m lab opv pl prev c)"
proof (cases "conts m c")
  case (Some x)
  assume m: "minv m"
  obtain kk nx where c: "conts m c = Some (kk, nx)" using Some by (cases x) auto
  note k = minv_cont[OF m c]
  show ?thesis
  proof (cases kk)
    case (KK_HANDLER l h d)
    then show ?thesis using c m k
      by (simp add: do_perform_def) (rule keeps_bind, simp add: keeps_perform_at)
  next
    case KK_DONE
    then show ?thesis using c m by (cases opv) (simp_all add: do_perform_def Let_def)
  qed (use c m in \<open>simp_all add: do_perform_def\<close>)
qed (simp add: do_perform_def)

lemma keeps_do_resume: "minv m \<Longrightarrow> keeps m (do_resume m kbox v)"
proof (cases kbox)
  case (KFgn p kind)
  assume m: "minv m"
  have "keeps m (case resums m r of None \<Rightarrow> kundef | Some rs \<Rightarrow>
                if r_used rs then Inr (m, C_UNWIND RK_FAIL e)
                else let m0 = m\<lparr>resums := (resums m)(r \<mapsto> rs\<lparr>r_used := True\<rparr>)\<rparr> in
                  if r_tail_res rs then
                    (case r_head rs of
                       None \<Rightarrow> kundef
                     | Some h0 \<Rightarrow> kbind (discard_masks_to m0 (d_mask (r_prompt rs))) (\<lambda>m1.
                         Inr (install_dynamic_state (m1\<lparr>kont := h0\<rparr>) (r_captured rs), C_DELIVER v)))
                  else Inr (resume_spliced m0 r rs, C_DELIVER v))" for r e
  proof (cases "resums m r")
    case (Some rs)
    let ?m0 = "m\<lparr>resums := (resums m)(r \<mapsto> rs\<lparr>r_used := True\<rparr>)\<rparr>"
    have d: "dyn_ok (brk m) (r_captured rs)" "dyn_ok (brk m) (r_prompt rs)"
      using stores_get(3)[OF minvD(4)[OF m] Some] by auto
    have m0: "minv ?m0" using d minvD(4)[OF m] by (intro minv_stores m stores_upd) simp_all
    have t: "keeps m (kbind (discard_masks_to ?m0 (d_mask (r_prompt rs))) (\<lambda>m1.
        Inr (install_dynamic_state (m1\<lparr>kont := h0\<rparr>) (r_captured rs), C_DELIVER v)))" for h0
    proof (rule keeps_bind)
      fix m1 assume m1: "discard_masks_to ?m0 (d_mask (r_prompt rs)) = Inr m1"
      have "minv m1" by (rule minv_discard[OF m0 m1]) (use d(2) in \<open>simp add: dyn_ok_def\<close>)
      then show "keeps m (Inr (install_dynamic_state (m1\<lparr>kont := h0\<rparr>) (r_captured rs), C_DELIVER v))"
        using d discard_fields[OF m1] by (auto intro!: minv_install)
    qed
    have r: "minv (resume_spliced ?m0 r rs)" "pending (resume_spliced ?m0 r rs) = pending m"
    proof -
      let ?c = "capture_dynamic_state ?m0"
      have c: "dyn_ok (brk ?m0) ?c" by (rule dyn_ok_capture[OF m0])
      let ?m2 = "case r_handler rs of None \<Rightarrow> push_k ?m0 (KK_RESTORESTATE ?c)
        | Some (l, h) \<Rightarrow> push_k (push_k ?m0 (KK_RESTORESTATE ?c)) (KK_HANDLER l h ?c)"
      have m2: "minv ?m2" "brk m \<le> brk ?m2" "pending ?m2 = pending m"
        using m0 c by (auto intro!: minv_push_k intro: dyn_ok_Suc split: option.split)
      let ?m3 = "install_dynamic_state ?m2 (r_captured rs)"
      have m3: "minv ?m3" "pending ?m3 = pending m" using m2 d(1) by (auto intro!: minv_install intro: dyn_ok_mono)
      have "minv (?m3\<lparr>conts := set_next (conts ?m3) t0 (kont ?m3), kont := h0\<rparr>)" for t0 h0
        using m3(1) conts_ok_set_next[OF minvD(2)[OF m3(1)]] by (auto intro: minv_stores)
      with m3 show "minv (resume_spliced ?m0 r rs)" "pending (resume_spliced ?m0 r rs) = pending m"
        unfolding resume_spliced_def Let_def by (auto split: option.split)
    qed
    show ?thesis using Some m t r by (auto simp: Let_def split: option.split)
  qed simp
  then show ?thesis unfolding do_resume_def KFgn kval.case by (intro keeps_bind)
qed (simp_all add: do_resume_def)

section \<open>Where a request is consumed\<close>

text \<open>A turn of the stepping loop either keeps the request, or consumes it by unwinding with it under
  masks that allow it; \<open>p\<close> is the operation.\<close>

definition consumes :: "mach \<Rightarrow> int \<Rightarrow> mach \<Rightarrow> ctl \<Rightarrow> bool" where
  "consumes m p m' c' \<longleftrightarrow> c' = C_UNWIND RK_INTERRUPT (icause m) \<and> pending m \<and> \<not> pending m' \<and>
     (mask_eff m' = KMASK_INTERRUPTIBLE \<or> p = OP_POLL \<and> mask_eff m' \<noteq> KMASK_UNINTERRUPTIBLE)"

definition turn_ok :: "mach \<Rightarrow> int \<Rightarrow> mres \<Rightarrow> bool" where
  "turn_ok m p r \<longleftrightarrow> (\<forall>m' c'. r = Inr (m', c') \<longrightarrow> minv m' \<and> (pending m' = pending m \<or> consumes m p m' c'))"

lemma keeps_turn_ok: "keeps m r \<Longrightarrow> turn_ok m p r"
  by (auto simp: keeps_def turn_ok_def)

lemma turn_ok_bind: "(\<And>v. r = Inr v \<Longrightarrow> turn_ok m p (f v)) \<Longrightarrow> turn_ok m p (kbind r f)"
  by (cases r) (auto simp: turn_ok_def)

lemma turn_ok_interrupt:
  assumes "minv m1" "pending m" "icause m1 = icause m" "mask_eff m1 = KMASK_INTERRUPTIBLE \<or> p = OP_POLL \<and> mask_eff m1 \<noteq> KMASK_UNINTERRUPTIBLE"
  shows "turn_ok m p (deliver_interrupt m1)"
  using assms by (auto simp: turn_ok_def deliver_interrupt_def consumes_def)

lemma keeps_op_push: "minv m \<Longrightarrow> (\<And>v n. kk_ok n (fr v)) \<Longrightarrow> keeps m (op_push m fr)"
  unfolding op_push_def by (intro keeps_bind) (auto intro: minv_push_k)

lemma mask_push_pop_frame:
  assumes "minv m" "krt2i_mask_push m s = (m1, fr)"
  shows "minv (push_k m1 (KK_POPMASK fr))" "pending m1 = pending m"
  using minv_mask_push[OF assms] mask_push_fields[OF assms(2)] by (auto intro: minv_push_k)

lemma keeps_op_mask: "minv m \<Longrightarrow> keeps m (op_mask app m s)"
proof -
  assume m: "minv m"
  obtain m1 fr where p: "krt2i_mask_push m s = (m1, fr)" by fastforce
  show ?thesis using mask_push_pop_frame[OF m p] unfolding op_mask_def Let_def p prod.case
    by (intro keeps_bind keeps_step_app) simp_all
qed

lemma keeps_op_uninterruptible: "minv m \<Longrightarrow> keeps m (op_uninterruptible m)"
proof -
  assume m: "minv m"
  obtain m1 fr where p: "krt2i_mask_push m KMASK_UNINTERRUPTIBLE = (m1, fr)" by fastforce
  show ?thesis using mask_push_pop_frame[OF m p] unfolding op_uninterruptible_def Let_def p prod.case
    by (intro keeps_bind) simp_all
qed

lemma turn_op_restore: "minv m \<Longrightarrow> turn_ok m p (op_restore m)"
  unfolding op_restore_def
proof (intro turn_ok_bind)
  fix tok fr
  assume m: "minv m"
  obtain m1 s where s: "krt2i_mask_suspend m fr = (m1, s)" by fastforce
  note f = minv_suspend[OF m s] mask_suspend_fields[OF s]
  let ?m2 = "if s then push_k m1 (KK_SETMASK fr) else m1"
  have m2: "minv ?m2" "pending ?m2 = pending m" "icause ?m2 = icause m" "mask_eff ?m2 = mask_eff m1"
    using f by (auto intro: minv_push_k)
  show "turn_ok m p (let (m1, suspended) = krt2i_mask_suspend m fr;
           m2 = (if suspended then push_k m1 (KK_SETMASK fr) else m1) in
       kbind (kctor_arg (cur m) 0) (\<lambda>a.
         let m3 = m2\<lparr>cur := a\<rparr> in
         if suspended \<and> pending m3 \<and> krt2i_mask_interruptible m3 then deliver_interrupt m3
         else Inr (m3, C_STEP)))"
    unfolding s Let_def prod.case
  proof (intro turn_ok_bind)
    fix a
    show "turn_ok m p (if s \<and> pending (?m2\<lparr>cur := a\<rparr>) \<and> krt2i_mask_interruptible (?m2\<lparr>cur := a\<rparr>)
        then deliver_interrupt (?m2\<lparr>cur := a\<rparr>) else Inr (?m2\<lparr>cur := a\<rparr>, C_STEP))"
      using m2 by (auto simp: krt2i_mask_interruptible_def krt2i_mask_state_def turn_ok_def[of m p "Inr _"]
          intro!: turn_ok_interrupt simp del: mach.select_convs split: if_splits)
  qed
qed

lemma turn_op_poll: "minv m \<Longrightarrow> turn_ok m OP_POLL (op_poll m)"
  unfolding op_poll_def
  by (auto simp: krt2i_mask_uninterruptible_def krt2i_mask_state_def turn_ok_def[of m _ "Inr _"] intro!: turn_ok_interrupt)

lemma keeps_op_defer: "minv m \<Longrightarrow> keeps m (op_defer m)"
  unfolding op_defer_def
  by (auto split: option.splits prod.splits intro!: keeps_bind dest!: abort_scope_core
      simp: exitstack_push_def kundef_def core_fields(1) intro: minv_core)

lemma keeps_op_abort_exit_fin: "minv m \<Longrightarrow> keeps m (op_abort_exit_fin m)"
  unfolding op_abort_exit_fin_def
  by (auto split: prod.splits intro!: keeps_bind dest!: abort_take_core simp: core_fields(1) intro: minv_core)

lemma keeps_op_doscope: "minv m \<Longrightarrow> keeps m (op_doscope m)"
  unfolding op_doscope_def exitstack_new_def Let_def prod.case
  by (intro keeps_bind) (auto intro!: minv_push_k minv_brk)

lemma keeps_op_while: "minv m \<Longrightarrow> keeps m (op_while m)"
  unfolding op_while_def Let_def by (intro keeps_bind) (auto intro!: minv_push_k)

lemma keeps_op_handle: "minv m \<Longrightarrow> keeps m (op_handle m)"
  unfolding op_handle_def Let_def by (intro keeps_bind) (auto intro!: minv_push_k dyn_ok_capture)

lemma fiber_local_set_keeps: "fiber_local_set m i v = Inr m' \<Longrightarrow> minv m' = minv m \<and> pending m' = pending m"
  by (auto simp: fiber_local_set_def kundef_def split: if_splits)

lemma keeps_op_fref: "minv m \<Longrightarrow> keeps m (op_fref app G m p)"
  unfolding op_fref_def
  by (auto simp: fiber_ref_new_def core_fields(1) intro!: keeps_bind dest!: fiber_local_set_keeps kapp_core intro: minv_core)

lemma keeps_op_ref: "minv m \<Longrightarrow> keeps m (op_ref m p)"
  unfolding op_ref_def
  by (auto simp: kref_new_def kref_set_def intro!: keeps_bind minv_brk split: kval.splits)

lemma keeps_op_print: "minv m \<Longrightarrow> keeps m (op_print m b)"
  unfolding op_print_def by (auto simp: emit_kstr_def kbind_eq_Inr intro!: keeps_bind)

lemma keeps_step_other: "minv m \<Longrightarrow> keeps m (step_other m)"
  unfolding step_other_def Let_def
  by (auto intro!: keeps_bind minv_push_k split: kval.splits)

lemma keeps_simple:
  "minv m \<Longrightarrow> keeps m (kbind (kctor_arg (cur m) i) (\<lambda>v. Inr (m, f v)))"
  "minv m \<Longrightarrow> keeps m (kbind (kctor_arg (cur m) 0) (\<lambda>b. step_cur (push_k m KK_RETSCOPE) b))"
  "minv m \<Longrightarrow> keeps m (kbind (kctor_arg (cur m) 0) (\<lambda>k. kbind (kctor_arg (cur m) 1) (\<lambda>v. do_resume m k v)))"
  "minv m \<Longrightarrow> keeps m (kbind (kctor_arg (cur m) 0) (\<lambda>l. kbind (kctor_arg (cur m) 1) (\<lambda>f.
     kbind (kctor_arg (cur m) 2) (\<lambda>x. Inr (m, C_SEARCH l f x None (kont m))))))"
  by (auto intro!: keeps_bind minv_push_k keeps_do_resume)

lemma turn_ok_if:
  "(b \<Longrightarrow> turn_ok m p x) \<Longrightarrow> (\<not> b \<Longrightarrow> turn_ok m p y) \<Longrightarrow> turn_ok m p (if b then x else y)"
  by simp

lemma turn_op_poll_eq: "minv m \<Longrightarrow> p = OP_POLL \<Longrightarrow> turn_ok m p (op_poll m)"
  by (simp only: turn_op_poll)

lemma turn_op_push:
  "minv m \<Longrightarrow> turn_ok m p (op_push m KK_BIND)" "minv m \<Longrightarrow> turn_ok m p (op_push m KK_THEN)"
  "minv m \<Longrightarrow> turn_ok m p (op_push m KK_CATCH)"
  by (simp_all add: keeps_turn_ok keeps_op_push)

lemma turn_ok_same: "minv m \<Longrightarrow> turn_ok m p (Inr (m, c))"
  by (simp add: keeps_turn_ok)

lemmas turn_simple = keeps_simple[THEN keeps_turn_ok]

lemmas turn_ops = keeps_op_mask[THEN keeps_turn_ok] keeps_op_uninterruptible[THEN keeps_turn_ok]
  keeps_op_defer[THEN keeps_turn_ok] keeps_op_abort_exit_fin[THEN keeps_turn_ok] keeps_op_doscope[THEN keeps_turn_ok]
  keeps_op_while[THEN keeps_turn_ok] keeps_op_handle[THEN keeps_turn_ok] keeps_op_fref[THEN keeps_turn_ok]
  keeps_op_ref[THEN keeps_turn_ok] keeps_op_print[THEN keeps_turn_ok] keeps_step_other[THEN keeps_turn_ok]

lemma turn_step_op: "minv m \<Longrightarrow> turn_ok m (kctor_tagid (cur m)) (step_op app G m)"
  unfolding step_op_def Let_def
  apply (rule turn_ok_if, erule turn_simple(1))
  apply (rule turn_ok_if, erule turn_op_push(1))
  apply (rule turn_ok_if, erule turn_op_push(2))
  apply (rule turn_ok_if, erule turn_op_push(3))
  apply (rule turn_ok_if, erule turn_simple(1))
  apply (rule turn_ok_if, erule turn_simple(1))
  apply (rule turn_ok_if, rule keeps_turn_ok, erule keeps_op_print)
  apply (rule turn_ok_if, rule keeps_turn_ok, erule keeps_op_print)
  apply (rule turn_ok_if, erule turn_ok_same)
  apply (rule turn_ok_if, erule turn_ok_same)
  apply (rule turn_ok_if, rule keeps_turn_ok, erule keeps_op_uninterruptible)
  apply (rule turn_ok_if, erule turn_op_poll_eq, assumption)
  apply (rule turn_ok_if, rule keeps_turn_ok, erule keeps_op_mask)
  apply (rule turn_ok_if, rule keeps_turn_ok, erule keeps_op_mask)
  apply (rule turn_ok_if, erule turn_op_restore)
  apply (rule turn_ok_if, rule keeps_turn_ok, erule keeps_op_doscope)
  apply (rule turn_ok_if, rule keeps_turn_ok, erule keeps_op_defer)
  apply (rule turn_ok_if, rule keeps_turn_ok, erule keeps_op_abort_exit_fin)
  apply (rule turn_ok_if, erule turn_simple(1))
  apply (rule turn_ok_if, erule turn_simple(2))
  apply (rule turn_ok_if, erule turn_ok_same)
  apply (rule turn_ok_if, erule turn_ok_same)
  apply (rule turn_ok_if, rule keeps_turn_ok, erule keeps_op_while)
  apply (rule turn_ok_if, rule keeps_turn_ok, erule keeps_op_ref)
  apply (rule turn_ok_if, rule keeps_turn_ok, erule keeps_op_fref)
  apply (rule turn_ok_if, rule keeps_turn_ok, erule keeps_op_handle)
  apply (rule turn_ok_if, erule turn_simple(4))
  apply (rule turn_ok_if, erule turn_simple(3))
  by (rule keeps_turn_ok, erule keeps_step_other)

lemma turn_fiber_step: "minv m \<Longrightarrow> turn_ok m (kctor_tagid (cur m)) (fiber_step_turn app G m)"
  using turn_step_op[of "m\<lparr>resumed := False, safepoint_hit := False\<rparr>" app G]
  by (auto simp: fiber_step_turn_def turn_ok_def consumes_def deliver_interrupt_def krt2i_mask_interruptible_def
      krt2i_mask_state_def)

lemma keeps_mstep: "minv m \<Longrightarrow> c \<noteq> C_STEP \<Longrightarrow> keeps m (mstep app G m c)"
  by (cases c) (simp_all add: mstep_def keeps_deliver keeps_unwind keeps_do_perform)

lemma turn_mstep: "minv m \<Longrightarrow> turn_ok m (kctor_tagid (cur m)) (mstep app G m c)"
proof (cases "c = C_STEP")
  case True
  then show "minv m \<Longrightarrow> ?thesis" by (simp add: mstep_def turn_fiber_step)
qed (simp add: keeps_mstep keeps_turn_ok)

lemma consumes_at_step:
  "minv m \<Longrightarrow> mstep app G m c = Inr (m', c') \<Longrightarrow> pending m' \<noteq> pending m \<Longrightarrow> c = C_STEP"
  using keeps_mstep[of m c app G] by (auto simp: keeps_def)

section \<open>Every reachable state\<close>

lemma minv_start: "minv (fiber_step_begin (fiber_new i a))"
  by (simp add: fiber_step_begin_def minv_def fiber_new_def mask_inv_def mask_max_def conts_ok_def aends_ok_def resums_ok_def kk_ok_def)

lemma bridge_return_minv: "minv m \<Longrightarrow> bridge_return m bl r = Inr (m', c') \<Longrightarrow> minv m'"
  by (auto simp: bridge_return_def deliver_interrupt_def kbind_eq_Inr Let_def split: if_splits kval.splits)

lemma scalar_abort_minv: "minv m \<Longrightarrow> scalar_abort m = Inr (m', c') \<Longrightarrow> minv m'"
proof -
  assume m: "minv m" and s: "scalar_abort m = Inr (m', c')"
  let ?m = "m\<lparr>resumed := False, safepoint_hit := False, pending := False\<rparr>"
  obtain m1 xs where d: "abort_exit_drain_stack ?m = Inr (m1, xs)"
    using s by (auto simp: scalar_abort_def kbind_eq_Inr split: if_splits)
  have m1: "minv m1"
    using d m by (auto simp: abort_exit_drain_stack_def exitstack_new_def Let_def kundef_def intro!: minv_brk split: if_splits)
  have "keeps m1 (begin_finseq m1 xs r (RK_INTERRUPT, icause m1) None)" for r
    using m1 by (rule keeps_begin_finseq) simp
  then show ?thesis using s d m1
    by (auto simp: scalar_abort_def keeps_def split: if_splits option.splits)
qed

lemma env_minv: "env m c m' c' \<Longrightarrow> minv m \<Longrightarrow> minv m'"
proof (induction rule: env.induct)
  case (e_push m a)
  then show ?case using abort_push_core[of m a] by (cases "krt2_abort_exit_push m a") (auto intro: minv_core)
qed (auto simp: fiber_step_begin_def intro: bridge_return_minv scalar_abort_minv)

lemma mreach_minv: "mreach app G m c \<Longrightarrow> minv m"
proof (induction rule: mreach.induct)
  case (mr_step m c m' c')
  then show ?case using turn_mstep[of m app G c] by (simp add: turn_ok_def)
qed (auto intro: minv_start env_minv)


lemma mask_chain_single:
  "h a = Some fr \<Longrightarrow> mf_prev fr = None \<Longrightarrow> mask_chain h (Some a) = [(a, fr)]"
  by (simp add: mask_chain.simps)




end
