(* ===== verification/Kappa_Store.thy ===== *)
theory Kappa_Store
  imports Kappa_Steps
begin

text \<open>
  How the machine changes its store. A relation between machines that holds of the elementary updates
  (a new continuation node, relinking a node, a new exit stack, pushing an exit action, a new
  finalizer sequence, a new resumption, using a resumption, anything outside these objects) holds of
  every turn of the machine and of every step of its environment, except for the progress of a
  finalizer sequence, which only its own frame makes (\<open>touch\<close>). The locale \<open>store_rel\<close> is this
  interface; it is proved once, over all the operations, and interpreted on the growth of the store.
\<close>

text \<open>The finalizer sequence on top of the stack, and what its frame does to it when a value or a reason
  reaches it.\<close>

definition fin_top :: "mach \<Rightarrow> (nat \<times> finseq) option" where
  "fin_top m =
     (case conts m (kont m) of
        Some (KK_FINSEQ a, nx) \<Rightarrow> map_option (Pair a) (finseqs m a)
      | _ \<Rightarrow> None)"

definition touch :: "mach \<Rightarrow> ctl \<Rightarrow> mach" where
  "touch m c =
     (case fin_top m of
        None \<Rightarrow> m
      | Some (a, fs) \<Rightarrow>
          (case c of
             C_DELIVER v \<Rightarrow> if fs_i fs \<ge> 0 then m\<lparr>finseqs := (finseqs m)(a \<mapsto> fs\<lparr>fs_i := fs_i fs - 1\<rparr>)\<rparr> else m
           | C_UNWIND rk v \<Rightarrow> m\<lparr>finseqs := (finseqs m)(a \<mapsto> fs\<lparr>fs_r := compose_reason_into (fs_r fs) (rk, v)\<rparr>)\<rparr>
           | _ \<Rightarrow> m))"

lemma touch_id [simp]: "touch m C_STEP = m" "touch m (C_SEARCH l p x prev a) = m" "touch m (C_STOP s) = m"
  by (simp_all add: touch_def split: option.split)

definition res_rel :: "(mach \<Rightarrow> mach \<Rightarrow> bool) \<Rightarrow> mach \<Rightarrow> mres \<Rightarrow> bool" where
  "res_rel R m r \<longleftrightarrow> (\<forall>m' c'. r = Inr (m', c') \<longrightarrow> R m m')"

lemma res_rel_simps [simp]:
  "res_rel R m (Inl e)" "res_rel R m kundef" "res_rel R m (Inr (m', c')) \<longleftrightarrow> R m m'" "res_rel R m (step_cur m' a) \<longleftrightarrow> R m (m'\<lparr>cur := a\<rparr>)"
  by (auto simp: res_rel_def kundef_def step_cur_def)

lemma res_rel_bind: "(\<And>v. r = Inr v \<Longrightarrow> res_rel R m (f v)) \<Longrightarrow> res_rel R m (kbind r f)"
  by (cases r) auto

text \<open>The parts of the store the relations speak of.\<close>

definition same_store :: "mach \<Rightarrow> mach \<Rightarrow> bool" where
  "same_store m m' \<longleftrightarrow> conts m' = conts m \<and> resums m' = resums m \<and> finseqs m' = finseqs m \<and> xss m' = xss m \<and> brk m \<le> brk m'"

lemma same_core: "core_step m m' \<Longrightarrow> same_store m m'"
  by (simp add: same_store_def core_fields)

lemma same_upd [simp]:
  "same_store m (m\<lparr>cur := x1\<rparr>)" "same_store m (m\<lparr>kont := x2\<rparr>)" "same_store m (m\<lparr>cur_exits := x3\<rparr>)"
  "same_store m (m\<lparr>aends := x4\<rparr>)" "same_store m (m\<lparr>aborts := x5\<rparr>)" "same_store m (m\<lparr>abort_exits := x6\<rparr>)"
  "same_store m (m\<lparr>drain_ae := x7\<rparr>)" "same_store m (m\<lparr>pending := x8\<rparr>)" "same_store m (m\<lparr>icause := x9\<rparr>)"
  "same_store m (m\<lparr>resumed := x10\<rparr>)" "same_store m (m\<lparr>safepoint_hit := x11\<rparr>)" "same_store m (m\<lparr>budget := x12\<rparr>)"
  "same_store m (m\<lparr>blocking_depth := x13\<rparr>)" "same_store m (m\<lparr>refs := x14\<rparr>)" "same_store m (m\<lparr>frefs := x15\<rparr>)"
  "same_store m (m\<lparr>locals := x16\<rparr>)" "same_store m (m\<lparr>out := x17\<rparr>)" "same_store m (install_dynamic_state m d)"
  "same_store m (m\<lparr>brk := Suc (brk m)\<rparr>)"
  by (simp_all add: same_store_def)

locale store_rel =
  fixes R :: "mach \<Rightarrow> mach \<Rightarrow> bool"
  assumes r_trans: "R m m1 \<Longrightarrow> R m1 m2 \<Longrightarrow> R m m2"
    and r_same: "same_store m m' \<Longrightarrow> R m m'"
    and r_node: "R m (m\<lparr>conts := (conts m)(brk m \<mapsto> (kk, nx)), brk := Suc (brk m)\<rparr>)"
    and r_next: "R m (m\<lparr>conts := set_next (conts m) p n\<rparr>)"
    and r_stack: "R m (m\<lparr>xss := (xss m)(brk m \<mapsto> items), brk := Suc (brk m)\<rparr>)"
    and r_defer: "xss m s = Some items \<Longrightarrow> R m (m\<lparr>xss := (xss m)(s \<mapsto> items @ [x])\<rparr>)"
    and r_finseq: "R m (m\<lparr>finseqs := (finseqs m)(brk m \<mapsto> fs), brk := Suc (brk m)\<rparr>)"
    and r_resum: "R m (m\<lparr>resums := (resums m)(brk m \<mapsto> rs), brk := Suc (brk m)\<rparr>)"
    and r_used: "resums m r = Some rs \<Longrightarrow> R m (m\<lparr>resums := (resums m)(r \<mapsto> rs\<lparr>r_used := True\<rparr>)\<rparr>)"
begin

lemma r_refl [simp]: "R m m"
  by (rule r_same) (simp add: same_store_def)

lemma r_then: "R m m1 \<Longrightarrow> same_store m1 m2 \<Longrightarrow> R m m2"
  by (rule r_trans[OF _ r_same])

lemma r_upd:
  "R m m1 \<Longrightarrow> R m (m1\<lparr>cur := x1\<rparr>)" "R m m1 \<Longrightarrow> R m (m1\<lparr>kont := x2\<rparr>)" "R m m1 \<Longrightarrow> R m (m1\<lparr>cur_exits := x3\<rparr>)"
  "R m m1 \<Longrightarrow> R m (m1\<lparr>aends := x4\<rparr>)" "R m m1 \<Longrightarrow> R m (m1\<lparr>drain_ae := x7\<rparr>)" "R m m1 \<Longrightarrow> R m (m1\<lparr>pending := x8\<rparr>)"
  "R m m1 \<Longrightarrow> R m (m1\<lparr>safepoint_hit := x11\<rparr>)" "R m m1 \<Longrightarrow> R m (m1\<lparr>budget := x12\<rparr>)"
  "R m m1 \<Longrightarrow> R m (m1\<lparr>resumed := x13\<rparr>)" "R m m1 \<Longrightarrow> R m (m1\<lparr>refs := x14\<rparr>)" "R m m1 \<Longrightarrow> R m (m1\<lparr>frefs := x15\<rparr>)"
  "R m m1 \<Longrightarrow> R m (m1\<lparr>locals := x16\<rparr>)" "R m m1 \<Longrightarrow> R m (m1\<lparr>out := x17\<rparr>)" "R m m1 \<Longrightarrow> R m (m1\<lparr>blocking_depth := x18\<rparr>)"
  "R m m1 \<Longrightarrow> R m (install_dynamic_state m1 d)" "R m m1 \<Longrightarrow> R m (m1\<lparr>abort_exits := x19\<rparr>)" "R m m1 \<Longrightarrow> R m (m1\<lparr>aborts := x20\<rparr>)"
  "R m m1 \<Longrightarrow> R m (m1\<lparr>icause := x21\<rparr>)"
  by (erule r_then, simp)+

lemma r_cont_new: "R m m1 \<Longrightarrow> cont_new m1 kk nx = (m2, a) \<Longrightarrow> R m m2"
  using r_trans[OF _ r_node] by (auto simp: cont_new_def)

lemma r_push_k: "R m m1 \<Longrightarrow> R m (push_k m1 kk)"
  by (auto simp: push_k_def Let_def cont_new_def intro: r_upd r_trans[OF _ r_node])

lemma r_relink: "R m m1 \<Longrightarrow> R m (m1\<lparr>conts := set_next (conts m1) p n\<rparr>)"
  by (erule r_trans) (rule r_next)

lemma r_mask:
  "krt2i_mask_push m s = (m', a) \<Longrightarrow> R m m'" "krt2i_mask_pop m a = Inr m' \<Longrightarrow> R m m'"
  "krt2i_mask_reinstate m a = Inr m' \<Longrightarrow> R m m'" "krt2i_mask_suspend m a = (m', b) \<Longrightarrow> R m m'"
  "discard_masks_to m x = Inr m' \<Longrightarrow> R m m'" "leave_blocking_region m = Inr m' \<Longrightarrow> R m m'"
  using mask_push_fields mask_pop_fields mask_reinstate_fields mask_suspend_fields discard_fields
  by (auto simp: same_store_def leave_blocking_region_def intro!: r_same split: if_splits)

lemma r_core: "core_step m m' \<Longrightarrow> R m m'"
  by (rule r_same, rule same_core)

lemma r_core_then: "R m m1 \<Longrightarrow> core_step m1 m2 \<Longrightarrow> R m m2"
  by (erule r_then, rule same_core)

lemma r_step_app: "R m m1 \<Longrightarrow> res_rel R m (step_app app m1 g x)"
  unfolding step_app_def
  by (intro res_rel_bind) (auto dest!: kapp_core intro!: r_upd intro: r_core_then)

lemma r_apply_reason: "R m m1 \<Longrightarrow> res_rel R m (apply_reason m1 r)"
  by (auto simp: apply_reason_def intro: res_rel_bind)

lemma r_begin_finseq: "R m m1 \<Longrightarrow> res_rel R m (begin_finseq m1 xs restore r drain)"
proof -
  assume m1: "R m m1"
  let ?m0 = "m1\<lparr>cur_exits := restore\<rparr>"
  obtain m2 f where p: "krt2i_mask_push ?m0 KMASK_MASKED = (m2, f)" by fastforce
  let ?m2 = "push_k m2 (KK_POPMASK f)"
  have m2: "R m ?m2" by (rule r_push_k[OF r_trans[OF r_upd(3)[OF m1] r_mask(1)[OF p]]])
  have "R m (push_k (?m2\<lparr>finseqs := (finseqs ?m2)(brk ?m2 \<mapsto> fs), brk := Suc (brk ?m2)\<rparr>) (KK_FINSEQ (brk ?m2)))" for fs
    by (rule r_push_k[OF r_trans[OF m2 r_finseq]])
  then show ?thesis unfolding begin_finseq_def Let_def p prod.case
    using m1 m2 by (auto split: sum.splits option.splits intro!: r_apply_reason r_upd)
qed

lemma r_begin_abandon: "R m m1 \<Longrightarrow> res_rel R m (begin_abandon_drain m1 r post)"
proof (cases "resums m1 r")
  case (Some rs)
  assume m1: "R m m1"
  let ?A = "\<lambda>x. m1\<lparr>aends := x, brk := Suc (brk m1)\<rparr>"
  let ?B = "\<lambda>x kk nx. (?A x)\<lparr>conts := (conts (?A x))(brk (?A x) \<mapsto> (kk, nx)), brk := Suc (brk (?A x))\<rparr>"
  have b: "R m (?A x)" for x using r_upd(4)[OF m1, of x] by (rule r_then) (simp add: same_store_def)
  have c: "R m (?B x kk nx\<lparr>conts := set_next (conts (?B x kk nx)) t0 n\<rparr>)" for x kk nx t0 n
    by (rule r_relink[OF r_trans[OF b r_node]])
  have "R m (install_dynamic_state (?B x kk nx\<lparr>conts := set_next (conts (?B x kk nx)) t0 n, drain_ae := d, kont := k\<rparr>) y)"
    for x kk nx t0 n d k y by (rule r_upd(15)[OF r_upd(2)[OF r_upd(5)[OF c]]])
  then show ?thesis using Some
    by (auto simp: begin_abandon_drain_def Let_def cont_new_def split: option.split)
qed (simp add: begin_abandon_drain_def)

lemma r_finish_abandon: "R m m1 \<Longrightarrow> res_rel R m (finish_abandon_drain m1 a nx live)"
  by (auto simp: finish_abandon_drain_def Let_def intro!: r_apply_reason r_upd split: option.split)

lemma r_backedge: "R m m1 \<Longrightarrow> res_rel R m (loop_backedge m1)"
  by (auto simp: loop_backedge_def Let_def intro!: r_upd)

lemma r_run_op_clause: "R m m1 \<Longrightarrow> res_rel R m (run_op_clause app m1 cl pl kb)"
  unfolding run_op_clause_def Let_def
  by (intro res_rel_bind) (auto dest!: kapp_core intro!: r_step_app intro: r_core_then)

lemmas r_rules = r_step_app r_begin_finseq r_begin_abandon r_finish_abandon r_backedge r_run_op_clause r_apply_reason

lemma r_finalizer: "R m m1 \<Longrightarrow> res_rel R m (kbind (finalizer_action_for_reason app m1 fin er) (\<lambda>(m2, e). step_cur m2 e))"
  by (intro res_rel_bind) (auto dest!: finalizer_core intro!: r_upd intro: r_core_then)

lemma r_deliver:
  "res_rel R (touch m (C_DELIVER v)) (deliver app m v)"
proof (cases "conts m (kont m)")
  case (Some c)
  obtain kk nx where c: "conts m (kont m) = Some (kk, nx)" using Some by (cases c) auto
  show ?thesis
  proof (cases kk)
    case (KK_POPMASK a)
    then show ?thesis using c by (simp add: deliver_def touch_def fin_top_def) (auto intro!: res_rel_bind r_upd dest!: r_mask(2))
  next
    case (KK_SETMASK a)
    then show ?thesis using c by (simp add: deliver_def touch_def fin_top_def) (auto intro!: res_rel_bind r_upd dest!: r_mask(3))
  next
    case KK_BLOCKING
    then show ?thesis using c by (simp add: deliver_def touch_def fin_top_def) (auto intro!: res_rel_bind r_upd dest!: r_mask(6))
  next
    case (KK_ABANDON r)
    then show ?thesis using c by (cases "resums m r") (simp_all add: deliver_def touch_def fin_top_def Let_def r_rules r_upd)
  next
    case (KK_FINSEQ a)
    show ?thesis
    proof (cases "finseqs m a")
      case (Some fs)
      show ?thesis
      proof (cases "fs_i fs \<ge> 0")
        case True
        then show ?thesis using c KK_FINSEQ Some r_finalizer[OF r_refl]
          by (cases "xss m (fs_xs fs)") (simp_all add: deliver_def touch_def fin_top_def deliver_finseq_def)
      next
        case False
        then show ?thesis using c KK_FINSEQ Some
          by (cases "fs_drain fs") (auto simp: deliver_def touch_def fin_top_def deliver_finseq_def Let_def split: option.split
              intro!: r_apply_reason r_upd)
      qed
    qed (use c KK_FINSEQ in \<open>simp add: deliver_def deliver_finseq_def\<close>)
  qed (simp_all add: deliver_def touch_def fin_top_def c Let_def r_rules r_upd)
qed (simp add: deliver_def)

lemma r_unwind: "res_rel R (touch m (C_UNWIND rk v)) (unwind app m rk v)"
proof (cases "conts m (kont m)")
  case (Some c)
  obtain kk nx where c: "conts m (kont m) = Some (kk, nx)" using Some by (cases c) auto
  show ?thesis
  proof (cases kk)
    case (KK_POPMASK a)
    then show ?thesis using c by (simp add: unwind_def touch_def fin_top_def) (auto intro!: res_rel_bind r_upd dest!: r_mask(2))
  next
    case (KK_SETMASK a)
    then show ?thesis using c by (simp add: unwind_def touch_def fin_top_def) (auto intro!: res_rel_bind r_upd dest!: r_mask(3))
  next
    case KK_BLOCKING
    then show ?thesis using c by (simp add: unwind_def touch_def fin_top_def) (auto intro!: res_rel_bind r_upd dest!: r_mask(6))
  next
    case (KK_ABANDON r)
    then show ?thesis using c by (cases "resums m r") (simp_all add: unwind_def touch_def fin_top_def Let_def r_rules r_upd)
  next
    case (KK_FINSEQ a)
    then show ?thesis using c by (cases "finseqs m a") (simp_all add: unwind_def touch_def fin_top_def r_upd)
  next
    case (KK_CATCH h)
    then show ?thesis using c
      by (simp add: unwind_def touch_def fin_top_def Let_def) (rule res_rel_bind, simp add: r_step_app r_upd split: option.split)
  next
    case KK_RETSCOPE
    then show ?thesis using c by (auto simp: unwind_def touch_def fin_top_def Let_def intro!: res_rel_bind r_upd)
  next
    case KK_DONE
    then show ?thesis using c by (auto simp: unwind_def touch_def fin_top_def Let_def intro!: res_rel_bind r_upd)
  qed (simp_all add: unwind_def touch_def fin_top_def c Let_def r_rules r_upd)
qed (simp add: unwind_def)

lemma r_perform_at: "res_rel R m (perform_at app m prev nx lab h d opv pl)"
proof -
  have t: "res_rel R m (perform_tail app m nx d cl pl)" for cl
    unfolding perform_tail_def Let_def by (intro r_run_op_clause r_upd r_resum)
  have s: "res_rel R m (perform_sever app m prev nx lab h d cl pl)" for cl
  proof -
    have "R m (m\<lparr>resums := (resums m)(brk m \<mapsto> rs), brk := Suc (brk m),
        conts := (case prev of None \<Rightarrow> conts m | Some p \<Rightarrow> set_next (conts m) p 0)\<rparr>)" for rs
      using r_relink[OF r_resum] r_resum by (auto split: option.split)
    then show ?thesis unfolding perform_sever_def sever_slice_def Let_def prod.case
      by (cases prev) (auto intro!: r_run_op_clause r_upd r_push_k)
  qed
  show ?thesis unfolding perform_at_def using t s by (cases opv) (auto intro!: res_rel_bind)
qed

lemma r_do_perform: "res_rel R m (do_perform app m lab opv pl prev c)"
proof (cases "conts m c")
  case (Some x)
  obtain kk nx where c: "conts m c = Some (kk, nx)" using Some by (cases x) auto
  show ?thesis
  proof (cases kk)
    case (KK_HANDLER l h d)
    then show ?thesis using c by (simp add: do_perform_def) (rule res_rel_bind, simp add: r_perform_at)
  next
    case KK_DONE
    then show ?thesis using c by (cases opv) (simp_all add: do_perform_def Let_def)
  qed (use c in \<open>simp_all add: do_perform_def\<close>)
qed (simp add: do_perform_def)

lemma r_resume_spliced: "R m m1 \<Longrightarrow> R m (resume_spliced m1 r rs)"
proof -
  assume m1: "R m m1"
  let ?c = "capture_dynamic_state m1"
  let ?m2 = "case r_handler rs of None \<Rightarrow> push_k m1 (KK_RESTORESTATE ?c)
    | Some (l, h) \<Rightarrow> push_k (push_k m1 (KK_RESTORESTATE ?c)) (KK_HANDLER l h ?c)"
  let ?m3 = "install_dynamic_state ?m2 (r_captured rs)"
  have m3: "R m ?m3" using m1 by (auto intro!: r_upd r_push_k split: option.split)
  have "R m (?m3\<lparr>conts := set_next (conts ?m3) t0 (kont ?m3), kont := h0\<rparr>)" for t0 h0
    by (rule r_upd(2)[OF r_relink[OF m3]])
  with m3 show ?thesis unfolding resume_spliced_def Let_def by (auto split: option.split)
qed

lemma r_do_resume: "res_rel R m (do_resume m kbox v)"
proof (cases kbox)
  case (KFgn p kind)
  have "res_rel R m (case resums m r of None \<Rightarrow> kundef | Some rs \<Rightarrow>
                if r_used rs then Inr (m, C_UNWIND RK_FAIL e)
                else let m0 = m\<lparr>resums := (resums m)(r \<mapsto> rs\<lparr>r_used := True\<rparr>)\<rparr> in
                  if r_tail_res rs then
                    (case r_head rs of
                       None \<Rightarrow> kundef
                     | Some h0 \<Rightarrow> kbind (discard_masks_to m0 (d_mask (r_prompt rs))) (\<lambda>m1.
                         Inr (install_dynamic_state (m1\<lparr>kont := h0\<rparr>) (r_captured rs), C_DELIVER v)))
                  else Inr (resume_spliced m0 r rs, C_DELIVER v))" for r e
  proof (cases "resums m r")
    case (Some rs)
    have m0: "R m (m\<lparr>resums := (resums m)(r \<mapsto> rs\<lparr>r_used := True\<rparr>)\<rparr>)" by (rule r_used[OF Some])
    then show ?thesis using Some
      by (auto simp: Let_def split: option.split intro!: res_rel_bind r_upd r_resume_spliced dest!: r_mask(5) intro: r_trans)
  qed simp
  then show ?thesis unfolding do_resume_def KFgn kval.case by (intro res_rel_bind)
qed (simp_all add: do_resume_def)

section \<open>Operations\<close>

lemma r_op_push: "res_rel R m (op_push m fr)"
  unfolding op_push_def by (intro res_rel_bind) (simp add: r_upd r_push_k)

lemma r_op_mask: "res_rel R m (op_mask app m s)"
proof -
  obtain m1 fr where p: "krt2i_mask_push m s = (m1, fr)" by fastforce
  show ?thesis unfolding op_mask_def Let_def p prod.case by (intro res_rel_bind r_step_app r_push_k r_mask(1)[OF p])
qed

lemma r_op_uninterruptible: "res_rel R m (op_uninterruptible m)"
proof -
  obtain m1 fr where p: "krt2i_mask_push m KMASK_UNINTERRUPTIBLE = (m1, fr)" by fastforce
  show ?thesis unfolding op_uninterruptible_def Let_def p prod.case
    by (intro res_rel_bind) (simp add: r_upd r_push_k r_mask(1)[OF p])
qed

lemma r_deliver_interrupt: "R m m1 \<Longrightarrow> res_rel R m (deliver_interrupt m1)"
  by (simp add: deliver_interrupt_def r_upd)

lemma r_op_restore: "res_rel R m (op_restore m)"
  unfolding op_restore_def
proof (intro res_rel_bind)
  fix tok fr
  obtain m1 s where s: "krt2i_mask_suspend m fr = (m1, s)" by fastforce
  have m2: "R m (if s then push_k m1 (KK_SETMASK fr) else m1)" using r_mask(4)[OF s] by (simp add: r_push_k)
  show "res_rel R m (let (m1, suspended) = krt2i_mask_suspend m fr;
           m2 = (if suspended then push_k m1 (KK_SETMASK fr) else m1) in
       kbind (kctor_arg (cur m) 0) (\<lambda>a.
         let m3 = m2\<lparr>cur := a\<rparr> in
         if suspended \<and> pending m3 \<and> krt2i_mask_interruptible m3 then deliver_interrupt m3
         else Inr (m3, C_STEP)))"
    unfolding s Let_def prod.case using m2
    by (intro res_rel_bind) (auto simp: deliver_interrupt_def intro!: r_upd simp del: if_split_eq1)
qed

lemma r_op_poll: "res_rel R m (op_poll m)"
  by (simp add: op_poll_def r_deliver_interrupt)

lemma r_op_defer: "res_rel R m (op_defer m)"
  unfolding op_defer_def
  by (auto split: option.splits prod.splits intro!: res_rel_bind dest!: abort_scope_core
      simp: exitstack_push_def kundef_def intro: r_core r_trans[OF r_core r_defer])

lemma r_op_abort_exit_fin: "res_rel R m (op_abort_exit_fin m)"
  unfolding op_abort_exit_fin_def
  by (auto split: prod.splits intro!: res_rel_bind r_upd dest!: abort_take_core intro: r_core)

lemma r_op_doscope: "res_rel R m (op_doscope m)"
  unfolding op_doscope_def exitstack_new_def Let_def prod.case
  by (intro res_rel_bind) (auto intro!: r_upd r_push_k r_stack)

lemma r_op_while: "res_rel R m (op_while m)"
  unfolding op_while_def Let_def by (intro res_rel_bind) (auto intro!: r_upd r_push_k)

lemma r_op_handle: "res_rel R m (op_handle m)"
  unfolding op_handle_def Let_def by (intro res_rel_bind) (auto intro!: r_upd r_push_k)

lemma r_fiber_local_set: "fiber_local_set m1 i v = Inr m' \<Longrightarrow> R m m1 \<Longrightarrow> R m m'"
  by (auto simp: fiber_local_set_def kundef_def intro: r_upd split: if_splits)

lemma r_op_fref: "res_rel R m (op_fref app G m p)"
  unfolding op_fref_def
  by (auto simp: fiber_ref_new_def intro!: res_rel_bind r_upd dest!: kapp_core elim!: r_fiber_local_set)
    (erule r_core)

lemma r_op_ref: "res_rel R m (op_ref m p)"
proof -
  have "R m (m\<lparr>refs := x, brk := Suc (brk m)\<rparr>)" for x
    by (rule r_same) (simp add: same_store_def)
  then show ?thesis unfolding op_ref_def
    by (auto simp: kref_new_def kref_set_def intro!: res_rel_bind r_upd split: kval.splits)
qed

lemma r_op_print: "res_rel R m (op_print m b)"
  unfolding op_print_def by (auto simp: emit_kstr_def kbind_eq_Inr intro!: res_rel_bind r_upd)

lemma r_step_other: "res_rel R m (step_other m)"
  unfolding step_other_def Let_def
  by (auto intro!: res_rel_bind r_upd r_push_k split: kval.splits)

lemma r_simple:
  "res_rel R m (kbind (kctor_arg (cur m) i) (\<lambda>v. Inr (m, f v)))"
  "res_rel R m (kbind (kctor_arg (cur m) 0) (\<lambda>b. step_cur (push_k m KK_RETSCOPE) b))"
  "res_rel R m (kbind (kctor_arg (cur m) 0) (\<lambda>k. kbind (kctor_arg (cur m) 1) (\<lambda>v. do_resume m k v)))"
  "res_rel R m (kbind (kctor_arg (cur m) 0) (\<lambda>l. kbind (kctor_arg (cur m) 1) (\<lambda>f.
     kbind (kctor_arg (cur m) 2) (\<lambda>x. Inr (m, C_SEARCH l f x None (kont m))))))"
  by (auto intro!: res_rel_bind r_upd r_push_k r_do_resume)

lemma res_rel_if: "res_rel R m x \<Longrightarrow> res_rel R m y \<Longrightarrow> res_rel R m (if b then x else y)"
  by simp

lemma r_same_res: "res_rel R m (Inr (m, c))"
  by simp

lemma r_step_op: "res_rel R m (step_op app G m)"
  unfolding step_op_def Let_def
  apply (rule res_rel_if, rule r_simple(1))
  apply (rule res_rel_if, rule r_op_push)
  apply (rule res_rel_if, rule r_op_push)
  apply (rule res_rel_if, rule r_op_push)
  apply (rule res_rel_if, rule r_simple(1))
  apply (rule res_rel_if, rule r_simple(1))
  apply (rule res_rel_if, rule r_op_print)
  apply (rule res_rel_if, rule r_op_print)
  apply (rule res_rel_if, rule r_same_res)
  apply (rule res_rel_if, rule r_same_res)
  apply (rule res_rel_if, rule r_op_uninterruptible)
  apply (rule res_rel_if, rule r_op_poll)
  apply (rule res_rel_if, rule r_op_mask)
  apply (rule res_rel_if, rule r_op_mask)
  apply (rule res_rel_if, rule r_op_restore)
  apply (rule res_rel_if, rule r_op_doscope)
  apply (rule res_rel_if, rule r_op_defer)
  apply (rule res_rel_if, rule r_op_abort_exit_fin)
  apply (rule res_rel_if, rule r_simple(1))
  apply (rule res_rel_if, rule r_simple(2))
  apply (rule res_rel_if, rule r_same_res)
  apply (rule res_rel_if, rule r_same_res)
  apply (rule res_rel_if, rule r_op_while)
  apply (rule res_rel_if, rule r_op_ref)
  apply (rule res_rel_if, rule r_op_fref)
  apply (rule res_rel_if, rule r_op_handle)
  apply (rule res_rel_if, rule r_simple(4))
  apply (rule res_rel_if, rule r_simple(3))
  by (rule r_step_other)

lemma r_trans_res: "R m m1 \<Longrightarrow> res_rel R m1 r \<Longrightarrow> res_rel R m r"
  by (auto simp: res_rel_def intro: r_trans)

lemma r_turn: "res_rel R m (fiber_step_turn app G m)"
proof -
  have m1: "R m (m\<lparr>resumed := False, safepoint_hit := False\<rparr>)" by (intro r_upd r_refl)
  show ?thesis unfolding fiber_step_turn_def
    by (rule res_rel_if, rule r_deliver_interrupt[OF m1], rule r_trans_res[OF m1 r_step_op])
qed

lemma mstep_rel: "mstep app G m c = Inr (m', c') \<Longrightarrow> R (touch m c) m'"
proof -
  have "res_rel R (touch m c) (mstep app G m c)"
  proof (cases c)
    case (C_DELIVER v) then show ?thesis by (simp add: mstep_def r_deliver)
  next
    case (C_UNWIND k v) then show ?thesis by (simp add: mstep_def r_unwind)
  qed (simp_all add: mstep_def touch_id r_turn r_do_perform)
  then show "mstep app G m c = Inr (m', c') \<Longrightarrow> R (touch m c) m'" by (simp add: res_rel_def)
qed

lemma r_bridge_return: "res_rel R m (bridge_return m bl r)"
  by (auto simp: bridge_return_def Let_def intro!: res_rel_bind r_deliver_interrupt r_upd split: kval.splits)

lemma r_drain_stack: "abort_exit_drain_stack m = Inr (m1, xs) \<Longrightarrow> R m m1"
proof -
  assume d: "abort_exit_drain_stack m = Inr (m1, xs)"
  have "m\<lparr>brk := Suc (brk m), xss := X\<rparr> = m\<lparr>xss := X, brk := Suc (brk m)\<rparr>" for X by simp
  then have "R m (m\<lparr>brk := Suc (brk m), xss := (xss m)(brk m \<mapsto> items)\<rparr>)" for items using r_stack[of m items] by metis
  then show ?thesis using d
    by (auto simp: abort_exit_drain_stack_def exitstack_new_def Let_def kundef_def intro!: r_upd split: if_splits)
qed

lemma r_scalar_abort: "res_rel R m (scalar_abort m)"
proof -
  let ?m = "m\<lparr>resumed := False, safepoint_hit := False, pending := False\<rparr>"
  have m: "R m ?m" by (intro r_upd r_refl)
  show ?thesis unfolding scalar_abort_def
    by (auto intro!: res_rel_bind r_begin_finseq split: option.split dest!: r_drain_stack r_trans[OF m])
qed

lemma env_rel: "env m c m' c' \<Longrightarrow> R m m'"
proof (induction rule: env.induct)
  case (e_push m a)
  then show ?case using abort_push_core[of m a] by (cases "krt2_abort_exit_push m a") (auto intro: r_core)
next
  case (e_return m bl r m' c')
  then show ?case using r_bridge_return[of m bl r] by (simp add: res_rel_def)
next
  case (e_abort m m' c')
  then show ?case using r_scalar_abort[of m] by (simp add: res_rel_def)
qed (auto simp: fiber_step_begin_def intro!: r_upd)

end

section \<open>Growth of the store\<close>

text \<open>Objects live at addresses below \<open>brk\<close>; a node keeps its kind, an exit stack only grows, a finalizer
  sequence moves in its own frame only, and a resumption changes only by being used.\<close>

definition fresh :: "mach \<Rightarrow> bool" where
  "fresh m \<longleftrightarrow> (\<forall>a\<ge>brk m. conts m a = None \<and> resums m a = None \<and> finseqs m a = None \<and> xss m a = None)"

definition grows :: "mach \<Rightarrow> mach \<Rightarrow> bool" where
  "grows m m' \<longleftrightarrow> brk m \<le> brk m' \<and>
     (\<forall>a<brk m. map_option fst (conts m' a) = map_option fst (conts m a)) \<and>
     (\<forall>a<brk m. finseqs m' a = finseqs m a) \<and>
     (\<forall>a<brk m. \<forall>items. xss m a = Some items \<longrightarrow> (\<exists>ys. xss m' a = Some (items @ ys))) \<and>
     (\<forall>a<brk m. case resums m a of None \<Rightarrow> resums m' a = None
        | Some rs \<Rightarrow> resums m' a = Some rs \<or> resums m' a = Some (rs\<lparr>r_used := True\<rparr>))"

definition store_step :: "mach \<Rightarrow> mach \<Rightarrow> bool" where
  "store_step m m' \<longleftrightarrow> (fresh m \<longrightarrow> fresh m' \<and> grows m m')"

lemma grows_same: "same_store m m' \<Longrightarrow> store_step m m'"
  by (auto simp: store_step_def same_store_def fresh_def grows_def split: option.split)

lemma grows_trans:
  assumes a: "grows m m1" and b: "grows m1 m2" shows "grows m m2"
proof -
  have l: "x < brk m1" if "x < brk m" for x using a that by (auto simp: grows_def)
  have "\<exists>ys. xss m2 x = Some (items @ ys)" if i: "x < brk m" "xss m x = Some items" for x items
  proof -
    obtain ys where "xss m1 x = Some (items @ ys)" using a i unfolding grows_def by blast
    then obtain zs where "xss m2 x = Some ((items @ ys) @ zs)" using b l[OF i(1)] unfolding grows_def by blast
    then show ?thesis by simp
  qed
  moreover have "case resums m x of None \<Rightarrow> resums m2 x = None
      | Some rs \<Rightarrow> resums m2 x = Some rs \<or> resums m2 x = Some (rs\<lparr>r_used := True\<rparr>)" if i: "x < brk m" for x
  proof -
    have "case resums m x of None \<Rightarrow> resums m1 x = None
      | Some rs \<Rightarrow> resums m1 x = Some rs \<or> resums m1 x = Some (rs\<lparr>r_used := True\<rparr>)" using a i by (simp add: grows_def)
    moreover have "case resums m1 x of None \<Rightarrow> resums m2 x = None
      | Some rs \<Rightarrow> resums m2 x = Some rs \<or> resums m2 x = Some (rs\<lparr>r_used := True\<rparr>)" using b l[OF i] by (simp add: grows_def)
    ultimately show ?thesis by (cases "resums m x") auto
  qed
  moreover have "brk m \<le> brk m2 \<and> (\<forall>x<brk m. map_option fst (conts m2 x) = map_option fst (conts m x)) \<and>
      (\<forall>x<brk m. finseqs m2 x = finseqs m x)"
    using a b l by (simp add: grows_def)
  ultimately show ?thesis unfolding grows_def by blast
qed

interpretation gr: store_rel store_step
proof
  show "store_step m m1 \<Longrightarrow> store_step m1 m2 \<Longrightarrow> store_step m m2" for m m1 m2
    by (auto simp: store_step_def intro: grows_trans)
  show "store_step m (m\<lparr>conts := set_next (conts m) p n\<rparr>)" for m p n
    by (auto simp: store_step_def fresh_def grows_def set_next_def split: option.split prod.split)
  show "store_step m (m\<lparr>xss := (xss m)(s \<mapsto> items @ [x])\<rparr>)" if "xss m s = Some items" for m s items x
    using that by (auto simp: store_step_def fresh_def grows_def split: option.split)
  show "store_step m (m\<lparr>resums := (resums m)(r \<mapsto> rs\<lparr>r_used := True\<rparr>)\<rparr>)" if "resums m r = Some rs" for m r rs
    using that by (auto simp: store_step_def fresh_def grows_def split: option.split)
  show "store_step m m'" if "same_store m m'" for m m' by (rule grows_same[OF that])
qed (auto simp: store_step_def fresh_def grows_def split: option.split)

lemma fresh_below:
  "fresh m \<Longrightarrow> finseqs m a = Some fs \<Longrightarrow> a < brk m" "fresh m \<Longrightarrow> xss m a = Some xs \<Longrightarrow> a < brk m"
  "fresh m \<Longrightarrow> resums m a = Some rs \<Longrightarrow> a < brk m" "fresh m \<Longrightarrow> conts m a = Some n \<Longrightarrow> a < brk m"
  by (auto simp: fresh_def leI not_le[symmetric])

lemma fin_top_Some: "fin_top m = Some (b, fs) \<Longrightarrow> finseqs m b = Some fs"
  by (auto simp: fin_top_def split: option.splits kkind.splits)

lemma fresh_touch: "fresh m \<Longrightarrow> fresh (touch m c)"
proof (cases "fin_top m")
  case (Some t)
  assume m: "fresh m"
  obtain b fs where t: "fin_top m = Some (b, fs)" using Some by (cases t) auto
  have "fresh (m\<lparr>finseqs := (finseqs m)(b \<mapsto> fs')\<rparr>)" for fs'
    using m fresh_below(1)[OF m fin_top_Some[OF t]] by (auto simp: fresh_def)
  then show ?thesis using m t by (cases c) (simp_all add: touch_def)
qed (simp add: touch_def)

lemma mstep_fresh: "mstep app G m c = Inr (m', c') \<Longrightarrow> fresh m \<Longrightarrow> fresh m'"
  using gr.mstep_rel[of app G m c m' c'] fresh_touch[of m c] by (simp add: store_step_def)

lemma env_fresh: "env m c m' c' \<Longrightarrow> fresh m \<Longrightarrow> fresh m'"
  using gr.env_rel[of m c m' c'] by (simp add: store_step_def)

lemma mreach_fresh: "mreach app G m c \<Longrightarrow> fresh m"
  by (induction rule: mreach.induct) (auto simp: fresh_def[of "fiber_step_begin m" for m] intro: mstep_fresh env_fresh)

section \<open>Paths of a fiber\<close>

text \<open>What a step means for the finalizer sequence \<open>a\<close>: it starts an exit action, records a failure, or is
  left with its reason.\<close>

datatype fin_ev = Ev_run kval | Ev_fail reason | Ev_done reason

definition fin_event :: "nat \<Rightarrow> mach \<Rightarrow> ctl \<Rightarrow> fin_ev list" where
  "fin_event a m c =
     (case fin_top m of
        None \<Rightarrow> []
      | Some (b, fs) \<Rightarrow>
          if b \<noteq> a then []
          else case c of
            C_DELIVER v \<Rightarrow> if fs_i fs \<ge> 0 then [Ev_run (the (xss m (fs_xs fs)) ! nat (fs_i fs))] else [Ev_done (fs_r fs)]
          | C_UNWIND rk v \<Rightarrow> [Ev_fail (rk, v)]
          | _ \<Rightarrow> [])"

text \<open>Runs of the machine in any environment, with the events of sequence \<open>a\<close>.\<close>

inductive fpath :: "kapp_fn \<Rightarrow> gmp \<Rightarrow> nat \<Rightarrow> mach \<Rightarrow> ctl \<Rightarrow> fin_ev list \<Rightarrow> mach \<Rightarrow> ctl \<Rightarrow> bool" for app G a m0 c0 where
  fp_refl: "fpath app G a m0 c0 [] m0 c0"
| fp_step: "fpath app G a m0 c0 evs m c \<Longrightarrow> mstep app G m c = Inr (m', c') \<Longrightarrow>
    fpath app G a m0 c0 (evs @ fin_event a m c) m' c'"
| fp_env: "fpath app G a m0 c0 evs m c \<Longrightarrow> env m c m' c' \<Longrightarrow> fpath app G a m0 c0 evs m' c'"

text \<open>Some turns of a run.\<close>

fun frun :: "kapp_fn \<Rightarrow> gmp \<Rightarrow> nat \<Rightarrow> nat \<Rightarrow> mach \<Rightarrow> ctl \<Rightarrow> (fin_ev list \<times> mach \<times> ctl) kres" where
  "frun app G a 0 m c = Inr ([], m, c)"
| "frun app G a (Suc n) m c =
     kbind (frun app G a n m c) (\<lambda>(evs, m1, c1). kbind (mstep app G m1 c1) (\<lambda>(m2, c2). Inr (evs @ fin_event a m1 c1, m2, c2)))"

lemma frun_fpath: "frun app G a n m0 c0 = Inr (evs, m, c) \<Longrightarrow> fpath app G a m0 c0 evs m c"
  by (induction n arbitrary: evs m c) (auto simp: kbind_eq_Inr intro: fp_refl fp_step)

lemma frun_mreach: "frun app G a n m0 c0 = Inr (evs, m, c) \<Longrightarrow> mreach app G m0 c0 \<Longrightarrow> mreach app G m c"
  by (induction n arbitrary: evs m c) (auto simp: kbind_eq_Inr intro: mr_step)

end
