(* ===== verification/Kappa_Finally.thy ===== *)
theory Kappa_Finally
  imports Kappa_Store Kappa_Int
begin

text \<open>
  Exit actions of a do-scope (\<open>defer\<close>, \<open>using\<close>, \<open>finally\<close>). Leaving the scope, with a value or with a
  reason, starts a finalizer sequence over the actions registered in it; whatever the actions do and
  whatever the environment of the fiber does meanwhile, each of them is started at most once, the last
  registered first, and the fiber continues only when all have run, with the reason it left the scope
  with and the failures of the actions composed onto it from the left.
\<close>

section \<open>Events of a sequence\<close>

definition ev_runs :: "fin_ev list \<Rightarrow> kval list" where
  "ev_runs evs = List.map_filter (\<lambda>e. case e of Ev_run x \<Rightarrow> Some x | _ \<Rightarrow> None) evs"

definition ev_fails :: "fin_ev list \<Rightarrow> reason list" where
  "ev_fails evs = List.map_filter (\<lambda>e. case e of Ev_fail r \<Rightarrow> Some r | _ \<Rightarrow> None) evs"

lemma ev_simps [simp]:
  "ev_runs [] = []" "ev_runs (xs @ ys) = ev_runs xs @ ev_runs ys" "ev_runs [Ev_run x] = [x]" "ev_runs [Ev_fail r] = []"
  "ev_runs [Ev_done r] = []" "ev_fails [] = []" "ev_fails (xs @ ys) = ev_fails xs @ ev_fails ys" "ev_fails [Ev_run x] = []"
  "ev_fails [Ev_fail r] = [r]" "ev_fails [Ev_done r] = []"
  by (simp_all add: ev_runs_def ev_fails_def List.map_filter_def)

text \<open>Every end of the sequence so far came after all its actions, with the composed reason.\<close>

definition dones_ok :: "kval list \<Rightarrow> reason \<Rightarrow> fin_ev list \<Rightarrow> bool" where
  "dones_ok items r evs \<longleftrightarrow>
     (\<forall>pre x post. evs = pre @ Ev_done x # post \<longrightarrow> ev_runs pre = rev items \<and> x = foldl compose_reason_into r (ev_fails pre))"

lemma dones_ok_Nil [simp]: "dones_ok items r []"
  by (simp add: dones_ok_def)

lemma dones_ok_snoc:
  "dones_ok items r evs \<Longrightarrow> (\<And>x. e = Ev_done x \<Longrightarrow> ev_runs evs = rev items \<and> x = foldl compose_reason_into r (ev_fails evs)) \<Longrightarrow>
   dones_ok items r (evs @ [e])"
  unfolding dones_ok_def
proof (intro allI impI)
  fix pre x post
  assume a: "\<forall>pre x post. evs = pre @ Ev_done x # post \<longrightarrow> ev_runs pre = rev items \<and> x = foldl compose_reason_into r (ev_fails pre)"
    and e: "\<And>x. e = Ev_done x \<Longrightarrow> ev_runs evs = rev items \<and> x = foldl compose_reason_into r (ev_fails evs)"
    and s: "evs @ [e] = pre @ Ev_done x # post"
  show "ev_runs pre = rev items \<and> x = foldl compose_reason_into r (ev_fails pre)"
  proof (cases post rule: rev_cases)
    case Nil
    then show ?thesis using s e by simp
  next
    case (snoc ys y)
    then have "evs = pre @ Ev_done x # ys" using s by simp
    then show ?thesis using a by blast
  qed
qed

section \<open>The progress of a sequence\<close>

definition fin_progress :: "kval list \<Rightarrow> finseq \<Rightarrow> nat \<Rightarrow> fin_ev list \<Rightarrow> mach \<Rightarrow> bool" where
  "fin_progress items fs0 a evs m \<longleftrightarrow>
     fresh m \<and>
     (\<exists>k\<le>length items. \<exists>ys.
        finseqs m a = Some (fs0\<lparr>fs_i := int (length items) - 1 - int k, fs_r := foldl compose_reason_into (fs_r fs0) (ev_fails evs)\<rparr>) \<and>
        xss m (fs_xs fs0) = Some (items @ ys) \<and> ev_runs evs = take k (rev items)) \<and>
     dones_ok items (fs_r fs0) evs"

lemma progress_grow:
  assumes p: "fin_progress items fs0 a evs m" and g: "store_step m m'"
  shows "fin_progress items fs0 a evs m'"
proof -
  obtain k ys where k: "k \<le> length items" "ev_runs evs = take k (rev items)"
    and f: "finseqs m a = Some (fs0\<lparr>fs_i := int (length items) - 1 - int k, fs_r := foldl compose_reason_into (fs_r fs0) (ev_fails evs)\<rparr>)"
    and x: "xss m (fs_xs fs0) = Some (items @ ys)" and m: "fresh m" "dones_ok items (fs_r fs0) evs"
    using p unfolding fin_progress_def by blast
  have g': "fresh m'" "grows m m'" using g m(1) by (simp_all add: store_step_def)
  have "finseqs m' a = finseqs m a" using g'(2) fresh_below(1)[OF m(1) f] by (simp add: grows_def)
  moreover obtain zs where "xss m' (fs_xs fs0) = Some ((items @ ys) @ zs)"
    using g'(2) fresh_below(2)[OF m(1) x] x unfolding grows_def by blast
  ultimately have "finseqs m' a = Some (fs0\<lparr>fs_i := int (length items) - 1 - int k, fs_r := foldl compose_reason_into (fs_r fs0) (ev_fails evs)\<rparr>)"
    "xss m' (fs_xs fs0) = Some (items @ (ys @ zs))" using f by simp_all
  then show ?thesis unfolding fin_progress_def using k g'(1) m(2) by blast
qed

lemma take_Suc_rev: "k < length xs \<Longrightarrow> take k (rev xs) @ [xs ! (length xs - 1 - k)] = take (Suc k) (rev xs)"
  by (simp add: take_Suc_conv_app_nth rev_nth)

lemma progress_touch:
  assumes p: "fin_progress items fs0 a evs m"
  shows "fin_progress items fs0 a (evs @ fin_event a m c) (touch m c)"
proof (cases "fin_top m")
  case (Some t)
  obtain b fs where t: "fin_top m = Some (b, fs)" using Some by (cases t) auto
  have b: "finseqs m b = Some fs" by (rule fin_top_Some[OF t])
  obtain k ys where k: "k \<le> length items" "ev_runs evs = take k (rev items)"
    and f: "finseqs m a = Some (fs0\<lparr>fs_i := int (length items) - 1 - int k, fs_r := foldl compose_reason_into (fs_r fs0) (ev_fails evs)\<rparr>)"
    and x: "xss m (fs_xs fs0) = Some (items @ ys)" and m: "fresh m" "dones_ok items (fs_r fs0) evs"
    using p unfolding fin_progress_def by blast
  have fr: "fresh (m\<lparr>finseqs := (finseqs m)(b \<mapsto> fs')\<rparr>)" for fs'
    using m(1) fresh_below(1)[OF m(1) b] by (auto simp: fresh_def)
  show ?thesis
  proof (cases "b = a")
    case False
    then show ?thesis using t k f x m fr by (cases c) (auto simp: touch_def fin_event_def fin_progress_def)
  next
    case True
    then have fs: "fs = fs0\<lparr>fs_i := int (length items) - 1 - int k, fs_r := foldl compose_reason_into (fs_r fs0) (ev_fails evs)\<rparr>"
      using b f by simp
    show ?thesis
    proof (cases c)
      case (C_DELIVER v)
      show ?thesis
      proof (cases "k < length items")
        case True
        let ?i = "length items - 1 - k"
        have i: "?i < length items" using True by arith
        have n: "nat (int (length items) - 1 - int k) = ?i" "int (length items) - 1 - int k \<ge> 0" using True by simp_all
        have e: "fin_event a m c = [Ev_run (items ! ?i)]"
          using t \<open>b = a\<close> C_DELIVER x n i by (simp add: fin_event_def fs nth_append del: diff_Suc_1)
        have "finseqs (touch m c) a = Some (fs0\<lparr>fs_i := int (length items) - 1 - int (Suc k),
            fs_r := foldl compose_reason_into (fs_r fs0) (ev_fails (evs @ fin_event a m c))\<rparr>)"
          using t \<open>b = a\<close> C_DELIVER n(2) by (cases fs0) (simp add: touch_def fs e[unfolded C_DELIVER])
        moreover have "ev_runs (evs @ fin_event a m c) = take (Suc k) (rev items)"
          using k(2) take_Suc_rev[OF True] by (simp add: e)
        moreover have "fresh (touch m c)" "xss (touch m c) (fs_xs fs0) = Some (items @ ys)"
          using t fr m(1) x C_DELIVER by (simp_all add: touch_def)
        ultimately show ?thesis unfolding fin_progress_def using True dones_ok_snoc[OF m(2)] e
          by (metis Suc_leI fin_ev.distinct(3))
      next
        case False
        then have kl: "k = length items" using k(1) by simp
        have e: "fin_event a m c = [Ev_done (fs_r fs)]" "touch m c = m"
          using t \<open>b = a\<close> C_DELIVER kl by (simp_all add: fin_event_def touch_def fs)
        have "dones_ok items (fs_r fs0) (evs @ fin_event a m c)" unfolding e
          by (rule dones_ok_snoc[OF m(2)]) (use k(2) kl in \<open>simp add: fs\<close>)
        then show ?thesis using k f x m(1) e unfolding fin_progress_def by auto
      qed
    next
      case (C_UNWIND rk v)
      have e: "fin_event a m c = [Ev_fail (rk, v)]" using t \<open>b = a\<close> C_UNWIND by (simp add: fin_event_def)
      have "dones_ok items (fs_r fs0) (evs @ fin_event a m c)" unfolding e by (rule dones_ok_snoc[OF m(2)]) simp
      moreover have "finseqs (touch m c) a = Some (fs0\<lparr>fs_i := int (length items) - 1 - int k,
          fs_r := foldl compose_reason_into (fs_r fs0) (ev_fails (evs @ fin_event a m c))\<rparr>)"
        using t \<open>b = a\<close> C_UNWIND by (cases fs0) (simp add: touch_def fs e[unfolded C_UNWIND])
      moreover have "fresh (touch m c)" "xss (touch m c) (fs_xs fs0) = Some (items @ ys)"
        using t fr x C_UNWIND by (simp_all add: touch_def)
      ultimately show ?thesis unfolding fin_progress_def using k by (auto simp: e)
    qed (use t p in \<open>simp_all add: fin_event_def\<close>)
  qed
qed (use p in \<open>simp add: touch_def fin_event_def\<close>)

lemma progress_path:
  "fpath app G a m0 c0 evs m c \<Longrightarrow> fin_progress items fs0 a [] m0 \<Longrightarrow> fin_progress items fs0 a evs m"
proof (induction rule: fpath.induct)
  case (fp_step evs m c m' c')
  then show ?case using progress_grow[OF progress_touch gr.mstep_rel] by blast
next
  case (fp_env evs m c m' c')
  then show ?case using progress_grow gr.env_rel by blast
qed

section \<open>Leaving a do-scope\<close>

lemma begin_finseq_progress:
  assumes m: "fresh m" and x: "xss m s = Some items" "items \<noteq> []"
    and b: "begin_finseq m (Some s) restore r None = Inr (m0, c0)" and a: "conts m0 (kont m0) = Some (KK_FINSEQ a, n)"
  shows "fin_progress items \<lparr>fs_xs = s, fs_i = int (length items) - 1, fs_r = r, fs_origin = r, fs_drain = None\<rparr> a [] m0"
proof -
  let ?fs = "\<lparr>fs_xs = s, fs_i = int (length items) - 1, fs_r = r, fs_origin = r, fs_drain = None\<rparr>"
  obtain m1 f where p: "krt2i_mask_push (m\<lparr>cur_exits := restore\<rparr>) KMASK_MASKED = (m1, f)" by fastforce
  note q = mask_push_fields[OF p]
  have m0: "m0 = (push_k ((push_k m1 (KK_POPMASK f))\<lparr>finseqs := (finseqs m1)(Suc (brk m1) \<mapsto> ?fs), brk := Suc (Suc (brk m1))\<rparr>)
      (KK_FINSEQ (Suc (brk m1))))\<lparr>cur := krt2_pure kunit\<rparr>"
    using b x by (simp add: begin_finseq_def p Let_def step_cur_def)
  have "res_rel store_step m (begin_finseq m (Some s) restore r None)" by (intro gr.r_begin_finseq gr.r_refl)
  then have f0: "fresh m0" using m b by (simp add: res_rel_def store_step_def)
  have "a = Suc (brk m1)" using a by (simp add: m0 push_k_def cont_new_def)
  then have "finseqs m0 a = Some ?fs" "xss m0 s = Some (items @ [])" using q x by (simp_all add: m0)
  with f0 show ?thesis unfolding fin_progress_def by (intro conjI exI[of _ 0] exI[of _ "[]"]) simp_all
qed

text \<open>A do-scope left with \<open>r\<close>: a value is delivered to its frame, or a reason other than a drain
  reaches it.\<close>

definition leaves_scope :: "mach \<Rightarrow> ctl \<Rightarrow> nat \<Rightarrow> reason \<Rightarrow> bool" where
  "leaves_scope m c s r \<longleftrightarrow>
     (case conts m (kont m) of
        Some (KK_DOSCOPE xs restore, nx) \<Rightarrow> xs = s \<and>
          (case c of C_DELIVER v \<Rightarrow> r = (RK_NORMAL, Some v) | C_UNWIND rk v \<Rightarrow> rk \<noteq> RK_DRAIN \<and> r = (rk, v) | _ \<Rightarrow> False)
      | _ \<Rightarrow> False)"

lemma leaves_scope_step:
  assumes "leaves_scope m c s r"
  obtains restore nx where "mstep app G m c = begin_finseq (m\<lparr>kont := nx\<rparr>) (Some s) restore r None"
  using assms by (cases c)
    (auto simp: leaves_scope_def mstep_def deliver_def unwind_def Let_def split: option.splits kkind.splits prod.splits)

text \<open>What the events stand for.\<close>

lemma progress_event:
  assumes p: "fin_progress items fs0 a evs m" and t: "conts m (kont m) = Some (KK_FINSEQ a, nx)" and d: "fs_drain fs0 = None"
  shows "fin_event a m c = [Ev_run x] \<Longrightarrow> mstep app G m c =
      kbind (finalizer_action_for_reason app (touch m c) x (fs_origin fs0)) (\<lambda>(m2, e). step_cur m2 e)"
    and "fin_event a m c = [Ev_done r] \<Longrightarrow> mstep app G m c = apply_reason (m\<lparr>kont := nx\<rparr>) r"
proof -
  obtain k ys r0 where k: "k \<le> length items" and x: "xss m (fs_xs fs0) = Some (items @ ys)"
    and f: "finseqs m a = Some (fs0\<lparr>fs_i := int (length items) - 1 - int k, fs_r := r0\<rparr>)"
    using p unfolding fin_progress_def by blast
  have top_a: "fin_top m = Some (a, fs0\<lparr>fs_i := int (length items) - 1 - int k, fs_r := r0\<rparr>)" using t f by (simp add: fin_top_def)
  have s: "mstep app G m (C_DELIVER v) = deliver_finseq app m a nx" for v using t by (simp add: mstep_def deliver_def)
  show "mstep app G m c = kbind (finalizer_action_for_reason app (touch m c) x (fs_origin fs0)) (\<lambda>(m2, e). step_cur m2 e)"
    if e: "fin_event a m c = [Ev_run x]"
  proof -
    obtain v where c: "c = C_DELIVER v" and kl: "k < length items" and v: "x = (items @ ys) ! nat (int (length items) - 1 - int k)"
      using e top_a x by (cases c) (auto simp: fin_event_def split: if_splits)
    have n: "\<not> length (items @ ys) \<le> nat (int (length items) - 1 - int k)" using kl by simp
    show ?thesis unfolding c s using f x kl v top_a n by (simp add: deliver_finseq_def touch_def)
  qed
  show "mstep app G m c = apply_reason (m\<lparr>kont := nx\<rparr>) r" if e: "fin_event a m c = [Ev_done r]"
  proof -
    obtain v where c: "c = C_DELIVER v" and kl: "\<not> k < length items" and v: "r = r0"
      using e top_a by (cases c) (auto simp: fin_event_def split: if_splits)
    show ?thesis unfolding c s using f kl v d by (simp add: deliver_finseq_def)
  qed
qed

text \<open>C13: A do-scope with registered exit actions \<open>items\<close> is left with \<open>r\<close> by a reachable fiber. In every
  run from there, whatever the exit actions do and the environment of the fiber does, the exit actions
  started so far are a prefix of the registered ones in reverse order, each started once; and whenever
  the sequence ends, all of them have been started, and it ends with \<open>r\<close> composed with the failures the
  actions ended with, in the order they occurred and from the left. Starting an exit action runs it on
  the exit value of \<open>r\<close>; ending applies the composed reason below the sequence's frame.\<close>
theorem exit_actions_once_lifo:
  assumes "mreach app G m c" "leaves_scope m c s r" "xss m s = Some items" "items \<noteq> []"
    and "mstep app G m c = Inr (m0, c0)" "conts m0 (kont m0) = Some (KK_FINSEQ a, n)"
    and "fpath app G a m0 c0 evs m1 c1"
  shows "(\<exists>k\<le>length items. ev_runs evs = take k (rev items)) \<and>
    (\<forall>pre x post. evs = pre @ Ev_done x # post \<longrightarrow> ev_runs pre = rev items \<and> x = compose_all r (ev_fails pre)) \<and>
    (\<forall>nx. conts m1 (kont m1) = Some (KK_FINSEQ a, nx) \<longrightarrow>
      (\<forall>x. fin_event a m1 c1 = [Ev_run x] \<longrightarrow> mstep app G m1 c1 =
         kbind (finalizer_action_for_reason app (touch m1 c1) x r) (\<lambda>(m2, e). step_cur m2 e)) \<and>
      (\<forall>x. fin_event a m1 c1 = [Ev_done x] \<longrightarrow> mstep app G m1 c1 = apply_reason (m1\<lparr>kont := nx\<rparr>) x))"
proof -
  obtain restore nx where b: "begin_finseq (m\<lparr>kont := nx\<rparr>) (Some s) restore r None = Inr (m0, c0)"
    using leaves_scope_step[OF assms(2)] assms(5) by metis
  have f: "fresh (m\<lparr>kont := nx\<rparr>)" using mreach_fresh[OF assms(1)] by (simp add: fresh_def)
  let ?fs = "\<lparr>fs_xs = s, fs_i = int (length items) - 1, fs_r = r, fs_origin = r, fs_drain = None\<rparr>"
  have "fin_progress items ?fs a [] m0" by (rule begin_finseq_progress[OF f _ _ b]) (use assms in simp_all)
  from progress_path[OF assms(7) this] have p: "fin_progress items ?fs a evs m1" .
  from progress_event[OF p] p show ?thesis unfolding fin_progress_def dones_ok_def compose_foldl by auto
qed

text \<open>A scope with two actions, the first of which fails.\<close>

definition two_actions :: mach where
  "two_actions = fiber_step_begin (fiber_new 7 (krt2_doscope (krt2_then (krt2_defer (krt2_throw (KStr [65])))
     (krt2_then (krt2_defer (krt2_pure kunit)) (krt2_pure kunit)))))"

definition token_action :: "nat \<Rightarrow> kval" where
  "token_action p = krt2_abort_exit_finalizer (KFgn p KRT2_KIND_ABORT_EXIT)"

definition two_run :: "(mach \<times> ctl \<times> mach \<times> ctl \<times> fin_ev list \<times> mach \<times> ctl) kres" where
  "two_run =
     kbind (frun (\<lambda>_ _. kundef) gmp_ref 9 8 two_actions C_STEP) (\<lambda>(_, m, c).
     kbind (mstep (\<lambda>_ _. kundef) gmp_ref m c) (\<lambda>(m0, c0).
     kbind (frun (\<lambda>_ _. kundef) gmp_ref 9 9 m0 c0) (\<lambda>(evs, m1, c1). Inr (m, c, m0, c0, evs, m1, c1))))"

lemma two_actions_run:
  "case two_run of Inl _ \<Rightarrow> False | Inr (m, c, m0, c0, evs, m1, c1) \<Rightarrow>
     leaves_scope m c 1 (RK_NORMAL, Some kunit) \<and> xss m 1 = Some [token_action 4, token_action 6] \<and>
     conts m0 (kont m0) = Some (KK_FINSEQ 9, 8) \<and>
     evs = [Ev_run (token_action 6), Ev_run (token_action 4), Ev_fail (RK_FAIL, Some (KStr [65])),
       Ev_done (RK_RERAISE, Some (krt2_cause_fail (KStr [65])))]"
  by code_simp

lemma exit_actions_once_lifo_witness:
  "case two_run of Inl _ \<Rightarrow> False | Inr (m, c, m0, c0, evs, m1, c1) \<Rightarrow>
     xss m 1 = Some [token_action 4, token_action 6] \<and>
     evs = [Ev_run (token_action 6), Ev_run (token_action 4), Ev_fail (RK_FAIL, Some (KStr [65])),
       Ev_done (RK_RERAISE, Some (krt2_cause_fail (KStr [65])))] \<and>
     (\<forall>pre x post. evs = pre @ Ev_done x # post \<longrightarrow>
        ev_runs pre = rev [token_action 4, token_action 6] \<and> x = compose_all (RK_NORMAL, Some kunit) (ev_fails pre))"
proof -
  let ?A = "\<lambda>_ _. kundef :: kval kres"
  obtain m c m0 c0 evs m1 c1 where r: "two_run = Inr (m, c, m0, c0, evs, m1, c1)"
    using two_actions_run by (auto split: sum.splits)
  note l = two_actions_run[unfolded r sum.case prod.case, THEN conjunct1]
    two_actions_run[unfolded r sum.case prod.case, THEN conjunct2, THEN conjunct1]
    and ke = two_actions_run[unfolded r sum.case prod.case, THEN conjunct2, THEN conjunct2]
  note k = ke[THEN conjunct1] and e = ke[THEN conjunct2]
  obtain e0 where 1: "frun ?A gmp_ref 9 8 two_actions C_STEP = Inr (e0, m, c)" and 2: "mstep ?A gmp_ref m c = Inr (m0, c0)"
    and 3: "frun ?A gmp_ref 9 9 m0 c0 = Inr (evs, m1, c1)"
    using r by (auto simp: two_run_def kbind_eq_Inr)
  have "mreach ?A gmp_ref m c" by (rule frun_mreach[OF 1]) (simp add: two_actions_def mr_start)
  from exit_actions_once_lifo[OF this l _ 2 k frun_fpath[OF 3]] have
    "\<forall>pre x post. evs = pre @ Ev_done x # post \<longrightarrow>
       ev_runs pre = rev [token_action 4, token_action 6] \<and> x = compose_all (RK_NORMAL, Some kunit) (ev_fails pre)" by simp
  then show ?thesis unfolding r sum.case prod.case using l(2) e by (intro conjI)
qed

end
