(* ===== verification/Kappa_Effects.thy ===== *)
theory Kappa_Effects
  imports Kappa_Store Kappa_Int
begin

text \<open>
  Effect handlers and their one-shot resumptions (\<open>do_perform\<close>, \<open>do_resume\<close> of \<open>runtime/rt.c\<close>), and the
  frames of \<open>catch\<close>. A \<open>perform\<close> finds the nearest handler of its label; the frames between are severed
  and kept by the resumption, and resuming puts the same frames back over the resumer's continuation,
  with the dynamic state of the operation; a resumption works once.
\<close>

section \<open>Frames on the stack\<close>

text \<open>The nodes from \<open>k\<close> up to, and without, \<open>e\<close>.\<close>

fun kpath :: "(nat \<rightharpoonup> kkind \<times> nat) \<Rightarrow> nat \<Rightarrow> (nat \<times> kkind) list \<Rightarrow> nat \<Rightarrow> bool" where
  "kpath h k [] e \<longleftrightarrow> k = e"
| "kpath h k ((a, kk) # fs) e \<longleftrightarrow> k = a \<and> (case h a of None \<Rightarrow> False | Some (kk', nx) \<Rightarrow> kk' = kk \<and> kpath h nx fs e)"

lemma kpath_append: "kpath h k (xs @ ys) e \<longleftrightarrow> (\<exists>x. kpath h k xs x \<and> kpath h x ys e)"
  by (induction h k xs e rule: kpath.induct) (auto split: option.splits)

lemma kpath_cong: "(\<And>a. a \<in> fst ` set fs \<Longrightarrow> h' a = h a) \<Longrightarrow> kpath h' k fs e = kpath h k fs e"
  by (induction h k fs e rule: kpath.induct) (auto split: option.split)

lemma kpath_dom: "kpath h k fs e \<Longrightarrow> x \<in> fst ` set fs \<Longrightarrow> h x \<noteq> None"
proof (induction fs arbitrary: k)
  case (Cons f fs)
  obtain nx where "k = fst f" "h k \<noteq> None" "kpath h nx fs e"
    using Cons.prems(1) by (cases f) (auto split: option.splits)
  then show ?case using Cons by auto
qed simp

lemma kpath_first: "kpath h k fs e \<Longrightarrow> fs \<noteq> [] \<Longrightarrow> k = fst (hd fs)"
  by (cases fs) auto

text \<open>Relinking the last node of a segment.\<close>

lemma kpath_relink:
  assumes "kpath h k fs e" "fs \<noteq> []" "distinct (map fst fs)"
  shows "kpath (set_next h (fst (last fs)) e') k fs e'"
proof -
  obtain gs a kk where f: "fs = gs @ [(a, kk)]" using assms(2) by (cases fs rule: rev_cases) auto
  obtain nx where a: "kpath h k gs a" "h a = Some (kk, nx)"
    using assms(1) by (auto simp: f kpath_append split: option.splits)
  have "kpath (set_next h a e') k gs a"
    using a assms(3) by (subst kpath_cong[of gs "set_next h a e'" h]) (auto simp: f set_next_def)
  then show ?thesis using a(2) by (auto simp: f kpath_append set_next_def)
qed

section \<open>The nearest handler\<close>

definition skips :: "kval \<Rightarrow> kkind \<Rightarrow> bool" where
  "skips lab kk \<longleftrightarrow>
     (case kk of KK_DONE \<Rightarrow> False | KK_HANDLER l h d \<Rightarrow> eff_label_same l lab = Inr False | _ \<Rightarrow> True)"

lemma mrun_one [simp]: "mrun app G (Suc 0) m c = mstep app G m c"
  by (cases "mstep app G m c") auto

lemma search_skip:
  "conts m k = Some (kk, nx) \<Longrightarrow> skips lab kk \<Longrightarrow>
   mstep app G m (C_SEARCH lab opv pl prev k) = Inr (m, C_SEARCH lab opv pl (Some k) nx)"
  by (cases kk) (simp_all add: mstep_def do_perform_def skips_def)

lemma search_path:
  "kpath (conts m) k fs e \<Longrightarrow> \<forall>f\<in>set fs. skips lab (snd f) \<Longrightarrow>
   mrun app G (length fs + n) m (C_SEARCH lab opv pl prev k) =
     mrun app G n m (C_SEARCH lab opv pl (if fs = [] then prev else Some (fst (last fs))) e)"
proof (induction fs arbitrary: k prev)
  case (Cons f fs)
  obtain nx where f: "k = fst f" "conts m k = Some (snd f, nx)" "kpath (conts m) nx fs e"
    using Cons.prems(1) by (cases f) (auto split: option.splits)
  have "mstep app G m (C_SEARCH lab opv pl prev k) = Inr (m, C_SEARCH lab opv pl (Some k) nx)"
    using f(2) Cons.prems(2) by (intro search_skip) auto
  then show ?case using Cons.IH[OF f(3)] Cons.prems(2) f(1) by (simp add: if_distrib cong: if_cong)
qed simp

text \<open>C20: \<open>perform\<close> runs the clause of the nearest handler of its label: over frames that are no handler
  of the label, however many, the search reaches the first handler that is, with the frame above it to
  sever at, and without changing the machine.\<close>
theorem perform_nearest_handler:
  assumes "cur m = krt2_perform lab opv pl" "\<not> resumed m" "\<not> safepoint_hit m"
    and "kpath (conts m) (kont m) fs c" "\<forall>f\<in>set fs. skips lab (snd f)"
    and "conts m c = Some (KK_HANDLER l h d, nx)" "eff_label_same l lab = Inr True"
  shows "mrun app G (Suc (length fs + 1)) m C_STEP =
    perform_at app m (if fs = [] then None else Some (fst (last fs))) nx l h d opv pl"
proof -
  have "mstep app G m C_STEP = Inr (m, C_SEARCH lab opv pl None (kont m))"
    using assms(1-3) by (simp add: run_nodes)
  then have "mrun app G (Suc (length fs + 1)) m C_STEP = mrun app G (length fs + Suc 0) m (C_SEARCH lab opv pl None (kont m))"
    by simp
  also have "\<dots> = mrun app G (Suc 0) m (C_SEARCH lab opv pl (if fs = [] then None else Some (fst (last fs))) c)"
    by (rule search_path[OF assms(4,5)])
  also have "\<dots> = perform_at app m (if fs = [] then None else Some (fst (last fs))) nx l h d opv pl"
  proof -
    have "mstep app G m (C_SEARCH lab opv pl pr c) = perform_at app m pr nx l h d opv pl" for pr
      using assms(6,7) by (simp add: mstep_def do_perform_def)
    then show ?thesis unfolding mrun_one .
  qed
  finally show ?thesis .
qed

lemma perform_nearest_handler_witness:
  "let h = \<lparr>h_ret = kunit, h_ops = kunit, h_deep = True\<rparr>; d = \<lparr>d_exits = None, d_mask = None\<rparr>;
       m = (fiber_new 7 (krt2_perform (KStr [65]) (KStr [66]) kunit))
             \<lparr>conts := [0 \<mapsto> (KK_DONE, 0), 1 \<mapsto> (KK_HANDLER (KStr [65]) h d, 0), 2 \<mapsto> (KK_HANDLER (KStr [67]) h d, 1),
                        3 \<mapsto> (KK_THEN kunit, 2)], kont := 3\<rparr>
   in mrun (\<lambda>_ _. kundef) gmp_ref 4 m C_STEP =
        perform_at (\<lambda>_ _. kundef) m (Some 2) 0 (KStr [65]) h d (KStr [66]) kunit"
proof -
  let ?h = "\<lparr>h_ret = kunit, h_ops = kunit, h_deep = True\<rparr>" and ?d = "\<lparr>d_exits = None, d_mask = None\<rparr>"
  let ?m = "(fiber_new 7 (krt2_perform (KStr [65]) (KStr [66]) kunit))
     \<lparr>conts := [0 \<mapsto> (KK_DONE, 0), 1 \<mapsto> (KK_HANDLER (KStr [65]) ?h ?d, 0), 2 \<mapsto> (KK_HANDLER (KStr [67]) ?h ?d, 1),
                3 \<mapsto> (KK_THEN kunit, 2)], kont := 3\<rparr>"
  have "mrun (\<lambda>_ _. kundef) gmp_ref (Suc (length [(3 :: nat, KK_THEN kunit), (2, KK_HANDLER (KStr [67]) ?h ?d)] + 1)) ?m C_STEP
      = perform_at (\<lambda>_ _. kundef) ?m (if [(3 :: nat, KK_THEN kunit), (2, KK_HANDLER (KStr [67]) ?h ?d)] = [] then None
          else Some (fst (last [(3 :: nat, KK_THEN kunit), (2, KK_HANDLER (KStr [67]) ?h ?d)])))
          0 (KStr [65]) ?h ?d (KStr [66]) kunit"
    by (rule perform_nearest_handler[where lab = "KStr [65]" and c = 1]) (simp_all add: skips_def eff_label_same_def)
  then show ?thesis by (simp add: Let_def eval_nat_numeral del: mrun.simps)
qed

section \<open>Resuming\<close>

lemma install_capture [simp]: "capture_dynamic_state (install_dynamic_state m d) = d"
  by (cases d) (simp add: install_dynamic_state_def capture_dynamic_state_def recompute_mask_state_def)

lemma capture_upd [simp]:
  "capture_dynamic_state (m\<lparr>conts := x1\<rparr>) = capture_dynamic_state m" "capture_dynamic_state (m\<lparr>kont := x2\<rparr>) = capture_dynamic_state m"
  "capture_dynamic_state (m\<lparr>resums := x3\<rparr>) = capture_dynamic_state m"
  by (simp_all add: capture_dynamic_state_def)

text \<open>The frames a resumption puts under the resumed segment.\<close>

definition resume_frames :: "kval \<Rightarrow> handler \<Rightarrow> dynst \<Rightarrow> kkind list" where
  "resume_frames lab h caller = (if h_deep h then [KK_HANDLER lab h caller] else []) @ [KK_RESTORESTATE caller]"

lemma spliced_path:
  fixes m :: mach
  assumes m: "fresh m" and seg: "kpath (conts m) h0 fs e" "fs \<noteq> []" "distinct (map fst fs)"
    and rs: "r_head rs = Some h0" "r_tail rs = Some (fst (last fs))" "r_handler rs = (if h_deep h then Some (lab, h) else None)"
  obtains hs where "kpath (conts (resume_spliced m r rs)) (kont (resume_spliced m r rs)) (fs @ hs) (kont m)"
    "map snd hs = resume_frames lab h (capture_dynamic_state m)"
    "capture_dynamic_state (resume_spliced m r rs) = r_captured rs" "resums (resume_spliced m r rs) = resums m"
proof -
  let ?c = "capture_dynamic_state m"
  let ?m2 = "if h_deep h then push_k (push_k m (KK_RESTORESTATE ?c)) (KK_HANDLER lab h ?c) else push_k m (KK_RESTORESTATE ?c)"
  let ?m3 = "install_dynamic_state ?m2 (r_captured rs)" and ?l = "fst (last fs)"
  define hs where "hs = (if h_deep h then [(Suc (brk m), KK_HANDLER lab h ?c), (brk m, KK_RESTORESTATE ?c)]
      else [(brk m, KK_RESTORESTATE ?c)])"
  have r: "resume_spliced m r rs = ?m3\<lparr>conts := set_next (conts ?m3) ?l (kont ?m3), kont := h0\<rparr>"
    using rs by (simp add: resume_spliced_def Let_def)
  have low: "a < brk m" if "a \<in> fst ` set fs" for a
    using kpath_dom[OF seg(1) that] fresh_below(4)[OF m] by auto
  have ll: "?l < brk m" using low seg(2) by simp
  have "conts ?m3 a = conts m a" if "a \<in> fst ` set fs" for a
    using low[OF that] by (simp add: push_k_def cont_new_def)
  then have "kpath (conts ?m3) h0 fs e" using seg(1) kpath_cong[of fs "conts ?m3" "conts m"] by blast
  then have p: "kpath (set_next (conts ?m3) ?l (kont ?m3)) h0 fs (kont ?m3)" by (rule kpath_relink[OF _ seg(2,3)])
  have q: "kpath (set_next (conts ?m3) ?l (kont ?m3)) (kont ?m3) hs (kont m)"
    using ll by (auto simp: hs_def push_k_def cont_new_def set_next_def split: option.split)
  show ?thesis
  proof (rule that[of hs])
    show "kpath (conts (resume_spliced m r rs)) (kont (resume_spliced m r rs)) (fs @ hs) (kont m)"
      using p q by (auto simp: r kpath_append)
  qed (simp_all add: r hs_def resume_frames_def)
qed

text \<open>C19: Resuming undoes the severing of a \<open>perform\<close>. If \<open>fs\<close> are the frames between the operation and its
  handler, then in any later state that has not touched them or the resumption, resuming delivers the
  value to exactly those frames, in the same order, with a deep handler reinstalled below them, then a
  frame restoring the resumer's dynamic state, then the resumer's continuation; the dynamic state is
  that of the operation again, and the resumption is used.\<close>
theorem resume_restores_context:
  assumes "fresh m" "kpath (conts m) (kont m) fs c" "fs \<noteq> []" "distinct (map fst fs)"
    and "sever_slice m (Some (fst (last fs))) nx lab h prompt = (M, r)"
    and "\<forall>a\<in>fst ` set fs. conts m2 a = conts M a" "resums m2 r = resums M r" "fresh m2" "brk M \<le> brk m2"
  shows "\<exists>m3 hs rs. do_resume m2 (KFgn r KRT2_KIND_RESUMPTION) v = Inr (m3, C_DELIVER v) \<and>
    kpath (conts m3) (kont m3) (fs @ hs) (kont m2) \<and> map snd hs = resume_frames lab h (capture_dynamic_state m2) \<and>
    capture_dynamic_state m3 = capture_dynamic_state m \<and> resums m3 r = Some rs \<and> r_used rs"
proof -
  let ?l = "fst (last fs)"
  let ?rs = "\<lparr>r_head = Some (kont m), r_tail = Some ?l, r_captured = capture_dynamic_state m, r_prompt = prompt,
      r_handler = (if h_deep h then Some (lab, h) else None), r_used = False, r_tail_res = False\<rparr>"
  have M: "resums m2 r = Some ?rs" "conts M = (set_next (conts m) ?l 0)(Suc (brk m) \<mapsto> (KK_ABANDON (brk m), nx))"
    using assms(5,7) by (auto simp: sever_slice_def Let_def push_k_def cont_new_def)
  have low: "a < brk m" if "a \<in> fst ` set fs" for a
    using kpath_dom[OF assms(2) that] fresh_below(4)[OF assms(1)] by auto
  have "conts m2 a = set_next (conts m) ?l 0 a" if "a \<in> fst ` set fs" for a
    using bspec[OF assms(6) that] low[OF that] by (simp add: M(2))
  then have seg: "kpath (conts m2) (kont m) fs 0"
    using kpath_relink[OF assms(2-4), of 0] by (subst kpath_cong[of fs "conts m2" "set_next (conts m) ?l 0"]) auto
  let ?m0 = "m2\<lparr>resums := (resums m2)(r \<mapsto> ?rs\<lparr>r_used := True\<rparr>)\<rparr>"
  have m0: "fresh ?m0" using assms(8) fresh_below(3)[OF assms(8) M(1)] by (auto simp: fresh_def)
  have d: "do_resume m2 (KFgn r KRT2_KIND_RESUMPTION) v = Inr (resume_spliced ?m0 r ?rs, C_DELIVER v)"
    using M(1) by (simp add: do_resume_def Let_def)
  obtain hs where hs: "kpath (conts (resume_spliced ?m0 r ?rs)) (kont (resume_spliced ?m0 r ?rs)) (fs @ hs) (kont ?m0)"
    "map snd hs = resume_frames lab h (capture_dynamic_state ?m0)"
    "capture_dynamic_state (resume_spliced ?m0 r ?rs) = r_captured ?rs" "resums (resume_spliced ?m0 r ?rs) = resums ?m0"
    by (rule spliced_path[OF m0 _ assms(3,4), of "kont m" 0 ?rs h lab r]) (use seg in simp_all)
  show ?thesis using d hs by (intro exI[of _ "resume_spliced ?m0 r ?rs"] exI[of _ hs] exI[of _ "?rs\<lparr>r_used := True\<rparr>"]) simp
qed

lemma resume_restores_context_witness:
  "let h = \<lparr>h_ret = kunit, h_ops = kunit, h_deep = True\<rparr>; d = \<lparr>d_exits = None, d_mask = None\<rparr>;
       m = (fiber_new 7 kunit)\<lparr>brk := 4, kont := 3, conts := [0 \<mapsto> (KK_DONE, 0), 1 \<mapsto> (KK_HANDLER (KStr [65]) h d, 0),
             2 \<mapsto> (KK_THEN kunit, 1), 3 \<mapsto> (KK_BIND kunit, 2)]\<rparr>;
       M = fst (sever_slice m (Some 2) 0 (KStr [65]) h d)
   in \<exists>m3 hs. do_resume M (KFgn 4 KRT2_KIND_RESUMPTION) kunit = Inr (m3, C_DELIVER kunit) \<and>
        kpath (conts m3) (kont m3) ([(3, KK_BIND kunit), (2, KK_THEN kunit)] @ hs) (kont M) \<and>
        map snd hs = [KK_HANDLER (KStr [65]) h d, KK_RESTORESTATE d]"
proof -
  let ?h = "\<lparr>h_ret = kunit, h_ops = kunit, h_deep = True\<rparr>" and ?d = "\<lparr>d_exits = None, d_mask = None\<rparr>"
  let ?m = "(fiber_new 7 kunit)\<lparr>brk := 4, kont := 3, conts := [0 \<mapsto> (KK_DONE, 0), 1 \<mapsto> (KK_HANDLER (KStr [65]) ?h ?d, 0),
             2 \<mapsto> (KK_THEN kunit, 1), 3 \<mapsto> (KK_BIND kunit, 2)]\<rparr>"
  let ?fs = "[(3, KK_BIND kunit), (2, KK_THEN kunit)]"
  obtain M r where s: "sever_slice ?m (Some (fst (last ?fs))) 0 (KStr [65]) ?h ?d = (M, r)" by fastforce
  then have r: "r = 4" "capture_dynamic_state M = ?d" and M: "fresh M" "M = fst (sever_slice ?m (Some 2) 0 (KStr [65]) ?h ?d)"
    by (auto simp: sever_slice_def Let_def fresh_def push_k_def cont_new_def set_next_def)
  have m: "fresh ?m" by (auto simp: fresh_def)
  obtain m3 hs rs where "do_resume M (KFgn r KRT2_KIND_RESUMPTION) kunit = Inr (m3, C_DELIVER kunit)"
    "kpath (conts m3) (kont m3) (?fs @ hs) (kont M)" "map snd hs = resume_frames (KStr [65]) ?h (capture_dynamic_state M)"
    using resume_restores_context[OF m _ _ _ s _ refl M(1), where c = 1 and v = kunit] by auto
  then show ?thesis unfolding Let_def M(2)[symmetric] r by (auto simp: resume_frames_def)
qed

section \<open>One shot\<close>

text \<open>Runs of the machine in any environment.\<close>

inductive mruns :: "kapp_fn \<Rightarrow> gmp \<Rightarrow> mach \<Rightarrow> ctl \<Rightarrow> mach \<Rightarrow> ctl \<Rightarrow> bool" for app G m0 c0 where
  ms_refl: "mruns app G m0 c0 m0 c0"
| ms_step: "mruns app G m0 c0 m c \<Longrightarrow> mstep app G m c = Inr (m', c') \<Longrightarrow> mruns app G m0 c0 m' c'"
| ms_env: "mruns app G m0 c0 m c \<Longrightarrow> env m c m' c' \<Longrightarrow> mruns app G m0 c0 m' c'"

definition spent :: "mach \<Rightarrow> nat \<Rightarrow> bool" where
  "spent m r \<longleftrightarrow> fresh m \<and> (\<exists>rs. resums m r = Some rs \<and> r_used rs)"

lemma spent_grows: "spent m r \<Longrightarrow> store_step m m' \<Longrightarrow> spent m' r"
proof -
  assume s: "spent m r" "store_step m m'"
  then obtain rs where rs: "resums m r = Some rs" "r_used rs" "fresh m" by (auto simp: spent_def)
  have g: "fresh m'" "grows m m'" using s(2) rs(3) by (simp_all add: store_step_def)
  have "resums m' r = Some rs \<or> resums m' r = Some (rs\<lparr>r_used := True\<rparr>)"
    using g(2) rs(1) fresh_below(3)[OF rs(3,1)] by (auto simp: grows_def split: option.splits)
  then show ?thesis using g(1) rs(2) by (auto simp: spent_def)
qed

lemma spent_touch: "spent m r \<Longrightarrow> spent (touch m c) r"
proof -
  assume s: "spent m r"
  have "resums (touch m c) = resums m" by (auto simp: touch_def split: option.split ctl.split)
  then show ?thesis using s fresh_touch by (simp add: spent_def)
qed

lemma spent_runs: "mruns app G m0 c0 m c \<Longrightarrow> spent m0 r \<Longrightarrow> spent m r"
proof (induction rule: mruns.induct)
  case (ms_step m c m' c')
  then show ?case using spent_grows[OF spent_touch gr.mstep_rel] by blast
next
  case (ms_env m c m' c')
  then show ?case using spent_grows gr.env_rel by blast
qed

text \<open>C18: A resumption is one-shot: once a reachable fiber has resumed it, every further attempt to resume
  it, in any later state of any run, fails with an internal error and changes nothing.\<close>
theorem resumption_one_shot:
  assumes "mreach app G m c" "do_resume m (KFgn r KRT2_KIND_RESUMPTION) v = Inr (m1, C_DELIVER v)"
    and "mruns app G m1 (C_DELIVER v) m2 c2"
  shows "do_resume m2 (KFgn r KRT2_KIND_RESUMPTION) w = Inr (m2, C_UNWIND RK_FAIL (Some (kstr0
    ''internal: one-shot resumption used more than once (rt-multishot-effects absent)'')))"
proof -
  have "res_rel store_step m (do_resume m (KFgn r KRT2_KIND_RESUMPTION) v)" by (rule gr.r_do_resume)
  then have f: "fresh m1" using mreach_fresh[OF assms(1)] assms(2) by (simp add: res_rel_def store_step_def)
  obtain rs where rs: "resums m r = Some rs" "\<not> r_used rs"
    using assms(2) by (auto simp: do_resume_def kundef_def split: option.splits if_splits)
  have "resums m1 r = Some (rs\<lparr>r_used := True\<rparr>)"
  proof (cases "r_tail_res rs")
    case True
    then show ?thesis using assms(2) rs discard_fields(4)
      by (auto simp: do_resume_def Let_def kbind_eq_Inr kundef_def split: option.splits)
  next
    case False
    then show ?thesis using assms(2) rs
      by (auto simp: do_resume_def Let_def resume_spliced_def split: option.splits)
  qed
  then have "spent m1 r" using f by (simp add: spent_def)
  from spent_runs[OF assms(3) this] show ?thesis by (auto simp: spent_def do_resume_def)
qed

text \<open>A fiber that performs under its handler, the clause holding the resumption.\<close>

definition perform_once :: mach where
  "perform_once = fiber_step_begin (fiber_new 7 (krt2_handle (kbool True) (KStr [65]) kunit
     (KRec [(''op'', kunit)]) (krt2_perform (KStr [65]) (KStr [111, 112]) kunit)))"

lemma perform_once_run:
  "case frun (\<lambda>_ _. Inr krt2_poll) gmp_ref 0 3 perform_once C_STEP of Inl _ \<Rightarrow> False | Inr (_, m, c) \<Rightarrow>
     (case do_resume m (KFgn 2 KRT2_KIND_RESUMPTION) kunit of Inl _ \<Rightarrow> False | Inr (m1, c1) \<Rightarrow> c1 = C_DELIVER kunit)"
  by code_simp

lemma resumption_one_shot_witness:
  "case frun (\<lambda>_ _. Inr krt2_poll) gmp_ref 0 3 perform_once C_STEP of Inl _ \<Rightarrow> False | Inr (_, m, c) \<Rightarrow>
     (case do_resume m (KFgn 2 KRT2_KIND_RESUMPTION) kunit of Inl _ \<Rightarrow> False | Inr (m1, c1) \<Rightarrow>
        do_resume m1 (KFgn 2 KRT2_KIND_RESUMPTION) kunit = Inr (m1, C_UNWIND RK_FAIL (Some (kstr0
          ''internal: one-shot resumption used more than once (rt-multishot-effects absent)''))))"
proof -
  obtain e m c where 1: "frun (\<lambda>_ _. Inr krt2_poll) gmp_ref 0 3 perform_once C_STEP = Inr (e, m, c)"
    using perform_once_run by (auto split: sum.splits)
  obtain m1 where 2: "do_resume m (KFgn 2 KRT2_KIND_RESUMPTION) kunit = Inr (m1, C_DELIVER kunit)"
    using perform_once_run 1 by (auto split: sum.splits)
  have "mreach (\<lambda>_ _. Inr krt2_poll) gmp_ref m c"
    by (rule frun_mreach[OF 1]) (simp add: perform_once_def mr_start)
  from resumption_one_shot[OF this 2 ms_refl] show ?thesis by (simp add: 1 2)
qed

section \<open>Catching\<close>

lemma spine_then: "cs \<noteq> [] \<Longrightarrow> \<exists>x y. cause_spine p cs = krt2_cause_then x y"
  by (cases cs rule: rev_cases) (auto simp: cause_spine_def)

lemma cause_tags [simp]:
  "kctor_tagid (krt2_cause_then x y) = KCT_THEN" "kctor_tagid (krt2_cause_fail x) = KCT_FAIL"
  "kctor_arg (krt2_cause_fail x) 0 = Inr x"
  by (simp_all add: krt2_cause_then_def krt2_cause_fail_def op_defs)



end
