(* ===== verification/Kappa_Sched.thy ===== *)
theory Kappa_Sched
  imports Kappa_Race Kappa_Mask
begin

text \<open>
  The scheduler and structured concurrency (\<open>runtime/rt.c\<close>: run queue, parking, waking, spawning,
  finishing, awaiting, promises; \<open>runtime/scope.c\<close>: interruption, scopes, monitors), with the worker
  threads interleaved at every atomic section. An operation does its first critical section and leaves
  the thread with the sections still to come, a list of \<open>uop\<close>: after \<open>fiber_finish\<close> has published the
  exit, a thread still has to wake the awaiters one after the other, leave the scope and the root set;
  after a fiber has published that it is parked, the thread still has to look for an interruption that
  came meanwhile. Between any two sections any other thread may run.

  A fiber is known by its id; what it computes is its own machine's affair (\<open>Kappa_Machine\<close>), here a
  running fiber may execute any operation at any time. The kinds of parking without a waiter list
  (timers, \<open>retry\<close>) are one operation, and wakes from the reactor come at any time.
\<close>

section \<open>State\<close>

datatype fstatus = F_RUNNABLE | F_RUNNING | F_PARKED | F_DONE

text \<open>A node of a waiter list; \<open>w_id\<close> is its address.\<close>

record waiter =
  w_id :: nat
  w_f :: nat
  w_want :: bool

text \<open>Which list a parked fiber is on.\<close>

datatype kpark = KPARK_FIBER_WAITERS nat | KPARK_PROMISE_WAITERS nat | KPARK_SCOPE_DRAIN nat

text \<open>\<open>fwait\<close> is a ghost: the fiber's latest park is the one \<open>fpark\<close> names, and not a timer (those leave a stale
  registration alone).\<close>

record sfib =
  f_st :: fstatus
  fcur :: kval
  fexit :: "kval option"
  fwaiters :: "waiter list"
  fdaemon :: bool
  fpend :: bool
  fcause :: "kval option"
  fmask :: kmask
  fres :: bool
  fpark :: "(kpark \<times> waiter) option"
  fwait :: bool
  fatt :: "nat option"
  fscope :: "nat option"

record promise =
  p_completed :: bool
  p_exit :: "kval option"
  p_waiters :: "waiter list"

record scope =
  sc_children :: "nat list"
  sc_live :: int
  sc_shutting :: bool
  sc_drain :: "waiter list"

record sched =
  fibs :: "nat \<rightharpoonup> sfib"
  proms :: "nat \<rightharpoonup> promise"
  scopes :: "nat \<rightharpoonup> scope"
  rq :: "nat list"
  root_set :: "nat list"
  next_id :: nat
  nxt :: nat
  main_fiber :: "nat option"
  main_done :: bool
  daemon_scope :: "nat option"

text \<open>The sections a thread has still to execute. \<open>U_STEP f\<close>: it runs fiber \<open>f\<close>; \<open>U_ATTACH sc c\<close>: it has still
  to attach the new fiber \<open>c\<close>, then to root and enqueue it.\<close>

datatype uop =
  U_STEP nat
| U_RUN nat
| U_PUSH nat
| U_RESUME nat
| U_WAKE nat "kval option"
| U_REQUEST nat kval
| U_DP nat kpark bool
| U_JOIN nat kpark bool
| U_CLAIM nat bool "(kpark \<times> waiter) option"
| U_CAS nat "(kpark \<times> waiter) option"
| U_UNLINK nat "(kpark \<times> waiter) option"
| U_ATTACH nat nat
| U_ALL_ADD nat
| U_ALL_REMOVE nat
| U_DETACH nat
| U_MAIN nat
| U_UNPUBLISH

type_synonym sres = "(sched \<times> uop list) option"

definition upd_fib :: "nat \<Rightarrow> (sfib \<Rightarrow> sfib) \<Rightarrow> sched \<Rightarrow> sched" where
  "upd_fib f g s = s\<lparr>fibs := (fibs s)(f := map_option g (fibs s f))\<rparr>"

definition upd_prom :: "nat \<Rightarrow> (promise \<Rightarrow> promise) \<Rightarrow> sched \<Rightarrow> sched" where
  "upd_prom p g s = s\<lparr>proms := (proms s)(p := map_option g (proms s p))\<rparr>"

definition upd_scope :: "nat \<Rightarrow> (scope \<Rightarrow> scope) \<Rightarrow> sched \<Rightarrow> sched" where
  "upd_scope c g s = s\<lparr>scopes := (scopes s)(c := map_option g (scopes s c))\<rparr>"

text \<open>A change of the list a park registration names.\<close>

fun upd_waiters :: "kpark \<Rightarrow> (waiter list \<Rightarrow> waiter list) \<Rightarrow> sched \<Rightarrow> sched" where
  "upd_waiters (KPARK_FIBER_WAITERS c) g s = upd_fib c (\<lambda>x. x\<lparr>fwaiters := g (fwaiters x)\<rparr>) s"
| "upd_waiters (KPARK_PROMISE_WAITERS p) g s = upd_prom p (\<lambda>x. x\<lparr>p_waiters := g (p_waiters x)\<rparr>) s"
| "upd_waiters (KPARK_SCOPE_DRAIN c) g s = upd_scope c (\<lambda>x. x\<lparr>sc_drain := g (sc_drain x)\<rparr>) s"

fun waiters_at :: "sched \<Rightarrow> kpark \<Rightarrow> waiter list" where
  "waiters_at s (KPARK_FIBER_WAITERS c) = (case fibs s c of None \<Rightarrow> [] | Some x \<Rightarrow> fwaiters x)"
| "waiters_at s (KPARK_PROMISE_WAITERS p) = (case proms s p of None \<Rightarrow> [] | Some x \<Rightarrow> p_waiters x)"
| "waiters_at s (KPARK_SCOPE_DRAIN c) = (case scopes s c of None \<Rightarrow> [] | Some x \<Rightarrow> sc_drain x)"

section \<open>Run queue, parking and waking\<close>

definition krt2i_all_add :: "sched \<Rightarrow> nat \<Rightarrow> sched" where
  "krt2i_all_add s f = s\<lparr>root_set := f # root_set s\<rparr>"

definition krt2i_all_remove :: "sched \<Rightarrow> nat \<Rightarrow> sched" where
  "krt2i_all_remove s f = s\<lparr>root_set := remove1 f (root_set s)\<rparr>"

definition krt2i_rq_push :: "sched \<Rightarrow> nat \<Rightarrow> sched" where
  "krt2i_rq_push s f = s\<lparr>rq := rq s @ [f]\<rparr>"

definition krt2i_resume :: "sched \<Rightarrow> nat \<Rightarrow> sched \<times> uop list" where
  "krt2i_resume s f = (upd_fib f (\<lambda>x. x\<lparr>fres := True, f_st := F_RUNNABLE\<rparr>) s, [U_PUSH f])"

definition krt2i_register_park_waiter :: "sched \<Rightarrow> nat \<Rightarrow> kpark \<Rightarrow> waiter \<Rightarrow> sched" where
  "krt2i_register_park_waiter s f kp w = upd_fib f (\<lambda>x. x\<lparr>fpark := Some (kp, w)\<rparr>) s"

definition krt2i_clear_park_waiter :: "sched \<Rightarrow> nat \<Rightarrow> sched" where
  "krt2i_clear_park_waiter s f = upd_fib f (\<lambda>x. x\<lparr>fpark := None\<rparr>) s"

definition krt2i_unlink_waiter :: "sched \<Rightarrow> kpark \<Rightarrow> waiter \<Rightarrow> sched" where
  "krt2i_unlink_waiter s kp w = upd_waiters kp (remove1 w) s"

definition krt2i_cleanup_parked_wait :: "sched \<Rightarrow> nat \<Rightarrow> sched" where
  "krt2i_cleanup_parked_wait s f =
     (case fibs s f of
        None \<Rightarrow> s
      | Some x \<Rightarrow> (case fpark x of
          None \<Rightarrow> s
        | Some (kp, w) \<Rightarrow> krt2i_clear_park_waiter (krt2i_unlink_waiter s kp w) f))"

definition krt2i_wake :: "sched \<Rightarrow> nat \<Rightarrow> kval option \<Rightarrow> sched \<times> uop list" where
  "krt2i_wake s f resume_val =
     (case fibs s f of
        None \<Rightarrow> (s, [])
      | Some x \<Rightarrow>
          if f_st x = F_PARKED then
            (upd_fib f (\<lambda>x. x\<lparr>f_st := F_RUNNABLE, fres := True,
                 fcur := (case resume_val of None \<Rightarrow> fcur x | Some v \<Rightarrow> v),
                 fpark := (case resume_val of None \<Rightarrow> fpark x | Some v \<Rightarrow> None)\<rparr>) s, [U_PUSH f])
          else (s, []))"

definition wakes :: "waiter list \<Rightarrow> kval \<Rightarrow> uop list" where
  "wakes ws ex = map (\<lambda>w. U_WAKE (w_f w) (Some (krt2_pure (if w_want w then ex else kunit)))) ws"

section \<open>Interruption\<close>

definition krt2i_interrupt_request :: "sched \<Rightarrow> nat \<Rightarrow> kval \<Rightarrow> sched \<times> uop list" where
  "krt2i_interrupt_request s target cause =
     (upd_fib target (\<lambda>x. if fpend x then x else x\<lparr>fpend := True, fcause := Some cause\<rparr>) s, [U_WAKE target None])"

text \<open>The state of the fiber after \<open>deliver_interrupt\<close>; the unwinding is the machine's.\<close>

definition interrupt_delivered :: "sched \<Rightarrow> nat \<Rightarrow> sched" where
  "interrupt_delivered s f = upd_fib f (\<lambda>x. x\<lparr>fpend := False\<rparr>) (krt2i_cleanup_parked_wait s f)"

definition deliverable :: "sfib \<Rightarrow> bool" where
  "deliverable x \<longleftrightarrow> fpend x \<and> fmask x = KMASK_INTERRUPTIBLE"

definition krt2i_deliver_pending_before_park :: "sched \<Rightarrow> nat \<Rightarrow> kpark \<Rightarrow> bool \<Rightarrow> sres" where
  "krt2i_deliver_pending_before_park s f kp want =
     (case fibs s f of
        None \<Rightarrow> None
      | Some x \<Rightarrow> if deliverable x then Some (interrupt_delivered s f, [U_STEP f]) else Some (s, [U_JOIN f kp want]))"

text \<open>\<open>krt2i_claim_pending_after_park\<close>: the load of the request, then the compare-and-swap.\<close>

definition claim_load :: "sched \<Rightarrow> nat \<Rightarrow> bool \<Rightarrow> (kpark \<times> waiter) option \<Rightarrow> sres" where
  "claim_load s f park_unmasked reg =
     (case fibs s f of None \<Rightarrow> None | Some x \<Rightarrow> Some (s, if park_unmasked \<and> fpend x then [U_CAS f reg] else []))"

definition claim_cas :: "sched \<Rightarrow> nat \<Rightarrow> (kpark \<times> waiter) option \<Rightarrow> sres" where
  "claim_cas s f reg =
     (case fibs s f of
        None \<Rightarrow> None
      | Some x \<Rightarrow>
          if f_st x = F_PARKED then Some (upd_fib f (\<lambda>x. x\<lparr>f_st := F_RUNNING\<rparr>) s, [U_UNLINK f reg])
          else Some (s, []))"

text \<open>The claimed fiber leaves the list it parked on, and takes the interruption.\<close>

definition claimed :: "sched \<Rightarrow> nat \<Rightarrow> (kpark \<times> waiter) option \<Rightarrow> sched \<times> uop list" where
  "claimed s f reg =
     (let s1 = (case reg of None \<Rightarrow> s | Some (kp, w) \<Rightarrow> krt2i_clear_park_waiter (krt2i_unlink_waiter s kp w) f) in
      (interrupt_delivered s1 f, [U_STEP f]))"

section \<open>Awaiting\<close>

text \<open>The section in which a fiber puts itself on a waiter list.\<close>

definition park_on :: "sched \<Rightarrow> nat \<Rightarrow> kpark \<Rightarrow> bool \<Rightarrow> kmask \<Rightarrow> sched \<times> bool \<times> (kpark \<times> waiter) option" where
  "park_on s f kp want msk =
     (let w = \<lparr>w_id = nxt s, w_f = f, w_want = want\<rparr>;
          s1 = upd_waiters kp (\<lambda>ws. w # ws) (s\<lparr>nxt := Suc (nxt s)\<rparr>);
          s2 = krt2i_register_park_waiter s1 f kp w in
      (upd_fib f (\<lambda>x. x\<lparr>f_st := F_PARKED, fwait := True\<rparr>) s2, msk = KMASK_INTERRUPTIBLE, Some (kp, w)))"

definition set_cur :: "sched \<Rightarrow> nat \<Rightarrow> kval \<Rightarrow> sched" where
  "set_cur s f v = upd_fib f (\<lambda>x. x\<lparr>fcur := v\<rparr>) s"

text \<open>\<open>do_await\<close>, \<open>krt2i_op_await_monitor\<close> (\<open>want\<close>) and the waiting of \<open>krt2i_op_interrupt\<close>.\<close>

definition do_await :: "sched \<Rightarrow> nat \<Rightarrow> nat \<Rightarrow> bool \<Rightarrow> sres" where
  "do_await s f child want =
     (case (fibs s f, fibs s child) of
        (Some x, Some c) \<Rightarrow>
          if f_st c = F_DONE then
            Some (set_cur s f (krt2_pure (if want then the (fexit c) else kunit)), [U_STEP f])
          else let (s1, um, reg) = park_on s f (KPARK_FIBER_WAITERS child) want (fmask x) in Some (s1, [U_CLAIM f um reg])
      | _ \<Rightarrow> None)"

definition do_await_promise :: "sched \<Rightarrow> nat \<Rightarrow> nat \<Rightarrow> sres" where
  "do_await_promise s f p =
     (case (fibs s f, proms s p) of
        (Some x, Some c) \<Rightarrow>
          if p_completed c then Some (set_cur s f (krt2_pure (the (p_exit c))), [U_STEP f])
          else let (s1, um, reg) = park_on s f (KPARK_PROMISE_WAITERS p) True (fmask x) in Some (s1, [U_CLAIM f um reg])
      | _ \<Rightarrow> None)"

definition promise_new :: "sched \<Rightarrow> sched" where
  "promise_new s = s\<lparr>proms := (proms s)(nxt s \<mapsto> \<lparr>p_completed = False, p_exit = None, p_waiters = []\<rparr>), nxt := Suc (nxt s)\<rparr>"

definition promise_complete :: "sched \<Rightarrow> nat \<Rightarrow> kval \<Rightarrow> (sched \<times> uop list \<times> bool) option" where
  "promise_complete s p exitv =
     (case proms s p of
        None \<Rightarrow> None
      | Some c \<Rightarrow>
          if p_completed c then Some (s, [], False)
          else Some (upd_prom p (\<lambda>x. x\<lparr>p_exit := Some exitv, p_completed := True, p_waiters := []\<rparr>) s,
                     wakes (p_waiters c) exitv, True))"

definition promise_poll :: "sched \<Rightarrow> nat \<Rightarrow> kval option" where
  "promise_poll s p =
     (case proms s p of
        None \<Rightarrow> None
      | Some c \<Rightarrow> Some (if p_completed c then krt2i_some (the (p_exit c)) else krt2i_none))"

definition promise_is_done :: "sched \<Rightarrow> nat \<Rightarrow> kval option" where
  "promise_is_done s p = map_option (\<lambda>c. kbool (p_completed c)) (proms s p)"

section \<open>Scopes\<close>

definition krt2i_scope_new :: "sched \<Rightarrow> sched" where
  "krt2i_scope_new s =
     s\<lparr>scopes := (scopes s)(nxt s \<mapsto> \<lparr>sc_children = [], sc_live = 0, sc_shutting = False, sc_drain = []\<rparr>), nxt := Suc (nxt s)\<rparr>"

definition krt2i_scope_attach :: "sched \<Rightarrow> nat \<Rightarrow> nat \<Rightarrow> sres" where
  "krt2i_scope_attach s sc child =
     (case scopes s sc of
        None \<Rightarrow> None
      | Some c \<Rightarrow>
          Some (upd_fib child (\<lambda>x. x\<lparr>fatt := Some sc\<rparr>)
                  (upd_scope sc (\<lambda>c. c\<lparr>sc_children := child # sc_children c, sc_live := sc_live c + 1\<rparr>) s),
                if sc_shutting c then [U_REQUEST child (krt2i_interrupt_cause ''ScopeShutdown'' krt2i_none)] else []))"

definition krt2i_scope_detach :: "sched \<Rightarrow> nat \<Rightarrow> sched \<times> uop list" where
  "krt2i_scope_detach s child =
     (case fibs s child of
        None \<Rightarrow> (s, [])
      | Some x \<Rightarrow> (case fatt x of
          None \<Rightarrow> (s, [])
        | Some sc \<Rightarrow> (case scopes s sc of
            None \<Rightarrow> (s, [])
          | Some c \<Rightarrow>
              let now = sc_live c - 1; last_one = (now = 0 \<and> sc_shutting c) in
              (upd_fib child (\<lambda>x. x\<lparr>fatt := None\<rparr>)
                 (upd_scope sc (\<lambda>c. c\<lparr>sc_children := remove1 child (sc_children c), sc_live := now,
                                     sc_drain := (if last_one then [] else sc_drain c)\<rparr>) s),
               if last_one then wakes (sc_drain c) kunit else []))))"

definition krt2i_op_shutdown_scope :: "sched \<Rightarrow> nat \<Rightarrow> nat \<Rightarrow> sres" where
  "krt2i_op_shutdown_scope s f sc =
     (case (fibs s f, scopes s sc) of
        (Some x, Some c) \<Rightarrow>
          let s1 = upd_scope sc (\<lambda>c. c\<lparr>sc_shutting := True\<rparr>) s;
              cause = krt2i_interrupt_cause ''ScopeShutdown'' (krt2i_some (kint (word_of_nat f)));
              requests = map (\<lambda>k. U_REQUEST k cause) (sc_children c) in
          if sc_live c > 0 then
            let (s2, um, reg) = park_on s1 f (KPARK_SCOPE_DRAIN sc) False (fmask x) in
            Some (s2, requests @ [U_CLAIM f um reg])
          else Some (set_cur s1 f (krt2_pure kunit), requests @ [U_STEP f])
      | _ \<Rightarrow> None)"

text \<open>The host's teardown of the daemons of a run, without its bounded wait.\<close>

definition krt2i_scope_drain_bounded :: "sched \<Rightarrow> nat \<Rightarrow> sres" where
  "krt2i_scope_drain_bounded s sc =
     (case scopes s sc of
        None \<Rightarrow> None
      | Some c \<Rightarrow> Some (upd_scope sc (\<lambda>c. c\<lparr>sc_shutting := True\<rparr>) s,
                       map (\<lambda>k. U_REQUEST k (krt2i_interrupt_cause ''ScopeShutdown'' krt2i_none)) (sc_children c)))"

section \<open>Spawning and finishing\<close>

definition krt2i_spawn_from :: "sched \<Rightarrow> kmask \<Rightarrow> kval \<Rightarrow> nat option \<Rightarrow> bool \<Rightarrow> sched \<times> uop list" where
  "krt2i_spawn_from s msk action attach daemon =
     (let child = Suc (next_id s);
          x = \<lparr>f_st = F_RUNNABLE, fcur = action, fexit = None, fwaiters = [], fdaemon = daemon, fpend = False,
               fcause = None, fmask = msk, fres = False, fpark = None, fwait = False, fatt = None, fscope = attach\<rparr>;
          sc = (if \<not> daemon then attach else daemon_scope s) in
      (s\<lparr>next_id := child, fibs := (fibs s)(child \<mapsto> x)\<rparr>,
       case sc of None \<Rightarrow> [U_ALL_ADD child, U_RESUME child] | Some c \<Rightarrow> [U_ATTACH c child]))"

definition fiber_finish :: "sched \<Rightarrow> nat \<Rightarrow> kval \<Rightarrow> sres" where
  "fiber_finish s f exitv =
     (case fibs s f of
        None \<Rightarrow> None
      | Some x \<Rightarrow>
          Some (upd_fib f (\<lambda>x. x\<lparr>fexit := Some exitv, f_st := F_DONE, fwaiters := []\<rparr>) s,
                wakes (fwaiters x) exitv @ [U_DETACH f, U_ALL_REMOVE f, U_MAIN f]))"

text \<open>\<open>tryExit\<close>: the exit of a fiber that has finished, without waiting.\<close>

definition try_exit :: "sched \<Rightarrow> nat \<Rightarrow> kval option" where
  "try_exit s f = map_option (\<lambda>x. if f_st x = F_DONE then krt2i_some (the (fexit x)) else krt2i_none) (fibs s f)"

section \<open>Threads\<close>

text \<open>The sections other than \<open>U_STEP\<close>.\<close>

fun uexec :: "sched \<Rightarrow> uop \<Rightarrow> sres" where
  "uexec s (U_STEP f) = None"
| "uexec s (U_RUN f) = Some (upd_fib f (\<lambda>x. x\<lparr>f_st := F_RUNNING\<rparr>) s, [U_STEP f])"
| "uexec s (U_PUSH f) = Some (krt2i_rq_push s f, [])"
| "uexec s (U_RESUME f) = Some (krt2i_resume s f)"
| "uexec s (U_WAKE f v) = Some (krt2i_wake s f v)"
| "uexec s (U_REQUEST t cause) = Some (krt2i_interrupt_request s t cause)"
| "uexec s (U_DP f kp want) = krt2i_deliver_pending_before_park s f kp want"
| "uexec s (U_JOIN f kp want) =
     (case kp of
        KPARK_FIBER_WAITERS c \<Rightarrow> do_await s f c want
      | KPARK_PROMISE_WAITERS p \<Rightarrow> do_await_promise s f p
      | KPARK_SCOPE_DRAIN c \<Rightarrow> None)"
| "uexec s (U_CLAIM f um reg) = claim_load s f um reg"
| "uexec s (U_CAS f reg) = claim_cas s f reg"
| "uexec s (U_UNLINK f reg) = Some (claimed s f reg)"
| "uexec s (U_ATTACH sc c) = map_option (\<lambda>(s1, us). (s1, us @ [U_ALL_ADD c, U_RESUME c])) (krt2i_scope_attach s sc c)"
| "uexec s (U_ALL_ADD f) = Some (krt2i_all_add s f, [])"
| "uexec s (U_ALL_REMOVE f) = Some (krt2i_all_remove s f, [])"
| "uexec s (U_DETACH f) = Some (krt2i_scope_detach s f)"
| "uexec s (U_MAIN f) = Some (if main_fiber s = Some f then s\<lparr>main_done := True\<rparr> else s, [])"
| "uexec s U_UNPUBLISH = Some (s\<lparr>daemon_scope := None\<rparr>, [])"

text \<open>What a running fiber may do next. \<open>SO_PARK\<close> is a park without a waiter list (a timer, \<open>retry\<close>);
  \<open>SO_DELIVER\<close> is an interruption point (the gate of the stepping loop, a poll, a restore); \<open>SO_MASK\<close> and
  \<open>SO_COMPUTE\<close> stand for the steps of the fiber's own machine.\<close>

datatype sop =
  SO_AWAIT nat
| SO_AWAIT_MONITOR nat
| SO_AWAIT_PROMISE nat
| SO_INTERRUPT nat kval bool
| SO_SHUTDOWN nat
| SO_COMPLETE nat kval
| SO_NEW_PROMISE
| SO_NEW_SCOPE
| SO_FORK kval bool
| SO_FORK_IN nat kval
| SO_CEDE
| SO_PARK
| SO_FINISH kval
| SO_DELIVER
| SO_MASK kmask
| SO_COMPUTE kval

definition spawn_step :: "sched \<Rightarrow> nat \<Rightarrow> kmask \<Rightarrow> kval \<Rightarrow> nat option \<Rightarrow> bool \<Rightarrow> sres" where
  "spawn_step s f msk a attach daemon = (let (s1, us) = krt2i_spawn_from s msk a attach daemon in Some (s1, us @ [U_STEP f]))"

definition krt2i_op_fork_in :: "sched \<Rightarrow> nat \<Rightarrow> sfib \<Rightarrow> nat \<Rightarrow> kval \<Rightarrow> sres" where
  "krt2i_op_fork_in s f x sc a = spawn_step s f (fmask x) a (Some sc) False"

text \<open>Interrupting, and awaiting a monitored fiber: they go through the parking sections of an await.\<close>

definition krt2i_op_interrupt :: "sched \<Rightarrow> nat \<Rightarrow> nat \<Rightarrow> kval \<Rightarrow> bool \<Rightarrow> sres" where
  "krt2i_op_interrupt s f target cause wait =
     Some (s, [U_REQUEST target cause, if wait then U_DP f (KPARK_FIBER_WAITERS target) False else U_STEP f])"

definition krt2i_op_await_monitor :: "sched \<Rightarrow> nat \<Rightarrow> nat \<Rightarrow> sres" where
  "krt2i_op_await_monitor s f target = Some (s, [U_DP f (KPARK_FIBER_WAITERS target) True])"

definition cede_step :: "sched \<Rightarrow> nat \<Rightarrow> sfib \<Rightarrow> sres" where
  "cede_step s f x =
     (if deliverable x then Some (interrupt_delivered s f, [U_STEP f])
      else Some (set_cur s f (krt2_pure kunit), [U_RESUME f]))"

definition sleep_step :: "sched \<Rightarrow> nat \<Rightarrow> sfib \<Rightarrow> sres" where
  "sleep_step s f x =
     (if deliverable x then Some (interrupt_delivered s f, [U_STEP f])
      else Some (upd_fib f (\<lambda>x. x\<lparr>f_st := F_PARKED, fwait := False\<rparr>) s, [U_CLAIM f (fmask x = KMASK_INTERRUPTIBLE) None]))"

definition op_step :: "sched \<Rightarrow> nat \<Rightarrow> sop \<Rightarrow> sres" where
  "op_step s f op =
     (case fibs s f of
        None \<Rightarrow> None
      | Some x \<Rightarrow>
          (case op of
             SO_AWAIT c \<Rightarrow> Some (s, [U_DP f (KPARK_FIBER_WAITERS c) True])
           | SO_AWAIT_MONITOR c \<Rightarrow> krt2i_op_await_monitor s f c
           | SO_AWAIT_PROMISE p \<Rightarrow> Some (s, [U_DP f (KPARK_PROMISE_WAITERS p) True])
           | SO_INTERRUPT t cause wait \<Rightarrow> krt2i_op_interrupt s f t cause wait
           | SO_SHUTDOWN sc \<Rightarrow> krt2i_op_shutdown_scope s f sc
           | SO_COMPLETE p ex \<Rightarrow>
               (case promise_complete s p ex of None \<Rightarrow> None | Some (s1, us, b) \<Rightarrow> Some (s1, us @ [U_STEP f]))
           | SO_NEW_PROMISE \<Rightarrow> Some (promise_new s, [U_STEP f])
           | SO_NEW_SCOPE \<Rightarrow> Some (krt2i_scope_new s, [U_STEP f])
           | SO_FORK a daemon \<Rightarrow> spawn_step s f (fmask x) a (fscope x) daemon
           | SO_FORK_IN sc a \<Rightarrow> krt2i_op_fork_in s f x sc a
           | SO_CEDE \<Rightarrow> cede_step s f x
           | SO_PARK \<Rightarrow> sleep_step s f x
           | SO_FINISH ex \<Rightarrow> fiber_finish s f ex
           | SO_DELIVER \<Rightarrow>
               if fpend x \<and> fmask x \<noteq> KMASK_UNINTERRUPTIBLE then Some (interrupt_delivered s f, [U_STEP f]) else None
           | SO_MASK k \<Rightarrow> Some (upd_fib f (\<lambda>x. x\<lparr>fmask := k\<rparr>) s, [U_STEP f])
           | SO_COMPUTE a \<Rightarrow> Some (upd_fib f (\<lambda>x. x\<lparr>fcur := a, fres := False\<rparr>) s, [U_STEP f])))"

text \<open>\<open>krt2_run_main\<close> up to the wait for the main fiber: fresh root and daemon scopes, the wrapped main
  fiber.\<close>

definition krt2_run_main :: "sched \<Rightarrow> kval \<Rightarrow> sched \<times> uop list" where
  "krt2_run_main s action =
     (let root = nxt s;
          s1 = krt2i_scope_new s;
          daemons = nxt s1;
          s2 = krt2i_scope_new s1;
          wrapped = krt2_ensuring action (krt2_shutdown_scope (KFgn root ''rt.Scope''));
          m = Suc (next_id s2);
          x = \<lparr>f_st = F_RUNNABLE, fcur = wrapped, fexit = None, fwaiters = [], fdaemon = False, fpend = False,
               fcause = None, fmask = KMASK_INTERRUPTIBLE, fres = False, fpark = None, fwait = False, fatt = None, fscope = Some root\<rparr> in
      (s2\<lparr>next_id := m, fibs := (fibs s2)(m \<mapsto> x), main_done := False, main_fiber := Some m, daemon_scope := Some daemons\<rparr>,
       [U_ALL_ADD m, U_RESUME m]))"

definition krt2_new :: sched where
  "krt2_new = \<lparr>fibs = Map.empty, proms = Map.empty, scopes = Map.empty, rq = [], root_set = [], next_id = 0, nxt = 0,
               main_fiber = None, main_done = False, daemon_scope = None\<rparr>"

text \<open>One thread, any of them, executes its next section. An idle thread may be a worker that pops the
  run queue, the host, or the reactor waking a fiber.\<close>

type_synonym conf = "sched \<times> (nat \<Rightarrow> uop list)"

inductive sstep :: "conf \<Rightarrow> conf \<Rightarrow> bool" where
  ss_pop: "W t = [] \<Longrightarrow> rq s = f # q \<Longrightarrow> sstep (s, W) (s\<lparr>rq := q\<rparr>, W(t := [U_RUN f]))"
| ss_op: "W t = U_STEP f # us \<Longrightarrow> op_step s f op = Some (s', vs) \<Longrightarrow> sstep (s, W) (s', W(t := vs @ us))"
| ss_uop: "W t = u # us \<Longrightarrow> uexec s u = Some (s', vs) \<Longrightarrow> sstep (s, W) (s', W(t := vs @ us))"
| ss_main: "W t = [] \<Longrightarrow> krt2_run_main s a = (s', us) \<Longrightarrow> sstep (s, W) (s', W(t := us))"
| ss_drain: "W t = [] \<Longrightarrow> main_done s \<Longrightarrow> daemon_scope s = Some d \<Longrightarrow> krt2i_scope_drain_bounded s d = Some (s', us) \<Longrightarrow>
    sstep (s, W) (s', W(t := us @ [U_UNPUBLISH]))"
| ss_wake: "W t = [] \<Longrightarrow> sstep (s, W) (s, W(t := [U_WAKE f v]))"

inductive_cases sstep_cases: "sstep c c'"

inductive sreach :: "conf \<Rightarrow> bool" where
  sr_start: "sreach (krt2_new, \<lambda>_. [])"
| sr_step: "sreach c \<Longrightarrow> sstep c c' \<Longrightarrow> sreach c'"

end
