(* ===== verification/Kappa_SchedInv.thy ===== *)
theory Kappa_SchedInv
  imports Kappa_Sched
begin

text \<open>
  Invariants of the scheduler under every interleaving of its threads: every live fiber is in exactly
  one place (the run queue, one thread, or parked), no wake and no interruption is lost, and scopes
  account for their children.
\<close>

declare krt2i_op_interrupt_def [simp] krt2i_op_await_monitor_def [simp] krt2i_op_fork_in_def [simp]

section \<open>Updates\<close>

lemma upd_fields [simp]:
  "fibs (upd_fib f g s) = (fibs s)(f := map_option g (fibs s f))" "proms (upd_fib f g s) = proms s"
  "scopes (upd_fib f g s) = scopes s" "rq (upd_fib f g s) = rq s" "next_id (upd_fib f g s) = next_id s" "nxt (upd_fib f g s) = nxt s"
  "fibs (upd_prom p h s) = fibs s" "proms (upd_prom p h s) = (proms s)(p := map_option h (proms s p))"
  "scopes (upd_prom p h s) = scopes s" "rq (upd_prom p h s) = rq s" "next_id (upd_prom p h s) = next_id s" "nxt (upd_prom p h s) = nxt s"
  "fibs (upd_scope c k s) = fibs s" "proms (upd_scope c k s) = proms s"
  "scopes (upd_scope c k s) = (scopes s)(c := map_option k (scopes s c))" "rq (upd_scope c k s) = rq s"
  "next_id (upd_scope c k s) = next_id s" "nxt (upd_scope c k s) = nxt s"
  by (simp_all add: upd_fib_def upd_prom_def upd_scope_def)

text \<open>The status of every fiber, which most sections leave alone.\<close>

definition sts :: "sched \<Rightarrow> nat \<Rightarrow> fstatus option" where
  "sts s f = map_option f_st (fibs s f)"

lemma sts_upd: "sts (upd_fib f g s) h = (if h = f then map_option (\<lambda>x. f_st (g x)) (fibs s f) else sts s h)"
  by (simp add: sts_def option.map_comp comp_def)

lemma sts_upd_same: "(\<And>x. f_st (g x) = f_st x) \<Longrightarrow> sts (upd_fib f g s) = sts s"
  by (rule ext) (auto simp: sts_def option.map_comp comp_def)

lemma sts_other [simp]:
  "sts (upd_prom p h s) = sts s" "sts (upd_scope c k s) = sts s" "sts (s\<lparr>rq := q\<rparr>) = sts s" "sts (s\<lparr>nxt := n\<rparr>) = sts s"
  "sts (s\<lparr>root_set := r\<rparr>) = sts s" "sts (s\<lparr>main_done := b\<rparr>) = sts s" "sts (s\<lparr>daemon_scope := d\<rparr>) = sts s"
  "sts (s\<lparr>proms := ps\<rparr>) = sts s" "sts (s\<lparr>scopes := cs\<rparr>) = sts s"
  by (simp_all add: sts_def fun_eq_iff)

lemma sts_waiters [simp]: "sts (upd_waiters kp g s) = sts s"
  by (cases kp) (simp_all add: sts_upd_same)

lemma rq_waiters [simp]: "rq (upd_waiters kp g s) = rq s"
  by (cases kp) simp_all

lemma sts_ops [simp]:
  "sts (krt2i_register_park_waiter s f kp w) = sts s" "sts (krt2i_clear_park_waiter s f) = sts s"
  "sts (krt2i_unlink_waiter s kp w) = sts s" "sts (set_cur s f v) = sts s"
  by (simp_all add: krt2i_register_park_waiter_def krt2i_clear_park_waiter_def krt2i_unlink_waiter_def set_cur_def sts_upd_same)

lemma rq_ops [simp]:
  "rq (krt2i_register_park_waiter s f kp w) = rq s" "rq (krt2i_clear_park_waiter s f) = rq s"
  "rq (krt2i_unlink_waiter s kp w) = rq s" "rq (set_cur s f v) = rq s"
  by (simp_all add: krt2i_register_park_waiter_def krt2i_clear_park_waiter_def krt2i_unlink_waiter_def set_cur_def)

lemma sts_cleanup [simp]: "sts (krt2i_cleanup_parked_wait s f) = sts s" "rq (krt2i_cleanup_parked_wait s f) = rq s"
  by (auto simp: krt2i_cleanup_parked_wait_def split: option.split)

lemma sts_delivered [simp]: "sts (interrupt_delivered s f) = sts s" "rq (interrupt_delivered s f) = rq s"
  by (simp_all add: interrupt_delivered_def sts_upd_same)

section \<open>Owners\<close>

text \<open>The fiber a section owns, and the status it has meanwhile.\<close>

fun own :: "uop \<Rightarrow> nat option" where
  "own (U_STEP f) = Some f"
| "own (U_RUN f) = Some f"
| "own (U_PUSH f) = Some f"
| "own (U_RESUME f) = Some f"
| "own (U_DP f _ _) = Some f"
| "own (U_JOIN f _ _) = Some f"
| "own (U_UNLINK f _) = Some f"
| "own (U_ATTACH _ f) = Some f"
| "own _ = None"

fun own_st :: "uop \<Rightarrow> fstatus set" where
  "own_st (U_RUN f) = {F_RUNNABLE}"
| "own_st (U_PUSH f) = {F_RUNNABLE}"
| "own_st (U_RESUME f) = {F_RUNNABLE, F_RUNNING}"
| "own_st (U_ATTACH _ f) = {F_RUNNABLE}"
| "own_st _ = {F_RUNNING}"

definition toks :: "uop list \<Rightarrow> nat list" where
  "toks us = List.map_filter own us"

lemma toks_simps [simp]:
  "toks [] = []" "toks (u # us) = (case own u of None \<Rightarrow> toks us | Some f \<Rightarrow> f # toks us)" "toks (us @ vs) = toks us @ toks vs"
  by (simp_all add: toks_def List.map_filter_def split: option.split)

lemma toks_lists [simp]: "toks (wakes ws ex) = []" "toks (map (\<lambda>k. U_REQUEST k c) ks) = []"
  by (induction ws) (simp_all add: wakes_def toks_def List.map_filter_def)

lemma own_wakes: "v \<in> set (wakes ws ex) \<Longrightarrow> own v = None"
  by (auto simp: wakes_def)

lemma tok_set: "f \<in> set (toks us) \<longleftrightarrow> (\<exists>u\<in>set us. own u = Some f)"
  by (induction us) (auto split: option.split)

definition owned :: "conf \<Rightarrow> nat \<Rightarrow> bool" where
  "owned c f \<longleftrightarrow> f \<in> set (rq (prod.fst c)) \<or> (\<exists>t. f \<in> set (toks (snd c t)))"

definition one_place :: "conf \<Rightarrow> bool" where
  "one_place c \<longleftrightarrow> distinct (rq (prod.fst c)) \<and> (\<forall>t. distinct (toks (snd c t))) \<and>
     (\<forall>t. set (toks (snd c t)) \<inter> set (rq (prod.fst c)) = {}) \<and>
     (\<forall>t t'. t \<noteq> t' \<longrightarrow> set (toks (snd c t)) \<inter> set (toks (snd c t')) = {})"

definition status_ok :: "conf \<Rightarrow> bool" where
  "status_ok c \<longleftrightarrow>
     (\<forall>f\<in>set (rq (prod.fst c)). sts (prod.fst c) f = Some F_RUNNABLE) \<and>
     (\<forall>t. \<forall>u\<in>set (snd c t). \<forall>f. own u = Some f \<longrightarrow> (\<exists>st\<in>own_st u. sts (prod.fst c) f = Some st)) \<and>
     (\<forall>f st. sts (prod.fst c) f = Some st \<longrightarrow> (st = F_PARKED \<or> st = F_DONE \<longleftrightarrow> \<not> owned c f))"

definition own_inv :: "conf \<Rightarrow> bool" where
  "own_inv c \<longleftrightarrow> one_place c \<and> status_ok c"

lemma own_st_live: "st \<in> own_st u \<Longrightarrow> st \<noteq> F_PARKED \<and> st \<noteq> F_DONE"
  by (cases u) auto

lemma one_placeD:
  assumes "one_place (s, W)"
  shows "distinct (rq s)" "distinct (toks (W t))" "g \<in> set (toks (W t)) \<Longrightarrow> g \<notin> set (rq s)"
    "g \<in> set (toks (W t)) \<Longrightarrow> g \<in> set (toks (W t')) \<Longrightarrow> t = t'"
  using assms unfolding one_place_def prod.sel disjoint_iff by blast+

lemma status_okD:
  assumes "status_ok (s, W)"
  shows "f \<in> set (rq s) \<Longrightarrow> sts s f = Some F_RUNNABLE"
    "u \<in> set (W t) \<Longrightarrow> own u = Some f \<Longrightarrow> \<exists>st\<in>own_st u. sts s f = Some st"
    "sts s f = Some st \<Longrightarrow> (st = F_PARKED \<or> st = F_DONE) = (\<not> owned (s, W) f)"
  using assms by (auto simp: status_ok_def)

text \<open>A thread replaces the sections \<open>us0\<close> by \<open>vs\<close>: it may drop fibers, which then are parked or done, and
  acquire fibers nobody owned.\<close>

lemma own_invI:
  assumes inv: "own_inv (s, W)" and W: "W t = us0 @ rest" and q: "rq s' = rq s"
    and st: "\<And>g. g \<notin> set (toks vs) \<Longrightarrow> g \<notin> set (toks us0) \<Longrightarrow> sts s' g = sts s g"
    and d: "distinct (toks vs)" and n: "\<And>g. g \<in> set (toks vs) \<Longrightarrow> g \<notin> set (toks us0) \<Longrightarrow> \<not> owned (s, W) g"
    and v: "\<And>v g. v \<in> set vs \<Longrightarrow> own v = Some g \<Longrightarrow> \<exists>st\<in>own_st v. sts s' g = Some st"
    and o: "\<And>g. g \<in> set (toks us0) \<Longrightarrow> g \<notin> set (toks vs) \<Longrightarrow> sts s' g \<in> {Some F_PARKED, Some F_DONE}"
  shows "own_inv (s', W(t := vs @ rest))"
proof -
  let ?W = "W(t := vs @ rest)"
  have p: "one_place (s, W)" and so: "status_ok (s, W)" using inv by (auto simp: own_inv_def)
  note pD = one_placeD[OF p] and sD = status_okD[OF so]
  have dt: "distinct (toks us0 @ toks rest)" using pD(2)[of t] W by simp
  have other: "g \<notin> set (toks vs) \<and> g \<notin> set (toks us0)" if "g \<in> set (toks (W t'))" "t' \<noteq> t" for g t'
    using pD(4)[of g t' t] that n[of g] W by (auto simp: owned_def)
  have queue: "g \<notin> set (toks vs) \<and> g \<notin> set (toks us0)" if "g \<in> set (rq s)" for g
    using pD(3)[of g t] that n[of g] W by (auto simp: owned_def)
  have remain: "g \<notin> set (toks vs) \<and> g \<notin> set (toks us0)" if r: "g \<in> set (toks rest)" for g
  proof -
    have "g \<notin> set (toks us0)" using dt r by auto
    moreover have "owned (s, W) g" unfolding owned_def prod.sel using W r by (intro disjI2 exI[of _ t]) simp
    ultimately show ?thesis using n[of g] by blast
  qed
  have "one_place (s', ?W)" unfolding one_place_def prod.sel q
  proof (intro conjI allI impI)
    show "distinct (toks (?W x))" for x
      using d dt remain pD(2)[of x] by (cases "x = t") (auto simp: disjoint_iff)
    show "set (toks (?W x)) \<inter> set (rq s) = {}" for x
      using queue remain pD(3)[of _ x] pD(3)[of _ t] W by (cases "x = t") (auto simp: disjoint_iff)
    show "set (toks (?W x)) \<inter> set (toks (?W y)) = {}" if "x \<noteq> y" for x y
      using that other pD(4)[of _ x y] pD(4)[of _ t y] pD(4)[of _ x t] W by (cases "x = t"; cases "y = t") (auto simp: disjoint_iff)
  qed (rule pD(1))
  moreover have "status_ok (s', ?W)" unfolding status_ok_def prod.sel q
  proof (intro conjI ballI allI impI)
    show "sts s' g = Some F_RUNNABLE" if "g \<in> set (rq s)" for g using queue[OF that] st sD(1)[OF that] by simp
    fix x u g assume u: "u \<in> set (?W x)" "own u = Some g"
    show "\<exists>z\<in>own_st u. sts s' g = Some z"
    proof (cases "x = t \<and> u \<in> set vs")
      case True
      then show ?thesis using v u(2) by blast
    next
      case False
      then have g: "g \<in> set (toks rest) \<or> (x \<noteq> t \<and> g \<in> set (toks (W x)))" and uW: "u \<in> set (W x)"
        using u W by (auto simp: tok_set split: if_splits)
      then have "sts s' g = sts s g" using st remain other by blast
      then show ?thesis using sD(2)[OF uW u(2)] by simp
    qed
  next
    fix g x assume x: "sts s' g = Some x"
    show "(x = F_PARKED \<or> x = F_DONE) = (\<not> owned (s', ?W) g)"
    proof (cases "g \<in> set (toks vs)")
      case True
      then obtain u where u: "u \<in> set vs" "own u = Some g" by (auto simp: tok_set)
      have "owned (s', ?W) g" unfolding owned_def prod.sel using True by (intro disjI2 exI[of _ t]) simp
      moreover have "x \<noteq> F_PARKED \<and> x \<noteq> F_DONE" using v[OF u] x own_st_live by fastforce
      ultimately show ?thesis by simp
    next
      case notv: False
      show ?thesis
      proof (cases "g \<in> set (toks us0)")
        case True
        have "\<not> owned (s', ?W) g"
        proof
          assume "owned (s', ?W) g"
          then consider "g \<in> set (rq s)" | "g \<in> set (toks rest)" | y where "y \<noteq> t" "g \<in> set (toks (W y))"
            using notv by (auto simp: owned_def q split: if_splits)
          then show False using queue[of g] remain[of g] other[of g] True by cases auto
        qed
        then show ?thesis using o[OF True notv] x by auto
      next
        case False
        have "owned (s', ?W) g = owned (s, W) g"
          using notv False W by (auto simp: owned_def q split: if_splits) (metis Un_iff set_append toks_simps(3))+
        then show ?thesis using sD(3)[of g x] st[OF notv False] x by simp
      qed
    qed
  qed
  ultimately show ?thesis by (simp add: own_inv_def)
qed

text \<open>The usual shapes of a step.\<close>

lemma own_same:
  assumes "own_inv (s, W)" "W t = us0 @ rest" "rq s' = rq s" "sts s' = sts s" "toks vs = toks us0"
    and "\<And>u v g. u \<in> set us0 \<Longrightarrow> v \<in> set vs \<Longrightarrow> own u = Some g \<Longrightarrow> own v = Some g \<Longrightarrow> own_st u \<subseteq> own_st v"
  shows "own_inv (s', W(t := vs @ rest))"
proof (rule own_invI[OF assms(1-3)])
  show "distinct (toks vs)"
    using assms(1,2,5) by (auto simp: own_inv_def one_place_def dest!: spec[of _ t])
  fix v g assume v: "v \<in> set vs" "own v = Some g"
  then have "g \<in> set (toks us0)" unfolding assms(5)[symmetric] by (auto simp: tok_set)
  then obtain u where u: "u \<in> set us0" "own u = Some g" by (auto simp: tok_set)
  have "\<exists>st\<in>own_st u. sts s g = Some st"
    using assms(1) status_okD(2)[of s W u t g] u assms(2) by (simp add: own_inv_def)
  then show "\<exists>st\<in>own_st v. sts s' g = Some st" using assms(6)[OF u(1) v(1) u(2) v(2)] assms(4) by auto
qed (use assms in auto)

lemma no_tok: "toks vs = [] \<Longrightarrow> v \<in> set vs \<Longrightarrow> own v = None"
  using tok_set[of _ vs] by (cases "own v") auto

lemma own_park:
  assumes "own_inv (s, W)" "W t = us0 @ rest" "rq s' = rq s" "toks vs = []" "toks us0 = [f]"
    and "sts s' = (sts s)(f := Some st)" "st = F_PARKED \<or> st = F_DONE"
  shows "own_inv (s', W(t := vs @ rest))"
  by (rule own_invI[OF assms(1-3)]) (use assms(4-) no_tok[OF assms(4)] in auto)

lemma own_take:
  assumes "own_inv (s, W)" "W t = us0 @ rest" "rq s' = rq s" "toks vs = [f]" "toks us0 = []"
    and "sts s f = Some F_PARKED" "sts s' = (sts s)(f := Some st)"
    and "\<And>v. v \<in> set vs \<Longrightarrow> own v = Some f \<Longrightarrow> st \<in> own_st v"
  shows "own_inv (s', W(t := vs @ rest))"
proof (rule own_invI[OF assms(1-3)])
  have "\<not> owned (s, W) f" using assms(1,6) status_okD(3)[of s W f F_PARKED] by (simp add: own_inv_def)
  then show "g \<in> set (toks vs) \<Longrightarrow> g \<notin> set (toks us0) \<Longrightarrow> \<not> owned (s, W) g" for g using assms(4) by simp
  fix v g assume v: "v \<in> set vs" "own v = Some g"
  then have "g = f" using assms(4) tok_set[of g vs] by auto
  then show "\<exists>st\<in>own_st v. sts s' g = Some st" using assms(7) assms(8)[OF v(1)] v(2) by auto
qed (use assms in auto)

lemma own_change:
  assumes "own_inv (s, W)" "W t = us0 @ rest" "rq s' = rq s" "toks vs = [f]" "toks us0 = [f]"
    and "sts s' = (sts s)(f := Some st)" "\<And>v. v \<in> set vs \<Longrightarrow> own v = Some f \<Longrightarrow> st \<in> own_st v"
  shows "own_inv (s', W(t := vs @ rest))"
proof (rule own_invI[OF assms(1-3)])
  fix v g assume v: "v \<in> set vs" "own v = Some g"
  then have "g = f" using assms(4) tok_set[of g vs] by auto
  then show "\<exists>st\<in>own_st v. sts s' g = Some st" using assms(6) assms(7)[OF v(1)] v(2) by auto
qed (use assms in auto)

lemma own_push:
  assumes inv: "own_inv (s, W)" and W: "W t = U_PUSH f # rest"
  shows "own_inv (krt2i_rq_push s f, W(t := rest))"
proof -
  have p: "one_place (s, W)" and so: "status_ok (s, W)" using inv by (auto simp: own_inv_def)
  note pD = one_placeD[OF p] and sD = status_okD[OF so]
  have tt: "toks (W t) = f # toks rest" using W by simp
  have a: "(\<exists>x. g \<in> set (toks (W x))) = (g = f \<or> g \<in> set (toks rest) \<or> (\<exists>x. x \<noteq> t \<and> g \<in> set (toks (W x))))" for g
    by (metis tt list.set_intros set_ConsD)
  have b: "(\<exists>x. g \<in> set (toks ((W(t := rest)) x))) = (g \<in> set (toks rest) \<or> (\<exists>x. x \<noteq> t \<and> g \<in> set (toks (W x))))" for g
    by (metis fun_upd_apply)
  have o: "owned (krt2i_rq_push s f, W(t := rest)) g = owned (s, W) g" for g
    unfolding owned_def prod.sel a b krt2i_rq_push_def by auto
  have one: "one_place (krt2i_rq_push s f, W(t := rest))" unfolding one_place_def prod.sel krt2i_rq_push_def
  proof (intro conjI allI impI)
    have ft: "f \<in> set (toks (W t))" "f \<notin> set (toks rest)" "set (toks rest) \<subseteq> set (toks (W t))" using tt pD(2)[of t] by auto
    show "distinct (rq (s\<lparr>rq := rq s @ [f]\<rparr>))" using pD(1) pD(3)[OF ft(1)] by simp
    show "distinct (toks ((W(t := rest)) x))" for x using pD(2)[of x] tt pD(2)[of t] by simp
    have sub: "g \<in> set (toks (W x))" if "g \<in> set (toks ((W(t := rest)) x))" for g x
      using that ft(3) by (auto split: if_splits)
    have off: "g \<noteq> f" if "g \<in> set (toks ((W(t := rest)) x))" for g x
    proof
      assume g: "g = f"
      then have "x = t" using pD(4)[OF _ ft(1)] sub[OF that] by blast
      then show False using that ft(2) g by simp
    qed
    show "set (toks ((W(t := rest)) x)) \<inter> set (rq (s\<lparr>rq := rq s @ [f]\<rparr>)) = {}" for x
      using pD(3)[OF sub] off[of _ x] by (auto simp del: fun_upd_apply)
    show "set (toks ((W(t := rest)) x)) \<inter> set (toks ((W(t := rest)) y)) = {}" if "x \<noteq> y" for x y
      using pD(4)[OF sub[of _ x] sub[of _ y]] that by (auto simp del: fun_upd_apply)
  qed
  have "sts s f = Some F_RUNNABLE" using sD(2)[of "U_PUSH f" t f] W by simp
  moreover have "\<exists>st\<in>own_st u. sts s g = Some st" if "u \<in> set rest" "own u = Some g" for u g
    using sD(2)[of u t g] W that by simp
  ultimately have "status_ok (krt2i_rq_push s f, W(t := rest))"
    using sD W unfolding status_ok_def o prod.sel by (auto simp: krt2i_rq_push_def split: if_splits)
  with one show ?thesis by (simp add: own_inv_def)
qed

lemma own_none:
  "own_inv (s, W) \<Longrightarrow> W t = us0 @ rest \<Longrightarrow> rq s' = rq s \<Longrightarrow> sts s' = sts s \<Longrightarrow> toks us0 = [] \<Longrightarrow> toks vs = [] \<Longrightarrow>
   own_inv (s', W(t := vs @ rest))"
  using no_tok[of vs] by (intro own_same[of s W t us0 rest s' vs]) auto

lemma rq_park_on [simp]: "park_on s f kp want msk = (s1, um, reg) \<Longrightarrow> rq s1 = rq s"
  by (auto simp: park_on_def Let_def)

lemma sts_set: "sts s f \<noteq> None \<Longrightarrow> (\<And>x. f_st (g x) = st) \<Longrightarrow> sts (upd_fib f g s) = (sts s)(f := Some st)"
  by (auto simp: sts_upd fun_eq_iff sts_def)

lemma sts_park_on:
  assumes "park_on s f kp want msk = (s1, um, reg)" "fibs s f \<noteq> None"
  shows "sts s1 = (sts s)(f := Some F_PARKED)"
proof -
  have "sts s f \<noteq> None" using assms(2) by (simp add: sts_def)
  then show ?thesis using assms(1) sts_set[of _ f "\<lambda>x. x\<lparr>f_st := F_PARKED, fwait := True\<rparr>" F_PARKED] by (auto simp: park_on_def Let_def)
qed

lemma own_uexec:
  assumes inv: "own_inv (s, W)" and W: "W t = u # rest" and e: "uexec s u = Some (s', vs)"
  shows "own_inv (s', W(t := vs @ rest))"
proof -
  have W1: "W t = [u] @ rest" using W by simp
  note same = own_same[OF inv W1] and none = own_none[OF inv W1] and park = own_park[OF inv W1]
    and take = own_take[OF inv W1] and change = own_change[OF inv W1]
  show ?thesis
  proof (cases u)
    case (U_RUN f)
    then show ?thesis using e status_okD(2)[of s W u t f] inv W
      by (intro change[of _ _ f F_RUNNING]) (auto simp: sts_upd fun_eq_iff own_inv_def sts_def)
  next
    case (U_PUSH f)
    then show ?thesis using e own_push[OF inv, of t f rest] W by simp
  next
    case (U_RESUME f)
    then show ?thesis using e status_okD(2)[of s W u t f] inv W
      by (intro change[of _ _ f F_RUNNABLE]) (auto simp: krt2i_resume_def sts_upd fun_eq_iff own_inv_def sts_def)
  next
    case (U_WAKE f v)
    show ?thesis
    proof (cases "sts s f = Some F_PARKED")
      case True
      then obtain x where x: "fibs s f = Some x" "f_st x = F_PARKED" by (auto simp: sts_def)
      then show ?thesis using e U_WAKE True
        by (intro take[of _ _ f F_RUNNABLE]) (auto simp: krt2i_wake_def sts_upd fun_eq_iff)
    next
      case False
      then show ?thesis using e U_WAKE by (intro none) (auto simp: krt2i_wake_def sts_def split: option.splits if_splits)
    qed
  next
    case (U_REQUEST f cs)
    then show ?thesis using e by (intro none) (auto simp: krt2i_interrupt_request_def sts_upd_same)
  next
    case (U_DP f kp want)
    then show ?thesis using e
      by (intro same) (auto simp: krt2i_deliver_pending_before_park_def split: option.splits if_splits)
  next
    case (U_CLAIM f um reg)
    then show ?thesis using e by (intro none) (auto simp: claim_load_def split: option.splits if_splits)
  next
    case (U_CAS f reg)
    show ?thesis
    proof (cases "sts s f = Some F_PARKED")
      case True
      then obtain x where x: "fibs s f = Some x" "f_st x = F_PARKED" by (auto simp: sts_def)
      then show ?thesis using e U_CAS True
        by (intro take[of _ _ f F_RUNNING]) (auto simp: claim_cas_def sts_upd fun_eq_iff)
    next
      case False
      then show ?thesis using e U_CAS by (intro none) (auto simp: claim_cas_def sts_def split: option.splits if_splits)
    qed
  next
    case (U_UNLINK f reg)
    then show ?thesis using e by (intro same) (auto simp: claimed_def Let_def split: option.splits)
  next
    case (U_ATTACH sc f)
    then show ?thesis using e
      by (intro same) (auto simp: krt2i_scope_attach_def sts_upd_same split: option.splits if_splits)
  next
    case (U_DETACH f)
    then show ?thesis using e
      by (intro none) (auto simp: krt2i_scope_detach_def sts_upd_same Let_def split: option.splits if_splits)
  next
    case (U_JOIN f kp want)
    have st: "toks vs = [f] \<and> sts s' = sts s \<and> rq s' = rq s \<and> vs = [U_STEP f] \<or>
        toks vs = [] \<and> rq s' = rq s \<and> sts s' = (sts s)(f := Some F_PARKED)"
      using e U_JOIN
      by (cases kp) (auto simp: do_await_def do_await_promise_def Let_def sts_park_on split: option.splits if_splits prod.splits)
    then show ?thesis
    proof
      assume "toks vs = [f] \<and> sts s' = sts s \<and> rq s' = rq s \<and> vs = [U_STEP f]"
      then show ?thesis using U_JOIN by (intro same) auto
    next
      assume "toks vs = [] \<and> rq s' = rq s \<and> sts s' = (sts s)(f := Some F_PARKED)"
      then show ?thesis using U_JOIN by (intro park[of _ _ f F_PARKED]) auto
    qed
  next
    case (U_ALL_ADD f)
    then show ?thesis using e by (intro none) (auto simp: krt2i_all_add_def)
  next
    case (U_ALL_REMOVE f)
    then show ?thesis using e by (intro none) (auto simp: krt2i_all_remove_def)
  next
    case (U_MAIN f)
    then show ?thesis using e by (intro none) auto
  next
    case U_UNPUBLISH
    then show ?thesis using e by (intro none) auto
  qed (use e in simp)
qed

section \<open>The other steps\<close>

text \<open>Ids are never reused.\<close>

definition fresh_inv :: "sched \<Rightarrow> bool" where
  "fresh_inv s \<longleftrightarrow> (\<forall>f>next_id s. fibs s f = None) \<and> (\<forall>k\<ge>nxt s. proms s k = None \<and> scopes s k = None)"

lemma own_op:
  assumes inv: "own_inv (s, W)" and fr: "fresh_inv s" and W: "W t = U_STEP f # rest" and e: "op_step s f op = Some (s', vs)"
  shows "own_inv (s', W(t := vs @ rest))"
proof -
  have W1: "W t = [U_STEP f] @ rest" using W by simp
  note same = own_same[OF inv W1] and none = own_none[OF inv W1] and park = own_park[OF inv W1]
    and take = own_take[OF inv W1] and change = own_change[OF inv W1]
  obtain x where x: "fibs s f = Some x" using e by (auto simp: op_step_def split: option.splits)
  have run: "f_st x = F_RUNNING" using status_okD(2)[of s W "U_STEP f" t f] inv W x by (auto simp: own_inv_def sts_def)
  have spawn: ?thesis if sp: "spawn_step s f msk a att dm = Some (s', vs)" for msk a att dm
  proof -
    let ?c = "Suc (next_id s)"
    have c: "fibs s ?c = None" using fr by (simp add: fresh_inv_def)
    have n: "\<not> owned (s, W) ?c"
      using inv status_okD(1,2)[of s W] c by (fastforce simp: owned_def own_inv_def tok_set sts_def)
    have cf: "?c \<noteq> f" using c x by auto
    have s': "sts s' = (sts s)(?c := Some F_RUNNABLE)" "rq s' = rq s"
      using sp by (auto simp: spawn_step_def krt2i_spawn_from_def Let_def sts_def fun_eq_iff)
    have vs: "toks vs = [?c, f]" using sp by (auto simp: spawn_step_def krt2i_spawn_from_def Let_def split: option.splits)
    have st: "v \<in> set vs \<Longrightarrow> own v = Some g \<Longrightarrow> g = ?c \<and> F_RUNNABLE \<in> own_st v \<or> v = U_STEP f \<and> g = f" for v g
      using sp by (auto simp: spawn_step_def krt2i_spawn_from_def Let_def split: option.splits)
    show ?thesis
    proof (rule own_invI[OF inv W1 s'(2)])
      fix v g assume "v \<in> set vs" "own v = Some g"
      then show "\<exists>st\<in>own_st v. sts s' g = Some st" using st[of v g] s' cf x run by (auto simp: sts_def)
    qed (use vs n s' cf in auto)
  qed
  have pk: ?thesis if "toks vs = []" "rq s' = rq s" "sts s' = (sts s)(f := Some st)" "st = F_PARKED \<or> st = F_DONE" for st
    using that by (intro park[of _ _ f st]) auto
  have id: ?thesis if "toks vs = [f]" "rq s' = rq s" "sts s' = sts s" "\<And>v. v \<in> set vs \<Longrightarrow> own v = Some f \<Longrightarrow> F_RUNNING \<in> own_st v"
    using that by (intro same) auto
  have sf: "sts s f \<noteq> None" using x by (simp add: sts_def)
  show ?thesis
  proof (cases op)
    case (SO_SHUTDOWN sc)
    then obtain c where c: "scopes s sc = Some c" using e x by (auto simp: op_step_def krt2i_op_shutdown_scope_def split: option.splits)
    show ?thesis
    proof (cases "sc_live c > 0")
      case True
      then show ?thesis using e SO_SHUTDOWN x c
        by (intro pk[of F_PARKED]) (auto simp: op_step_def krt2i_op_shutdown_scope_def Let_def sts_park_on split: prod.splits)
    next
      case False
      then show ?thesis using e SO_SHUTDOWN x c by (intro id) (auto simp: op_step_def krt2i_op_shutdown_scope_def Let_def)
    qed
  next
    case (SO_COMPLETE p ex)
    then show ?thesis using e x
      by (intro id) (auto simp: op_step_def promise_complete_def own_wakes split: option.splits prod.splits if_splits)
  next
    case (SO_FORK a d)
    then show ?thesis using spawn e x by (simp add: op_step_def)
  next
    case (SO_FORK_IN sc a)
    then show ?thesis using spawn e x by (simp add: op_step_def)
  next
    case SO_PARK
    show ?thesis
    proof (cases "deliverable x")
      case True
      then show ?thesis using e x SO_PARK by (intro id) (auto simp: op_step_def sleep_step_def)
    next
      case False
      then show ?thesis using e x SO_PARK sf
        by (intro pk[of F_PARKED]) (auto simp: op_step_def sleep_step_def intro!: sts_set)
    qed
  next
    case (SO_FINISH ex)
    then show ?thesis using e x sf
      by (intro pk[of F_DONE]) (auto simp: op_step_def fiber_finish_def intro!: sts_set)
  qed ((rule id; insert e x; auto simp: op_step_def promise_new_def krt2i_scope_new_def cede_step_def sts_upd_same split: if_splits)+)
qed

text \<open>Popping the run queue, and the sections that start new threads of work.\<close>

lemma own_pop:
  assumes inv: "own_inv (s, W)" and W: "W t = []" and q: "rq s = f # q"
  shows "own_inv (s\<lparr>rq := q\<rparr>, W(t := [U_RUN f]))"
proof -
  let ?s = "s\<lparr>rq := q\<rparr>" and ?W = "W(t := [U_RUN f])"
  have p: "one_place (s, W)" and so: "status_ok (s, W)" using inv by (auto simp: own_inv_def)
  note pD = one_placeD[OF p] and sD = status_okD[OF so]
  have fq: "f \<notin> set q" "distinct q" using pD(1) q by auto
  have fW: "f \<notin> set (toks (W x))" for x using pD(3)[of f x] q by auto
  have qW: "g \<notin> set q" if "g \<in> set (toks (W x))" for g x using pD(3)[OF that] q by auto
  have one: "one_place (?s, ?W)" unfolding one_place_def prod.sel
  proof (intro conjI allI impI)
    show "distinct (toks (?W x))" for x using pD(2)[of x] by simp
    show "set (toks (?W x)) \<inter> set (rq ?s) = {}" for x using qW[of _ x] fq by (auto simp: disjoint_iff)
    show "set (toks (?W x)) \<inter> set (toks (?W y)) = {}" if "x \<noteq> y" for x y
      using that fW[of x] fW[of y] pD(4)[of _ x y] by (auto simp: disjoint_iff)
  qed (use fq in simp)
  have o: "owned (?s, ?W) g = owned (s, W) g" for g
    using W q by (auto simp: owned_def split: if_splits) (metis empty_iff list.set(1) toks_simps(1))+
  have "sts s f = Some F_RUNNABLE" using sD(1)[of f] q by simp
  then have "status_ok (?s, ?W)"
    using sD q unfolding status_ok_def o prod.sel by (auto split: if_splits)
  with one show ?thesis by (simp add: own_inv_def)
qed

lemma own_main:
  assumes inv: "own_inv (s, W)" and fr: "fresh_inv s" and W: "W t = []" and e: "krt2_run_main s a = (s', us)"
  shows "own_inv (s', W(t := us))"
proof -
  have W1: "W t = [] @ []" using W by simp
  let ?c = "Suc (next_id s)"
  have c: "fibs s ?c = None" using fr by (simp add: fresh_inv_def)
  have n: "\<not> owned (s, W) ?c"
    using inv status_okD(1,2)[of s W] c by (fastforce simp: owned_def own_inv_def tok_set sts_def)
  have s': "sts s' = (sts s)(?c := Some F_RUNNABLE)" "rq s' = rq s" "us = [U_ALL_ADD ?c, U_RESUME ?c]"
    using e by (auto simp: krt2_run_main_def krt2i_scope_new_def Let_def sts_def fun_eq_iff)
  have "own_inv (s', W(t := us @ []))"
    by (rule own_invI[OF inv W1 s'(2)]) (use n s' in \<open>auto split: if_splits\<close>)
  then show ?thesis by simp
qed

section \<open>One step of a thread\<close>

text \<open>What a thread does to the state when it executes: the sections it consumes and the ones it leaves.\<close>

inductive act :: "sched \<Rightarrow> uop list \<Rightarrow> sched \<Rightarrow> uop list \<Rightarrow> bool" where
  act_pop: "rq s = f # q \<Longrightarrow> act s [] (s\<lparr>rq := q\<rparr>) [U_RUN f]"
| act_op: "op_step s f op = Some (s', vs) \<Longrightarrow> act s [U_STEP f] s' vs"
| act_uop: "uexec s u = Some (s', vs) \<Longrightarrow> act s [u] s' vs"
| act_main: "krt2_run_main s a = (s', vs) \<Longrightarrow> act s [] s' vs"
| act_drain: "krt2i_scope_drain_bounded s d = Some (s', us) \<Longrightarrow> act s [] s' (us @ [U_UNPUBLISH])"
| act_wake: "act s [] s [U_WAKE f v]"

lemma sstep_act:
  assumes "sstep (s, W) (s', W')"
  obtains t us vs rest where "act s us s' vs" "W t = us @ rest" "W' = W(t := vs @ rest)" "us = [] \<longrightarrow> rest = []"
  using assms
proof cases
  case (ss_pop t f q)
  then show ?thesis using that[of "[]" "[U_RUN f]" t "[]"] by (auto intro: act_pop)
next
  case (ss_op t f us op vs)
  then show ?thesis using that[of "[U_STEP f]" vs t us] by (auto intro: act_op)
next
  case (ss_uop t u us vs)
  then show ?thesis using that[of "[u]" vs t us] by (auto intro: act_uop)
next
  case (ss_main t a us)
  then show ?thesis using that[of "[]" us t "[]"] by (auto intro: act_main)
next
  case (ss_drain t d us)
  then show ?thesis using that[of "[]" "us @ [U_UNPUBLISH]" t "[]"] by (auto intro: act_drain)
next
  case (ss_wake t f v)
  then show ?thesis using that[of "[]" "[U_WAKE f v]" t "[]"] by (auto intro: act_wake)
qed

lemma own_act:
  assumes inv: "own_inv (s, W)" and fr: "fresh_inv s" and W: "W t = us @ rest" and idle: "us = [] \<longrightarrow> rest = []" and a: "act s us s' vs"
  shows "own_inv (s', W(t := vs @ rest))"
  using a
proof cases
  case (act_pop f q)
  then show ?thesis using own_pop[OF inv, of t f q] W idle by simp
next
  case (act_op f op)
  then show ?thesis using own_op[OF inv fr, of t f rest op s' vs] W by simp
next
  case (act_uop u)
  then show ?thesis using own_uexec[OF inv, of t u rest s' vs] W by simp
next
  case (act_main a)
  then show ?thesis using own_main[OF inv fr, of t a s' vs] W idle by simp
next
  case (act_drain d ks)
  then show ?thesis using W
    by (intro own_none[OF inv W]) (auto simp: krt2i_scope_drain_bounded_def toks_lists split: option.splits)
next
  case (act_wake f v)
  then show ?thesis by (intro own_none[OF inv W]) auto
qed

text \<open>No section removes a fiber, a promise or a scope, and new ones take the next ids.\<close>

definition grow :: "sched \<Rightarrow> sched \<Rightarrow> bool" where
  "grow s s' \<longleftrightarrow> next_id s \<le> next_id s' \<and> nxt s \<le> nxt s' \<and>
     (\<forall>f. fibs s' f = None \<longleftrightarrow> fibs s f = None \<and> \<not> (next_id s < f \<and> f \<le> next_id s')) \<and>
     (\<forall>k. proms s k = None \<longrightarrow> proms s' k = None \<or> nxt s \<le> k \<and> k < nxt s') \<and>
     (\<forall>k. scopes s k = None \<longrightarrow> scopes s' k = None \<or> nxt s \<le> k \<and> k < nxt s')"

definition same_dom :: "sched \<Rightarrow> sched \<Rightarrow> bool" where
  "same_dom s s' \<longleftrightarrow> next_id s' = next_id s \<and> nxt s \<le> nxt s' \<and> (\<forall>f. fibs s' f = None \<longleftrightarrow> fibs s f = None) \<and>
     (\<forall>k. proms s' k = None \<longleftrightarrow> proms s k = None) \<and> (\<forall>k. scopes s' k = None \<longleftrightarrow> scopes s k = None)"

lemma same_dom_grow: "same_dom s s' \<Longrightarrow> grow s s'"
  by (auto simp: same_dom_def grow_def)

lemma same_dom_trans: "same_dom a b \<Longrightarrow> same_dom b c \<Longrightarrow> same_dom a c"
  by (auto simp: same_dom_def)

lemma same_dom_id [simp]: "same_dom s s"
  by (simp add: same_dom_def)

lemma same_dom_upd [simp]:
  "same_dom s (upd_fib f g s') \<longleftrightarrow> same_dom s s'" "same_dom s (upd_prom p h s') \<longleftrightarrow> same_dom s s'" "same_dom s (upd_scope c k s') \<longleftrightarrow> same_dom s s'"
  "same_dom s (s'\<lparr>root_set := r\<rparr>) \<longleftrightarrow> same_dom s s'" "same_dom s (s'\<lparr>rq := q\<rparr>) \<longleftrightarrow> same_dom s s'" "same_dom s (s'\<lparr>main_done := b\<rparr>) \<longleftrightarrow> same_dom s s'"
  "same_dom s (s'\<lparr>daemon_scope := d\<rparr>) \<longleftrightarrow> same_dom s s'"
  by (auto simp: same_dom_def)

lemma same_dom_waiters [simp]: "same_dom s (upd_waiters kp g s') \<longleftrightarrow> same_dom s s'"
  by (cases kp) simp_all

lemma same_dom_ops [simp]:
  "same_dom s (krt2i_register_park_waiter s' f kp w) \<longleftrightarrow> same_dom s s'" "same_dom s (krt2i_clear_park_waiter s' f) \<longleftrightarrow> same_dom s s'"
  "same_dom s (krt2i_unlink_waiter s' kp w) \<longleftrightarrow> same_dom s s'" "same_dom s (set_cur s' f v) \<longleftrightarrow> same_dom s s'"
  by (simp_all add: krt2i_register_park_waiter_def krt2i_clear_park_waiter_def krt2i_unlink_waiter_def set_cur_def)

lemma same_dom_delivered [simp]: "same_dom s (interrupt_delivered s' f) \<longleftrightarrow> same_dom s s'"
  by (simp add: interrupt_delivered_def krt2i_cleanup_parked_wait_def split: option.split)

lemma same_dom_park_on: "park_on s' f kp want msk = (s1, um, reg) \<Longrightarrow> same_dom s s' \<Longrightarrow> same_dom s s1"
  by (auto simp: park_on_def Let_def same_dom_def[of s "_\<lparr>nxt := _\<rparr>"]) (simp_all add: same_dom_def)

lemma grow_uexec: "uexec s u = Some (s', vs) \<Longrightarrow> same_dom s s'"
proof (cases u)
  case (U_JOIN f kp want)
  then show "uexec s u = Some (s', vs) \<Longrightarrow> same_dom s s'"
    by (cases kp) (auto simp: do_await_def do_await_promise_def Let_def same_dom_park_on split: option.splits if_splits prod.splits)
qed (auto simp: krt2i_rq_push_def krt2i_resume_def krt2i_wake_def krt2i_interrupt_request_def krt2i_deliver_pending_before_park_def
    claim_load_def claim_cas_def claimed_def Let_def krt2i_scope_attach_def krt2i_all_add_def krt2i_all_remove_def
    krt2i_scope_detach_def split: option.splits if_splits)

lemma grow_scope_new: "grow s (krt2i_scope_new s)"
  by (auto simp: krt2i_scope_new_def grow_def)

lemma grow_trans:
  assumes a: "grow s s1" and b: "grow s1 s2"
  shows "grow s s2"
  unfolding grow_def
proof (intro conjI allI impI)
  show "next_id s \<le> next_id s2" "nxt s \<le> nxt s2" using a b by (auto simp: grow_def)
  show "(fibs s2 f = None) = (fibs s f = None \<and> \<not> (next_id s < f \<and> f \<le> next_id s2))" for f
    using a b unfolding grow_def by (meson not_le order.trans order.strict_trans1 order.strict_trans2)
  show "proms s k = None \<Longrightarrow> proms s2 k = None \<or> nxt s \<le> k \<and> k < nxt s2" for k
    using a b unfolding grow_def by (meson order.trans order.strict_trans2)
  show "scopes s k = None \<Longrightarrow> scopes s2 k = None \<or> nxt s \<le> k \<and> k < nxt s2" for k
    using a b unfolding grow_def by (meson order.trans order.strict_trans2)
qed

lemma grow_op: "op_step s f op = Some (s', vs) \<Longrightarrow> grow s s'"
proof -
  assume e: "op_step s f op = Some (s', vs)"
  have spawn: "grow s s'" if "spawn_step s g msk a att dm = Some (s', vs)" for g msk a att dm
    using that by (auto simp: spawn_step_def krt2i_spawn_from_def Let_def grow_def split: if_splits)
  obtain x where x: "fibs s f = Some x" using e by (auto simp: op_step_def split: option.splits)
  show ?thesis
  proof (cases op)
    case (SO_FORK a d)
    then show ?thesis using spawn e x by (simp add: op_step_def)
  next
    case (SO_FORK_IN sc a)
    then show ?thesis using spawn e x by (simp add: op_step_def)
  next
    case SO_NEW_PROMISE
    then show ?thesis using e x by (auto simp: op_step_def promise_new_def grow_def split: if_splits)
  next
    case SO_NEW_SCOPE
    then show ?thesis using e x by (auto simp: op_step_def grow_scope_new)
  next
    case (SO_SHUTDOWN sc)
    then show ?thesis using e x
      by (intro same_dom_grow) (auto simp: op_step_def krt2i_op_shutdown_scope_def Let_def same_dom_park_on split: option.splits if_splits prod.splits)
  qed (rule same_dom_grow, insert e x, auto simp: op_step_def promise_complete_def cede_step_def sleep_step_def fiber_finish_def
      split: option.splits if_splits)+
qed

lemma grow_run_main:
  assumes "krt2_run_main s a = (s', vs)"
  shows "grow s s'"
proof -
  have "grow s (krt2i_scope_new (krt2i_scope_new s))" by (rule grow_trans[OF grow_scope_new grow_scope_new])
  moreover have "grow (krt2i_scope_new (krt2i_scope_new s)) s'" using assms by (auto simp: krt2_run_main_def Let_def grow_def split: if_splits)
  ultimately show ?thesis by (rule grow_trans)
qed

lemma grow_act:
  assumes "act s us s' vs"
  shows "grow s s'"
  using assms
proof cases
  case (act_op f op)
  then show ?thesis by (simp add: grow_op)
next
  case (act_uop u)
  then show ?thesis by (simp add: grow_uexec same_dom_grow)
next
  case (act_main a)
  then show ?thesis by (simp add: grow_run_main)
next
  case (act_drain d us)
  then show ?thesis by (auto simp: krt2i_scope_drain_bounded_def intro!: same_dom_grow split: option.splits)
qed (auto intro!: same_dom_grow)

lemma grow_fresh: "grow s s' \<Longrightarrow> fresh_inv s \<Longrightarrow> fresh_inv s'"
  unfolding grow_def fresh_inv_def by (meson dual_order.strict_trans1 le_trans not_le)

section \<open>Every fiber is in one place\<close>

lemma sreach_own: "sreach c \<Longrightarrow> own_inv c \<and> fresh_inv (prod.fst c)"
proof (induction rule: sreach.induct)
  case sr_start
  show ?case by (auto simp: own_inv_def one_place_def status_ok_def owned_def fresh_inv_def krt2_new_def sts_def)
next
  case (sr_step c c')
  obtain s W s' W' where c: "c = (s, W)" "c' = (s', W')" by (cases c, cases c')
  have inv: "own_inv (s, W)" "fresh_inv s" using sr_step(3) c by auto
  obtain t us vs rest where a: "act s us s' vs" "W t = us @ rest" "W' = W(t := vs @ rest)" "us = [] \<longrightarrow> rest = []"
    by (rule sstep_act[OF sr_step(2)[unfolded c]])
  have "own_inv (s', W')" unfolding a(3) by (rule own_act[OF inv a(2) a(4) a(1)])
  moreover have "fresh_inv s'" using grow_fresh[OF grow_act[OF a(1)] inv(2)] .
  ultimately show ?case using c by simp
qed

end
