(* ===== verification/Kappa_SchedLive.thy ===== *)
theory Kappa_SchedLive
  imports Kappa_SchedInv
begin

text \<open>
  No wake, no interruption and no child of a scope is lost, whatever the interleaving. Each invariant
  speaks of the state and of the set of pending sections (the ones some thread has still to execute); the
  locale \<open>sched_inv\<close> holds the induction over the reachable configurations once.
\<close>

section \<open>Pending sections\<close>

definition pend :: "(nat \<Rightarrow> uop list) \<Rightarrow> uop \<Rightarrow> bool" where
  "pend W u \<longleftrightarrow> (\<exists>t. u \<in> set (W t))"

text \<open>A thread replaced the sections \<open>us\<close> by \<open>vs\<close>.\<close>

definition swapped :: "(uop \<Rightarrow> bool) \<Rightarrow> uop list \<Rightarrow> uop list \<Rightarrow> (uop \<Rightarrow> bool) \<Rightarrow> bool" where
  "swapped P us vs P' \<longleftrightarrow> (\<forall>u\<in>set us. P u) \<and> (\<forall>x. P x \<and> x \<notin> set us \<longrightarrow> P' x) \<and> (\<forall>x\<in>set vs. P' x) \<and> (\<forall>x. P' x \<longrightarrow> x \<in> set vs \<or> P x)"

lemma swapped_pend: "W t = us @ rest \<Longrightarrow> swapped (pend W) us vs (pend (W(t := vs @ rest)))"
  unfolding swapped_def pend_def
proof (intro conjI allI impI ballI)
  assume W: "W t = us @ rest"
  show "\<exists>t. u \<in> set (W t)" if "u \<in> set us" for u using that W by (intro exI[of _ t]) simp
  show "\<exists>x. u \<in> set ((W(t := vs @ rest)) x)" if "u \<in> set vs" for u using that by (intro exI[of _ t]) simp
  show "\<exists>y. x \<in> set ((W(t := vs @ rest)) y)" if x: "(\<exists>t. x \<in> set (W t)) \<and> x \<notin> set us" for x
  proof -
    obtain y where "x \<in> set (W y)" "x \<notin> set us" using x by blast
    then show ?thesis using W by (intro exI[of _ y]) auto
  qed
  show "x \<in> set vs \<or> (\<exists>t. x \<in> set (W t))" if x: "\<exists>y. x \<in> set ((W(t := vs @ rest)) y)" for x
  proof -
    obtain y where y: "x \<in> set ((W(t := vs @ rest)) y)" using x by blast
    show ?thesis
    proof (cases "y = t")
      case True
      then have "x \<in> set vs \<or> x \<in> set (W t)" using y W by auto
      then show ?thesis by blast
    next
      case False
      then show ?thesis using y by auto
    qed
  qed
qed

lemma swappedD:
  assumes "swapped P us vs P'"
  shows "u \<in> set us \<Longrightarrow> P u" "P x \<Longrightarrow> x \<notin> set us \<Longrightarrow> P' x" "x \<in> set vs \<Longrightarrow> P' x" "P' x \<Longrightarrow> x \<in> set vs \<or> P x"
  using assms by (auto simp: swapped_def)

text \<open>What the ownership invariant says of the pending sections.\<close>

definition based :: "sched \<Rightarrow> (uop \<Rightarrow> bool) \<Rightarrow> bool" where
  "based s P \<longleftrightarrow> fresh_inv s \<and> (\<forall>u f. P u \<and> own u = Some f \<longrightarrow> (\<exists>st\<in>own_st u. sts s f = Some st)) \<and>
     (\<forall>u v f. P u \<and> P v \<and> own u = Some f \<and> own v = Some f \<longrightarrow> u = v)"

lemma toks_unique: "distinct (toks us) \<Longrightarrow> u \<in> set us \<Longrightarrow> v \<in> set us \<Longrightarrow> own u = Some f \<Longrightarrow> own v = Some f \<Longrightarrow> u = v"
  by (induction us) (auto simp: tok_set split: option.splits)

lemma own_based:
  assumes inv: "own_inv (s, W)" and fr: "fresh_inv s"
  shows "based s (pend W)"
  unfolding based_def
proof (intro conjI allI impI)
  have p: "one_place (s, W)" and so: "status_ok (s, W)" using inv by (auto simp: own_inv_def)
  fix u v f
  show "\<exists>st\<in>own_st u. sts s f = Some st" if "pend W u \<and> own u = Some f"
    using that status_okD(2)[OF so] by (auto simp: pend_def)
  show "u = v" if uv: "pend W u \<and> pend W v \<and> own u = Some f \<and> own v = Some f"
  proof -
    obtain t t' where t: "u \<in> set (W t)" "v \<in> set (W t')" using uv by (auto simp: pend_def)
    then have "f \<in> set (toks (W t))" "f \<in> set (toks (W t'))" using uv by (auto simp: tok_set)
    then have "t = t'" by (rule one_placeD(4)[OF p])
    then show ?thesis using toks_unique[OF one_placeD(2)[OF p]] t uv by blast
  qed
qed (rule fr)

lemma based_own: "based s P \<Longrightarrow> P u \<Longrightarrow> own u = Some f \<Longrightarrow> fibs s f = Some x \<Longrightarrow> f_st x \<in> own_st u"
  unfolding based_def sts_def by (metis option.inject option.simps(9))

lemma based_running: "based s P \<Longrightarrow> P (U_STEP f) \<Longrightarrow> fibs s f = Some x \<Longrightarrow> f_st x = F_RUNNING"
  using based_own[of s P "U_STEP f" f x] by simp

section \<open>Induction over the reachable configurations\<close>

locale sched_inv =
  fixes J :: "sched \<Rightarrow> (uop \<Rightarrow> bool) \<Rightarrow> bool"
  assumes start: "J krt2_new (\<lambda>_. False)"
    and keep: "based s P \<Longrightarrow> based s' P' \<Longrightarrow> act s us s' vs \<Longrightarrow> swapped P us vs P' \<Longrightarrow> J s P \<Longrightarrow> J s' P'"
begin

lemma always: "sreach c \<Longrightarrow> J (prod.fst c) (pend (snd c))"
proof (induction rule: sreach.induct)
  case sr_start
  then show ?case using start by (simp add: pend_def[abs_def])
next
  case (sr_step c c')
  obtain s W s' W' where c: "c = (s, W)" "c' = (s', W')" by (cases c, cases c')
  obtain t us vs rest where a: "act s us s' vs" "W t = us @ rest" "W' = W(t := vs @ rest)" "us = [] \<longrightarrow> rest = []"
    by (rule sstep_act[OF sr_step(2)[unfolded c]])
  have b: "based s (pend W)" using sreach_own[OF sr_step(1)] own_based c by simp
  have b': "based s' (pend W')" using sreach_own[OF sreach.sr_step[OF sr_step(1,2)]] own_based c by simp
  have "J s' (pend W')"
    by (rule keep[OF b b' a(1)]) (use sr_step(3) c a(3) swapped_pend[of W, OF a(2)] in simp_all)
  then show ?case using c by simp
qed

lemma reach: "sreach (s, W) \<Longrightarrow> J s (pend W)"
  using always[of "(s, W)"] by simp

end

section \<open>Interruptions\<close>

text \<open>A parked fiber whose interruption may be delivered, and the sections that will see to it.\<close>

definition wants :: "sched \<Rightarrow> nat \<Rightarrow> bool" where
  "wants s f \<longleftrightarrow> (\<exists>x. fibs s f = Some x \<and> f_st x = F_PARKED \<and> deliverable x)"

fun sees :: "nat \<Rightarrow> uop \<Rightarrow> bool" where
  "sees f (U_WAKE g v) = (g = f)"
| "sees f (U_CLAIM g um r) = (g = f \<and> um)"
| "sees f (U_CAS g r) = (g = f)"
| "sees f _ = False"

definition intr_inv :: "sched \<Rightarrow> (uop \<Rightarrow> bool) \<Rightarrow> bool" where
  "intr_inv s P \<longleftrightarrow> (\<forall>f. wants s f \<longrightarrow> (\<exists>u. sees f u \<and> P u))"

lemma wants_upd: "wants (upd_fib f g s) h = (if h = f then (\<exists>x. fibs s f = Some x \<and> f_st (g x) = F_PARKED \<and> deliverable (g x)) else wants s h)"
  by (auto simp: wants_def)

lemma wants_other [simp]:
  "wants (upd_prom p g s) h = wants s h" "wants (upd_scope c k s) h = wants s h" "wants (s\<lparr>rq := q\<rparr>) h = wants s h" "wants (s\<lparr>nxt := n\<rparr>) h = wants s h"
  "wants (s\<lparr>root_set := r\<rparr>) h = wants s h" "wants (s\<lparr>main_done := b\<rparr>) h = wants s h" "wants (s\<lparr>daemon_scope := d\<rparr>) h = wants s h"
  "wants (s\<lparr>proms := ps\<rparr>) h = wants s h" "wants (s\<lparr>scopes := cs\<rparr>) h = wants s h"
  by (simp_all add: wants_def)

lemma wants_same: "(\<And>x. f_st (g x) = f_st x \<and> deliverable (g x) = deliverable x) \<Longrightarrow> wants (upd_fib f g s) h = wants s h"
  by (auto simp: wants_def)

lemma wants_waiters [simp]: "wants (upd_waiters kp g s) h = wants s h"
  by (cases kp) (simp_all add: wants_same deliverable_def)

lemma wants_ops [simp]:
  "wants (krt2i_register_park_waiter s f kp w) h = wants s h" "wants (krt2i_clear_park_waiter s f) h = wants s h"
  "wants (krt2i_unlink_waiter s kp w) h = wants s h" "wants (set_cur s f v) h = wants s h"
  by (simp_all add: krt2i_register_park_waiter_def krt2i_clear_park_waiter_def krt2i_unlink_waiter_def set_cur_def wants_same deliverable_def)

lemma wants_delivered: "wants (interrupt_delivered s f) h \<Longrightarrow> wants s h"
  by (auto simp: interrupt_delivered_def krt2i_cleanup_parked_wait_def wants_upd deliverable_def split: option.splits if_splits)

lemma wants_park_on:
  "park_on s f kp want (fmask x) = (s1, um, reg) \<Longrightarrow> fibs s f = Some x \<Longrightarrow> wants s1 h \<Longrightarrow> wants s h \<or> h = f \<and> um"
  by (cases kp) (auto simp: park_on_def Let_def wants_def deliverable_def krt2i_register_park_waiter_def split: if_splits)

lemma act_wants:
  assumes "act s us s' vs" "wants s' f" and base: "based s P" "\<forall>u\<in>set us. P u"
  shows "(\<exists>v\<in>set vs. sees f v) \<or> wants s f \<and> (\<forall>u\<in>set us. \<not> sees f u)"
  using assms(1)
proof cases
  case (act_uop u)
  note e = act_uop(2)
  show ?thesis
  proof (cases u)
    case (U_JOIN g kp want)
    then show ?thesis using e act_uop(1) assms(2) wants_park_on
      by (cases kp) (auto simp: do_await_def do_await_promise_def Let_def split: option.splits if_splits prod.splits dest!: wants_park_on)
  next
    case (U_WAKE g v)
    then show ?thesis using e act_uop(1) assms(2)
      by (auto simp: krt2i_wake_def wants_upd wants_def split: option.splits if_splits)
  next
    case (U_CAS g r)
    then show ?thesis using e act_uop(1) assms(2)
      by (auto simp: claim_cas_def wants_upd wants_def split: option.splits if_splits)
  next
    case (U_CLAIM g um r)
    then show ?thesis using e act_uop(1) assms(2)
      by (auto simp: claim_load_def wants_def deliverable_def split: option.splits if_splits)
  next
    case (U_UNLINK g r)
    then show ?thesis using e act_uop(1) assms(2) by (auto simp: claimed_def Let_def split: option.splits dest!: wants_delivered)
  next
    case (U_DP g kp want)
    then show ?thesis using e act_uop(1) assms(2)
      by (auto simp: krt2i_deliver_pending_before_park_def split: option.splits if_splits dest!: wants_delivered)
  qed (use e act_uop(1) assms(2) in \<open>auto simp: wants_def krt2i_rq_push_def krt2i_resume_def krt2i_interrupt_request_def
      krt2i_scope_attach_def krt2i_all_add_def krt2i_all_remove_def Let_def
      krt2i_scope_detach_def deliverable_def split: option.splits if_splits\<close>)
next
  case (act_op g op)
  note e = act_op(2)
  obtain x where x: "fibs s g = Some x" using e by (auto simp: op_step_def split: option.splits)
  have run: "f_st x = F_RUNNING" using based_running[OF base(1)] base(2) act_op(1) x by simp
  have spawn: ?thesis if sp: "spawn_step s g msk a att dm = Some (s', vs)" for msk a att dm
    using sp assms(2) act_op(1) by (auto simp: spawn_step_def krt2i_spawn_from_def Let_def wants_def split: if_splits)
  show ?thesis
  proof (cases op)
    case (SO_FORK a d)
    then show ?thesis using spawn e x by (simp add: op_step_def)
  next
    case (SO_FORK_IN sc a)
    then show ?thesis using spawn e x by (simp add: op_step_def)
  next
    case (SO_SHUTDOWN sc)
    then show ?thesis using e x act_op(1) assms(2)
      by (auto simp: op_step_def krt2i_op_shutdown_scope_def Let_def split: option.splits if_splits prod.splits dest!: wants_park_on)
  next
    case SO_CEDE
    then show ?thesis using e x act_op(1) assms(2) by (auto simp: op_step_def cede_step_def split: if_splits dest!: wants_delivered)
  next
    case SO_PARK
    then show ?thesis using e x act_op(1) assms(2)
      by (auto simp: op_step_def sleep_step_def wants_upd deliverable_def split: if_splits dest!: wants_delivered)
  next
    case SO_DELIVER
    then show ?thesis using e x act_op(1) assms(2) by (auto simp: op_step_def split: if_splits dest!: wants_delivered)
  next
    case (SO_MASK k)
    then show ?thesis using e x act_op(1) assms(2) run by (auto simp: op_step_def wants_upd split: if_splits)
  qed (use e x act_op(1) assms(2) in \<open>auto simp: op_step_def promise_complete_def fiber_finish_def promise_new_def
      krt2i_scope_new_def set_cur_def wants_def deliverable_def split: option.splits if_splits\<close>)
next
  case (act_main a)
  then show ?thesis using assms(2) by (auto simp: krt2_run_main_def krt2i_scope_new_def Let_def wants_def split: if_splits)
next
  case (act_drain d ks)
  then show ?thesis using assms(2) by (auto simp: krt2i_scope_drain_bounded_def split: option.splits)
qed (use assms(2) in auto)

interpretation intr: sched_inv intr_inv
proof
  show "intr_inv krt2_new (\<lambda>_. False)" by (simp add: intr_inv_def wants_def krt2_new_def)
  fix s P s' P' us vs
  assume b: "based s P" and a: "act s us s' vs" and sw: "swapped P us vs P'" and J: "intr_inv s P"
  show "intr_inv s' P'" unfolding intr_inv_def
  proof (intro allI impI)
    fix f assume "wants s' f"
    then show "\<exists>u. sees f u \<and> P' u"
      using act_wants[OF a _ b, of f] J swappedD[OF sw] unfolding intr_inv_def by meson
  qed
qed

section \<open>Registrations\<close>

text \<open>The waiter nodes a section or a fiber knows of are the fiber's own.\<close>

fun ureg :: "uop \<Rightarrow> (nat \<times> waiter) option" where
  "ureg (U_CLAIM f _ r) = map_option (\<lambda>(_, w). (f, w)) r"
| "ureg (U_CAS f r) = map_option (\<lambda>(_, w). (f, w)) r"
| "ureg (U_UNLINK f r) = map_option (\<lambda>(_, w). (f, w)) r"
| "ureg _ = None"

definition pk :: "sched \<Rightarrow> nat \<Rightarrow> (kpark \<times> waiter) option" where
  "pk s f = Option.bind (fibs s f) fpark"

definition reg_ok :: "sched \<Rightarrow> bool" where
  "reg_ok s \<longleftrightarrow> (\<forall>f kp w. pk s f = Some (kp, w) \<longrightarrow> w_f w = f)"

definition ureg_ok :: "uop \<Rightarrow> bool" where
  "ureg_ok u \<longleftrightarrow> (\<forall>f w. ureg u = Some (f, w) \<longrightarrow> w_f w = f)"

lemma ureg_None [simp]: "ureg u = None \<Longrightarrow> ureg_ok u"
  by (simp add: ureg_ok_def)

lemma ureg_ok_simps [simp]:
  "ureg_ok (U_CLAIM f um r) \<longleftrightarrow> (\<forall>kp w. r = Some (kp, w) \<longrightarrow> w_f w = f)" "ureg_ok (U_CAS f r) \<longleftrightarrow> (\<forall>kp w. r = Some (kp, w) \<longrightarrow> w_f w = f)"
  "ureg_ok (U_UNLINK f r) \<longleftrightarrow> (\<forall>kp w. r = Some (kp, w) \<longrightarrow> w_f w = f)"
  by (auto simp: ureg_ok_def)

lemma ureg_lists [simp]: "u \<in> set (wakes ws ex) \<Longrightarrow> ureg_ok u"
  by (auto simp: wakes_def)

lemma pk_upd: "pk (upd_fib f g s) h = (if h = f then Option.bind (fibs s f) (\<lambda>x. fpark (g x)) else pk s h)"
  by (cases "fibs s f") (simp_all add: pk_def)

lemma pk_same: "(\<And>x. fpark (g x) = fpark x) \<Longrightarrow> pk (upd_fib f g s) = pk s"
  by (rule ext) (simp add: pk_upd, simp add: pk_def)

lemma pk_other [simp]:
  "pk (upd_prom p g s) = pk s" "pk (upd_scope c k s) = pk s" "pk (s\<lparr>rq := q\<rparr>) = pk s" "pk (s\<lparr>nxt := n\<rparr>) = pk s"
  "pk (s\<lparr>root_set := r\<rparr>) = pk s" "pk (s\<lparr>main_done := b\<rparr>) = pk s" "pk (s\<lparr>daemon_scope := d\<rparr>) = pk s"
  "pk (s\<lparr>proms := ps\<rparr>) = pk s" "pk (s\<lparr>scopes := cs\<rparr>) = pk s"
  by (simp_all add: pk_def fun_eq_iff)

lemma pk_waiters [simp]: "pk (upd_waiters kp g s) = pk s"
  by (cases kp) (simp_all add: pk_same)

lemma pk_ops [simp]:
  "pk (krt2i_clear_park_waiter s f) h = (if h = f then None else pk s h)" "pk (krt2i_unlink_waiter s kp w) = pk s" "pk (set_cur s f v) = pk s"
  by (simp_all add: krt2i_clear_park_waiter_def krt2i_unlink_waiter_def set_cur_def pk_same pk_upd split: option.split)

lemma pk_cleanup: "pk (krt2i_cleanup_parked_wait s f) h = (if h = f then None else pk s h)"
proof (cases "fibs s f")
  case (Some x)
  then show ?thesis by (cases "fpark x") (auto simp: krt2i_cleanup_parked_wait_def pk_def[of s f])
qed (simp add: krt2i_cleanup_parked_wait_def pk_def)

lemma pk_delivered [simp]: "pk (interrupt_delivered s f) h = (if h = f then None else pk s h)"
  by (simp add: interrupt_delivered_def pk_same pk_cleanup)

lemma reg_upd: "reg_ok s \<Longrightarrow> (\<And>h. pk s' h = None \<or> pk s' h = pk s h) \<Longrightarrow> reg_ok s'"
  unfolding reg_ok_def by (metis option.distinct(1))

lemma reg_cur [simp]: "reg_ok (set_cur s f v) = reg_ok s"
  by (simp add: reg_ok_def)

lemma reg_park_on: "park_on s f kp want msk = (s1, um, reg) \<Longrightarrow> reg_ok s \<Longrightarrow> reg_ok s1 \<and> (\<forall>kp w. reg = Some (kp, w) \<longrightarrow> w_f w = f)"
  unfolding reg_ok_def
  by (cases "fibs (upd_waiters kp (\<lambda>ws. \<lparr>w_id = nxt s, w_f = f, w_want = want\<rparr> # ws) (s\<lparr>nxt := Suc (nxt s)\<rparr>)) f")
    (auto simp: park_on_def Let_def pk_upd krt2i_register_park_waiter_def pk_same split: if_splits)

lemma act_reg:
  assumes a: "act s us s' vs" and r: "reg_ok s" "\<forall>u\<in>set us. ureg_ok u"
  shows "reg_ok s' \<and> (\<forall>v\<in>set vs. ureg_ok v)"
  using a
proof cases
  case (act_uop u)
  note e = act_uop(2)
  have u: "ureg_ok u" using r(2) act_uop(1) by simp
  show ?thesis
  proof (cases u)
    case (U_JOIN g kp want)
    then show ?thesis using e r(1) reg_park_on
      by (cases kp) (auto simp: do_await_def do_await_promise_def Let_def split: option.splits if_splits prod.splits)
  next
    case (U_WAKE g v)
    then show ?thesis using e r(1)
      by (auto simp: krt2i_wake_def intro!: reg_upd[OF r(1)] split: option.splits if_splits) (auto simp: pk_def split: option.splits)
  next
    case (U_CLAIM g um rg)
    then show ?thesis using e u r(1) by (auto simp: claim_load_def split: option.splits if_splits)
  next
    case (U_CAS g rg)
    then show ?thesis using e u r(1)
      by (auto simp: claim_cas_def pk_same intro!: reg_upd[OF r(1)] split: option.splits if_splits)
  next
    case (U_UNLINK g rg)
    then show ?thesis using e u r(1)
      by (auto simp: claimed_def Let_def intro!: reg_upd[OF r(1)] split: option.splits)
  qed (use e r(1) in \<open>auto simp: krt2i_rq_push_def krt2i_resume_def krt2i_interrupt_request_def krt2i_deliver_pending_before_park_def
      krt2i_scope_attach_def krt2i_all_add_def krt2i_all_remove_def Let_def krt2i_scope_detach_def pk_same
      intro!: reg_upd[OF r(1)] split: option.splits if_splits\<close>)
next
  case (act_op g op)
  note e = act_op(2)
  obtain x where x: "fibs s g = Some x" using e by (auto simp: op_step_def split: option.splits)
  have spawn: ?thesis if sp: "spawn_step s g msk a att dm = Some (s', vs)" for msk a att dm
    using sp by (auto simp: spawn_step_def krt2i_spawn_from_def Let_def pk_def intro!: reg_upd[OF r(1)] split: option.splits)
  show ?thesis
  proof (cases op)
    case (SO_FORK a d)
    then show ?thesis using spawn e x by (simp add: op_step_def)
  next
    case (SO_FORK_IN sc a)
    then show ?thesis using spawn e x by (simp add: op_step_def)
  next
    case (SO_SHUTDOWN sc)
    have up: "reg_ok (upd_scope sc k s)" for k by (rule reg_upd[OF r(1)]) simp
    show ?thesis using e x SO_SHUTDOWN reg_park_on[OF _ up]
      by (auto simp: op_step_def krt2i_op_shutdown_scope_def Let_def intro!: reg_upd[OF r(1)] split: option.splits if_splits prod.splits)
  qed (use e x r(1) in \<open>auto simp: op_step_def promise_complete_def cede_step_def sleep_step_def fiber_finish_def promise_new_def
      krt2i_scope_new_def pk_same intro!: reg_upd[OF r(1)] split: option.splits if_splits\<close>)
next
  case (act_main a)
  then show ?thesis by (auto simp: krt2_run_main_def krt2i_scope_new_def Let_def pk_def intro!: reg_upd[OF r(1)])
next
  case (act_drain d ks)
  then show ?thesis using r(1) by (auto simp: krt2i_scope_drain_bounded_def intro!: reg_upd[OF r(1)] split: option.splits)
qed (use r in \<open>auto intro!: reg_upd[OF r(1)]\<close>)

definition reg_inv :: "sched \<Rightarrow> (uop \<Rightarrow> bool) \<Rightarrow> bool" where
  "reg_inv s P \<longleftrightarrow> reg_ok s \<and> (\<forall>u. P u \<longrightarrow> ureg_ok u)"

interpretation rg: sched_inv reg_inv
proof
  show "reg_inv krt2_new (\<lambda>_. False)" by (simp add: reg_inv_def reg_ok_def pk_def krt2_new_def)
  fix s P s' P' us vs
  assume a: "act s us s' vs" and sw: "swapped P us vs P'" and J: "reg_inv s P"
  have "reg_ok s' \<and> (\<forall>v\<in>set vs. ureg_ok v)"
    using J swappedD(1)[OF sw] by (intro act_reg[OF a]) (auto simp: reg_inv_def)
  then show "reg_inv s' P'" using J swappedD(4)[OF sw] unfolding reg_inv_def by blast
qed

section \<open>Waiting\<close>

text \<open>What a waiter list waits for has come.\<close>

fun happened :: "sched \<Rightarrow> kpark \<Rightarrow> bool" where
  "happened s (KPARK_FIBER_WAITERS c) = (\<exists>x. fibs s c = Some x \<and> f_st x = F_DONE)"
| "happened s (KPARK_PROMISE_WAITERS p) = (\<exists>x. proms s p = Some x \<and> p_completed x)"
| "happened s (KPARK_SCOPE_DRAIN c) = (\<exists>x. scopes s c = Some x \<and> \<not> (sc_shutting x \<and> sc_live x > 0))"

fun exists_at :: "sched \<Rightarrow> kpark \<Rightarrow> bool" where
  "exists_at s (KPARK_FIBER_WAITERS c) = (fibs s c \<noteq> None)"
| "exists_at s (KPARK_PROMISE_WAITERS p) = (proms s p \<noteq> None)"
| "exists_at s (KPARK_SCOPE_DRAIN c) = (scopes s c \<noteq> None)"

lemma at_waiters: "waiters_at (upd_waiters kp g s) kp' = (if kp' = kp \<and> exists_at s kp then g (waiters_at s kp) else waiters_at s kp')"
  by (cases kp; cases kp') auto

lemma at_fib: "(\<And>x. fwaiters (g x) = fwaiters x) \<Longrightarrow> waiters_at (upd_fib f g s) kp = waiters_at s kp"
  by (cases kp) (auto split: option.split)

lemma at_other [simp]:
  "waiters_at (s\<lparr>rq := q\<rparr>) kp = waiters_at s kp" "waiters_at (s\<lparr>nxt := n\<rparr>) kp = waiters_at s kp"
  "waiters_at (s\<lparr>root_set := r\<rparr>) kp = waiters_at s kp" "waiters_at (s\<lparr>main_done := b\<rparr>) kp = waiters_at s kp"
  "waiters_at (s\<lparr>daemon_scope := d\<rparr>) kp = waiters_at s kp" "waiters_at (s\<lparr>main_fiber := m\<rparr>) kp = waiters_at s kp"
  by (cases kp; simp)+

lemma at_ops [simp]:
  "waiters_at (krt2i_register_park_waiter s f kp w) kp' = waiters_at s kp'" "waiters_at (krt2i_clear_park_waiter s f) kp' = waiters_at s kp'"
  "waiters_at (set_cur s f v) kp' = waiters_at s kp'"
  by (simp_all add: krt2i_register_park_waiter_def krt2i_clear_park_waiter_def set_cur_def at_fib)

lemma at_unlink: "w' \<in> set (waiters_at s kp') \<Longrightarrow> w' \<noteq> w \<Longrightarrow> w' \<in> set (waiters_at (krt2i_unlink_waiter s kp w) kp')"
  by (auto simp: krt2i_unlink_waiter_def at_waiters)

lemma at_cleanup:
  assumes "reg_ok s" "w' \<in> set (waiters_at s kp')" "w_f w' \<noteq> f"
  shows "w' \<in> set (waiters_at (interrupt_delivered s f) kp')"
proof (cases "pk s f")
  case None
  then show ?thesis using assms
    by (auto simp: interrupt_delivered_def krt2i_cleanup_parked_wait_def at_fib pk_def split: option.splits)
next
  case (Some r)
  obtain kp w where r: "r = (kp, w)" by force
  have "w' \<noteq> w" using assms Some r by (auto simp: reg_ok_def)
  moreover obtain x where "fibs s f = Some x" "fpark x = Some (kp, w)" using Some r by (auto simp: pk_def bind_eq_Some_conv)
  ultimately show ?thesis using assms(2)
    by (auto simp: interrupt_delivered_def krt2i_cleanup_parked_wait_def at_fib at_unlink)
qed

text \<open>A list that is not empty is one whose event is still to come.\<close>

definition open_inv :: "sched \<Rightarrow> bool" where
  "open_inv s \<longleftrightarrow> (\<forall>kp. waiters_at s kp \<noteq> [] \<longrightarrow> \<not> happened s kp)"

lemma in_wakes: "w \<in> set ws \<Longrightarrow> \<exists>v. U_WAKE (w_f w) (Some v) \<in> set (wakes ws ex)"
  by (auto simp: wakes_def)

lemma at_park_on:
  assumes "park_on s f kp want msk = (s1, um, reg)"
  shows "waiters_at s1 kp' = (if kp' = kp \<and> exists_at s kp then \<lparr>w_id = nxt s, w_f = f, w_want = want\<rparr> # waiters_at s kp else waiters_at s kp')"
proof -
  have "exists_at (s\<lparr>nxt := n\<rparr>) kp = exists_at s kp" for n by (cases kp) simp_all
  then show ?thesis using assms by (auto simp: park_on_def Let_def at_fib at_waiters)
qed

lemma at_prom: "waiters_at (upd_prom p g s) kp = (case kp of KPARK_PROMISE_WAITERS q \<Rightarrow> if q = p then (case proms s p of None \<Rightarrow> [] | Some x \<Rightarrow> p_waiters (g x)) else waiters_at s kp | _ \<Rightarrow> waiters_at s kp)"
  by (cases kp) (auto split: option.split)

lemma at_scope: "waiters_at (upd_scope c g s) kp = (case kp of KPARK_SCOPE_DRAIN d \<Rightarrow> if d = c then (case scopes s c of None \<Rightarrow> [] | Some x \<Rightarrow> sc_drain (g x)) else waiters_at s kp | _ \<Rightarrow> waiters_at s kp)"
  by (cases kp) (auto split: option.split)

lemma at_scope_same: "(\<And>x. sc_drain (g x) = sc_drain x) \<Longrightarrow> waiters_at (upd_scope c g s) kp = waiters_at s kp"
  by (cases kp) (auto split: option.split)

lemma at_new [simp]:
  "fresh_inv s \<Longrightarrow> waiters_at (promise_new s) kp = waiters_at s kp" "fresh_inv s \<Longrightarrow> waiters_at (krt2i_scope_new s) kp = waiters_at s kp"
  by (cases kp; auto simp: promise_new_def krt2i_scope_new_def fresh_inv_def split: option.split)+

lemma fresh_scope_new [simp]: "fresh_inv s \<Longrightarrow> fresh_inv (krt2i_scope_new s)"
  using grow_fresh[OF grow_scope_new] .

lemma at_spawn:
  assumes "fresh_inv s" "fwaiters x = []"
  shows "waiters_at (s\<lparr>next_id := n, fibs := (fibs s)(Suc (next_id s) \<mapsto> x)\<rparr>) kp = waiters_at s kp"
  using assms by (cases kp) (auto simp: fresh_inv_def)

lemma at_main:
  assumes fr: "fresh_inv s" and e: "krt2_run_main s a = (s', us)"
  shows "waiters_at s' kp = waiters_at s kp"
proof -
  let ?s2 = "krt2i_scope_new (krt2i_scope_new s)"
  have "fresh_inv ?s2" "waiters_at ?s2 kp = waiters_at s kp" using fr by simp_all
  then show ?thesis using e at_spawn[of ?s2] by (auto simp: krt2_run_main_def Let_def)
qed

lemma act_lists:
  assumes a: "act s us s' vs" and fr: "fresh_inv s" and r: "reg_ok s" "\<forall>u\<in>set us. ureg_ok u" and w: "w \<in> set (waiters_at s kp)"
  shows "w \<in> set (waiters_at s' kp) \<or> (\<exists>v. U_WAKE (w_f w) (Some v) \<in> set vs) \<or> (\<exists>u\<in>set us. own u = Some (w_f w))"
  using a
proof cases
  case (act_uop u)
  note e = act_uop(2)
  have u: "ureg_ok u" using r(2) act_uop(1) by simp
  show ?thesis
  proof (cases u)
    case (U_JOIN g kp want)
    then show ?thesis using e w
      by (cases kp) (auto simp: do_await_def do_await_promise_def Let_def at_park_on split: option.splits if_splits prod.splits)
  next
    case (U_DP g kp want)
    then show ?thesis using e w act_uop(1) at_cleanup[OF r(1) w, of g]
      by (auto simp: krt2i_deliver_pending_before_park_def split: option.splits if_splits)
  next
    case (U_UNLINK g rg)
    show ?thesis
    proof (cases "w_f w = g")
      case True
      then show ?thesis using act_uop(1) U_UNLINK by simp
    next
      case False
      let ?s1 = "case rg of None \<Rightarrow> s | Some (kp, w) \<Rightarrow> krt2i_clear_park_waiter (krt2i_unlink_waiter s kp w) g"
      have "reg_ok ?s1" by (rule reg_upd[OF r(1)]) (simp split: option.split)
      moreover have "w \<in> set (waiters_at ?s1 kp)" using u U_UNLINK False w by (auto intro!: at_unlink split: option.split)
      ultimately have "w \<in> set (waiters_at (interrupt_delivered ?s1 g) kp)" using False at_cleanup by blast
      then show ?thesis using e U_UNLINK by (auto simp: claimed_def Let_def)
    qed
  next
    case (U_DETACH g)
    then show ?thesis using e w in_wakes
      by (auto simp: krt2i_scope_detach_def Let_def at_fib at_scope split: option.splits if_splits kpark.splits)
  qed (use e w in \<open>auto simp: krt2i_rq_push_def krt2i_resume_def krt2i_wake_def krt2i_interrupt_request_def claim_load_def claim_cas_def
      krt2i_scope_attach_def krt2i_all_add_def krt2i_all_remove_def Let_def at_fib at_scope_same split: option.splits if_splits\<close>)
next
  case (act_op g op)
  note e = act_op(2)
  obtain x where x: "fibs s g = Some x" using e by (auto simp: op_step_def split: option.splits)
  note clean = at_cleanup[OF r(1) w, of g]
  have spawn: ?thesis if sp: "spawn_step s g msk a att dm = Some (s', vs)" for msk a att dm
    using sp w by (auto simp: spawn_step_def krt2i_spawn_from_def Let_def at_spawn[OF fr])
  show ?thesis
  proof (cases op)
    case (SO_FORK a d)
    then show ?thesis using spawn e x by (simp add: op_step_def)
  next
    case (SO_FORK_IN sc a)
    then show ?thesis using spawn e x by (simp add: op_step_def)
  next
    case (SO_SHUTDOWN sc)
    then show ?thesis using e x w
      by (auto simp: op_step_def krt2i_op_shutdown_scope_def Let_def at_park_on at_scope_same split: option.splits if_splits prod.splits)
  next
    case (SO_COMPLETE p ex)
    then show ?thesis using e x w in_wakes
      by (auto simp: op_step_def promise_complete_def at_prom split: option.splits if_splits kpark.splits)
  next
    case (SO_FINISH ex)
    then show ?thesis using e x w in_wakes
      by (cases kp) (auto simp: op_step_def fiber_finish_def split: option.splits if_splits)
  qed (use e x w fr clean act_op(1) in \<open>auto simp: op_step_def cede_step_def sleep_step_def at_fib split: option.splits if_splits\<close>)
next
  case (act_main a)
  then show ?thesis using w fr at_main by metis
next
  case (act_drain d ks)
  then show ?thesis using w by (auto simp: krt2i_scope_drain_bounded_def at_scope_same split: option.splits)
qed (use w in auto)

text \<open>A fiber parked on a waiter list, with the node it left there.\<close>

definition waiting :: "sched \<Rightarrow> nat \<Rightarrow> kpark \<Rightarrow> waiter \<Rightarrow> bool" where
  "waiting s f kp w \<longleftrightarrow> (\<exists>x. fibs s f = Some x \<and> f_st x = F_PARKED \<and> fwait x \<and> fpark x = Some (kp, w))"

definition wview :: "sfib \<Rightarrow> fstatus \<times> bool \<times> (kpark \<times> waiter) option" where
  "wview x = (f_st x, fwait x, fpark x)"

lemma waiting_same: "(\<And>x. wview (g x) = wview x) \<Longrightarrow> waiting (upd_fib h g s) f kp w = waiting s f kp w"
  by (auto simp: waiting_def wview_def)

lemma waiting_view [simp]:
  "wview (x\<lparr>fcur := a\<rparr>) = wview x" "wview (x\<lparr>fwaiters := ws\<rparr>) = wview x" "wview (x\<lparr>fpend := b\<rparr>) = wview x" "wview (x\<lparr>fcause := c\<rparr>) = wview x"
  "wview (x\<lparr>fatt := t\<rparr>) = wview x" "wview (x\<lparr>fmask := m\<rparr>) = wview x" "wview (x\<lparr>fres := r\<rparr>) = wview x"
  by (simp_all add: wview_def)

lemma waiting_other [simp]:
  "waiting (upd_prom p g s) f kp w = waiting s f kp w" "waiting (upd_scope c k s) f kp w = waiting s f kp w"
  "waiting (s\<lparr>rq := q\<rparr>) f kp w = waiting s f kp w" "waiting (s\<lparr>nxt := n\<rparr>) f kp w = waiting s f kp w"
  "waiting (s\<lparr>root_set := r\<rparr>) f kp w = waiting s f kp w" "waiting (s\<lparr>main_done := b\<rparr>) f kp w = waiting s f kp w"
  "waiting (s\<lparr>daemon_scope := d\<rparr>) f kp w = waiting s f kp w" "waiting (s\<lparr>proms := ps\<rparr>) f kp w = waiting s f kp w"
  "waiting (s\<lparr>scopes := cs\<rparr>) f kp w = waiting s f kp w"
  by (simp_all add: waiting_def)

lemma waiting_waiters [simp]: "waiting (upd_waiters kp' g s) f kp w = waiting s f kp w"
  by (cases kp') (simp_all add: waiting_same)

lemma waiting_ops [simp]:
  "waiting (krt2i_unlink_waiter s kp' w') f kp w = waiting s f kp w" "waiting (set_cur s h v) f kp w = waiting s f kp w"
  "waiting (krt2i_clear_park_waiter s h) f kp w = (f \<noteq> h \<and> waiting s f kp w)"
  by (auto simp: krt2i_unlink_waiter_def set_cur_def waiting_same krt2i_clear_park_waiter_def) (auto simp: waiting_def split: if_splits)

lemma waiting_delivered: "waiting (interrupt_delivered s h) f kp w \<Longrightarrow> waiting s f kp w"
  by (auto simp: interrupt_delivered_def krt2i_cleanup_parked_wait_def waiting_same split: option.splits)

lemma waiting_park_on:
  assumes "park_on s g kp' want msk = (s1, um, reg)" "waiting s1 f kp w"
  shows "if f = g then kp = kp' \<and> w = \<lparr>w_id = nxt s, w_f = g, w_want = want\<rparr> else waiting s f kp w"
  using assms
  by (cases kp'; auto simp: park_on_def Let_def waiting_def krt2i_register_park_waiter_def split: if_splits)

lemma act_parks:
  assumes a: "act s us s' vs" and b: "based s P" "\<forall>u\<in>set us. P u" and w: "waiting s' f kp w"
  shows "w \<in> set (waiters_at s' kp) \<or> waiting s f kp w \<and> (\<forall>v. U_WAKE f (Some v) \<notin> set us)"
  using a
proof cases
  case (act_uop u)
  note e = act_uop(2)
  show ?thesis
  proof (cases u)
    case (U_JOIN g kp' want)
    have t: "s' = set_cur s g v \<and> vs = [U_STEP g] \<Longrightarrow> ?thesis" for v using w act_uop(1) U_JOIN by simp
    have p: ?thesis if "park_on s g kp' wt m = (s', um, reg)" "exists_at s kp'" for wt m um reg
      using waiting_park_on[OF that(1) w] at_park_on[OF that(1), of kp] that(2) act_uop(1) U_JOIN by (auto split: if_splits)
    show ?thesis using e U_JOIN t p
      by (cases kp') (auto simp: do_await_def do_await_promise_def Let_def split: option.splits if_splits prod.splits)
  next
    case (U_WAKE g v)
    then show ?thesis using e act_uop(1) w
      by (auto simp: krt2i_wake_def waiting_def split: option.splits if_splits)
  next
    case (U_DP g kp' want)
    then show ?thesis using e act_uop(1) w
      by (auto simp: krt2i_deliver_pending_before_park_def split: option.splits if_splits dest!: waiting_delivered)
  next
    case (U_UNLINK g rg)
    then show ?thesis using e act_uop(1) w by (auto simp: claimed_def Let_def split: option.splits dest!: waiting_delivered)
  qed (use e act_uop(1) w in \<open>auto simp: krt2i_rq_push_def krt2i_resume_def krt2i_interrupt_request_def claim_load_def claim_cas_def
      krt2i_scope_attach_def krt2i_all_add_def krt2i_all_remove_def krt2i_scope_detach_def Let_def waiting_def split: option.splits if_splits\<close>)
next
  case (act_op g op)
  note e = act_op(2)
  obtain x where x: "fibs s g = Some x" using e by (auto simp: op_step_def split: option.splits)
  have spawn: ?thesis if sp: "spawn_step s g msk a att dm = Some (s', vs)" for msk a att dm
    using sp w act_op(1) by (auto simp: spawn_step_def krt2i_spawn_from_def Let_def waiting_def split: if_splits)
  show ?thesis
  proof (cases op)
    case (SO_FORK a d)
    then show ?thesis using spawn e x by (simp add: op_step_def)
  next
    case (SO_FORK_IN sc a)
    then show ?thesis using spawn e x by (simp add: op_step_def)
  next
    case (SO_SHUTDOWN sc)
    have p: ?thesis if "park_on (upd_scope sc k s) g (KPARK_SCOPE_DRAIN sc) want m = (s', um, reg)" "scopes s sc \<noteq> None" for k want m um reg
      using waiting_park_on[OF that(1) w] at_park_on[OF that(1), of kp] that(2) act_op(1) by (auto split: if_splits)
    show ?thesis using e x SO_SHUTDOWN p w act_op(1)
      by (auto simp: op_step_def krt2i_op_shutdown_scope_def Let_def split: option.splits if_splits prod.splits)
  qed (use e x act_op(1) w in \<open>auto simp: op_step_def promise_complete_def cede_step_def sleep_step_def fiber_finish_def promise_new_def
      krt2i_scope_new_def set_cur_def dest!: waiting_delivered split: option.splits if_splits\<close>; auto simp: waiting_def split: if_splits)+
next
  case (act_main a)
  then show ?thesis using w by (auto simp: krt2_run_main_def krt2i_scope_new_def Let_def waiting_def split: if_splits)
next
  case (act_drain d ks)
  then show ?thesis using w by (auto simp: krt2i_scope_drain_bounded_def split: option.splits)
qed (use w in auto)

definition wait_inv :: "sched \<Rightarrow> (uop \<Rightarrow> bool) \<Rightarrow> bool" where
  "wait_inv s P \<longleftrightarrow> reg_inv s P \<and> (\<forall>f kp w. waiting s f kp w \<longrightarrow> w \<in> set (waiters_at s kp) \<or> (\<exists>v. P (U_WAKE f (Some v))))"

interpretation wt: sched_inv wait_inv
proof
  show "wait_inv krt2_new (\<lambda>_. False)" using rg.start by (simp add: wait_inv_def waiting_def krt2_new_def)
  fix s P s' P' us vs
  assume b: "based s P" "based s' P'" and a: "act s us s' vs" and sw: "swapped P us vs P'" and J: "wait_inv s P"
  have rP: "reg_inv s P" using J by (simp add: wait_inv_def)
  have r: "reg_ok s" "\<forall>u\<in>set us. ureg_ok u" using rP swappedD(1)[OF sw] by (auto simp: reg_inv_def)
  have fr: "fresh_inv s" using b by (simp add: based_def)
  have us: "\<forall>u\<in>set us. P u" using swappedD(1)[OF sw] by simp
  show "wait_inv s' P'" unfolding wait_inv_def
  proof (intro conjI allI impI)
    show "reg_inv s' P'" by (rule rg.keep[OF b a sw rP])
    fix f kp w assume w: "waiting s' f kp w"
    show "w \<in> set (waiters_at s' kp) \<or> (\<exists>v. P' (U_WAKE f (Some v)))"
    proof (rule disjE[OF act_parks[OF a b(1) us w]])
      assume w0: "waiting s f kp w \<and> (\<forall>v. U_WAKE f (Some v) \<notin> set us)"
      then obtain x where x: "fibs s f = Some x" "f_st x = F_PARKED" "fpark x = Some (kp, w)" by (auto simp: waiting_def)
      have wf: "w_f w = f" using r(1) x by (simp add: reg_ok_def pk_def)
      have no: "own u \<noteq> Some f" if "u \<in> set us" for u using based_own[OF b(1), of u f x] us that x own_st_live[of F_PARKED u] by auto
      consider "w \<in> set (waiters_at s kp)" | v where "P (U_WAKE f (Some v))" using J w0 unfolding wait_inv_def by blast
      then show ?thesis
      proof cases
        case 1
        then show ?thesis using act_lists[OF a fr r 1] wf no swappedD(3)[OF sw] by blast
      next
        case (2 v)
        then show ?thesis using w0 swappedD(2)[OF sw] by blast
      qed
    qed simp
  qed
qed

text \<open>Most sections neither fill a list nor bring an event.\<close>

definition calm :: "sched \<Rightarrow> sched \<Rightarrow> bool" where
  "calm s s' \<longleftrightarrow> (\<forall>kp. (waiters_at s' kp \<noteq> [] \<longrightarrow> waiters_at s kp \<noteq> []) \<and> (happened s' kp \<longrightarrow> happened s kp))"

lemma calm_open: "calm s s' \<Longrightarrow> open_inv s \<Longrightarrow> open_inv s'"
  unfolding calm_def open_inv_def by blast

lemma calm_trans: "calm s s1 \<Longrightarrow> calm s1 s2 \<Longrightarrow> calm s s2"
  unfolding calm_def by blast

lemma calm_eq: "(\<And>kp. waiters_at s' kp = waiters_at s kp \<and> (happened s' kp \<longrightarrow> happened s kp)) \<Longrightarrow> calm s s'"
  by (simp add: calm_def)

lemma happened_fib:
  "(\<And>x. fibs s f = Some x \<Longrightarrow> f_st (g x) = F_DONE \<Longrightarrow> f_st x = F_DONE) \<Longrightarrow> happened (upd_fib f g s) kp \<Longrightarrow> happened s kp"
  by (cases kp) (auto split: if_splits)

lemma calm_fib:
  "(\<And>x. fwaiters (g x) = fwaiters x) \<Longrightarrow> (\<And>x. fibs s f = Some x \<Longrightarrow> f_st (g x) = F_DONE \<Longrightarrow> f_st x = F_DONE) \<Longrightarrow> calm s (upd_fib f g s)"
proof (rule calm_eq)
  fix kp assume a: "\<And>x. fwaiters (g x) = fwaiters x" "\<And>x. fibs s f = Some x \<Longrightarrow> f_st (g x) = F_DONE \<Longrightarrow> f_st x = F_DONE"
  have "happened (upd_fib f g s) kp \<longrightarrow> happened s kp" using happened_fib[OF a(2)] by blast
  then show "waiters_at (upd_fib f g s) kp = waiters_at s kp \<and> (happened (upd_fib f g s) kp \<longrightarrow> happened s kp)"
    using at_fib[OF a(1)] by simp
qed

lemma calm_simple [simp]:
  "calm s s" "calm s (s\<lparr>rq := q\<rparr>)" "calm s (s\<lparr>root_set := r\<rparr>)" "calm s (s\<lparr>main_done := b\<rparr>)" "calm s (s\<lparr>daemon_scope := d\<rparr>)"
  "calm s (set_cur s f v)" "calm s (krt2i_clear_park_waiter s f)"
proof -
  have h: "happened (s\<lparr>rq := q\<rparr>) kp = happened s kp" "happened (s\<lparr>root_set := r\<rparr>) kp = happened s kp"
    "happened (s\<lparr>main_done := b\<rparr>) kp = happened s kp" "happened (s\<lparr>daemon_scope := d\<rparr>) kp = happened s kp" for kp
    by (cases kp; simp)+
  show "calm s s" "calm s (s\<lparr>rq := q\<rparr>)" "calm s (s\<lparr>root_set := r\<rparr>)" "calm s (s\<lparr>main_done := b\<rparr>)" "calm s (s\<lparr>daemon_scope := d\<rparr>)"
    using h by (auto intro!: calm_eq)
  show "calm s (set_cur s f v)" "calm s (krt2i_clear_park_waiter s f)"
    by (auto simp: set_cur_def krt2i_clear_park_waiter_def intro!: calm_fib)
qed

lemma happened_waiters [simp]: "happened (upd_waiters kp g s) kp' = happened s kp'"
  by (cases kp; cases kp') auto

lemma calm_unlink: "calm s (krt2i_unlink_waiter s kp w)"
  by (auto simp: calm_def krt2i_unlink_waiter_def at_waiters split: if_splits)

lemma calm_delivered: "calm s (interrupt_delivered s f)"
proof -
  have "calm s (krt2i_cleanup_parked_wait s f)"
    using calm_trans[OF calm_unlink calm_simple(7)] by (auto simp: krt2i_cleanup_parked_wait_def split: option.split)
  moreover have "calm s1 (upd_fib f (\<lambda>x. x\<lparr>fpend := False\<rparr>) s1)" for s1 by (rule calm_fib) simp_all
  ultimately show ?thesis unfolding interrupt_delivered_def using calm_trans by blast
qed

lemma open_park_on:
  assumes p: "park_on s f kp want msk = (s1, um, reg)" and o: "open_inv s" and h: "\<not> happened s kp" and f: "fibs s f = Some x" "f_st x \<noteq> F_DONE"
  shows "open_inv s1"
proof -
  have hn: "happened (s\<lparr>nxt := n\<rparr>) kp' = happened s kp'" for n kp' by (cases kp') simp_all
  have "happened s1 kp' \<Longrightarrow> happened s kp'" for kp'
    using p by (cases kp'; cases kp; auto simp: park_on_def Let_def krt2i_register_park_waiter_def split: if_splits)
  then show ?thesis using o h unfolding open_inv_def at_park_on[OF p] by (metis)
qed

lemma calm_spawn:
  assumes "fresh_inv s" "fwaiters x = []" "f_st x \<noteq> F_DONE"
  shows "calm s (s\<lparr>next_id := n, fibs := (fibs s)(Suc (next_id s) \<mapsto> x)\<rparr>)"
proof (rule calm_eq)
  fix kp show "waiters_at (s\<lparr>next_id := n, fibs := (fibs s)(Suc (next_id s) \<mapsto> x)\<rparr>) kp = waiters_at s kp \<and>
    (happened (s\<lparr>next_id := n, fibs := (fibs s)(Suc (next_id s) \<mapsto> x)\<rparr>) kp \<longrightarrow> happened s kp)"
    unfolding at_spawn[OF assms(1,2)] using assms by (cases kp) auto
qed

lemma calm_scope: "(\<And>x. sc_drain (g x) = sc_drain x) \<Longrightarrow>
    (\<And>x. sc_shutting x \<and> sc_live x > 0 \<Longrightarrow> sc_shutting (g x) \<and> sc_live (g x) > 0) \<Longrightarrow> calm s (upd_scope c g s)"
  by (rule calm_eq) (auto simp: at_scope_same, case_tac kp, auto split: if_splits)

text \<open>A fresh scope is not shutting down, and has no waiter either.\<close>

lemma open_scope_new:
  assumes "fresh_inv s" "open_inv s"
  shows "open_inv (krt2i_scope_new s)"
  unfolding open_inv_def
proof (intro allI impI)
  fix kp assume "waiters_at (krt2i_scope_new s) kp \<noteq> []"
  then show "\<not> happened (krt2i_scope_new s) kp"
    using assms(2)[unfolded open_inv_def, rule_format, of kp] assms(1)
    by (simp, cases kp) (auto simp: krt2i_scope_new_def fresh_inv_def split: if_splits)
qed

lemma open_run_main:
  assumes fr: "fresh_inv s" and o: "open_inv s" and e: "krt2_run_main s a = (s', us)"
  shows "open_inv s'"
proof -
  let ?s2 = "krt2i_scope_new (krt2i_scope_new s)"
  have f2: "fresh_inv ?s2" using fr by simp
  have o2: "open_inv ?s2" using open_scope_new fr o by simp
  have h: "happened (t\<lparr>main_fiber := m\<rparr>) kp = happened t kp" for t m kp by (cases kp) simp_all
  have m: "calm t (t\<lparr>main_done := b, main_fiber := m, daemon_scope := d\<rparr>)" for t b m d
  proof (rule calm_eq)
    show "waiters_at (t\<lparr>main_done := b, main_fiber := m, daemon_scope := d\<rparr>) kp = waiters_at t kp \<and>
      (happened (t\<lparr>main_done := b, main_fiber := m, daemon_scope := d\<rparr>) kp \<longrightarrow> happened t kp)" for kp
      by (cases kp) simp_all
  qed
  show ?thesis using e
    by (auto simp: krt2_run_main_def Let_def intro!: calm_open[OF calm_trans[OF calm_spawn[OF f2] m] o2])
qed

lemma act_open:
  assumes a: "act s us s' vs" and b: "based s P" "\<forall>u\<in>set us. P u" and o: "open_inv s"
  shows "open_inv s'"
  using a
proof cases
  case (act_uop u)
  note e = act_uop(2)
  have Pu: "P u" using b(2) act_uop(1) by simp
  note calm = calm_open[OF _ o]
  show ?thesis
  proof (cases u)
    case (U_JOIN g kp want)
    have run: "f_st x = F_RUNNING" if "fibs s g = Some x" for x using based_own[OF b(1) Pu, of g x] that U_JOIN by simp
    have cur: "open_inv (set_cur s g v)" for v by (rule calm) simp
    show ?thesis using e U_JOIN cur run
      by (cases kp) (auto simp: do_await_def do_await_promise_def Let_def split: option.splits if_splits prod.splits intro: open_park_on[OF _ o])
  next
    case (U_DP g kp want)
    then show ?thesis using e o calm[OF calm_delivered]
      by (auto simp: krt2i_deliver_pending_before_park_def split: option.splits if_splits)
  next
    case (U_UNLINK g rg)
    have "calm s (case rg of None \<Rightarrow> s | Some (kp, w) \<Rightarrow> krt2i_clear_park_waiter (krt2i_unlink_waiter s kp w) g)"
      using calm_trans[OF calm_unlink calm_simple(7)] by (auto split: option.split)
    then show ?thesis using e U_UNLINK calm[OF calm_trans[OF _ calm_delivered]] by (auto simp: claimed_def Let_def)
  next
    case (U_DETACH g)
    have at: "open_inv (upd_fib g (\<lambda>x. x\<lparr>fatt := None\<rparr>) s1)" if "open_inv s1" for s1
      by (rule calm_open[OF calm_fib that]) simp_all
    have sc: "open_inv (upd_scope d (\<lambda>c. c\<lparr>sc_children := remove1 g (sc_children c), sc_live := sc_live c0 - 1,
        sc_drain := (if sc_live c0 - 1 = 0 \<and> sc_shutting c0 then [] else sc_drain c)\<rparr>) s)" if c: "scopes s d = Some c0" for d c0
      unfolding open_inv_def
    proof (intro allI impI)
      fix kp assume w: "waiters_at (upd_scope d (\<lambda>c. c\<lparr>sc_children := remove1 g (sc_children c), sc_live := sc_live c0 - 1,
        sc_drain := (if sc_live c0 - 1 = 0 \<and> sc_shutting c0 then [] else sc_drain c)\<rparr>) s) kp \<noteq> []"
      have k: "waiters_at s kp \<noteq> [] \<Longrightarrow> \<not> happened s kp" using o by (simp add: open_inv_def)
      show "\<not> happened (upd_scope d (\<lambda>c. c\<lparr>sc_children := remove1 g (sc_children c), sc_live := sc_live c0 - 1,
        sc_drain := (if sc_live c0 - 1 = 0 \<and> sc_shutting c0 then [] else sc_drain c)\<rparr>) s) kp"
        using w k c by (cases kp) (auto split: if_splits)
    qed
    show ?thesis using e U_DETACH o at sc
      by (auto simp: krt2i_scope_detach_def Let_def split: option.splits)
  next
    case (U_RUN g)
    then show ?thesis using e based_own[OF b(1) Pu, of g] by (auto intro!: calm calm_fib)
  next
    case (U_ATTACH d g)
    have "calm s (upd_fib g (\<lambda>x. x\<lparr>fatt := Some d\<rparr>) (upd_scope d (\<lambda>c. c\<lparr>sc_children := g # sc_children c, sc_live := sc_live c + 1\<rparr>) s))"
      by (rule calm_trans[OF calm_scope calm_fib]) simp_all
    then show ?thesis using e U_ATTACH by (auto simp: krt2i_scope_attach_def intro: calm split: option.splits if_splits)
  qed (use e o in \<open>auto simp: krt2i_rq_push_def krt2i_resume_def krt2i_wake_def krt2i_interrupt_request_def claim_load_def claim_cas_def
      krt2i_all_add_def krt2i_all_remove_def Let_def intro!: calm calm_fib split: option.splits if_splits\<close>)
next
  case (act_op g op)
  note e = act_op(2)
  obtain x where x: "fibs s g = Some x" using e by (auto simp: op_step_def split: option.splits)
  have run: "f_st x = F_RUNNING" using based_running[OF b(1)] b(2) act_op(1) x by simp
  have fr: "fresh_inv s" using b by (simp add: based_def)
  note calm = calm_open[OF _ o]
  have spawn: ?thesis if sp: "spawn_step s g msk a att dm = Some (s', vs)" for msk a att dm
    using sp by (auto simp: spawn_step_def krt2i_spawn_from_def Let_def intro!: calm calm_spawn[OF fr])
  show ?thesis
  proof (cases op)
    case (SO_FORK a d)
    then show ?thesis using spawn e x by (simp add: op_step_def)
  next
    case (SO_FORK_IN sc a)
    then show ?thesis using spawn e x by (simp add: op_step_def)
  next
    case (SO_SHUTDOWN sc)
    have sh: "open_inv (upd_scope sc (\<lambda>c. c\<lparr>sc_shutting := True\<rparr>) s)" by (rule calm[OF calm_scope]) simp_all
    have cur: "open_inv (set_cur (upd_scope sc (\<lambda>c. c\<lparr>sc_shutting := True\<rparr>) s) g v)" for v
      by (rule calm_open[OF _ sh]) simp
    show ?thesis using e x SO_SHUTDOWN run cur
      by (auto simp: op_step_def krt2i_op_shutdown_scope_def Let_def split: option.splits if_splits prod.splits intro: open_park_on[OF _ sh])
  next
    case (SO_COMPLETE p ex)
    have pc: "open_inv (upd_prom p (\<lambda>x. x\<lparr>p_exit := Some ex, p_completed := True, p_waiters := []\<rparr>) s)"
      unfolding open_inv_def
    proof (intro allI impI)
      fix kp assume "waiters_at (upd_prom p (\<lambda>x. x\<lparr>p_exit := Some ex, p_completed := True, p_waiters := []\<rparr>) s) kp \<noteq> []"
      then show "\<not> happened (upd_prom p (\<lambda>x. x\<lparr>p_exit := Some ex, p_completed := True, p_waiters := []\<rparr>) s) kp"
        using o[unfolded open_inv_def, rule_format, of kp] by (cases kp) (auto split: if_splits option.splits)
    qed
    show ?thesis using e x SO_COMPLETE pc o
      by (auto simp: op_step_def promise_complete_def split: option.splits if_splits)
  next
    case (SO_FINISH ex)
    have fc: "open_inv (upd_fib g (\<lambda>x. x\<lparr>fexit := Some ex, f_st := F_DONE, fwaiters := []\<rparr>) s)"
      unfolding open_inv_def
    proof (intro allI impI)
      fix kp assume "waiters_at (upd_fib g (\<lambda>x. x\<lparr>fexit := Some ex, f_st := F_DONE, fwaiters := []\<rparr>) s) kp \<noteq> []"
      then show "\<not> happened (upd_fib g (\<lambda>x. x\<lparr>fexit := Some ex, f_st := F_DONE, fwaiters := []\<rparr>) s) kp"
        using o[unfolded open_inv_def, rule_format, of kp] by (cases kp) (auto split: if_splits option.splits)
    qed
    show ?thesis using e x SO_FINISH fc by (auto simp: op_step_def fiber_finish_def)
  next
    case SO_NEW_PROMISE
    have "calm s (promise_new s)"
    proof (rule calm_eq)
      show "waiters_at (promise_new s) kp = waiters_at s kp \<and> (happened (promise_new s) kp \<longrightarrow> happened s kp)" for kp
        using fr by (simp, cases kp) (auto simp: promise_new_def split: if_splits)
    qed
    then show ?thesis using e x SO_NEW_PROMISE calm by (auto simp: op_step_def)
  next
    case SO_NEW_SCOPE
    then show ?thesis using e x calm_open[OF _ o] by (auto simp: op_step_def open_scope_new[OF fr o])
  next
    case SO_DELIVER
    then show ?thesis using e x calm[OF calm_delivered] by (auto simp: op_step_def split: if_splits)
  next
    case SO_CEDE
    then show ?thesis using e x calm[OF calm_delivered] by (auto simp: op_step_def cede_step_def intro: calm split: if_splits)
  next
    case SO_PARK
    then show ?thesis using e x calm[OF calm_delivered] by (auto simp: op_step_def sleep_step_def intro!: calm calm_fib calm_delivered split: if_splits)
  qed (use e x o in \<open>auto simp: op_step_def intro!: calm calm_fib split: if_splits\<close>)
next
  case (act_main a)
  then show ?thesis using b o open_run_main by (auto simp: based_def)
next
  case (act_drain d ks)
  then show ?thesis by (auto simp: krt2i_scope_drain_bounded_def intro!: calm_open[OF calm_scope o] split: option.splits)
qed (auto intro: calm_open[OF _ o] o)

interpretation opn: sched_inv "\<lambda>s P. open_inv s"
proof
  show "open_inv krt2_new" by (auto simp: open_inv_def krt2_new_def ) (case_tac kp, auto)
  fix s P s' P' us vs
  assume b: "based s P" and a: "act s us s' vs" and sw: "swapped P us vs P'" and J: "open_inv s"
  show "open_inv s'" using act_open[OF a b _ J] swappedD(1)[OF sw] by blast
qed

end
