(* ===== verification/Kappa_SchedScope.thy ===== *)
theory Kappa_SchedScope
  imports Kappa_SchedLive
begin

text \<open>
  Structured concurrency: a scope's count and list of children are the fibers attached to it, under every
  interleaving of attaching, finishing and detaching; and a scope that is shutting down interrupts each of
  its children, the ones being attached meanwhile included.
\<close>

section \<open>The accounting of scopes\<close>

definition att :: "sched \<Rightarrow> nat \<Rightarrow> nat option" where
  "att s f = Option.bind (fibs s f) fatt"

definition finished :: "sched \<Rightarrow> nat \<Rightarrow> bool" where
  "finished s f \<longleftrightarrow> sts s f = Some F_DONE"

definition pending :: "sched \<Rightarrow> nat \<Rightarrow> bool" where
  "pending s f \<longleftrightarrow> (\<exists>x. fibs s f = Some x \<and> fpend x)"

text \<open>The fiber has been asked to stop at some time.\<close>

definition caused :: "sched \<Rightarrow> nat \<Rightarrow> bool" where
  "caused s f \<longleftrightarrow> (\<exists>x. fibs s f = Some x \<and> fcause x \<noteq> None)"

definition kids :: "sched \<Rightarrow> nat \<Rightarrow> (nat list \<times> int \<times> bool) option" where
  "kids s c = map_option (\<lambda>x. (sc_children x, sc_live x, sc_shutting x)) (scopes s c)"

definition scopes_ok :: "sched \<Rightarrow> bool" where
  "scopes_ok s \<longleftrightarrow> (\<forall>c ks n sh. kids s c = Some (ks, n, sh) \<longrightarrow> n = int (length ks) \<and> distinct ks \<and> (\<forall>f. f \<in> set ks \<longleftrightarrow> att s f = Some c)) \<and>
     (\<forall>f c. att s f = Some c \<longrightarrow> kids s c \<noteq> None)"

definition leaves_ok :: "sched \<Rightarrow> (uop \<Rightarrow> bool) \<Rightarrow> bool" where
  "leaves_ok s P \<longleftrightarrow> (\<forall>f. att s f \<noteq> None \<and> finished s f \<longrightarrow> P (U_DETACH f)) \<and> (\<forall>c f. P (U_ATTACH c f) \<longrightarrow> att s f = None)"

definition shut_ok :: "sched \<Rightarrow> (uop \<Rightarrow> bool) \<Rightarrow> bool" where
  "shut_ok s P \<longleftrightarrow> (\<forall>f. pending s f \<longrightarrow> caused s f) \<and>
     (\<forall>c ks n f. kids s c = Some (ks, n, True) \<and> f \<in> set ks \<longrightarrow> caused s f \<or> (\<exists>cs. P (U_REQUEST f cs)))"

definition scope_inv :: "sched \<Rightarrow> (uop \<Rightarrow> bool) \<Rightarrow> bool" where
  "scope_inv s P \<longleftrightarrow> scopes_ok s \<and> leaves_ok s P \<and> shut_ok s P"

text \<open>Most sections change nothing of it.\<close>

definition quiet :: "sched \<Rightarrow> sched \<Rightarrow> bool" where
  "quiet s s' \<longleftrightarrow> kids s' = kids s \<and> att s' = att s \<and> finished s' = finished s \<and> caused s' = caused s \<and> (\<forall>f. pending s' f \<longrightarrow> pending s f)"

lemma quiet_id [simp]: "quiet s s"
  by (simp add: quiet_def)

lemma quiet_trans: "quiet s s1 \<Longrightarrow> quiet s1 s2 \<Longrightarrow> quiet s s2"
  by (auto simp: quiet_def)

lemma kids_fib [simp]: "kids (upd_fib f g s) = kids s"
  by (simp add: kids_def fun_eq_iff)

lemma quiet_fib:
  assumes "\<And>x. fibs s f = Some x \<Longrightarrow> (f_st (g x) = F_DONE) = (f_st x = F_DONE) \<and> fatt (g x) = fatt x \<and>
     (fcause (g x) = None) = (fcause x = None) \<and> (fpend (g x) \<longrightarrow> fpend x)"
  shows "quiet s (upd_fib f g s)"
  using assms by (cases "fibs s f") (auto simp: quiet_def att_def finished_def sts_def pending_def caused_def fun_eq_iff)

lemma fib_prom [simp]:
  "kids (upd_prom p g s) = kids s" "att (upd_prom p g s) = att s" "finished (upd_prom p g s) = finished s"
  "pending (upd_prom p g s) = pending s" "caused (upd_prom p g s) = caused s"
  by (simp_all add: kids_def att_def finished_def pending_def caused_def fun_eq_iff)

lemma fib_scope [simp]:
  "att (upd_scope c g s) = att s" "finished (upd_scope c g s) = finished s"
  "pending (upd_scope c g s) = pending s" "caused (upd_scope c g s) = caused s"
  by (simp_all add: kids_def att_def finished_def pending_def caused_def fun_eq_iff)

lemma quiet_prom [simp]: "quiet s (upd_prom p g s)"
  by (simp add: quiet_def)

lemma quiet_scope: "(\<And>x. sc_children (g x) = sc_children x \<and> sc_live (g x) = sc_live x \<and> sc_shutting (g x) = sc_shutting x) \<Longrightarrow> quiet s (upd_scope c g s)"
  by (auto simp: quiet_def kids_def option.map_comp comp_def fun_eq_iff)

lemma quiet_simple [simp]:
  "quiet s (s\<lparr>rq := q\<rparr>)" "quiet s (s\<lparr>root_set := r\<rparr>)" "quiet s (s\<lparr>main_done := b\<rparr>)" "quiet s (s\<lparr>daemon_scope := d\<rparr>)"
  "quiet s (s\<lparr>nxt := n\<rparr>)" "quiet s (s\<lparr>proms := ps\<rparr>)" "quiet s (s\<lparr>proms := ps, nxt := n\<rparr>)"
  by (simp_all add: quiet_def kids_def att_def finished_def pending_def caused_def fun_eq_iff sts_def)

lemma quiet_waiters: "quiet s (upd_waiters kp g s)"
  by (cases kp) (auto intro!: quiet_fib quiet_scope)

lemma quiet_ops [simp]:
  "quiet s (set_cur s f v)" "quiet s (krt2i_clear_park_waiter s f)" "quiet s (krt2i_unlink_waiter s kp w)"
  "quiet s (krt2i_register_park_waiter s f kp w)"
  by (auto simp: set_cur_def krt2i_clear_park_waiter_def krt2i_unlink_waiter_def krt2i_register_park_waiter_def
      intro!: quiet_fib quiet_waiters)

lemma quiet_delivered: "quiet s (interrupt_delivered s f)"
proof -
  have "quiet s (krt2i_cleanup_parked_wait s f)"
    using quiet_trans[OF quiet_ops(3) quiet_ops(2)] by (auto simp: krt2i_cleanup_parked_wait_def split: option.split)
  moreover have "quiet s1 (upd_fib f (\<lambda>x. x\<lparr>fpend := False\<rparr>) s1)" for s1 by (rule quiet_fib) simp
  ultimately show ?thesis unfolding interrupt_delivered_def using quiet_trans by blast
qed

lemma quiet_park_on:
  assumes p: "park_on s f kp want msk = (s1, um, reg)" and st: "sts s f \<noteq> Some F_DONE"
  shows "quiet s s1"
proof -
  define w where "w = \<lparr>w_id = nxt s, w_f = f, w_want = want\<rparr>"
  define s2 where "s2 = krt2i_register_park_waiter (upd_waiters kp (\<lambda>ws. w # ws) (s\<lparr>nxt := Suc (nxt s)\<rparr>)) f kp w"
  have q: "quiet s s2" unfolding s2_def using quiet_trans[OF quiet_simple(5) quiet_trans[OF quiet_waiters quiet_ops(4)]] .
  have "sts s2 f \<noteq> Some F_DONE" using st by (simp add: s2_def)
  then have "quiet s2 (upd_fib f (\<lambda>x. x\<lparr>f_st := F_PARKED, fwait := True\<rparr>) s2)"
    by (intro quiet_fib) (auto simp: sts_def)
  then show ?thesis using p q quiet_trans by (auto simp: park_on_def Let_def s2_def w_def)
qed

lemma scope_quiet: "quiet s s' \<Longrightarrow> scope_inv s P \<Longrightarrow> scope_inv s' P"
  unfolding scope_inv_def scopes_ok_def leaves_ok_def shut_ok_def quiet_def by simp

lemma scope_mono:
  assumes "scope_inv s P" "\<And>f. P (U_DETACH f) \<Longrightarrow> Q (U_DETACH f)" "\<And>f c. P (U_REQUEST f c) \<Longrightarrow> Q (U_REQUEST f c)"
    and "\<And>c f. Q (U_ATTACH c f) \<Longrightarrow> P (U_ATTACH c f)"
  shows "scope_inv s Q"
  using assms unfolding scope_inv_def leaves_ok_def shut_ok_def by blast

text \<open>Sections with a part in the accounting.\<close>

fun counts :: "uop \<Rightarrow> bool" where
  "counts (U_DETACH _) = True"
| "counts (U_REQUEST _ _) = True"
| "counts (U_ATTACH _ _) = True"
| "counts _ = False"

lemma scope_plain:
  assumes q: "quiet s s'" and i: "scope_inv s P" and sw: "swapped P us vs P'" and us: "\<forall>u\<in>set us. \<not> counts u"
    and vs: "\<forall>c f. U_ATTACH c f \<notin> set vs"
  shows "scope_inv s' P'"
proof (rule scope_mono[OF scope_quiet[OF q i]])
  show "P (U_DETACH f) \<Longrightarrow> P' (U_DETACH f)" for f using swappedD(2)[OF sw] us by force
  show "P (U_REQUEST f c) \<Longrightarrow> P' (U_REQUEST f c)" for f c using swappedD(2)[OF sw] us by force
  show "P' (U_ATTACH c f) \<Longrightarrow> P (U_ATTACH c f)" for c f using swappedD(4)[OF sw] vs by blast
qed

section \<open>The sections that change it\<close>

lemma inv_parts:
  assumes "scope_inv s P"
  shows "kids s c = Some (ks, n, sh) \<Longrightarrow> n = int (length ks)" "kids s c = Some (ks, n, sh) \<Longrightarrow> distinct ks"
    "kids s c = Some (ks, n, sh) \<Longrightarrow> f \<in> set ks \<longleftrightarrow> att s f = Some c" "att s f = Some c \<Longrightarrow> kids s c \<noteq> None"
    "att s f \<noteq> None \<Longrightarrow> finished s f \<Longrightarrow> P (U_DETACH f)" "P (U_ATTACH c f) \<Longrightarrow> att s f = None" "pending s f \<Longrightarrow> caused s f"
    "kids s c = Some (ks, n, True) \<Longrightarrow> f \<in> set ks \<Longrightarrow> caused s f \<or> (\<exists>cs. P (U_REQUEST f cs))"
  using assms unfolding scope_inv_def scopes_ok_def leaves_ok_def shut_ok_def by blast+

lemma scope_invI:
  assumes "\<And>c ks n sh. kids s c = Some (ks, n, sh) \<Longrightarrow> n = int (length ks) \<and> distinct ks \<and> (\<forall>f. f \<in> set ks \<longleftrightarrow> att s f = Some c)"
    "\<And>f c. att s f = Some c \<Longrightarrow> kids s c \<noteq> None" "\<And>f. att s f \<noteq> None \<Longrightarrow> finished s f \<Longrightarrow> P (U_DETACH f)"
    "\<And>c f. P (U_ATTACH c f) \<Longrightarrow> att s f = None" "\<And>f. pending s f \<Longrightarrow> caused s f"
    "\<And>c ks n f. kids s c = Some (ks, n, True) \<Longrightarrow> f \<in> set ks \<Longrightarrow> caused s f \<or> (\<exists>cs. P (U_REQUEST f cs))"
  shows "scope_inv s P"
  unfolding scope_inv_def scopes_ok_def leaves_ok_def shut_ok_def
  by (intro conjI allI impI; (elim conjE)?) (use assms in blast)+

lemma views_same:
  "(\<And>x. fatt (g x) = fatt x) \<Longrightarrow> att (upd_fib f g s) = att s"
  "(\<And>x. f_st (g x) = f_st x) \<Longrightarrow> finished (upd_fib f g s) = finished s"
  "(\<And>x. fpend (g x) = fpend x) \<Longrightarrow> pending (upd_fib f g s) = pending s"
  "(\<And>x. fcause (g x) = fcause x) \<Longrightarrow> caused (upd_fib f g s) = caused s"
  by (simp_all add: att_def finished_def pending_def caused_def fun_eq_iff sts_upd_same) (case_tac "fibs s f"; simp)+

lemma scope_request:
  assumes i: "scope_inv s P" and sw: "swapped P [U_REQUEST t c] [U_WAKE t None] P'"
  shows "scope_inv (upd_fib t (\<lambda>x. if fpend x then x else x\<lparr>fpend := True, fcause := Some c\<rparr>) s) P'"
proof -
  let ?s = "upd_fib t (\<lambda>x. if fpend x then x else x\<lparr>fpend := True, fcause := Some c\<rparr>) s"
  have v: "kids ?s = kids s" "att ?s = att s" "finished ?s = finished s" by (simp_all add: views_same)
  have cs: "caused ?s f = (caused s f \<or> f = t \<and> fibs s t \<noteq> None)" for f
    using inv_parts(7)[OF i, of t] by (cases "f = t"; cases "fibs s t") (auto simp: caused_def pending_def)
  have ps: "pending ?s f = (pending s f \<or> f = t \<and> fibs s t \<noteq> None)" for f by (cases "f = t"; cases "fibs s t") (auto simp: pending_def)
  have P': "P' (U_ATTACH d f) \<Longrightarrow> P (U_ATTACH d f)" "P (U_DETACH f) \<Longrightarrow> P' (U_DETACH f)" "P (U_REQUEST f k) \<Longrightarrow> f \<noteq> t \<Longrightarrow> P' (U_REQUEST f k)" for d f k
    using swappedD(2,4)[OF sw] by fastforce+
  show ?thesis
  proof (rule scope_invI, unfold v cs ps)
    show "caused s f \<or> f = t \<and> fibs s t \<noteq> None" if "pending s f \<or> f = t \<and> fibs s t \<noteq> None" for f
      using that inv_parts(7)[OF i, of f] by blast
    show "(caused s f \<or> f = t \<and> fibs s t \<noteq> None) \<or> (\<exists>cs. P' (U_REQUEST f cs))" if k: "kids s d = Some (ks, n, True)" "f \<in> set ks" for d ks n f
    proof -
      have "fibs s f \<noteq> None" using inv_parts(3)[OF i k(1), of f] k(2) by (auto simp: att_def bind_eq_Some_conv)
      then show ?thesis using inv_parts(8)[OF i k] P'(3)[of f] by blast
    qed
    show "kids s d = Some (ks, n, sh) \<Longrightarrow> n = int (length ks) \<and> distinct ks \<and> (\<forall>f. (f \<in> set ks) = (att s f = Some d))" for d ks n sh
      using inv_parts(1-3)[OF i, of d ks n sh] by simp
    show "att s f \<noteq> None \<Longrightarrow> finished s f \<Longrightarrow> P' (U_DETACH f)" for f using inv_parts(5)[OF i, of f] P'(2) by blast
    show "P' (U_ATTACH d f) \<Longrightarrow> att s f = None" for d f using inv_parts(6)[OF i] P'(1) by blast
  qed (use inv_parts(4)[OF i] in simp_all)
qed

lemma kids_scope: "kids (upd_scope c g s) d = (if d = c then map_option (\<lambda>x. (sc_children (g x), sc_live (g x), sc_shutting (g x))) (scopes s c) else kids s d)"
  by (simp add: kids_def option.map_comp comp_def)

lemma att_fib: "att (upd_fib f g s) h = (if h = f then Option.bind (fibs s f) (\<lambda>x. fatt (g x)) else att s h)"
  by (cases "fibs s f") (simp_all add: att_def)

lemma scope_attach:
  assumes i: "scope_inv s P" and b: "based s P" "based s' P'" and sw: "swapped P [U_ATTACH sc ch] vs P'"
    and e: "uexec s (U_ATTACH sc ch) = Some (s', vs)"
  shows "scope_inv s' P'"
proof -
  obtain c where c: "scopes s sc = Some c" using e by (auto simp: krt2i_scope_attach_def split: option.splits)
  have s': "s' = upd_fib ch (\<lambda>x. x\<lparr>fatt := Some sc\<rparr>) (upd_scope sc (\<lambda>c. c\<lparr>sc_children := ch # sc_children c, sc_live := sc_live c + 1\<rparr>) s)"
    and vs: "vs = (if sc_shutting c then [U_REQUEST ch (krt2i_interrupt_cause ''ScopeShutdown'' krt2i_none)] else []) @ [U_ALL_ADD ch, U_RESUME ch]"
    using e c by (auto simp: krt2i_scope_attach_def)
  have Pu: "P (U_ATTACH sc ch)" using swappedD(1)[OF sw] by simp
  obtain x where x: "fibs s ch = Some x" "f_st x = F_RUNNABLE" using b(1) Pu unfolding based_def sts_def by fastforce
  have none: "att s ch = None" using inv_parts(6)[OF i Pu] .
  have k: "kids s' d = (if d = sc then Some (ch # sc_children c, sc_live c + 1, sc_shutting c) else kids s d)" for d
    using c by (simp add: s' kids_scope)
  have a: "att s' f = (if f = ch then Some sc else att s f)" for f using x by (simp add: s' att_fib)
  have v: "finished s' = finished s" "pending s' = pending s" "caused s' = caused s" by (simp_all add: s' views_same)
  have k0: "kids s sc = Some (sc_children c, sc_live c, sc_shutting c)" using c by (simp add: kids_def)
  have res: "P' (U_RESUME ch)" using swappedD(3)[OF sw, of "U_RESUME ch"] vs by simp
  have noatt: "\<not> P' (U_ATTACH d ch)" for d
  proof
    assume "P' (U_ATTACH d ch)"
    then have "U_ATTACH d ch = U_RESUME ch" using b(2) res unfolding based_def by (metis own.simps(4,8))
    then show False by simp
  qed
  have keep: "P (U_REQUEST f cs) \<Longrightarrow> P' (U_REQUEST f cs)" "P (U_DETACH f) \<Longrightarrow> P' (U_DETACH f)" "P' (U_ATTACH d f) \<Longrightarrow> P (U_ATTACH d f)" for f cs d
    using swappedD(2,4)[OF sw] vs by (fastforce split: if_splits)+
  have nf: "\<not> finished s ch" using x by (simp add: finished_def sts_def)
  show ?thesis
  proof (rule scope_invI)
    show "n = int (length ks) \<and> distinct ks \<and> (\<forall>f. (f \<in> set ks) = (att s' f = Some d))" if "kids s' d = Some (ks, n, sh)" for d ks n sh
    proof (cases "d = sc")
      case True
      then have ks: "ks = ch # sc_children c" "n = sc_live c + 1" using that k by auto
      show ?thesis unfolding ks True a using inv_parts(1-3)[OF i k0] none by auto
    next
      case False
      then have "kids s d = Some (ks, n, sh)" using that k by simp
      then show ?thesis using inv_parts(1-3)[OF i, of d ks n sh] False none by (auto simp: a)
    qed
    show "att s' f = Some d \<Longrightarrow> kids s' d \<noteq> None" for f d using inv_parts(4)[OF i, of f d] by (auto simp: a k split: if_splits)
    show "att s' f \<noteq> None \<Longrightarrow> finished s' f \<Longrightarrow> P' (U_DETACH f)" for f
      using inv_parts(5)[OF i, of f] nf keep(2) by (auto simp: a v split: if_splits)
    show "P' (U_ATTACH d f) \<Longrightarrow> att s' f = None" for d f using inv_parts(6)[OF i, of d f] noatt keep(3) by (auto simp: a)
    show "pending s' f \<Longrightarrow> caused s' f" for f using inv_parts(7)[OF i] by (simp add: v)
    show "caused s' f \<or> (\<exists>cs. P' (U_REQUEST f cs))" if d: "kids s' d = Some (ks, n, True)" "f \<in> set ks" for d ks n f
    proof (cases "d = sc")
      case True
      then have sh: "sc_shutting c" and f: "f = ch \<or> f \<in> set (sc_children c)" using d k by auto
      have "P' (U_REQUEST ch (krt2i_interrupt_cause ''ScopeShutdown'' krt2i_none))" by (rule swappedD(3)[OF sw]) (simp add: vs sh)
      then show ?thesis unfolding v using f inv_parts(8)[OF i k0[unfolded sh[THEN eqTrueI]], of f] keep(1) by blast
    next
      case False
      then show ?thesis using d k inv_parts(8)[OF i, of d ks n f] keep(1) v by auto
    qed
  qed
qed

lemma scope_detach:
  assumes i: "scope_inv s P" and sw: "swapped P [U_DETACH ch] vs P'" and e: "krt2i_scope_detach s ch = (s', vs)"
  shows "scope_inv s' P'"
proof (cases "att s ch")
  case None
  have e': "s' = s" "vs = []" using e None by (auto simp: krt2i_scope_detach_def att_def split: option.splits)
  have keep: "P (U_REQUEST f cs) \<Longrightarrow> P' (U_REQUEST f cs)" "P (U_DETACH f) \<Longrightarrow> f \<noteq> ch \<Longrightarrow> P' (U_DETACH f)" "P' (U_ATTACH d f) \<Longrightarrow> P (U_ATTACH d f)" for f cs d
    using swappedD(2,4)[OF sw] e' by fastforce+
  show ?thesis unfolding e'
  proof (rule scope_invI)
    show "att s f \<noteq> None \<Longrightarrow> finished s f \<Longrightarrow> P' (U_DETACH f)" for f
      using inv_parts(5)[OF i, of f] keep(2)[of f] None by (cases "f = ch") auto
    show "P' (U_ATTACH d f) \<Longrightarrow> att s f = None" for d f using inv_parts(6)[OF i] keep(3) by blast
    show "kids s d = Some (ks, n, True) \<Longrightarrow> f \<in> set ks \<Longrightarrow> caused s f \<or> (\<exists>cs. P' (U_REQUEST f cs))" for d ks n f
      using inv_parts(8)[OF i, of d ks n f] keep(1) by blast
    show "kids s d = Some (ks, n, sh) \<Longrightarrow> n = int (length ks) \<and> distinct ks \<and> (\<forall>f. (f \<in> set ks) = (att s f = Some d))" for d ks n sh
      using inv_parts(1-3)[OF i, of d ks n sh] by simp
  qed (use inv_parts(4,7)[OF i] in simp_all)
next
  case (Some sc)
  obtain x where x: "fibs s ch = Some x" "fatt x = Some sc" using Some by (auto simp: att_def bind_eq_Some_conv)
  obtain c where c: "scopes s sc = Some c" using inv_parts(4)[OF i Some] by (auto simp: kids_def)
  let ?last = "sc_live c - 1 = 0 \<and> sc_shutting c"
  have s': "s' = upd_fib ch (\<lambda>x. x\<lparr>fatt := None\<rparr>) (upd_scope sc (\<lambda>y. y\<lparr>sc_children := remove1 ch (sc_children y), sc_live := sc_live c - 1,
      sc_drain := (if ?last then [] else sc_drain y)\<rparr>) s)" and vs: "vs = (if ?last then wakes (sc_drain c) kunit else [])"
    using e x c by (auto simp: krt2i_scope_detach_def Let_def)
  have k: "kids s' d = (if d = sc then Some (remove1 ch (sc_children c), sc_live c - 1, sc_shutting c) else kids s d)" for d
    using c by (simp add: s' kids_scope)
  have a: "att s' f = (if f = ch then None else att s f)" for f using x by (simp add: s' att_fib)
  have v: "finished s' = finished s" "pending s' = pending s" "caused s' = caused s" by (simp_all add: s' views_same)
  have k0: "kids s sc = Some (sc_children c, sc_live c, sc_shutting c)" using c by (simp add: kids_def)
  have nw: "U_ATTACH d f \<notin> set vs" for d f using vs by (auto simp: wakes_def)
  have keep: "P (U_REQUEST f cs) \<Longrightarrow> P' (U_REQUEST f cs)" "P (U_DETACH f) \<Longrightarrow> f \<noteq> ch \<Longrightarrow> P' (U_DETACH f)" "P' (U_ATTACH d f) \<Longrightarrow> P (U_ATTACH d f)" for f cs d
    using swappedD(2)[OF sw] swappedD(4)[OF sw, of "U_ATTACH d f"] nw by fastforce+
  show ?thesis
  proof (rule scope_invI)
    show "n = int (length ks) \<and> distinct ks \<and> (\<forall>f. (f \<in> set ks) = (att s' f = Some d))" if "kids s' d = Some (ks, n, sh)" for d ks n sh
    proof (cases "d = sc")
      case True
      then have ks: "ks = remove1 ch (sc_children c)" "n = sc_live c - 1" using that k by auto
      have "ch \<in> set (sc_children c)" using inv_parts(3)[OF i k0] Some by simp
      then have "int (length (remove1 ch (sc_children c))) = int (length (sc_children c)) - 1"
        using length_pos_if_in_set[of ch "sc_children c"] by (simp add: length_remove1 of_nat_diff Suc_le_eq)
      then show ?thesis unfolding ks True a using inv_parts(1-3)[OF i k0] by auto
    next
      case False
      then have "kids s d = Some (ks, n, sh)" using that k by simp
      then show ?thesis using inv_parts(1-3)[OF i, of d ks n sh] False Some by (auto simp: a)
    qed
    show "att s' f = Some d \<Longrightarrow> kids s' d \<noteq> None" for f d using inv_parts(4)[OF i, of f d] by (auto simp: a k split: if_splits)
    show "att s' f \<noteq> None \<Longrightarrow> finished s' f \<Longrightarrow> P' (U_DETACH f)" for f
      using inv_parts(5)[OF i, of f] keep(2) by (auto simp: a v split: if_splits)
    show "P' (U_ATTACH d f) \<Longrightarrow> att s' f = None" for d f using inv_parts(6)[OF i, of d f] keep(3) by (auto simp: a)
    show "pending s' f \<Longrightarrow> caused s' f" for f using inv_parts(7)[OF i] by (simp add: v)
    show "caused s' f \<or> (\<exists>cs. P' (U_REQUEST f cs))" if d: "kids s' d = Some (ks, n, True)" "f \<in> set ks" for d ks n f
    proof (cases "d = sc")
      case True
      then have "sc_shutting c" "f \<in> set (sc_children c)" using d k set_remove1_subset[of ch "sc_children c"] by auto
      then show ?thesis using inv_parts(8)[OF i, of sc _ _ f] k0 keep(1) v by fastforce
    next
      case False
      then show ?thesis using d k inv_parts(8)[OF i, of d ks n f] keep(1) v by auto
    qed
  qed
qed

lemma scope_finish:
  assumes i: "scope_inv s P" and sw: "swapped P [U_STEP f] vs P'" and e: "fiber_finish s f ex = Some (s', vs)"
  shows "scope_inv s' P'"
proof -
  obtain x where x: "fibs s f = Some x" using e by (auto simp: fiber_finish_def split: option.splits)
  have s': "s' = upd_fib f (\<lambda>x. x\<lparr>fexit := Some ex, f_st := F_DONE, fwaiters := []\<rparr>) s"
    and vs: "vs = wakes (fwaiters x) ex @ [U_DETACH f, U_ALL_REMOVE f, U_MAIN f]"
    using e x by (auto simp: fiber_finish_def)
  have v: "kids s' = kids s" "att s' = att s" "pending s' = pending s" "caused s' = caused s" by (simp_all add: s' views_same)
  have fin: "finished s' g \<Longrightarrow> finished s g \<or> g = f" for g by (auto simp: s' finished_def sts_upd split: if_splits)
  have "scope_inv s' P'"
  proof (rule scope_invI, unfold v)
    show "att s g \<noteq> None \<Longrightarrow> finished s' g \<Longrightarrow> P' (U_DETACH g)" for g
      using inv_parts(5)[OF i, of g] fin[of g] swappedD(2)[OF sw, of "U_DETACH g"] swappedD(3)[OF sw, of "U_DETACH f"] vs by auto
    show "P' (U_ATTACH d g) \<Longrightarrow> att s g = None" for d g
      using inv_parts(6)[OF i, of d g] swappedD(4)[OF sw, of "U_ATTACH d g"] vs by (auto simp: wakes_def)
    show "kids s d = Some (ks, n, True) \<Longrightarrow> g \<in> set ks \<Longrightarrow> caused s g \<or> (\<exists>cs. P' (U_REQUEST g cs))" for d ks n g
      using inv_parts(8)[OF i, of d ks n g] swappedD(2)[OF sw, of "U_REQUEST g _"] by auto
    show "kids s d = Some (ks, n, sh) \<Longrightarrow> n = int (length ks) \<and> distinct ks \<and> (\<forall>g. (g \<in> set ks) = (att s g = Some d))" for d ks n sh
      using inv_parts(1-3)[OF i, of d ks n sh] by simp
  qed (use inv_parts(4,7)[OF i] in simp_all)
  then show ?thesis .
qed

lemma scope_spawn:
  assumes i: "scope_inv s P" and fr: "fresh_inv s" and sw: "swapped P us vs P'" and us: "\<forall>u\<in>set us. \<not> counts u"
    and new: "fatt x = None" "\<not> fpend x" "fcause x = None" and at: "\<And>d g. U_ATTACH d g \<in> set vs \<Longrightarrow> g = Suc (next_id s)"
    and s': "s' = s\<lparr>next_id := n, fibs := (fibs s)(Suc (next_id s) \<mapsto> x)\<rparr>"
  shows "scope_inv s' P'"
proof -
  let ?c = "Suc (next_id s)"
  have none: "fibs s ?c = None" using fr by (simp add: fresh_inv_def)
  have v: "kids s' = kids s" "att s' = att s" "pending s' = pending s" "caused s' = caused s"
    using none new by (auto simp: s' kids_def att_def pending_def caused_def fun_eq_iff)
  have ac: "att s ?c = None" using none by (simp add: att_def)
  show ?thesis
  proof (rule scope_invI, unfold v)
    show "P' (U_DETACH g)" if g: "att s g \<noteq> None" "finished s' g" for g
    proof -
      have "g \<noteq> ?c" using g ac by auto
      then have "finished s g" using g(2) by (simp add: s' finished_def sts_def)
      then show ?thesis using inv_parts(5)[OF i g(1)] swappedD(2)[OF sw, of "U_DETACH g"] us by fastforce
    qed
    show "P' (U_ATTACH d g) \<Longrightarrow> att s g = None" for d g
      using inv_parts(6)[OF i, of d g] swappedD(4)[OF sw, of "U_ATTACH d g"] at[of d g] ac by auto
    show "kids s d = Some (ks, m, True) \<Longrightarrow> g \<in> set ks \<Longrightarrow> caused s g \<or> (\<exists>cs. P' (U_REQUEST g cs))" for d ks m g
      using inv_parts(8)[OF i, of d ks m g] swappedD(2)[OF sw, of "U_REQUEST g _"] us by fastforce
    show "kids s d = Some (ks, m, sh) \<Longrightarrow> m = int (length ks) \<and> distinct ks \<and> (\<forall>g. (g \<in> set ks) = (att s g = Some d))" for d ks m sh
      using inv_parts(1-3)[OF i, of d ks m sh] by simp
  qed (use inv_parts(4,7)[OF i] in simp_all)
qed

text \<open>The section that starts a shutdown asks every child to stop.\<close>

lemma scope_shut:
  assumes i: "scope_inv s P" and sw: "swapped P us vs P'" and us: "\<forall>u\<in>set us. \<not> counts u" and c: "scopes s sc = Some c"
    and ask: "\<And>k. k \<in> set (sc_children c) \<Longrightarrow> \<exists>cs. U_REQUEST k cs \<in> set vs" and na: "\<forall>d f. U_ATTACH d f \<notin> set vs"
  shows "scope_inv (upd_scope sc (\<lambda>c. c\<lparr>sc_shutting := True\<rparr>) s) P'"
proof -
  let ?s = "upd_scope sc (\<lambda>c. c\<lparr>sc_shutting := True\<rparr>) s"
  have k: "kids ?s d = (if d = sc then Some (sc_children c, sc_live c, True) else kids s d)" for d using c by (simp add: kids_scope)
  have k0: "kids s sc = Some (sc_children c, sc_live c, sc_shutting c)" using c by (simp add: kids_def)
  show ?thesis
  proof (rule scope_invI, unfold fib_scope)
    show "att s g \<noteq> None \<Longrightarrow> finished s g \<Longrightarrow> P' (U_DETACH g)" for g
      using inv_parts(5)[OF i, of g] swappedD(2)[OF sw, of "U_DETACH g"] us by fastforce
    show "P' (U_ATTACH d g) \<Longrightarrow> att s g = None" for d g
      using inv_parts(6)[OF i, of d g] swappedD(4)[OF sw, of "U_ATTACH d g"] na by auto
    show "kids ?s d = Some (ks, n, True) \<Longrightarrow> g \<in> set ks \<Longrightarrow> caused s g \<or> (\<exists>cs. P' (U_REQUEST g cs))" for d ks n g
      using inv_parts(8)[OF i, of d ks n g] swappedD(2)[OF sw, of "U_REQUEST g _"] us ask[of g] swappedD(3)[OF sw]
      by (cases "d = sc") (fastforce simp: k)+
    show "kids ?s d = Some (ks, n, sh) \<Longrightarrow> n = int (length ks) \<and> distinct ks \<and> (\<forall>g. (g \<in> set ks) = (att s g = Some d))" for d ks n sh
      using inv_parts(1-3)[OF i, of d ks n sh] inv_parts(1-3)[OF i k0] by (cases "d = sc") (auto simp: k)
    show "att s g = Some d \<Longrightarrow> kids ?s d \<noteq> None" for g d using inv_parts(4)[OF i, of g d] by (auto simp: k)
  qed (use inv_parts(7)[OF i] in simp_all)
qed

lemma scope_new_scope:
  assumes fr: "fresh_inv s" and i: "scope_inv s P"
  shows "scope_inv (krt2i_scope_new s) P"
proof -
  let ?s = "krt2i_scope_new s"
  have none: "kids s (nxt s) = None" using fr by (simp add: fresh_inv_def kids_def)
  have v: "att ?s = att s" "finished ?s = finished s" "pending ?s = pending s" "caused ?s = caused s"
    by (auto simp: krt2i_scope_new_def att_def finished_def sts_def pending_def caused_def fun_eq_iff)
  have k: "kids ?s d = (if d = nxt s then Some ([], 0, False) else kids s d)" for d by (simp add: krt2i_scope_new_def kids_def)
  have na: "att s g \<noteq> Some (nxt s)" for g using inv_parts(4)[OF i, of g "nxt s"] none by auto
  show ?thesis
  proof (rule scope_invI, unfold v)
    show "kids ?s d = Some (ks, n, True) \<Longrightarrow> g \<in> set ks \<Longrightarrow> caused s g \<or> (\<exists>cs. P (U_REQUEST g cs))" for d ks n g
      using inv_parts(8)[OF i, of d ks n g] by (auto simp: k split: if_splits)
    show "kids ?s d = Some (ks, n, sh) \<Longrightarrow> n = int (length ks) \<and> distinct ks \<and> (\<forall>g. (g \<in> set ks) = (att s g = Some d))" for d ks n sh
      using inv_parts(1-3)[OF i, of d ks n sh] na by (auto simp: k split: if_splits)
    show "att s g = Some d \<Longrightarrow> kids ?s d \<noteq> None" for g d using inv_parts(4)[OF i, of g d] by (auto simp: k)
  qed (use inv_parts(5-7)[OF i] in simp_all)
qed

lemma scope_run_main:
  assumes i: "scope_inv s P" and fr: "fresh_inv s" and e: "krt2_run_main s a = (s', vs)" and sw: "swapped P [] vs P'"
  shows "scope_inv s' P'"
proof -
  let ?s2 = "krt2i_scope_new (krt2i_scope_new s)"
  have f2: "fresh_inv ?s2" using fr by simp
  have i2: "scope_inv ?s2 P" using scope_new_scope fr i by simp
  have q: "quiet t (t\<lparr>main_done := b, main_fiber := m, daemon_scope := d\<rparr>)" for t b m d
    by (simp add: quiet_def kids_def att_def finished_def pending_def caused_def fun_eq_iff sts_def)
  show ?thesis using e
    by (auto simp: krt2_run_main_def Let_def intro!: scope_quiet[OF q] scope_spawn[OF i2 f2 sw])
qed

section \<open>Every section keeps the accounting\<close>

lemma act_quiet_uop:
  assumes e: "uexec s u = Some (s', vs)" and b: "based s P" "P u" and nc: "\<not> counts u"
  shows "quiet s s' \<and> (\<forall>c f. U_ATTACH c f \<notin> set vs)"
proof (cases u)
  case (U_JOIN g kp want)
  have run: "sts s g \<noteq> Some F_DONE" using based_own[OF b, of g] U_JOIN by (auto simp: sts_def)
  then show ?thesis using e U_JOIN quiet_park_on[OF _ run]
    by (cases kp) (auto simp: do_await_def do_await_promise_def Let_def split: option.splits if_splits prod.splits)
next
  case (U_RUN g)
  then show ?thesis using e based_own[OF b, of g] by (auto intro!: quiet_fib)
next
  case (U_RESUME g)
  then show ?thesis using e based_own[OF b, of g] by (auto simp: krt2i_resume_def intro!: quiet_fib)
next
  case (U_UNLINK g rg)
  have "quiet s (case rg of None \<Rightarrow> s | Some (kp, w) \<Rightarrow> krt2i_clear_park_waiter (krt2i_unlink_waiter s kp w) g)"
    using quiet_trans[OF quiet_ops(3) quiet_ops(2)] by (auto split: option.split)
  then show ?thesis using e U_UNLINK quiet_trans[OF _ quiet_delivered] by (auto simp: claimed_def Let_def)
qed (use e nc quiet_delivered in \<open>auto simp: krt2i_rq_push_def krt2i_wake_def krt2i_deliver_pending_before_park_def claim_load_def claim_cas_def
    krt2i_all_add_def krt2i_all_remove_def intro!: quiet_fib split: option.splits if_splits\<close>)

lemma scope_op:
  assumes e: "op_step s g op = Some (s', vs)" and b: "based s P" and sw: "swapped P [U_STEP g] vs P'" and i: "scope_inv s P"
  shows "scope_inv s' P'"
proof -
  obtain x where x: "fibs s g = Some x" using e by (auto simp: op_step_def split: option.splits)
  have run: "f_st x = F_RUNNING" using based_running[OF b] swappedD(1)[OF sw, of "U_STEP g"] x by simp
  have fr: "fresh_inv s" using b by (simp add: based_def)
  have plain: ?thesis if "quiet s s'" "\<forall>c f. U_ATTACH c f \<notin> set vs" by (rule scope_plain[OF that(1) i sw _ that(2)]) simp
  have nw: "U_ATTACH c f \<notin> set (wakes ws ex)" for c f ws ex by (auto simp: wakes_def)
  have spawn: ?thesis if sp: "spawn_step s g msk a att dm = Some (s', vs)" for msk a att dm
    using sp by (auto simp: spawn_step_def krt2i_spawn_from_def Let_def intro!: scope_spawn[OF i fr sw] split: option.splits if_splits)
  show ?thesis
  proof (cases op)
    case (SO_FORK a d)
    then show ?thesis using spawn e x by (simp add: op_step_def)
  next
    case (SO_FORK_IN sc a)
    then show ?thesis using spawn e x by (simp add: op_step_def)
  next
    case (SO_FINISH ex)
    then show ?thesis using e x scope_finish[OF i sw] by (simp add: op_step_def)
  next
    case SO_NEW_SCOPE
    then have "s' = krt2i_scope_new s" "vs = [U_STEP g]" using e x by (auto simp: op_step_def)
    then show ?thesis using scope_plain[OF quiet_id i sw] scope_new_scope[OF fr] by simp
  next
    case (SO_SHUTDOWN sc)
    then obtain c where c: "scopes s sc = Some c" using e x by (auto simp: op_step_def krt2i_op_shutdown_scope_def split: option.splits)
    let ?s1 = "upd_scope sc (\<lambda>c. c\<lparr>sc_shutting := True\<rparr>) s"
    let ?cause = "krt2i_interrupt_cause ''ScopeShutdown'' (krt2i_some (kint (word_of_nat g)))"
    obtain us where vs: "vs = map (\<lambda>k. U_REQUEST k ?cause) (sc_children c) @ us" "\<forall>d f. U_ATTACH d f \<notin> set us" and q: "quiet ?s1 s'"
    proof (cases "sc_live c > 0")
      case True
      have st: "sts ?s1 g \<noteq> Some F_DONE" using x run by (simp add: sts_def)
      show ?thesis using that e x c True SO_SHUTDOWN quiet_park_on[OF _ st]
        by (auto simp: op_step_def krt2i_op_shutdown_scope_def Let_def split: prod.splits)
    next
      case False
      then show ?thesis using that e x c SO_SHUTDOWN by (auto simp: op_step_def krt2i_op_shutdown_scope_def Let_def)
    qed
    have "scope_inv ?s1 P'" by (rule scope_shut[OF i sw _ c]) (use vs in auto)
    then show ?thesis using scope_quiet[OF q] by simp
  qed ((rule plain; insert e x run nw; auto simp: op_step_def promise_complete_def promise_new_def cede_step_def sleep_step_def
      intro!: quiet_fib quiet_delivered split: option.splits if_splits)+)
qed

interpretation sco: sched_inv scope_inv
proof
  show "scope_inv krt2_new (\<lambda>_. False)"
    by (simp add: scope_inv_def scopes_ok_def leaves_ok_def shut_ok_def krt2_new_def kids_def att_def finished_def sts_def pending_def)
  fix s P s' P' us vs
  assume b: "based s P" "based s' P'" and a: "act s us s' vs" and sw: "swapped P us vs P'" and i: "scope_inv s P"
  have fr: "fresh_inv s" using b by (simp add: based_def)
  have Pus: "\<forall>u\<in>set us. P u" using swappedD(1)[OF sw] by simp
  from a show "scope_inv s' P'"
  proof cases
    case (act_uop u)
    have sw1: "swapped P [u] vs P'" using sw act_uop by simp
    show ?thesis
    proof (cases "counts u")
      case True
      then show ?thesis
      proof (cases u)
        case (U_DETACH f)
        then show ?thesis using scope_detach[OF i] sw1 act_uop(2) by simp
      next
        case (U_REQUEST f c)
        then show ?thesis using scope_request[OF i] sw1 act_uop(2) by (auto simp: krt2i_interrupt_request_def)
      next
        case (U_ATTACH c f)
        then show ?thesis using scope_attach[OF i b] sw1 act_uop(2) by simp
      qed simp_all
    next
      case False
      then show ?thesis using act_quiet_uop[OF act_uop(2) b(1) _ False] Pus act_uop(1) scope_plain[OF _ i sw1] by simp
    qed
  next
    case (act_op g op)
    then show ?thesis using scope_op[OF act_op(2) b(1) _ i] sw by simp
  next
    case (act_main a)
    then show ?thesis using scope_run_main[OF i fr] sw by blast
  next
    case (act_drain d ks)
    then obtain c where c: "scopes s d = Some c" by (auto simp: krt2i_scope_drain_bounded_def split: option.splits)
    have s': "s' = upd_scope d (\<lambda>c. c\<lparr>sc_shutting := True\<rparr>) s" using act_drain c by (auto simp: krt2i_scope_drain_bounded_def)
    show ?thesis unfolding s' by (rule scope_shut[OF i sw _ c]) (use act_drain c in \<open>auto simp: krt2i_scope_drain_bounded_def image_iff\<close>)
  next
    case (act_pop f q)
    then show ?thesis using scope_plain[OF quiet_simple(1) i sw] by simp
  next
    case (act_wake f v)
    then show ?thesis using scope_plain[OF quiet_id i sw] by simp
  qed
qed

end
