(* ===== verification/Kappa_SchedProps.thy ===== *)
theory Kappa_SchedProps
  imports Kappa_SchedScope
begin

text \<open>
  What the scheduler and the scopes promise, in any configuration the threads can reach. Concrete
  interleavings are schedules: which thread moves, and what the fiber it runs does.
\<close>

section \<open>Schedules\<close>

definition step_thread :: "conf \<Rightarrow> nat \<Rightarrow> sop option \<Rightarrow> conf option" where
  "step_thread c t op =
     (case snd c t of
        [] \<Rightarrow> (case rq (prod.fst c) of [] \<Rightarrow> None | f # q \<Rightarrow> Some ((prod.fst c)\<lparr>rq := q\<rparr>, (snd c)(t := [U_RUN f])))
      | u # us \<Rightarrow>
          (case (u, op) of
             (U_STEP f, Some a) \<Rightarrow> map_option (\<lambda>(s', vs). (s', (snd c)(t := vs @ us))) (op_step (prod.fst c) f a)
           | (_, None) \<Rightarrow> map_option (\<lambda>(s', vs). (s', (snd c)(t := vs @ us))) (uexec (prod.fst c) u)
           | _ \<Rightarrow> None))"

fun schedule :: "conf \<Rightarrow> (nat \<times> sop option) list \<Rightarrow> conf option" where
  "schedule c [] = Some c"
| "schedule c ((t, op) # ms) = Option.bind (step_thread c t op) (\<lambda>c'. schedule c' ms)"

lemma step_thread_sstep:
  assumes "step_thread c t op = Some c'"
  shows "sstep c c'"
proof -
  obtain s W where c: "c = (s, W)" by force
  show ?thesis
  proof (cases "W t")
    case Nil
    then show ?thesis using assms c by (auto simp: step_thread_def intro: ss_pop split: list.splits)
  next
    case (Cons u us)
    show ?thesis
    proof (cases op)
      case None
      then have "map_option (\<lambda>(s', vs). (s', W(t := vs @ us))) (uexec s u) = Some c'"
        using assms c Cons by (cases u) (auto simp: step_thread_def)
      then show ?thesis using Cons c by (auto intro: ss_uop)
    next
      case (Some a)
      then obtain f where f: "u = U_STEP f" using assms c Cons by (cases u) (auto simp: step_thread_def)
      then have "map_option (\<lambda>(s', vs). (s', W(t := vs @ us))) (op_step s f a) = Some c'"
        using assms c Cons Some by (auto simp: step_thread_def)
      then show ?thesis using Cons c f by (auto intro: ss_op)
    qed
  qed
qed

lemma schedule_reach: "sreach c \<Longrightarrow> schedule c ms = Some c' \<Longrightarrow> sreach c'"
proof (induction c ms rule: schedule.induct)
  case (2 c t op ms)
  then obtain c1 where "step_thread c t op = Some c1" "schedule c1 ms = Some c'" by (auto simp: bind_eq_Some_conv)
  then show ?case using 2 sr_step step_thread_sstep by blast
qed simp

text \<open>The host has started the run of an action.\<close>

definition started :: "kval \<Rightarrow> conf" where
  "started a = (case krt2_run_main krt2_new a of (s, us) \<Rightarrow> (s, (\<lambda>_. [])(0 := us)))"

lemma started_reach: "sreach (started a)"
proof -
  obtain s us where e: "krt2_run_main krt2_new a = (s, us)" by force
  have "sstep (krt2_new, \<lambda>_. []) (s, (\<lambda>_. [])(0 := us))" by (rule ss_main) (use e in simp_all)
  then show ?thesis using sr_step[OF sr_start] e by (simp add: started_def)
qed

lemma schedule_started: "schedule (started a) ms = Some (s, W) \<Longrightarrow> sreach (s, W)"
  using schedule_reach[OF started_reach] .

text \<open>The main fiber forks a child and awaits it; the child, on another thread, takes its turn.\<close>

definition moves :: "nat \<Rightarrow> nat \<Rightarrow> (nat \<times> sop option) list" where
  "moves t n = replicate n (t, None)"

definition forked :: "(nat \<times> sop option) list" where
  "forked = moves 0 5 @ [(0, Some (SO_FORK kunit False))] @ moves 0 4"

definition awaited :: "(nat \<times> sop option) list" where
  "awaited = forked @ [(0, Some (SO_AWAIT 2))] @ moves 0 2 @ moves 1 2"

text \<open>The main fiber is parked; the child has asked it to stop, and the wake is still to come.\<close>

definition asked :: "(nat \<times> sop option) list" where
  "asked = awaited @ [(1, Some (SO_INTERRUPT 1 kunit False))] @ moves 1 1"

text \<open>The main fiber has asked the scope of its child to shut down.\<close>

definition shutting :: "(nat \<times> sop option) list" where
  "shutting = forked @ [(0, Some (SO_SHUTDOWN 0))]"

lemma awaited_runs:
  "case schedule (started kunit) awaited of None \<Rightarrow> False | Some (s, W) \<Rightarrow>
     (case fibs s 1 of None \<Rightarrow> False | Some x \<Rightarrow> f_st x = F_PARKED \<and> fwait x \<and> fpark x \<noteq> None)"
  by code_simp

lemma asked_runs:
  "case schedule (started kunit) asked of None \<Rightarrow> False | Some (s, W) \<Rightarrow>
     (case fibs s 1 of None \<Rightarrow> False | Some x \<Rightarrow> f_st x = F_PARKED \<and> fpend x \<and> fmask x = KMASK_INTERRUPTIBLE)"
  by code_simp

lemma shutting_runs:
  "case schedule (started kunit) shutting of None \<Rightarrow> False | Some (s, W) \<Rightarrow>
     (case scopes s 0 of None \<Rightarrow> False | Some x \<Rightarrow> sc_shutting x \<and> 2 \<in> set (sc_children x))"
  by code_simp

section \<open>Ownership\<close>

text \<open>C1: In every reachable configuration each fiber is in exactly one place. A parked or finished fiber
  is neither on the run queue nor with a thread; a runnable or running one is either on the run queue, once,
  as runnable, or with exactly one thread, in one of its sections. So no fiber is ever run by two workers.\<close>

theorem fiber_single_owner:
  assumes "sreach (s, W)" and "fibs s f = Some x"
  shows "distinct (rq s) \<and> (\<forall>t. distinct (toks (W t))) \<and>
    (if f_st x = F_PARKED \<or> f_st x = F_DONE then f \<notin> set (rq s) \<and> (\<forall>t. f \<notin> set (toks (W t)))
     else if f \<in> set (rq s) then f_st x = F_RUNNABLE \<and> (\<forall>t. f \<notin> set (toks (W t)))
     else (\<exists>!t. f \<in> set (toks (W t))))"
proof -
  have p: "one_place (s, W)" and so: "status_ok (s, W)" using sreach_own[OF assms(1)] by (auto simp: own_inv_def)
  note pD = one_placeD[OF p] and sD = status_okD[OF so]
  have x: "sts s f = Some (f_st x)" using assms(2) by (simp add: sts_def)
  show ?thesis
  proof (cases "f_st x = F_PARKED \<or> f_st x = F_DONE")
    case True
    then show ?thesis using sD(3)[OF x] pD(1,2) by (auto simp: owned_def)
  next
    case False
    then have o: "f \<in> set (rq s) \<or> (\<exists>t. f \<in> set (toks (W t)))" using sD(3)[OF x] by (auto simp: owned_def)
    show ?thesis
    proof (cases "f \<in> set (rq s)")
      case True
      then show ?thesis using False sD(1)[OF True] x pD(1-3) by auto
    next
      case notq: False
      have "\<exists>!t. f \<in> set (toks (W t))" using o notq pD(4)[of f] by blast
      then show ?thesis using False notq pD(1,2) by simp
    qed
  qed
qed

lemma fiber_single_owner_witness:
  "\<exists>s W x. sreach (s, W) \<and> fibs s 1 = Some x \<and> f_st x = F_PARKED \<and> 1 \<notin> set (rq s) \<and> (\<forall>t. 1 \<notin> set (toks (W t)))"
proof -
  obtain s W where r: "schedule (started kunit) awaited = Some (s, W)" using awaited_runs by (auto split: option.splits)
  then obtain x where x: "fibs s 1 = Some x" "f_st x = F_PARKED" using awaited_runs by (auto split: option.splits)
  show ?thesis using fiber_single_owner[OF schedule_started[OF r] x(1)] schedule_started[OF r] x by auto
qed

section \<open>No wake is lost\<close>

text \<open>C2: No wake is lost. In every reachable configuration, a fiber parked on a waiter list (of a fiber it
  awaits, of a promise, of a scope it shuts down) either is still on that list, and what it waits for has not
  come, or some thread has still to execute its wake.\<close>

theorem no_lost_wakeup:
  assumes "sreach (s, W)" and "fibs s f = Some x" and "f_st x = F_PARKED" and "fwait x" and "fpark x = Some (kp, w)"
  shows "w \<in> set (waiters_at s kp) \<and> w_f w = f \<and> \<not> happened s kp \<or> (\<exists>t v. U_WAKE f (Some v) \<in> set (W t))"
proof -
  have i: "wait_inv s (pend W)" and o: "open_inv s" using wt.reach[OF assms(1)] opn.reach[OF assms(1)] .
  have "waiting s f kp w" using assms by (auto simp: waiting_def)
  then have c: "w \<in> set (waiters_at s kp) \<or> (\<exists>v. pend W (U_WAKE f (Some v)))" using i by (simp add: wait_inv_def)
  have "w_f w = f" using i assms by (auto simp: wait_inv_def reg_inv_def reg_ok_def pk_def)
  moreover have "w \<in> set (waiters_at s kp) \<Longrightarrow> \<not> happened s kp" using o unfolding open_inv_def by (metis empty_iff empty_set)
  ultimately show ?thesis using c unfolding pend_def by blast
qed

lemma no_lost_wakeup_witness:
  "\<exists>s W x kp w. sreach (s, W) \<and> fibs s 1 = Some x \<and> f_st x = F_PARKED \<and> fwait x \<and> fpark x = Some (kp, w) \<and>
     (w \<in> set (waiters_at s kp) \<and> w_f w = 1 \<and> \<not> happened s kp \<or> (\<exists>t v. U_WAKE 1 (Some v) \<in> set (W t)))"
proof -
  obtain s W where r: "schedule (started kunit) awaited = Some (s, W)" using awaited_runs by (auto split: option.splits)
  then obtain x kp w where x: "fibs s 1 = Some x" "f_st x = F_PARKED" "fwait x" "fpark x = Some (kp, w)"
    using awaited_runs by (auto split: option.splits)
  show ?thesis using no_lost_wakeup[OF schedule_started[OF r] x] schedule_started[OF r] x by blast
qed

section \<open>No interruption is lost\<close>

text \<open>C4: No interruption is lost to a race with parking. In every reachable configuration, if a fiber is
  parked with an interruption pending and its mask lets it through, some thread has a section left that will
  see it: a wake of the fiber, the test after the park, or the compare-and-swap of that test. That section can
  execute, and takes the fiber off its park, or is the test and leaves the compare-and-swap.\<close>

theorem no_lost_interrupt:
  assumes "sreach (s, W)" and "fibs s f = Some x" and "f_st x = F_PARKED" and "fpend x" and "fmask x = KMASK_INTERRUPTIBLE"
  shows "\<exists>t u s' vs. u \<in> set (W t) \<and> uexec s u = Some (s', vs) \<and>
    ((\<exists>v. u = U_WAKE f v) \<and> sts s' f = Some F_RUNNABLE \<or> (\<exists>r. u = U_CLAIM f True r \<and> vs = [U_CAS f r]) \<or> (\<exists>r. u = U_CAS f r) \<and> sts s' f = Some F_RUNNING)"
proof -
  have "wants s f" using assms by (simp add: wants_def deliverable_def)
  then obtain u where u: "sees f u" "pend W u" using intr.reach[OF assms(1)] by (auto simp: intr_inv_def)
  then obtain t where t: "u \<in> set (W t)" by (auto simp: pend_def)
  have "\<exists>s' vs. uexec s u = Some (s', vs) \<and> ((\<exists>v. u = U_WAKE f v) \<and> sts s' f = Some F_RUNNABLE \<or>
      (\<exists>r. u = U_CLAIM f True r \<and> vs = [U_CAS f r]) \<or> (\<exists>r. u = U_CAS f r) \<and> sts s' f = Some F_RUNNING)"
    using u(1) assms(2-5) by (cases u) (auto simp: krt2i_wake_def claim_load_def claim_cas_def sts_upd)
  then show ?thesis using t by blast
qed

lemma no_lost_interrupt_witness:
  "\<exists>s W x. sreach (s, W) \<and> fibs s 1 = Some x \<and> f_st x = F_PARKED \<and> fpend x \<and> fmask x = KMASK_INTERRUPTIBLE \<and> (\<exists>t u. u \<in> set (W t))"
proof -
  obtain s W where r: "schedule (started kunit) asked = Some (s, W)" using asked_runs by (auto split: option.splits)
  then obtain x where x: "fibs s 1 = Some x" "f_st x = F_PARKED" "fpend x" "fmask x = KMASK_INTERRUPTIBLE"
    using asked_runs by (auto split: option.splits)
  show ?thesis using no_lost_interrupt[OF schedule_started[OF r] x] schedule_started[OF r] x by blast
qed

section \<open>Scopes\<close>

text \<open>C8: A scope accounts for its children. In every reachable configuration the count of a scope is the
  length of its list, the list has no child twice, it has exactly the fibers attached to the scope, and a
  finished fiber is still in it only while its thread has the detach left to do.\<close>

theorem scope_accounts_children:
  assumes "sreach (s, W)" and "scopes s c = Some x"
  shows "sc_live x = int (length (sc_children x)) \<and> distinct (sc_children x) \<and>
    (\<forall>f. f \<in> set (sc_children x) \<longleftrightarrow> (\<exists>y. fibs s f = Some y \<and> fatt y = Some c)) \<and>
    (\<forall>f. f \<in> set (sc_children x) \<longrightarrow> sts s f \<noteq> Some F_DONE \<or> (\<exists>t. U_DETACH f \<in> set (W t)))"
proof -
  have i: "scope_inv s (pend W)" using sco.reach[OF assms(1)] .
  have k: "kids s c = Some (sc_children x, sc_live x, sc_shutting x)" using assms(2) by (simp add: kids_def)
  have "att s f = Some c \<longleftrightarrow> (\<exists>y. fibs s f = Some y \<and> fatt y = Some c)" for f by (simp add: att_def bind_eq_Some_conv)
  moreover have "sts s f \<noteq> Some F_DONE \<or> (\<exists>t. U_DETACH f \<in> set (W t))" if "f \<in> set (sc_children x)" for f
    using that inv_parts(3)[OF i k, of f] inv_parts(5)[OF i, of f] by (auto simp: finished_def pend_def)
  ultimately show ?thesis using inv_parts(1-3)[OF i k] by simp
qed

lemma scope_accounts_children_witness:
  "\<exists>s W x. sreach (s, W) \<and> scopes s 0 = Some x \<and> 2 \<in> set (sc_children x) \<and> sc_live x = int (length (sc_children x))"
proof -
  obtain s W where r: "schedule (started kunit) shutting = Some (s, W)" using shutting_runs by (auto split: option.splits)
  then obtain x where x: "scopes s 0 = Some x" "2 \<in> set (sc_children x)" using shutting_runs by (auto split: option.splits)
  show ?thesis using scope_accounts_children[OF schedule_started[OF r] x(1)] schedule_started[OF r] x by blast
qed

text \<open>C11: A shutdown reaches every child. In every reachable configuration, each child of a scope that is
  shutting down has been asked to stop or some thread has the request left to do, also the children whose
  attaching ran beside the shutdown.\<close>

theorem shutdown_reaches_children:
  assumes "sreach (s, W)" and "scopes s c = Some x" and "sc_shutting x" and "f \<in> set (sc_children x)"
  shows "(\<exists>y. fibs s f = Some y \<and> fcause y \<noteq> None) \<or> (\<exists>t cs. U_REQUEST f cs \<in> set (W t))"
proof -
  have i: "scope_inv s (pend W)" using sco.reach[OF assms(1)] .
  have k: "kids s c = Some (sc_children x, sc_live x, True)" using assms(2,3) by (simp add: kids_def)
  show ?thesis using inv_parts(8)[OF i k assms(4)] unfolding caused_def pend_def by blast
qed

lemma shutdown_reaches_children_witness:
  "\<exists>s W x. sreach (s, W) \<and> scopes s 0 = Some x \<and> sc_shutting x \<and> 2 \<in> set (sc_children x) \<and>
     ((\<exists>y. fibs s 2 = Some y \<and> fcause y \<noteq> None) \<or> (\<exists>t cs. U_REQUEST 2 cs \<in> set (W t)))"
proof -
  obtain s W where r: "schedule (started kunit) shutting = Some (s, W)" using shutting_runs by (auto split: option.splits)
  then obtain x where x: "scopes s 0 = Some x" "sc_shutting x" "2 \<in> set (sc_children x)" using shutting_runs by (auto split: option.splits)
  show ?thesis using shutdown_reaches_children[OF schedule_started[OF r] x] schedule_started[OF r] x by blast
qed

section \<open>What the wakes do not promise\<close>

text \<open>A masked fiber that an interruption wakes executes its await again and leaves a second node on the
  list. When the awaited fiber finishes both nodes wake it; the second wake may find it parked on another
  fiber, and gives it the exit of the first although the other has not finished.\<close>

definition stale :: "(nat \<times> sop option) list" where
  "stale = forked @ [(0, Some (SO_FORK kunit False))] @ moves 0 4 @ [(0, Some (SO_MASK KMASK_UNINTERRUPTIBLE)), (0, Some (SO_AWAIT 2))] @ moves 0 3 @
     moves 1 2 @ [(1, Some (SO_INTERRUPT 1 kunit False))] @ moves 1 3 @ moves 2 2 @ moves 0 2 @ [(0, Some (SO_AWAIT 2))] @ moves 0 3 @
     [(1, Some (SO_FINISH (kbool True)))] @ moves 1 2 @ moves 0 2 @ [(0, Some (SO_AWAIT 3))] @ moves 0 3 @ moves 1 1"

lemma stale_waiter_wakes_other_await:
  "case schedule (started kunit) stale of None \<Rightarrow> False | Some (s, W) \<Rightarrow>
     map_option (\<lambda>x. (f_st x, fcur x)) (fibs s 1) = Some (F_RUNNABLE, krt2_pure (kbool True)) \<and>
     map_option (\<lambda>x. (f_st x, map w_f (fwaiters x))) (fibs s 3) = Some (F_RUNNING, [1])"
  by code_simp

text \<open>The test after the park loads the request and then swaps the status. Between the two, another worker
  may wake the fiber and deliver the interruption, and the fiber park again: the swap then claims it from its
  new park, and it is interrupted a second time for the one request.\<close>

definition claimed_twice :: "(nat \<times> sop option) list" where
  "claimed_twice = forked @ [(0, Some (SO_FORK kunit False))] @ moves 0 4 @ [(0, Some (SO_AWAIT 2))] @ moves 0 2 @
     moves 1 2 @ [(1, Some (SO_INTERRUPT 1 kunit False))] @ moves 1 1 @ moves 0 1 @ moves 1 2 @ moves 2 2 @ moves 3 2 @
     [(3, Some SO_DELIVER), (3, Some (SO_AWAIT 3))] @ moves 3 3 @ moves 0 1"

lemma one_request_claims_twice:
  "case schedule (started kunit) claimed_twice of None \<Rightarrow> False | Some (s, W) \<Rightarrow>
     (case W 0 of [U_UNLINK f r] \<Rightarrow> f = 1 | _ \<Rightarrow> False) \<and> map_option (\<lambda>x. (f_st x, fpend x)) (fibs s 1) = Some (F_RUNNING, False) \<and>
     map_option (\<lambda>x. map w_f (fwaiters x)) (fibs s 3) = Some [1]"
  by code_simp

end
