(* ===== verification/Kappa_Sync.thy ===== *)
theory Kappa_Sync
  imports Kappa_Machine
begin

text \<open>
  The synchronous bridge (\<open>runtime/rt.c\<close>: \<open>krt2_run_op_sync\<close> and its parts; \<open>runtime/prims.c\<close>:
  \<open>krun_io\<close>, the trampoline of legacy actions, and the \<open>kpf_io_\<close> entry points): a second interpreter of
  action nodes, run on the C stack of the current fiber, next to the CK-machine of \<open>Kappa_Machine\<close>. It
  works on the same fiber state (cells, output, exit stacks, masks).

  An abrupt completion is the C out-parameter \<open>control\<close>, here part of the result; a failure is a \<open>K_FAIL\<close>
  value. A \<open>longjmp\<close> out of a loop at a safe point is the outcome \<open>S_ABORT\<close>. The entry points of
  generated code (\<open>io.fn(env)\<close>, \<open>native.fn(args)\<close>) are the parameter \<open>fire\<close>; it may run the interpreters
  again (the \<open>kpf_io_\<close> functions take them as the parameter \<open>run\<close>), so it may abort or not return. Both interpreters recurse on
  the fuel; \<open>None\<close> means that it ran out. A safe point that lends the thread to another fiber leaves this
  fiber's state alone, and is not modelled.
\<close>

section \<open>Results\<close>

datatype 'a sout = S_RET 'a | S_ABORT

type_synonym 'a sync = "(mach \<times> 'a sout) kres option"

type_synonym scont = "rkind \<times> kval"

type_synonym fire = "mach \<Rightarrow> kval \<Rightarrow> kval sync"

definition sret :: "mach \<Rightarrow> rkind \<Rightarrow> kval \<Rightarrow> scont sync" where
  "sret m c v = Some (Inr (m, S_RET (c, v)))"

definition sbind :: "'a sync \<Rightarrow> (mach \<Rightarrow> 'a \<Rightarrow> 'b sync) \<Rightarrow> 'b sync" where
  "sbind r f =
     (case r of
        None \<Rightarrow> None
      | Some (Inl e) \<Rightarrow> Some (Inl e)
      | Some (Inr (m, S_ABORT)) \<Rightarrow> Some (Inr (m, S_ABORT))
      | Some (Inr (m, S_RET x)) \<Rightarrow> f m x)"

definition slift :: "'a kres \<Rightarrow> ('a \<Rightarrow> 'b sync) \<Rightarrow> 'b sync" where
  "slift r f = (case r of Inl e \<Rightarrow> Some (Inl e) | Inr x \<Rightarrow> f x)"

definition KRT2_SP_QUANTUM :: nat where
  "KRT2_SP_QUANTUM = 65536"

text \<open>The interpreters as seen from an operation: the result of running an action under a do-scope.\<close>

type_synonym run_ret = "mach \<Rightarrow> kval \<Rightarrow> nat option \<Rightarrow> scont sync"
type_synonym run_io = "mach \<Rightarrow> kval \<Rightarrow> bool \<Rightarrow> kval list list \<Rightarrow> kval sync"

section \<open>Reasons\<close>

definition krt2_sync_reason :: "kval \<Rightarrow> rkind \<Rightarrow> reason kres" where
  "krt2_sync_reason r control =
     (if control = RK_RETURN then Inr (RK_RETURN, Some r)
      else if control = RK_BREAK then Inr (RK_BREAK, None)
      else if control = RK_CONTINUE then Inr (RK_CONTINUE, None)
      else if control = RK_RERAISE then Inr (RK_RERAISE, Some r)
      else if krt2_is_reraise_action r then kbind (kctor_arg r 0) (\<lambda>c. Inr (RK_RERAISE, Some c))
      else (case r of KFail e \<Rightarrow> Inr (RK_FAIL, Some e) | _ \<Rightarrow> Inr (RK_NORMAL, Some r)))"

definition krt2_sync_apply_reason :: "reason \<Rightarrow> scont kres" where
  "krt2_sync_apply_reason r =
     (case fst r of
        RK_NORMAL \<Rightarrow> kbind (rval (snd r)) (\<lambda>v. Inr (RK_NORMAL, v))
      | RK_RETURN \<Rightarrow> kbind (rval (snd r)) (\<lambda>v. Inr (RK_RETURN, v))
      | RK_BREAK \<Rightarrow> Inr (RK_BREAK, kunit)
      | RK_CONTINUE \<Rightarrow> Inr (RK_CONTINUE, kunit)
      | RK_FAIL \<Rightarrow> kbind (rval (snd r)) (\<lambda>v. Inr (RK_NORMAL, KFail v))
      | RK_RERAISE \<Rightarrow> kbind (rval (snd r)) (\<lambda>v.
          if \<not> kv_imm v \<and> kctor_tagid v = KCT_FAIL then kbind (kctor_arg v 0) (\<lambda>e. Inr (RK_NORMAL, KFail e))
          else Inr (RK_RERAISE, v))
      | _ \<Rightarrow> Inl ''internal: abrupt control escaped synchronous IO bridge'')"

definition krt2_sync_reify_reason :: "reason \<Rightarrow> kval kres" where
  "krt2_sync_reify_reason r = kbind (krt2_sync_apply_reason r) (\<lambda>(control, v).
     Inr (if control = RK_RERAISE then krt2_reraise v else v))"

section \<open>Operations\<close>

definition krt2_run_sync_operand :: "run_ret \<Rightarrow> run_ret" where
  "krt2_run_sync_operand rec m action sc =
     (if kv_imm action \<and> kctor_tagid action < KRT2_OP_BASE then sret m RK_NORMAL action else rec m action sc)"

definition sync_bind :: "kapp_fn \<Rightarrow> run_ret \<Rightarrow> mach \<Rightarrow> kval \<Rightarrow> nat option \<Rightarrow> scont sync" where
  "sync_bind app rec m action sc =
     slift (kctor_arg action 0) (\<lambda>a.
     sbind (krt2_run_sync_operand rec m a sc) (\<lambda>m1 (c, r).
       if c \<noteq> RK_NORMAL then sret m1 c r
       else if kis_fail r then sret m1 RK_NORMAL r
       else slift (kctor_arg action 1) (\<lambda>k. slift (kapp_rt app m1 k r) (\<lambda>(m2, b). rec m2 b sc))))"

definition sync_then :: "run_ret \<Rightarrow> mach \<Rightarrow> kval \<Rightarrow> nat option \<Rightarrow> scont sync" where
  "sync_then rec m action sc =
     slift (kctor_arg action 0) (\<lambda>a.
     sbind (krt2_run_sync_operand rec m a sc) (\<lambda>m1 (c, r).
       if c \<noteq> RK_NORMAL then sret m1 c r
       else if kis_fail r then sret m1 RK_NORMAL r
       else slift (kctor_arg action 1) (\<lambda>b. rec m1 b sc)))"

definition sync_catch :: "kapp_fn \<Rightarrow> run_ret \<Rightarrow> mach \<Rightarrow> kval \<Rightarrow> nat option \<Rightarrow> scont sync" where
  "sync_catch app rec m action sc =
     slift (kctor_arg action 0) (\<lambda>a.
     sbind (krt2_run_sync_operand rec m a sc) (\<lambda>m1 (c, r).
       if c \<noteq> RK_NORMAL then sret m1 c r
       else case r of
          KFail e \<Rightarrow> slift (kctor_arg action 1) (\<lambda>h. slift (kapp_rt app m1 h e) (\<lambda>(m2, b). rec m2 b sc))
        | _ \<Rightarrow> sret m1 RK_NORMAL r))"

definition sync_reraise :: "mach \<Rightarrow> kval \<Rightarrow> scont sync" where
  "sync_reraise m action =
     slift (kctor_arg action 0) (\<lambda>cause.
       if \<not> kv_imm cause \<and> kctor_tagid cause = KCT_FAIL then slift (kctor_arg cause 0) (\<lambda>e. sret m RK_NORMAL (KFail e))
       else sret m RK_RERAISE cause)"

definition sync_retscope :: "run_ret \<Rightarrow> mach \<Rightarrow> kval \<Rightarrow> nat option \<Rightarrow> scont sync" where
  "sync_retscope rec m action sc =
     slift (kctor_arg action 0) (\<lambda>a.
     sbind (krt2_run_sync_operand rec m a sc) (\<lambda>m1 (c, r).
       if kis_fail r then sret m1 RK_NORMAL r
       else if c = RK_RERAISE then sret m1 RK_RERAISE r
       else if c = RK_BREAK \<or> c = RK_CONTINUE then sret m1 c r
       else sret m1 RK_NORMAL r))"

text \<open>The finalizers of a scope, the list in the order they run; each sees the reason the scope is left for,
  and their failures are composed onto it.\<close>

fun sync_finalizers :: "kapp_fn \<Rightarrow> run_ret \<Rightarrow> mach \<Rightarrow> kval list \<Rightarrow> reason \<Rightarrow> reason \<Rightarrow> nat option \<Rightarrow> reason sync" where
  "sync_finalizers app rec m [] origin acc sc = Some (Inr (m, S_RET acc))"
| "sync_finalizers app rec m (fin # fins) origin acc sc =
     slift (finalizer_action_for_reason app m fin origin) (\<lambda>(m1, act).
     sbind (krt2_run_sync_operand rec m1 act sc) (\<lambda>m2 (c, r).
     slift (krt2_sync_reason r c) (\<lambda>cr.
       sync_finalizers app rec m2 fins origin (compose_reason_into acc cr) sc)))"

definition sync_finalize :: "kapp_fn \<Rightarrow> run_ret \<Rightarrow> mach \<Rightarrow> kval list \<Rightarrow> reason \<Rightarrow> nat option \<Rightarrow> reason sync" where
  "sync_finalize app rec m fins origin sc =
     (let (m1, frame) = krt2i_mask_push m KMASK_MASKED in
      sbind (sync_finalizers app rec m1 fins origin origin sc) (\<lambda>m2 r.
        slift (krt2i_mask_pop m2 frame) (\<lambda>m3. Some (Inr (m3, S_RET r)))))"

definition sync_doscope :: "kapp_fn \<Rightarrow> run_ret \<Rightarrow> mach \<Rightarrow> kval \<Rightarrow> nat option \<Rightarrow> scont sync" where
  "sync_doscope app rec m action sc =
     (let (m1, xs) = exitstack_new m in
      slift (kctor_arg action 0) (\<lambda>a.
      sbind (krt2_run_sync_operand rec m1 a (Some xs)) (\<lambda>m2 (c, r).
      slift (krt2_sync_reason r c) (\<lambda>origin.
      slift (case xss m2 xs of None \<Rightarrow> kundef | Some items \<Rightarrow> Inr items) (\<lambda>items.
      sbind (sync_finalize app rec m2 (rev items) origin sc) (\<lambda>m3 reason.
      slift (krt2_sync_apply_reason reason) (\<lambda>(c1, v). sret m3 c1 v)))))))"

definition sync_defer :: "mach \<Rightarrow> kval \<Rightarrow> nat option \<Rightarrow> scont sync" where
  "sync_defer m action sc =
     (case sc of
        None \<Rightarrow> Some (Inl (''internal: defer outside any do-scope (mis-lowered '' @ [CHR 0xC2, CHR 0xA7] @ ''18.7 defer)''))
      | Some s \<Rightarrow>
          slift (kctor_arg action 0) (\<lambda>a. let (m1, fin) = abort_exit_scope_finalizer m a in
            slift (exitstack_push m1 s fin) (\<lambda>m2. sret m2 RK_NORMAL kunit)))"

definition sync_abort_exit_fin :: "run_ret \<Rightarrow> mach \<Rightarrow> kval \<Rightarrow> nat option \<Rightarrow> scont sync" where
  "sync_abort_exit_fin rec m action sc =
     slift (kctor_arg action 0) (\<lambda>t. slift (abort_exit_take m t) (\<lambda>(m1, a).
       case a of None \<Rightarrow> sret m1 RK_NORMAL kunit | Some x \<Rightarrow> krt2_run_sync_operand rec m1 x sc))"

text \<open>The safe point of the loop, when the counter has run down.\<close>

definition krt2_safepoint :: "mach \<Rightarrow> mach \<times> bool" where
  "krt2_safepoint m =
     (if pending m \<and> krt2i_mask_interruptible m then (m\<lparr>safepoint_hit := True\<rparr>, True) else (m, False))"

text \<open>What an iteration does once the body has run, \<open>again\<close> being the next iteration; and the iteration, with
  a bound on their number.\<close>

definition sync_loop_next :: "(mach \<Rightarrow> nat \<Rightarrow> scont sync) \<Rightarrow> nat \<Rightarrow> mach \<Rightarrow> scont \<Rightarrow> scont sync" where
  "sync_loop_next again spc m cr =
     (case cr of (c, r) \<Rightarrow>
       if kis_fail r then sret m RK_NORMAL r
       else if c = RK_BREAK then sret m RK_NORMAL kunit
       else let (m1, hit) = (if spc = 1 then krt2_safepoint m else (m, False));
                spc1 = (if spc = 1 then KRT2_SP_QUANTUM else spc - 1) in
         if hit then Some (Inr (m1, S_ABORT))
         else if c = RK_CONTINUE \<or> c = RK_NORMAL then again m1 spc1
         else sret m1 c r)"

fun sync_while :: "run_ret \<Rightarrow> nat \<Rightarrow> mach \<Rightarrow> kval \<Rightarrow> kval \<Rightarrow> nat \<Rightarrow> nat option \<Rightarrow> scont sync" where
  "sync_while rec 0 m cond body spc sc = None"
| "sync_while rec (Suc n) m cond body spc sc =
     sbind (krt2_run_sync_operand rec m cond sc) (\<lambda>m1 (c, b).
       if c \<noteq> RK_NORMAL then sret m1 c b
       else if kis_fail b then sret m1 RK_NORMAL b
       else slift (kas_bool b) (\<lambda>go.
         if \<not> go then sret m1 RK_NORMAL kunit
         else sbind (krt2_run_sync_operand rec m1 (krt2_doscope body) sc)
                (sync_loop_next (\<lambda>m2 spc1. sync_while rec n m2 cond body spc1 sc) spc)))"

definition sync_ref :: "mach \<Rightarrow> kval \<Rightarrow> int \<Rightarrow> scont sync" where
  "sync_ref m action p =
     slift (kctor_arg action 0) (\<lambda>a.
       if p = OP_NEW_REF then (let (m1, r) = kref_new m a in sret m1 RK_NORMAL r)
       else if p = OP_READ_REF then slift (kref_get m a) (\<lambda>v. sret m RK_NORMAL v)
       else slift (kctor_arg action 1) (\<lambda>v. slift (kref_set m a v) (\<lambda>m1. sret m1 RK_NORMAL kunit)))"

text \<open>The operation switch.\<close>

definition sync_op :: "kapp_fn \<Rightarrow> run_ret \<Rightarrow> nat \<Rightarrow> run_ret" where
  "sync_op app rec n m action sc =
     (let p = kctor_tagid action in
      if p = OP_PURE then slift (kctor_arg action 0) (\<lambda>v. sret m RK_NORMAL v)
      else if p = OP_BIND then sync_bind app rec m action sc
      else if p = OP_THEN then sync_then rec m action sc
      else if p = OP_CATCH then sync_catch app rec m action sc
      else if p = OP_THROW then slift (kctor_arg action 0) (\<lambda>e. sret m RK_NORMAL (KFail e))
      else if p = OP_PRINT then slift (kctor_arg action 0) (\<lambda>s. slift (emit_kstr m s False) (\<lambda>m1. sret m1 RK_NORMAL kunit))
      else if p = OP_PRINTLN then slift (kctor_arg action 0) (\<lambda>s. slift (emit_kstr m s True) (\<lambda>m1. sret m1 RK_NORMAL kunit))
      else if p = OP_RERAISE then sync_reraise m action
      else if p = OP_RETURN then slift (kctor_arg action 0) (\<lambda>v. sret m RK_RETURN v)
      else if p = OP_RETSCOPE then sync_retscope rec m action sc
      else if p = OP_DOSCOPE then sync_doscope app rec m action sc
      else if p = OP_DEFER then sync_defer m action sc
      else if p = OP_ABORT_EXIT_FIN then sync_abort_exit_fin rec m action sc
      else if p = OP_WHILE then
        slift (kctor_arg action 0) (\<lambda>c. slift (kctor_arg action 1) (\<lambda>b. sync_while rec n m c b KRT2_SP_QUANTUM sc))
      else if p = OP_BREAK then sret m RK_BREAK kunit
      else if p = OP_CONTINUE then sret m RK_CONTINUE kunit
      else if p \<in> {OP_NEW_REF, OP_READ_REF, OP_WRITE_REF} then sync_ref m action p
      else if \<not> kv_imm action \<and> p \<ge> KRT2_OP_BASE
        then Some (Inl ''internal: unsupported OP reached synchronous IO bridge; block must be CPS-lowered'')
      else sret m RK_NORMAL action)"

section \<open>Legacy actions\<close>

text \<open>A result that may be a reraise node.\<close>

definition sync_result :: "mach \<Rightarrow> kval \<Rightarrow> scont sync" where
  "sync_result m r =
     (if krt2_is_reraise_action r then slift (kctor_arg r 0) (\<lambda>c. sret m RK_RERAISE c) else sret m RK_NORMAL r)"

definition sync_io :: "fire \<Rightarrow> run_ret \<Rightarrow> run_io \<Rightarrow> mach \<Rightarrow> kval \<Rightarrow> nat option \<Rightarrow> scont sync" where
  "sync_io fire rec io m action sc =
     sbind (fire m action) (\<lambda>m1 r.
       if kv_imm r then (if kctor_tagid r < KRT2_OP_BASE then sret m1 RK_NORMAL r else rec m1 r sc)
       else case r of
          KIoTail a \<Rightarrow> rec m1 a sc
        | KIoEffect _ \<Rightarrow> sbind (io m1 r False []) (\<lambda>m2 rr. sync_result m2 rr)
        | KIoFinally _ _ \<Rightarrow> sbind (io m1 r False []) (\<lambda>m2 rr. sync_result m2 rr)
        | _ \<Rightarrow> sync_result m1 r)"

definition native_saturated :: "kval \<Rightarrow> bool" where
  "native_saturated v = (case v of KNative _ ar args _ _ _ \<Rightarrow> \<not> int (length args) < ar | _ \<Rightarrow> False)"

definition krt2_run_op_sync_body :: "fire \<Rightarrow> kapp_fn \<Rightarrow> run_ret \<Rightarrow> run_io \<Rightarrow> nat \<Rightarrow> run_ret" where
  "krt2_run_op_sync_body fire app rec io n m action sc =
     (if kv_imm action \<and> kctor_tagid action < KRT2_OP_BASE then sret m RK_NORMAL action
      else case action of
         KIoTail a \<Rightarrow> rec m a sc
       | KIo _ _ \<Rightarrow> sync_io fire rec io m action sc
       | KNative _ _ _ _ _ _ \<Rightarrow>
           if \<not> native_saturated action then Some (Inl ''internal: native action run before saturation'')
           else sbind (fire m action) (\<lambda>m1 r. sync_result m1 r)
       | KFail _ \<Rightarrow> sret m RK_NORMAL action
       | _ \<Rightarrow> sync_op app rec n m action sc)"

text \<open>\<open>krt2_run_op_sync\<close> and the finalizers of a legacy do-block, on top of an interpreter.\<close>

definition krt2_run_op_sync :: "run_ret \<Rightarrow> mach \<Rightarrow> kval \<Rightarrow> kval sync" where
  "krt2_run_op_sync rec m action =
     sbind (krt2_run_sync_operand rec m action None) (\<lambda>m1 (c, r).
       if c = RK_RETURN then Some (Inr (m1, S_RET (krt2_return r)))
       else if c = RK_RERAISE then slift (krt2_sync_reify_reason (RK_RERAISE, Some r)) (\<lambda>v. Some (Inr (m1, S_RET v)))
       else if c = RK_BREAK \<or> c = RK_CONTINUE then Some (Inl ''internal: loop control escaped synchronous IO bridge'')
       else Some (Inr (m1, S_RET r)))"

definition krt2_run_legacy_finalizers :: "kapp_fn \<Rightarrow> run_ret \<Rightarrow> mach \<Rightarrow> kval \<Rightarrow> kval list \<Rightarrow> kval sync" where
  "krt2_run_legacy_finalizers app rec m primary defers =
     slift (krt2_sync_reason primary RK_NORMAL) (\<lambda>origin.
     sbind (sync_finalize app rec m (rev defers) origin None) (\<lambda>m1 r.
     slift (krt2_sync_reify_reason r) (\<lambda>v. Some (Inr (m1, S_RET v)))))"

fun krun_finish :: "kapp_fn \<Rightarrow> run_ret \<Rightarrow> mach \<Rightarrow> kval \<Rightarrow> bool \<Rightarrow> kval list list \<Rightarrow> kval sync" where
  "krun_finish app rec m v discard [] =
     Some (Inr (m, S_RET (if kis_fail v then v else if krt2_is_reraise_action v then v else if discard then kunit else v)))"
| "krun_finish app rec m v discard (ds # dfs) =
     sbind (krt2_run_legacy_finalizers app rec m v ds) (\<lambda>m1 r. krun_finish app rec m1 r discard dfs)"

definition krun_io_body :: "fire \<Rightarrow> kapp_fn \<Rightarrow> run_ret \<Rightarrow> run_io \<Rightarrow> run_io" where
  "krun_io_body fire app rec io m action discard defers =
     (if kv_imm action then krun_finish app rec m action discard defers
      else case action of
         KIoTail a \<Rightarrow> io m a discard defers
       | KIoEffect a \<Rightarrow> io m a True defers
       | KIoFinally a ds \<Rightarrow> io m a discard (ds # defers)
       | KIo _ _ \<Rightarrow>
           sbind (fire m action) (\<lambda>m1 r.
             if kv_imm r then krun_finish app rec m1 r discard defers
             else case r of
                KIoTail a \<Rightarrow> io m1 a discard defers
              | KIoEffect a \<Rightarrow> io m1 a True defers
              | KIoFinally a ds \<Rightarrow> io m1 a discard (ds # defers)
              | _ \<Rightarrow> krun_finish app rec m1 r discard defers)
       | KNative _ _ _ _ _ _ \<Rightarrow>
           if \<not> native_saturated action then Some (Inl ''internal: native action run before saturation'')
           else sbind (fire m action) (\<lambda>m1 r. krun_finish app rec m1 r discard defers)
       | _ \<Rightarrow> sbind (krt2_run_op_sync rec m action) (\<lambda>m1 r. krun_finish app rec m1 r discard defers))"

text \<open>The two interpreters, by fuel.\<close>

fun sync_pair :: "fire \<Rightarrow> kapp_fn \<Rightarrow> nat \<Rightarrow> run_ret \<times> run_io" where
  "sync_pair fire app 0 = (\<lambda>_ _ _. None, \<lambda>_ _ _ _. None)"
| "sync_pair fire app (Suc n) =
     (let (rec, io) = sync_pair fire app n in
      (krt2_run_op_sync_body fire app rec io n, krun_io_body fire app rec io))"

definition krt2_run_op_sync_ret :: "fire \<Rightarrow> kapp_fn \<Rightarrow> nat \<Rightarrow> run_ret" where
  "krt2_run_op_sync_ret fire app n = prod.fst (sync_pair fire app n)"

definition krun_io :: "fire \<Rightarrow> kapp_fn \<Rightarrow> nat \<Rightarrow> run_io" where
  "krun_io fire app n = prod.snd (sync_pair fire app n)"

lemma krt2_run_op_sync_ret_simps [simp]:
  "krt2_run_op_sync_ret fire app 0 = (\<lambda>_ _ _. None)"
  "krt2_run_op_sync_ret fire app (Suc n) = krt2_run_op_sync_body fire app (krt2_run_op_sync_ret fire app n) (krun_io fire app n) n"
  by (simp_all add: krt2_run_op_sync_ret_def krun_io_def split_beta)

lemma krun_io_simps [simp]:
  "krun_io fire app 0 = (\<lambda>_ _ _ _. None)"
  "krun_io fire app (Suc n) = krun_io_body fire app (krt2_run_op_sync_ret fire app n) (krun_io fire app n)"
  by (simp_all add: krt2_run_op_sync_ret_def krun_io_def split_beta)

section \<open>Entry points\<close>

text \<open>\<open>krun_io\<close> as generated code calls it, and the builtins it calls; \<open>run\<close> is \<open>krun_io\<close>.\<close>

type_synonym run_fn = "mach \<Rightarrow> kval \<Rightarrow> kval sync"

definition krun_io_start :: "fire \<Rightarrow> kapp_fn \<Rightarrow> nat \<Rightarrow> run_fn" where
  "krun_io_start fire app n m action = krun_io fire app n m action False []"

definition krun_io_checked :: "run_fn \<Rightarrow> run_fn" where
  "krun_io_checked run m action = sbind (run m action) (\<lambda>m1 r.
     if kis_fail r then Some (Inl ''krun_io_checked: uncaught typed IO failure'') else Some (Inr (m1, S_RET r)))"

definition sret1 :: "mach \<Rightarrow> 'a \<Rightarrow> 'a sync" where
  "sret1 m v = Some (Inr (m, S_RET v))"

definition kpf_io_printString :: "mach \<Rightarrow> kval \<Rightarrow> kval sync" where
  "kpf_io_printString m s =
     (case s of KImm _ \<Rightarrow> Some kundef
      | KStr bs \<Rightarrow> sret1 (m\<lparr>out := out m @ bs\<rparr>) kunit
      | _ \<Rightarrow> Some (Inl ''printString: argument is not a String''))"

definition kpf_io_printlnString :: "mach \<Rightarrow> kval \<Rightarrow> kval sync" where
  "kpf_io_printlnString m s =
     (case s of KImm _ \<Rightarrow> Some kundef
      | KStr bs \<Rightarrow> sret1 (m\<lparr>out := out m @ bs @ [10]\<rparr>) kunit
      | _ \<Rightarrow> Some (Inl ''printlnString: argument is not a String''))"

definition kpf_io_ioPure :: "mach \<Rightarrow> kval \<Rightarrow> kval sync" where
  "kpf_io_ioPure m v = sret1 m v"

definition kpf_io_ioBind :: "kapp_fn \<Rightarrow> run_fn \<Rightarrow> mach \<Rightarrow> kval \<Rightarrow> kval \<Rightarrow> kval sync" where
  "kpf_io_ioBind app run m a k =
     sbind (run m a) (\<lambda>m1 r.
       if kis_fail r then sret1 m1 r
       else if krt2_is_reraise_action r then sret1 m1 r
       else slift (kapp_rt app m1 k r) (\<lambda>(m2, b). run m2 b))"

definition kpf_io_ioThen :: "run_fn \<Rightarrow> mach \<Rightarrow> kval \<Rightarrow> kval \<Rightarrow> kval sync" where
  "kpf_io_ioThen run m a b =
     sbind (run m a) (\<lambda>m1 r.
       if kis_fail r then sret1 m1 r
       else if krt2_is_reraise_action r then sret1 m1 r
       else run m1 b)"

definition kpf_io_throwIO :: "mach \<Rightarrow> kval \<Rightarrow> kval sync" where
  "kpf_io_throwIO m e = sret1 m (KFail e)"

definition kpf_io_catchIO :: "kapp_fn \<Rightarrow> run_fn \<Rightarrow> mach \<Rightarrow> kval \<Rightarrow> kval \<Rightarrow> kval sync" where
  "kpf_io_catchIO app run m a h =
     sbind (run m a) (\<lambda>m1 r.
       if krt2_is_reraise_action r then sret1 m1 r
       else case r of
          KFail e \<Rightarrow> slift (kapp_rt app m1 h e) (\<lambda>(m2, b). run m2 b)
        | _ \<Rightarrow> sret1 m1 r)"

definition kpf_io_finallyIO :: "run_ret \<Rightarrow> mach \<Rightarrow> kval \<Rightarrow> kval \<Rightarrow> kval sync" where
  "kpf_io_finallyIO rec m body fin = krt2_run_op_sync rec m (krt2_finally body fin)"

text \<open>References; \<open>kpf_io_newTVar\<close>, \<open>kpf_io_readTVar\<close> and \<open>kpf_io_writeTVar\<close> are the same functions, and
  \<open>kpf_io_atomically\<close> is \<open>krun_io\<close>: there is no other agent.\<close>

definition kpf_io_newRef :: "mach \<Rightarrow> kval \<Rightarrow> kval sync" where
  "kpf_io_newRef m v = (let (m1, r) = kref_new m v in sret1 m1 r)"

definition kpf_io_readRef :: "mach \<Rightarrow> kval \<Rightarrow> kval sync" where
  "kpf_io_readRef m r = slift (kref_get m r) (\<lambda>v. sret1 m v)"

definition kpf_io_writeRef :: "mach \<Rightarrow> kval \<Rightarrow> kval \<Rightarrow> kval sync" where
  "kpf_io_writeRef m r v = slift (kref_set m r v) (\<lambda>m1. sret1 m1 kunit)"

definition kpf_io_atomically :: "run_fn \<Rightarrow> run_fn" where
  "kpf_io_atomically run m a = run m a"

definition kpf_io_retry :: "mach \<Rightarrow> kval sync" where
  "kpf_io_retry m = Some (Inl (''STM retry: the single-agent native runtime has no concurrent writer '' @
     ''to wake a blocked transaction (needs the kappart2 scheduler)''))"

definition kpf_io_check :: "mach \<Rightarrow> kval \<Rightarrow> kval sync" where
  "kpf_io_check m b = slift (kas_bool b) (\<lambda>t. if t then sret1 m kunit else kpf_io_retry m)"

text \<open>The stepping loop at a legacy action: the bridge runs it, and its result, or the abort at a safe
  point, goes back to the machine. \<open>blocking\<close> is whether it runs on the blocking lane.\<close>

definition run_legacy :: "fire \<Rightarrow> kapp_fn \<Rightarrow> nat \<Rightarrow> mach \<Rightarrow> bool \<Rightarrow> mres option" where
  "run_legacy fire app n m blocking =
     (case krun_io_start fire app n m (cur m) of
        None \<Rightarrow> None
      | Some (Inl e) \<Rightarrow> Some (Inl e)
      | Some (Inr (m1, S_ABORT)) \<Rightarrow> Some (scalar_abort m1)
      | Some (Inr (m1, S_RET r)) \<Rightarrow> Some (bridge_return m1 blocking r))"

end
