(* ===== verification/Kappa_SyncProps.thy ===== *)
theory Kappa_SyncProps
  imports Kappa_Sync Kappa_Steps
begin

text \<open>
  The synchronous bridge against the CK-machine. On the actions that both can run (values, \<open>pure\<close>,
  \<open>bind\<close>, \<open>then\<close>, \<open>catch\<close>, \<open>throw\<close>, \<open>reraise\<close>, \<open>return\<close> and its scope, loops, references, output, and
  do-scopes without exit actions; \<open>bridged\<close>), a run of the bridge that returns is a run of the machine
  that ends the same way, with the same references and output. The actions on which the two differ are
  at the end.
\<close>

lemma slift_Inr [simp]: "slift (Inr x) f = f x" "slift (Inl e) f = Some (Inl e)"
  by (simp_all add: slift_def)

section \<open>The common actions\<close>

text \<open>A value that neither interpreter takes for an action or a failure.\<close>

definition datum :: "kval \<Rightarrow> bool" where
  "datum v \<longleftrightarrow> \<not> kis_fail v \<and> \<not> krt2_is_reraise_action v"

definition legacy :: "kval \<Rightarrow> bool" where
  "legacy v = (case v of KIo _ _ \<Rightarrow> True | KIoTail _ \<Rightarrow> True | KIoEffect _ \<Rightarrow> True | KIoFinally _ _ \<Rightarrow> True
     | KBounce _ _ \<Rightarrow> True | KNative _ _ _ _ _ _ \<Rightarrow> True | KFail _ \<Rightarrow> True | _ \<Rightarrow> False)"

definition plain :: "kval \<Rightarrow> bool" where
  "plain v \<longleftrightarrow> kctor_tagid v < KRT2_OP_BASE \<and> kctor_tagid v \<noteq> KCT_EFFPURE \<and> kctor_tagid v \<noteq> KCT_EFFOP \<and> \<not> legacy v"

text \<open>Whether a \<open>break\<close> or \<open>continue\<close> may leave the action; a loop condition may not be left so.\<close>

datatype lctl = L_LOOP | L_NONE

coinductive bridged :: "kapp_fn \<Rightarrow> lctl \<Rightarrow> kval \<Rightarrow> bool" for app where
  b_plain: "plain v \<Longrightarrow> bridged app l v"
| b_pure: "datum v \<Longrightarrow> bridged app l (krt2_pure v)"
| b_bind: "bridged app l a \<Longrightarrow> (\<forall>v. (\<exists>e. \<forall>m. kapp_rt app m k v = Inl e) \<or> (\<exists>b. (\<forall>m. kapp_rt app m k v = Inr (m, b)) \<and> bridged app l b)) \<Longrightarrow>
    bridged app l (krt2_bind a k)"
| b_then: "bridged app l a \<Longrightarrow> bridged app l b \<Longrightarrow> bridged app l (krt2_then a b)"
| b_catch: "bridged app l a \<Longrightarrow> (\<forall>v. (\<exists>e. \<forall>m. kapp_rt app m h v = Inl e) \<or> (\<exists>b. (\<forall>m. kapp_rt app m h v = Inr (m, b)) \<and> bridged app l b)) \<Longrightarrow>
    bridged app l (krt2_catch a h)"
| b_throw: "bridged app l (krt2_throw e)"
| b_reraise: "\<not> (kv_imm c \<and> kctor_tagid c = KCT_FAIL) \<Longrightarrow> \<not> kis_fail c \<Longrightarrow> bridged app l (krt2_reraise c)"
| b_return: "datum v \<Longrightarrow> bridged app l (krt2_return v)"
| b_retscope: "bridged app l a \<Longrightarrow> bridged app l (krt2_retscope a)"
| b_doscope: "bridged app l a \<Longrightarrow> bridged app l (krt2_doscope a)"
| b_while: "bridged app L_NONE c \<Longrightarrow> bridged app L_LOOP b \<Longrightarrow> bridged app l (krt2_while c b)"
| b_break: "bridged app L_LOOP krt2_break"
| b_continue: "bridged app L_LOOP krt2_continue"
| b_read: "bridged app l (krt2_read_ref r)"
| b_write: "datum v \<Longrightarrow> bridged app l (krt2_write_ref r v)"

section \<open>Runs of the machine\<close>

text \<open>Turns, with the scheduler resuming a fiber that yielded at a loop back edge.\<close>

inductive mturns :: "kapp_fn \<Rightarrow> gmp \<Rightarrow> mach \<Rightarrow> ctl \<Rightarrow> mach \<Rightarrow> ctl \<Rightarrow> bool" for app G where
  t_refl: "mturns app G m c m c"
| t_step: "mstep app G m c = Inr (m1, c1) \<Longrightarrow> mturns app G m1 c1 m' c' \<Longrightarrow> mturns app G m c m' c'"
| t_yield: "mturns app G (fiber_step_begin m) C_STEP m' c' \<Longrightarrow> mturns app G m (C_STOP M_YIELD) m' c'"

lemma t_trans: "mturns app G m c m1 c1 \<Longrightarrow> mturns app G m1 c1 m' c' \<Longrightarrow> mturns app G m c m' c'"
  by (induction rule: mturns.induct) (auto intro: mturns.intros)

lemma t_snoc: "mturns app G m c m1 c1 \<Longrightarrow> mstep app G m1 c1 = Inr (m', c') \<Longrightarrow> mturns app G m c m' c'"
  by (erule t_trans) (erule t_step, rule t_refl)

text \<open>How the outcome of the bridge and the state the machine comes to correspond.\<close>

inductive ends_as :: "lctl \<Rightarrow> rkind \<Rightarrow> kval \<Rightarrow> ctl \<Rightarrow> bool" where
  d_value: "datum v \<Longrightarrow> ends_as l RK_NORMAL v (C_DELIVER v)"
| d_fail: "ends_as l RK_NORMAL (KFail e) (C_UNWIND RK_FAIL (Some e))"
| d_fail_cause: "kctor_tagid q = KCT_FAIL \<Longrightarrow> kctor_arg q 0 = Inr e \<Longrightarrow> ends_as l RK_NORMAL (KFail e) (C_UNWIND RK_RERAISE (Some q))"
| d_return: "datum v \<Longrightarrow> ends_as l RK_RETURN v (C_UNWIND RK_RETURN (Some v))"
| d_reraise: "kctor_tagid q \<noteq> KCT_FAIL \<Longrightarrow> \<not> kis_fail q \<Longrightarrow> ends_as l RK_RERAISE q (C_UNWIND RK_RERAISE (Some q))"
| d_break: "ends_as L_LOOP RK_BREAK kunit (C_UNWIND RK_BREAK None)"
| d_continue: "ends_as L_LOOP RK_CONTINUE kunit (C_UNWIND RK_CONTINUE None)"

text \<open>What the fiber's heap and output hold on both sides.\<close>

definition same_data :: "mach \<Rightarrow> mach \<Rightarrow> bool" where
  "same_data m x \<longleftrightarrow> refs m = refs x \<and> out m = out x \<and> (\<forall>a v. refs m a = Some v \<longrightarrow> datum v)"

definition bok :: "mach \<Rightarrow> bool" where
  "bok m \<longleftrightarrow> \<not> pending m \<and> (\<forall>i\<ge>brk m. xss m i = None)"

definition mok :: "mach \<Rightarrow> bool" where
  "mok x \<longleftrightarrow> \<not> pending x \<and> kont x < brk x \<and> (\<forall>i\<ge>brk x. conts x i = None \<and> xss x i = None)"

definition bafter :: "mach \<Rightarrow> mach \<Rightarrow> bool" where
  "bafter m m' \<longleftrightarrow> bok m' \<and> brk m \<le> brk m' \<and> (\<forall>i<brk m. xss m' i = xss m i)"

definition keeps :: "mach \<Rightarrow> mach \<Rightarrow> bool" where
  "keeps x x' \<longleftrightarrow> mok x' \<and> brk x \<le> brk x' \<and> cur_exits x' = cur_exits x \<and>
     (\<forall>i<brk x. conts x' i = conts x i \<and> xss x' i = xss x i)"

text \<open>The machine, from state \<open>s\<close> with control \<open>c0\<close>, does what the bridge did from \<open>m\<close> with the result
  \<open>res\<close>; compared with \<open>x\<close> it leaves the frames from \<open>k\<close> on as they are.\<close>

definition agrees :: "kapp_fn \<Rightarrow> gmp \<Rightarrow> lctl \<Rightarrow> nat \<Rightarrow> mach \<Rightarrow> mach \<Rightarrow> mach \<Rightarrow> ctl \<Rightarrow> scont sync \<Rightarrow> bool" where
  "agrees app G l k m x s c0 res \<longleftrightarrow>
     (case res of
        None \<Rightarrow> True
      | Some (Inl e) \<Rightarrow> True
      | Some (Inr (m', S_ABORT)) \<Rightarrow> False
      | Some (Inr (m', S_RET (c, r))) \<Rightarrow>
          bafter m m' \<and> (\<exists>x' o'. mturns app G s c0 x' o' \<and> ends_as l c r o' \<and> keeps x x' \<and> kont x' = k \<and> same_data m' x'))"

definition sim_run :: "kapp_fn \<Rightarrow> gmp \<Rightarrow> run_ret \<Rightarrow> bool" where
  "sim_run app G rec \<longleftrightarrow>
     (\<forall>l a m x sc. bridged app l a \<longrightarrow> bok m \<longrightarrow> mok x \<longrightarrow> same_data m x \<longrightarrow>
        agrees app G l (kont x) m x (x\<lparr>cur := a\<rparr>) C_STEP (rec m a sc))"

lemma sim_runD:
  "sim_run app G rec \<Longrightarrow> bridged app l a \<Longrightarrow> bok m \<Longrightarrow> mok x \<Longrightarrow> same_data m x \<Longrightarrow>
   agrees app G l (kont x) m x (x\<lparr>cur := a\<rparr>) C_STEP (rec m a sc)"
  by (simp add: sim_run_def)

lemma bafter_refl: "bok m \<Longrightarrow> bafter m m"
  by (simp add: bafter_def)

lemma bafter_trans: "bafter m m1 \<Longrightarrow> bafter m1 m2 \<Longrightarrow> bafter m m2"
  by (auto simp: bafter_def)

lemma keeps_refl: "mok x \<Longrightarrow> keeps x x"
  by (simp add: keeps_def)

lemma keeps_trans: "keeps x x1 \<Longrightarrow> keeps x1 x2 \<Longrightarrow> keeps x x2"
  by (auto simp: keeps_def)

lemma agrees_cases:
  obtains (err) "res = None \<or> (\<exists>e. res = Some (Inl e))" | (abort) m' where "res = Some (Inr (m', S_ABORT))"
    | (ret) m' c r where "res = Some (Inr (m', S_RET (c, r)))"
  by (cases res; cases "the res"; cases "prod.snd (projr (the res))") auto

lemma agrees_turns: "mturns app G s c0 s1 c1 \<Longrightarrow> agrees app G l k m x s1 c1 res \<Longrightarrow> agrees app G l k m x s c0 res"
  by (cases rule: agrees_cases[of res]) (auto simp: agrees_def intro: t_trans)

lemma agrees_step: "mstep app G s c0 = Inr (s1, c1) \<Longrightarrow> agrees app G l k m x s1 c1 res \<Longrightarrow> agrees app G l k m x s c0 res"
  by (erule agrees_turns[OF t_step[OF _ t_refl]])

lemma agrees_rebase:
  "agrees app G l k m1 x1 s c0 res \<Longrightarrow> bafter m m1 \<Longrightarrow> keeps x x1 \<Longrightarrow> agrees app G l k m x s c0 res"
  by (cases rule: agrees_cases[of res]) (auto simp: agrees_def intro: bafter_trans keeps_trans)

lemma agrees_end:
  "ends_as l c r c0 \<Longrightarrow> bafter m m' \<Longrightarrow> keeps x s \<Longrightarrow> kont s = k \<Longrightarrow> same_data m' s \<Longrightarrow> agrees app G l k m x s c0 (sret m' c r)"
  by (auto simp: agrees_def sret_def intro: t_refl)

lemma agrees_bind:
  assumes "agrees app G l1 k1 m x1 s c0 r1"
    and "\<And>m1 c r x2 c2. bafter m m1 \<Longrightarrow> ends_as l1 c r c2 \<Longrightarrow> keeps x1 x2 \<Longrightarrow> kont x2 = k1 \<Longrightarrow> same_data m1 x2 \<Longrightarrow>
       agrees app G l k m x x2 c2 (f m1 (c, r))"
  shows "agrees app G l k m x s c0 (sbind r1 f)"
proof (cases "\<exists>m1 c r. r1 = Some (Inr (m1, S_RET (c, r)))")
  case True
  then obtain m1 c r x2 c2 where r: "r1 = Some (Inr (m1, S_RET (c, r)))" "bafter m m1" "mturns app G s c0 x2 c2"
    "ends_as l1 c r c2" "keeps x1 x2" "kont x2 = k1" "same_data m1 x2"
    using assms(1) by (auto simp: agrees_def)
  show ?thesis using agrees_turns[OF r(3) assms(2)[OF r(2,4-7)]] r(1) by (simp add: sbind_def)
next
  case False
  then show ?thesis using assms(1) by (auto simp: agrees_def sbind_def split: option.splits sum.splits sout.splits)
qed

lemma agrees_slift: "(\<And>v. r = Inr v \<Longrightarrow> agrees app G l k m x s c0 (f v)) \<Longrightarrow> agrees app G l k m x s c0 (slift r f)"
  by (cases r) (simp_all add: slift_def agrees_def)

section \<open>Nodes\<close>

lemma legacy_kctor [simp]: "int32 t \<Longrightarrow> \<not> legacy (kctor t n args)"
  by (cases rule: kctor_cases[of t args n]) (simp_all add: legacy_def)

lemma fail_kctor [simp]: "int32 t \<Longrightarrow> \<not> kis_fail (kctor t n args)"
  by (cases rule: kctor_cases[of t args n]) simp_all

lemma body_op:
  assumes "\<not> legacy a" "KRT2_OP_BASE \<le> kctor_tagid a"
  shows "krt2_run_op_sync_body fire app rec io n m a sc = sync_op app rec n m a sc"
  using assms by (cases a) (simp_all add: krt2_run_op_sync_body_def legacy_def)

lemma body_plain: "plain v \<Longrightarrow> krt2_run_op_sync_body fire app rec io n m v sc = sret m RK_NORMAL v"
  by (cases v) (auto simp: krt2_run_op_sync_body_def sync_op_def plain_def legacy_def Let_def)

lemma operand_plain: "plain v \<Longrightarrow> krt2_run_sync_operand rec m v sc = (if kv_imm v then sret m RK_NORMAL v else rec m v sc)"
  by (simp add: krt2_run_sync_operand_def plain_def)

lemma operand_op: "KRT2_OP_BASE \<le> kctor_tagid a \<Longrightarrow> krt2_run_sync_operand rec m a sc = rec m a sc"
  by (simp add: krt2_run_sync_operand_def)

lemma op_tags [simp]:
  "kctor_tagid (krt2_pure v) = OP_PURE" "kctor_tagid (krt2_bind a k) = OP_BIND" "kctor_tagid (krt2_then a b) = OP_THEN"
  "kctor_tagid (krt2_catch a k) = OP_CATCH" "kctor_tagid (krt2_throw v) = OP_THROW" "kctor_tagid (krt2_reraise v) = OP_RERAISE"
  "kctor_tagid (krt2_return v) = OP_RETURN" "kctor_tagid (krt2_retscope a) = OP_RETSCOPE" "kctor_tagid (krt2_doscope a) = OP_DOSCOPE"
  "kctor_tagid (krt2_while a b) = OP_WHILE" "kctor_tagid krt2_break = OP_BREAK" "kctor_tagid krt2_continue = OP_CONTINUE"
  "kctor_tagid (krt2_read_ref v) = OP_READ_REF" "kctor_tagid (krt2_write_ref v x) = OP_WRITE_REF"
  by (simp_all add: builder_defs op_defs)

lemma unit_not_fail [simp]: "\<not> kis_fail kunit"
  by (simp add: kunit_def kctor0_kctor)

lemma node_datum [simp]: "datum kunit"
  by (simp add: datum_def krt2_is_reraise_action_def kunit_def kctor0_kctor)

definition sync_scoped :: "kapp_fn \<Rightarrow> run_ret \<Rightarrow> mach \<Rightarrow> nat \<Rightarrow> rkind \<Rightarrow> kval \<Rightarrow> nat option \<Rightarrow> scont sync" where
  "sync_scoped app rec m2 xs c r sc =
     slift (krt2_sync_reason r c) (\<lambda>origin.
      slift (case xss m2 xs of None \<Rightarrow> kundef | Some items \<Rightarrow> Inr items) (\<lambda>items.
      sbind (sync_finalize app rec m2 (rev items) origin sc) (\<lambda>m3 reason.
      slift (krt2_sync_apply_reason reason) (\<lambda>(c1, v). sret m3 c1 v))))"


lemma sync_nodes:
  "krt2_run_op_sync_body fire app rec io n m (krt2_pure v) sc = sret m RK_NORMAL v"
  "krt2_run_op_sync_body fire app rec io n m (krt2_bind a k) sc =
     sbind (krt2_run_sync_operand rec m a sc) (\<lambda>m1 (c, r).
       if c \<noteq> RK_NORMAL then sret m1 c r else if kis_fail r then sret m1 RK_NORMAL r
       else slift (kapp_rt app m1 k r) (\<lambda>(m2, b). rec m2 b sc))"
  "krt2_run_op_sync_body fire app rec io n m (krt2_then a b) sc =
     sbind (krt2_run_sync_operand rec m a sc) (\<lambda>m1 (c, r).
       if c \<noteq> RK_NORMAL then sret m1 c r else if kis_fail r then sret m1 RK_NORMAL r else rec m1 b sc)"
  "krt2_run_op_sync_body fire app rec io n m (krt2_catch a h) sc =
     sbind (krt2_run_sync_operand rec m a sc) (\<lambda>m1 (c, r).
       if c \<noteq> RK_NORMAL then sret m1 c r
       else case r of KFail e \<Rightarrow> slift (kapp_rt app m1 h e) (\<lambda>(m2, b). rec m2 b sc) | _ \<Rightarrow> sret m1 RK_NORMAL r)"
  "krt2_run_op_sync_body fire app rec io n m (krt2_throw v) sc = sret m RK_NORMAL (KFail v)"
  "krt2_run_op_sync_body fire app rec io n m (krt2_reraise v) sc =
     (if \<not> kv_imm v \<and> kctor_tagid v = KCT_FAIL then slift (kctor_arg v 0) (\<lambda>e. sret m RK_NORMAL (KFail e)) else sret m RK_RERAISE v)"
  "krt2_run_op_sync_body fire app rec io n m (krt2_return v) sc = sret m RK_RETURN v"
  "krt2_run_op_sync_body fire app rec io n m (krt2_retscope a) sc =
     sbind (krt2_run_sync_operand rec m a sc) (\<lambda>m1 (c, r).
       if kis_fail r then sret m1 RK_NORMAL r else if c = RK_RERAISE then sret m1 RK_RERAISE r
       else if c = RK_BREAK \<or> c = RK_CONTINUE then sret m1 c r else sret m1 RK_NORMAL r)"
  "krt2_run_op_sync_body fire app rec io n m (krt2_doscope a) sc =
     (let (m1, xs) = exitstack_new m in
      sbind (krt2_run_sync_operand rec m1 a (Some xs)) (\<lambda>m2 (c, r). sync_scoped app rec m2 xs c r sc))"
  "krt2_run_op_sync_body fire app rec io n m (krt2_while a b) sc = sync_while rec n m a b KRT2_SP_QUANTUM sc"
  "krt2_run_op_sync_body fire app rec io n m krt2_break sc = sret m RK_BREAK kunit"
  "krt2_run_op_sync_body fire app rec io n m krt2_continue sc = sret m RK_CONTINUE kunit"
  "krt2_run_op_sync_body fire app rec io n m (krt2_read_ref v) sc = slift (kref_get m v) (\<lambda>x. sret m RK_NORMAL x)"
  "krt2_run_op_sync_body fire app rec io n m (krt2_write_ref v x) sc = slift (kref_set m v x) (\<lambda>m1. sret m1 RK_NORMAL kunit)"
  by (subst body_op; simp add: builder_defs op_defs sync_op_def Let_def sync_bind_def sync_then_def sync_catch_def
      sync_reraise_def sync_retscope_def sync_doscope_def sync_ref_def kctor0_kctor sync_scoped_def split_beta
      cong: if_cong kval.case_cong)+

lemma more_nodes:
  "cur m = krt2_retscope a \<Longrightarrow> step_op app G m = step_cur (push_k m KK_RETSCOPE) a"
  "cur m = krt2_break \<Longrightarrow> step_op app G m = Inr (m, C_UNWIND RK_BREAK None)"
  "cur m = krt2_continue \<Longrightarrow> step_op app G m = Inr (m, C_UNWIND RK_CONTINUE None)"
  "cur m = krt2_while a b \<Longrightarrow> step_op app G m = (let iterate = krt2_bind a (KClo CLoopBranch [b]) in step_cur (push_k m (KK_LOOP iterate)) iterate)"
  "cur m = krt2_read_ref v \<Longrightarrow> step_op app G m = kbind (kref_get m v) (\<lambda>x. Inr (m, C_DELIVER x))"
  "cur m = krt2_write_ref v x \<Longrightarrow> step_op app G m = kbind (kref_set m v x) (\<lambda>m1. Inr (m1, C_DELIVER kunit))"
  by (simp_all add: step_op_def builder_defs op_defs sched_op_def op_while_def op_ref_def Let_def kctor0_kctor kpush_def)

lemma plain_step: "cur m = v \<Longrightarrow> plain v \<Longrightarrow> step_op app G m = Inr (m, C_DELIVER v)"
  by (cases v) (auto simp: step_op_def plain_def step_other_def legacy_def sched_op_def Let_def)

section \<open>Frames\<close>

lemma view_upd [simp]:
  "mok (x\<lparr>cur := a\<rparr>) = mok x" "mok (x\<lparr>resumed := b\<rparr>) = mok x" "mok (x\<lparr>safepoint_hit := b\<rparr>) = mok x" "mok (x\<lparr>budget := n\<rparr>) = mok x"
  "keeps (x\<lparr>cur := a\<rparr>) y = keeps x y" "keeps (x\<lparr>resumed := b\<rparr>) y = keeps x y" "keeps (x\<lparr>safepoint_hit := b\<rparr>) y = keeps x y"
  "keeps (x\<lparr>budget := n\<rparr>) y = keeps x y"
  "keeps x (y\<lparr>cur := a\<rparr>) = keeps x y" "keeps x (y\<lparr>resumed := b\<rparr>) = keeps x y" "keeps x (y\<lparr>safepoint_hit := b\<rparr>) = keeps x y"
  "keeps x (y\<lparr>budget := n\<rparr>) = keeps x y"
  "same_data m (x\<lparr>cur := a\<rparr>) = same_data m x" "same_data m (x\<lparr>resumed := b\<rparr>) = same_data m x"
  "same_data m (x\<lparr>safepoint_hit := b\<rparr>) = same_data m x" "same_data m (x\<lparr>budget := n\<rparr>) = same_data m x"
  "same_data m (x\<lparr>kont := n\<rparr>) = same_data m x" "same_data m (push_k x fr) = same_data m x"
  by (simp_all add: mok_def keeps_def same_data_def push_k_def cont_new_def)

lemma keeps_below: "keeps x (y\<lparr>cur := a, resumed := b, safepoint_hit := c, kont := n\<rparr>) = keeps x (y\<lparr>kont := n\<rparr>)"
  by (simp add: keeps_def mok_def)

lemma push_mok: "mok x \<Longrightarrow> mok (push_k x fr)"
  by (auto simp: mok_def push_k_def cont_new_def)

lemma start:
  assumes "mok x" and x1: "step_op app G (x\<lparr>cur := a, resumed := False, safepoint_hit := False\<rparr>) = Inr (x1, c1)"
    and "agrees app G l k m x x1 c1 res"
  shows "agrees app G l k m x (x\<lparr>cur := a\<rparr>) C_STEP res"
  using assms by (intro agrees_step[OF _ assms(3)]) (simp add: turn_gate mok_def)

lemma pop_frame:
  assumes "mok x" "keeps (push_k x fr) x2" "kont x2 = kont (push_k x fr)"
  shows "conts x2 (kont x2) = Some (fr, kont x)" "keeps x (x2\<lparr>kont := kont x\<rparr>)"
proof -
  have k: "kont (push_k x fr) = brk x" "conts (push_k x fr) (brk x) = Some (fr, kont x)"
    "\<And>i. i < brk x \<Longrightarrow> conts (push_k x fr) i = conts x i" "cur_exits (push_k x fr) = cur_exits x"
    by (simp_all add: push_k_def cont_new_def)
  show "conts x2 (kont x2) = Some (fr, kont x)" using assms k by (simp add: keeps_def)
  show "keeps x (x2\<lparr>kont := kont x\<rparr>)" using assms k by (auto simp: keeps_def mok_def)
qed

text \<open>Running an operand under a frame.\<close>

lemma run_operand:
  assumes "sim_run app G rec" "bridged app l a" "bok m" "mok x" "same_data m x"
  shows "agrees app G l (kont x) m x (x\<lparr>cur := a\<rparr>) C_STEP (krt2_run_sync_operand rec m a sc)"
proof (cases "kv_imm a \<and> kctor_tagid a < KRT2_OP_BASE")
  case True
  have "plain a" using assms(2) True by (cases rule: bridged.cases) auto
  moreover have "datum a" using \<open>plain a\<close> by (cases a) (auto simp: plain_def datum_def krt2_is_reraise_action_def legacy_def)
  ultimately show ?thesis using assms True
    by (auto simp: krt2_run_sync_operand_def plain_step intro!: start agrees_end d_value bafter_refl keeps_refl)
next
  case False
  then show ?thesis using assms by (auto simp: krt2_run_sync_operand_def sim_run_def)
qed

lemma under_frame:
  assumes rec: "sim_run app G rec" "bridged app l a" "bok m" "mok x" "same_data m x"
    and node: "\<And>y. cur y = nd \<Longrightarrow> step_op app G y = step_cur (push_k y fr) a"
    and nxt: "\<And>m1 c r x2 c2. bafter m m1 \<Longrightarrow> ends_as l c r c2 \<Longrightarrow> conts x2 (kont x2) = Some (fr, kont x) \<Longrightarrow>
       keeps x (x2\<lparr>kont := kont x\<rparr>) \<Longrightarrow> same_data m1 x2 \<Longrightarrow> agrees app G l' k m x x2 c2 (f m1 (c, r))"
  shows "agrees app G l' k m x (x\<lparr>cur := nd\<rparr>) C_STEP (sbind (krt2_run_sync_operand rec m a sc) f)"
proof -
  let ?y = "x\<lparr>cur := nd, resumed := False, safepoint_hit := False\<rparr>"
  have y: "mok ?y" "kont ?y = kont x" using rec(4) by simp_all
  show ?thesis
  proof (rule start[OF rec(4)])
    show "step_op app G ?y = Inr ((push_k ?y fr)\<lparr>cur := a\<rparr>, C_STEP)" by (simp add: node step_cur_def)
    show "agrees app G l' k m x ((push_k ?y fr)\<lparr>cur := a\<rparr>) C_STEP (sbind (krt2_run_sync_operand rec m a sc) f)"
    proof (rule agrees_bind[OF run_operand[OF rec(1-3) push_mok[OF y(1)]]])
      show "same_data m (push_k ?y fr)" using rec(5) by simp
      fix m1 c r x2 c2
      assume a: "bafter m m1" "ends_as l c r c2" "keeps (push_k ?y fr) x2" "kont x2 = kont (push_k ?y fr)" "same_data m1 x2"
      note p = pop_frame[OF y(1) a(3,4)]
      show "agrees app G l' k m x x2 c2 (f m1 (c, r))"
        using p by (intro nxt a(1,2,5)) simp_all
    qed
  qed
qed

section \<open>The operations\<close>

text \<open>Leaving a frame that the outcome goes through.\<close>

lemma leave_frame:
  assumes "ends_as l c r c2" "bafter m m1" "keeps x (x2\<lparr>kont := k\<rparr>)" "same_data m1 x2"
    and "mstep app G x2 c2 = Inr (x2\<lparr>kont := k\<rparr>, c2)"
  shows "agrees app G l k m x x2 c2 (sret m1 c r)"
  using assms by (intro agrees_step[OF assms(5)] agrees_end) simp_all

text \<open>Leaving a frame with a value that the machine delivers again.\<close>

lemma redeliver:
  assumes "datum v" "bafter m m1" "keeps x (x2\<lparr>kont := k\<rparr>)" "same_data m1 x2"
    and "mstep app G x2 c2 = step_cur (x2\<lparr>kont := k\<rparr>) (krt2_pure v)"
  shows "agrees app G l k m x x2 c2 (sret m1 RK_NORMAL v)"
proof -
  let ?y = "x2\<lparr>kont := k, cur := krt2_pure v, resumed := False, safepoint_hit := False\<rparr>"
  have p: "\<not> pending x2" using assms(3) by (simp add: keeps_def mok_def)
  have "mstep app G x2 c2 = Inr (x2\<lparr>kont := k, cur := krt2_pure v\<rparr>, C_STEP)" using assms(5) by (simp add: step_cur_def)
  moreover have "mstep app G (x2\<lparr>kont := k, cur := krt2_pure v\<rparr>) C_STEP = Inr (?y, C_DELIVER v)"
    using p by (simp add: turn_gate step_nodes)
  moreover have "agrees app G l k m x ?y (C_DELIVER v) (sret m1 RK_NORMAL v)"
    using assms by (intro agrees_end) (simp_all add: d_value)
  ultimately show ?thesis by (blast intro: agrees_step)
qed

text \<open>Going on with another action below the frame.\<close>

lemma go_on:
  assumes "sim_run app G rec" "bridged app l b" "bafter m m1" "keeps x (x2\<lparr>kont := kont x\<rparr>)" "same_data m1 x2"
    and "mstep app G x2 c2 = Inr (x2\<lparr>kont := kont x, cur := b\<rparr>, C_STEP)"
  shows "agrees app G l (kont x) m x x2 c2 (rec m1 b sc)"
proof -
  let ?y = "x2\<lparr>kont := kont x\<rparr>"
  have "bok m1" "mok ?y" "same_data m1 ?y" using assms(3-5) unfolding bafter_def keeps_def by simp_all
  then have "agrees app G l (kont ?y) m1 ?y (?y\<lparr>cur := b\<rparr>) C_STEP (rec m1 b sc)"
    by (rule sim_runD[OF assms(1,2)])
  moreover have "kont ?y = kont x" "x2\<lparr>kont := kont x, cur := b\<rparr> = ?y\<lparr>cur := b\<rparr>" by simp_all
  ultimately have "agrees app G l (kont x) m1 ?y (x2\<lparr>kont := kont x, cur := b\<rparr>) C_STEP (rec m1 b sc)" by metis
  from agrees_rebase[OF this assms(3,4)] show ?thesis by (rule agrees_step[OF assms(6)])
qed

lemma deliver_frame:
  "conts x (kont x) = Some (KK_BIND k, nx) \<Longrightarrow> mstep app G x (C_DELIVER v) = step_app app (x\<lparr>kont := nx\<rparr>) k v"
  "conts x (kont x) = Some (KK_THEN a, nx) \<Longrightarrow> mstep app G x (C_DELIVER v) = step_cur (x\<lparr>kont := nx\<rparr>) a"
  "conts x (kont x) = Some (KK_CATCH h, nx) \<Longrightarrow> mstep app G x (C_DELIVER v) = step_cur (x\<lparr>kont := nx\<rparr>) (krt2_pure v)"
  "conts x (kont x) = Some (KK_RETSCOPE, nx) \<Longrightarrow> mstep app G x (C_DELIVER v) = step_cur (x\<lparr>kont := nx\<rparr>) (krt2_pure v)"
  by (simp_all add: turn_ctl deliver_def)

lemma unwind_frame:
  "conts x (kont x) = Some (KK_BIND k, nx) \<Longrightarrow> mstep app G x (C_UNWIND rk v) = Inr (x\<lparr>kont := nx\<rparr>, C_UNWIND rk v)"
  "conts x (kont x) = Some (KK_THEN a, nx) \<Longrightarrow> mstep app G x (C_UNWIND rk v) = Inr (x\<lparr>kont := nx\<rparr>, C_UNWIND rk v)"
  "conts x (kont x) = Some (KK_CATCH h, nx) \<Longrightarrow> mstep app G x (C_UNWIND rk v) =
     kbind (caught rk v) (\<lambda>e. case e of Some y \<Rightarrow> step_app app (x\<lparr>kont := nx\<rparr>) h y | None \<Rightarrow> Inr (x\<lparr>kont := nx\<rparr>, C_UNWIND rk v))"
  "conts x (kont x) = Some (KK_RETSCOPE, nx) \<Longrightarrow> mstep app G x (C_UNWIND rk v) =
     (if rk = RK_RETURN then kbind (rval v) (\<lambda>y. step_cur (x\<lparr>kont := nx\<rparr>) (krt2_pure y)) else Inr (x\<lparr>kont := nx\<rparr>, C_UNWIND rk v))"
  by (simp_all add: turn_ctl unwind_def Let_def cong: option.case_cong)

lemma datum_not_fail: "datum v \<Longrightarrow> \<not> kis_fail v"
  by (simp add: datum_def)

text \<open>A continuation that the common actions allow, applied to a value.\<close>

definition pure_k :: "kapp_fn \<Rightarrow> lctl \<Rightarrow> kval \<Rightarrow> bool" where
  "pure_k app l k \<longleftrightarrow>
     (\<forall>v. (\<exists>e. \<forall>m. kapp_rt app m k v = Inl e) \<or> (\<exists>b. (\<forall>m. kapp_rt app m k v = Inr (m, b)) \<and> bridged app l b))"

lemma apply_on:
  assumes "sim_run app G rec" "pure_k app l k" "bafter m m1" "keeps x (x2\<lparr>kont := kont x\<rparr>)" "same_data m1 x2"
    and "mstep app G x2 c2 = step_app app (x2\<lparr>kont := kont x\<rparr>) k v"
  shows "agrees app G l (kont x) m x x2 c2 (slift (kapp_rt app m1 k v) (\<lambda>(m2, b). rec m2 b sc))"
proof -
  consider (err) e where "\<And>m. kapp_rt app m k v = Inl e"
    | (app) b where "\<And>m. kapp_rt app m k v = Inr (m, b)" "bridged app l b"
    using assms(2) unfolding pure_k_def by meson
  then show ?thesis
  proof cases
    case app
    show ?thesis unfolding app(1) slift_Inr prod.case
      by (rule go_on[OF assms(1) app(2) assms(3-5)]) (simp add: assms(6) step_app_def app(1))
  qed (simp add: agrees_def)
qed

lemma sim_bind:
  assumes "sim_run app G rec" "bridged app l a" "bok m" "mok x" "same_data m x" "pure_k app l k"
  shows "agrees app G l (kont x) m x (x\<lparr>cur := krt2_bind a k\<rparr>) C_STEP
     (krt2_run_op_sync_body fire app rec io n m (krt2_bind a k) sc)"
  unfolding sync_nodes
proof (rule under_frame[OF assms(1-5), where fr = "KK_BIND k"])
  fix m1 c r x2 c2
  assume a: "bafter m m1" "ends_as l c r c2" "conts x2 (kont x2) = Some (KK_BIND k, kont x)"
    "keeps x (x2\<lparr>kont := kont x\<rparr>)" "same_data m1 x2"
  show "agrees app G l (kont x) m x x2 c2 (case (c, r) of (c, r) \<Rightarrow>
       if c \<noteq> RK_NORMAL then sret m1 c r else if kis_fail r then sret m1 RK_NORMAL r
       else slift (kapp_rt app m1 k r) (\<lambda>(m2, b). rec m2 b sc))"
    using a(2)
  proof cases
    case d_value
    then show ?thesis using apply_on[OF assms(1,6) a(1,4,5) deliver_frame(1)[OF a(3)]] by (simp add: d_value datum_not_fail)
  qed (use leave_frame[OF a(2,1,4,5)] in \<open>simp_all add: unwind_frame(1)[OF a(3)]\<close>)
qed (simp add: step_nodes)

lemma sim_then:
  assumes "sim_run app G rec" "bridged app l a" "bok m" "mok x" "same_data m x" "bridged app l b"
  shows "agrees app G l (kont x) m x (x\<lparr>cur := krt2_then a b\<rparr>) C_STEP
     (krt2_run_op_sync_body fire app rec io n m (krt2_then a b) sc)"
  unfolding sync_nodes
proof (rule under_frame[OF assms(1-5), where fr = "KK_THEN b"])
  fix m1 c r x2 c2
  assume a: "bafter m m1" "ends_as l c r c2" "conts x2 (kont x2) = Some (KK_THEN b, kont x)"
    "keeps x (x2\<lparr>kont := kont x\<rparr>)" "same_data m1 x2"
  show "agrees app G l (kont x) m x x2 c2 (case (c, r) of (c, r) \<Rightarrow>
       if c \<noteq> RK_NORMAL then sret m1 c r else if kis_fail r then sret m1 RK_NORMAL r else rec m1 b sc)"
    using a(2)
  proof cases
    case d_value
    have "agrees app G l (kont x) m x x2 (C_DELIVER r) (rec m1 b sc)"
      by (rule go_on[OF assms(1,6) a(1,4,5)]) (simp add: deliver_frame(2)[OF a(3)] step_cur_def)
    with d_value show ?thesis by (simp add: datum_not_fail)
  qed (use leave_frame[OF a(2,1,4,5)] in \<open>simp_all add: unwind_frame(2)[OF a(3)]\<close>)
qed (simp add: step_nodes)

lemma sim_catch:
  assumes "sim_run app G rec" "bridged app l a" "bok m" "mok x" "same_data m x" "pure_k app l h"
  shows "agrees app G l (kont x) m x (x\<lparr>cur := krt2_catch a h\<rparr>) C_STEP
     (krt2_run_op_sync_body fire app rec io n m (krt2_catch a h) sc)"
  unfolding sync_nodes
proof (rule under_frame[OF assms(1-5), where fr = "KK_CATCH h"])
  fix m1 c r x2 c2
  assume a: "bafter m m1" "ends_as l c r c2" "conts x2 (kont x2) = Some (KK_CATCH h, kont x)"
    "keeps x (x2\<lparr>kont := kont x\<rparr>)" "same_data m1 x2"
  note u = unwind_frame(3)[OF a(3)]
  show "agrees app G l (kont x) m x x2 c2 (case (c, r) of (c, r) \<Rightarrow>
       if c \<noteq> RK_NORMAL then sret m1 c r
       else case r of KFail e \<Rightarrow> slift (kapp_rt app m1 h e) (\<lambda>(m2, b). rec m2 b sc) | _ \<Rightarrow> sret m1 RK_NORMAL r)"
    using a(2)
  proof cases
    case d_value
    have "agrees app G l (kont x) m x x2 (C_DELIVER r) (sret m1 RK_NORMAL r)"
      by (rule redeliver[OF d_value(3) a(1,4,5) deliver_frame(3)[OF a(3)]])
    with d_value show ?thesis by (cases r) (auto simp: datum_def)
  next
    case (d_fail e)
    have "agrees app G l (kont x) m x x2 c2 (slift (kapp_rt app m1 h e) (\<lambda>(m2, b). rec m2 b sc))"
      by (rule apply_on[OF assms(1,6) a(1,4,5)]) (simp add: d_fail u caught_def rval_def)
    with d_fail show ?thesis by simp
  next
    case (d_fail_cause q e)
    have "agrees app G l (kont x) m x x2 c2 (slift (kapp_rt app m1 h e) (\<lambda>(m2, b). rec m2 b sc))"
      by (rule apply_on[OF assms(1,6) a(1,4,5)]) (simp add: d_fail_cause u caught_def rval_def)
    with d_fail_cause show ?thesis by simp
  qed (use leave_frame[OF a(2,1,4,5)] in \<open>simp_all add: u caught_def rval_def\<close>)
qed (simp add: step_nodes)

lemma sim_retscope:
  assumes "sim_run app G rec" "bridged app l a" "bok m" "mok x" "same_data m x"
  shows "agrees app G l (kont x) m x (x\<lparr>cur := krt2_retscope a\<rparr>) C_STEP
     (krt2_run_op_sync_body fire app rec io n m (krt2_retscope a) sc)"
  unfolding sync_nodes
proof (rule under_frame[OF assms(1-5), where fr = KK_RETSCOPE])
  fix m1 c r x2 c2
  assume a: "bafter m m1" "ends_as l c r c2" "conts x2 (kont x2) = Some (KK_RETSCOPE, kont x)"
    "keeps x (x2\<lparr>kont := kont x\<rparr>)" "same_data m1 x2"
  note u = unwind_frame(4)[OF a(3)]
  show "agrees app G l (kont x) m x x2 c2 (case (c, r) of (c, r) \<Rightarrow>
       if kis_fail r then sret m1 RK_NORMAL r else if c = RK_RERAISE then sret m1 RK_RERAISE r
       else if c = RK_BREAK \<or> c = RK_CONTINUE then sret m1 c r else sret m1 RK_NORMAL r)"
    using a(2)
  proof cases
    case d_value
    then show ?thesis using redeliver[OF d_value(3) a(1,4,5) deliver_frame(4)[OF a(3)]] by (simp add: datum_not_fail)
  next
    case d_return
    have "agrees app G l (kont x) m x x2 c2 (sret m1 RK_NORMAL r)"
      by (rule redeliver[OF d_return(3) a(1,4,5)]) (simp add: d_return u rval_def)
    then show ?thesis using d_return by (simp add: datum_not_fail)
  qed (use leave_frame[OF a(2,1,4,5)] in \<open>simp_all add: u\<close>)
qed (simp add: more_nodes)

section \<open>Do-scopes\<close>

lemma recompute_data [simp]:
  fixes m :: mach
  shows "refs (recompute_mask_state m) = refs m" "out (recompute_mask_state m) = out m"
  by (simp_all add: recompute_mask_state_def)

lemma push_data:
  fixes m :: mach
  assumes "krt2i_mask_push m s = (m', a)"
  shows "refs m' = refs m" "out m' = out m"
  using assms by (auto simp: krt2i_mask_push_def Let_def)

lemma pop_data:
  fixes m :: mach
  assumes "krt2i_mask_pop m a = Inr m'"
  shows "refs m' = refs m" "out m' = out m"
  using assms by (auto simp: krt2i_mask_pop_def split: option.splits if_splits)

lemma scoped_reason:
  assumes "ends_as l c r c2"
  shows "\<exists>q. krt2_sync_reason r c = Inr q \<and> krt2_sync_apply_reason q = Inr (c, r)"
  using assms
proof cases
  case d_value
  then have "krt2_sync_reason r c = Inr (RK_NORMAL, Some r)"
    by (cases r) (simp_all add: krt2_sync_reason_def datum_def)
  with d_value show ?thesis by (simp add: krt2_sync_apply_reason_def rval_def)
qed (simp_all add: krt2_sync_reason_def krt2_sync_apply_reason_def rval_def krt2_is_reraise_action_def)

lemma scoped_empty:
  assumes "ends_as l c r c2" "bafter m m1" "xss m1 xs = Some []" "keeps x x2" "same_data m1 x2" "kont x2 = k"
  shows "agrees app G l k m x x2 c2 (sync_scoped app rec m1 xs c r sc)"
proof -
  obtain q where q0: "krt2_sync_reason r c = Inr q" "krt2_sync_apply_reason q = Inr (c, r)"
    using scoped_reason[OF assms(1)] by blast
  obtain m2 f where p: "krt2i_mask_push m1 KMASK_MASKED = (m2, f)" by fastforce
  have "agrees app G l k m x x2 c2 (sret m3 c r)" if q: "krt2i_mask_pop m2 f = Inr m3" for m3
  proof (rule agrees_end[OF assms(1) _ assms(4,6)])
    show "bafter m m3" using assms(2) mask_push_fields[OF p] mask_pop_fields[OF q] by (auto simp: bafter_def bok_def)
    show "same_data m3 x2" using assms(5) push_data[OF p] pop_data[OF q] by (simp add: same_data_def)
  qed
  then show ?thesis using q0 assms(3)
    by (cases "krt2i_mask_pop m2 f") (simp_all add: sync_scoped_def sync_finalize_def p sbind_def agrees_def)
qed

lemma leave_scope:
  assumes "ends_as l c r c2" "conts x (kont x) = Some (KK_DOSCOPE s restore, nx)" "xss x s = Some []"
  shows "mstep app G x c2 = Inr (x\<lparr>kont := nx, cur_exits := restore\<rparr>, c2)"
  using assms(1) by cases (simp_all add: turn_ctl deliver_def unwind_def begin_finseq_def assms(2,3) apply_reason_def rval_def)

lemma sim_doscope:
  assumes rec: "sim_run app G rec" "bridged app l a" and m: "bok m" "mok x" "same_data m x"
  shows "agrees app G l (kont x) m x (x\<lparr>cur := krt2_doscope a\<rparr>) C_STEP
     (krt2_run_op_sync_body fire app rec io n m (krt2_doscope a) sc)"
proof -
  let ?y = "x\<lparr>cur := krt2_doscope a, resumed := False, safepoint_hit := False\<rparr>"
  let ?m1 = "m\<lparr>xss := (xss m)(brk m \<mapsto> []), brk := Suc (brk m)\<rparr>"
  let ?y1 = "?y\<lparr>xss := (xss x)(brk x \<mapsto> []), brk := Suc (brk x)\<rparr>"
  let ?x1 = "(push_k ?y1 (KK_DOSCOPE (brk x) (cur_exits x)))\<lparr>cur_exits := Some (brk x)\<rparr>"
  have k: "kont ?x1 = Suc (brk x)" "conts ?x1 (Suc (brk x)) = Some (KK_DOSCOPE (brk x) (cur_exits x), kont x)"
    "xss ?x1 (brk x) = Some []" "\<And>i. i < brk x \<Longrightarrow> conts ?x1 i = conts x i \<and> xss ?x1 i = xss x i" "brk ?x1 = Suc (Suc (brk x))"
    by (simp_all add: push_k_def cont_new_def)
  have m1: "bok ?m1" "mok ?x1" "same_data ?m1 ?x1"
    using m by (auto simp: bok_def mok_def same_data_def push_k_def cont_new_def)
  show ?thesis unfolding sync_nodes exitstack_new_def Let_def prod.case
  proof (rule start[OF m(2)])
    show "step_op app G ?y = Inr (?x1\<lparr>cur := a\<rparr>, C_STEP)"
      by (simp add: step_nodes exitstack_new_def step_cur_def)
    show "agrees app G l (kont x) m x (?x1\<lparr>cur := a\<rparr>) C_STEP
      (sbind (krt2_run_sync_operand rec ?m1 a (Some (brk m))) (\<lambda>m2 (c, r). sync_scoped app rec m2 (brk m) c r sc))"
    proof (rule agrees_rebase[of _ _ _ _ ?m1 x], rule agrees_bind[OF run_operand[OF rec m1]])
      fix m2 c r x2 c2
      assume a: "bafter ?m1 m2" "ends_as l c r c2" "keeps ?x1 x2" "kont x2 = kont ?x1" "same_data m2 x2"
      let ?x3 = "x2\<lparr>kont := kont x, cur_exits := cur_exits x\<rparr>"
      have x2: "conts x2 (kont x2) = Some (KK_DOSCOPE (brk x) (cur_exits x), kont x)" "xss x2 (brk x) = Some []"
        using a(3,4) k(1-3,5) unfolding keeps_def by simp_all
      have k3: "keeps x ?x3" using a(3) k m(2) by (auto simp: keeps_def mok_def)
      show "agrees app G l (kont x) ?m1 x x2 c2 (case (c, r) of (c, r) \<Rightarrow> sync_scoped app rec m2 (brk m) c r sc)"
        unfolding prod.case
      proof (rule agrees_step[OF leave_scope[OF a(2) x2]], rule scoped_empty[OF a(2,1)])
        show "xss m2 (brk m) = Some []" using a(1) by (simp add: bafter_def)
        show "same_data m2 ?x3" using a(5) by (simp add: same_data_def)
      qed (use k3 in simp_all)
    next
      show "bafter m ?m1" using m by (auto simp: bafter_def bok_def)
      show "keeps x x" by (rule keeps_refl[OF m(2)])
    qed
  qed
qed

section \<open>Loops\<close>

abbreviation "iter cnd body \<equiv> krt2_bind cnd (KClo CLoopBranch [body])"

lemma branch_app: "kapp_rt app m (KClo CLoopBranch [body]) b =
    kbind (kas_bool b) (\<lambda>t. Inr (m, if t then krt2_doscope body else krt2_break))"
  by (simp add: kapp_rt.simps loop_branch_def kvar_def) (cases "kas_bool b"; simp)

lemma loop_again:
  assumes "conts x (kont x) = Some (KK_LOOP it, nx)" "c2 = C_DELIVER v \<or> c2 = C_UNWIND RK_CONTINUE None" "\<not> pending x"
  obtains bud res where "mturns app G x c2 (x\<lparr>budget := bud, resumed := res, cur := it\<rparr>) C_STEP"
proof (cases "budget x = 0")
  case True
  let ?z = "x\<lparr>budget := KRT2_BACKEDGE_QUANTUM, resumed := True, cur := it\<rparr>"
  have s: "mstep app G x c2 = Inr (?z, C_STOP M_YIELD)"
    using assms True by (auto simp: turn_ctl deliver_def unwind_def loop_backedge_def)
  have "fiber_step_begin ?z = ?z" by (simp add: fiber_step_begin_def)
  then have "mturns app G x c2 ?z C_STEP" by (intro t_step[OF s] t_yield) (simp add: t_refl)
  then show thesis by (rule that)
next
  case False
  have s: "mstep app G x c2 = Inr (x\<lparr>budget := budget x - 1, resumed := resumed x, cur := it\<rparr>, C_STEP)"
    using assms False by (auto simp: turn_ctl deliver_def unwind_def loop_backedge_def)
  show thesis by (rule that[OF t_step[OF s t_refl]])
qed

lemma loop_leave:
  "conts x (kont x) = Some (KK_LOOP it, nx) \<Longrightarrow> rk \<noteq> RK_BREAK \<Longrightarrow> rk \<noteq> RK_CONTINUE \<Longrightarrow>
   mstep app G x (C_UNWIND rk v) = Inr (x\<lparr>kont := nx\<rparr>, C_UNWIND rk v)"
  "conts x (kont x) = Some (KK_LOOP it, nx) \<Longrightarrow> mstep app G x (C_UNWIND RK_BREAK v) = step_cur (x\<lparr>kont := nx\<rparr>) (krt2_pure kunit)"
  by (simp_all add: turn_ctl unwind_def)

lemma loop_body:
  assumes rec: "sim_run app G rec" "bridged app L_LOOP body"
    and again: "\<And>m x spc. bok m \<Longrightarrow> mok x \<Longrightarrow> same_data m x \<Longrightarrow> conts x (kont x) = Some (KK_LOOP it, nx) \<Longrightarrow> nx < brk x \<Longrightarrow>
       agrees app G l nx m x (x\<lparr>cur := it\<rparr>) C_STEP (again m spc)"
    and m: "bok m" "mok x" "same_data m x" "conts x (kont x) = Some (KK_LOOP it, nx)" "nx < brk x"
  shows "agrees app G l nx m x (x\<lparr>cur := krt2_doscope body\<rparr>) C_STEP
     (sbind (krt2_run_sync_operand rec m (krt2_doscope body) sc) (sync_loop_next again spc))"
proof (rule agrees_bind[OF run_operand[OF rec(1) b_doscope[OF rec(2)] m(1-3)]])
  fix m1 c r x2 c2
  assume a: "bafter m m1" "ends_as L_LOOP c r c2" "keeps x x2" "kont x2 = kont x" "same_data m1 x2"
  have x2: "conts x2 (kont x2) = Some (KK_LOOP it, nx)" "nx < brk x2" "mok x2" "\<not> pending x2" "keeps x (x2\<lparr>kont := nx\<rparr>)"
    using a(3,4) m(2,4,5) by (simp_all add: keeps_def mok_def)
  have b: "bok m1" "krt2_safepoint m1 = (m1, False)" using a(1) by (simp_all add: bafter_def bok_def krt2_safepoint_def)
  have more: "agrees app G l nx m x x2 c2 (again m1 spc1)"
    if c2: "c2 = C_DELIVER v \<or> c2 = C_UNWIND RK_CONTINUE None" for v spc1
  proof -
    obtain bud rs where t: "mturns app G x2 c2 (x2\<lparr>budget := bud, resumed := rs, cur := it\<rparr>) C_STEP"
      using loop_again[OF x2(1) c2 x2(4)] .
    let ?z = "x2\<lparr>budget := bud, resumed := rs\<rparr>"
    have "agrees app G l nx m1 ?z (?z\<lparr>cur := it\<rparr>) C_STEP (again m1 spc1)"
      by (rule again) (use b x2 a(5) in simp_all)
    then have "agrees app G l nx m x (?z\<lparr>cur := it\<rparr>) C_STEP (again m1 spc1)"
      by (rule agrees_rebase[OF _ a(1)]) (use a(3) in simp)
    then show ?thesis by (rule agrees_turns[OF t])
  qed
  note out = leave_frame[OF _ a(1) x2(5) a(5)]
  show "agrees app G l nx m x x2 c2 (sync_loop_next again spc m1 (c, r))"
    using a(2)
  proof cases
    case d_break
    have "agrees app G l nx m x x2 c2 (sret m1 RK_NORMAL kunit)"
      by (rule redeliver[OF node_datum a(1) x2(5) a(5)]) (simp add: d_break loop_leave(2)[OF x2(1)])
    then show ?thesis using d_break by (simp add: sync_loop_next_def)
  qed (use more out[OF ends_as.d_return] out[OF ends_as.d_reraise] out[OF ends_as.d_fail] out[OF ends_as.d_fail_cause]
      in \<open>simp_all add: sync_loop_next_def datum_not_fail b loop_leave(1)[OF x2(1)]\<close>)
qed

lemma sim_loop:
  assumes rec: "sim_run app G rec" "bridged app L_NONE cnd" "bridged app L_LOOP body"
    and "bok m" "mok x" "same_data m x" "conts x (kont x) = Some (KK_LOOP (iter cnd body), nx)" "nx < brk x"
  shows "agrees app G l nx m x (x\<lparr>cur := iter cnd body\<rparr>) C_STEP (sync_while rec n m cnd body spc sc)"
  using assms(4-8)
proof (induction n arbitrary: m x spc)
  case 0
  then show ?case by (simp add: agrees_def)
next
  case (Suc n)
  show ?case unfolding sync_while.simps
  proof (rule under_frame[OF rec(1,2) Suc.prems(1-3), where fr = "KK_BIND (KClo CLoopBranch [body])"])
    fix m1 c b x2 c2
    assume a: "bafter m m1" "ends_as L_NONE c b c2" "conts x2 (kont x2) = Some (KK_BIND (KClo CLoopBranch [body]), kont x)"
      "keeps x (x2\<lparr>kont := kont x\<rparr>)" "same_data m1 x2"
    let ?x3 = "x2\<lparr>kont := kont x\<rparr>"
    have x3: "conts ?x3 (kont ?x3) = Some (KK_LOOP (iter cnd body), nx)" "nx < brk ?x3" "mok ?x3" "keeps x (?x3\<lparr>kont := nx\<rparr>)"
      "same_data m1 ?x3" "bok m1"
      using a(1,4,5) Suc.prems(2,4,5) by (simp_all add: keeps_def mok_def bafter_def)
    have out: "agrees app G l nx m x x2 (C_UNWIND rk v) (sret m1 c b)"
      if "ends_as l c b (C_UNWIND rk v)" "rk \<noteq> RK_BREAK" "rk \<noteq> RK_CONTINUE" for rk v
      by (rule agrees_step[OF unwind_frame(1)[OF a(3)]
            leave_frame[OF that(1) a(1) x3(4,5) loop_leave(1)[OF x3(1) that(2,3)]]])
    have stop: "agrees app G l nx m x (?x3\<lparr>cur := krt2_break\<rparr>) C_STEP (sret m1 RK_NORMAL kunit)"
    proof (rule agrees_step)
      let ?z = "?x3\<lparr>cur := krt2_break, resumed := False, safepoint_hit := False\<rparr>"
      show "mstep app G (?x3\<lparr>cur := krt2_break\<rparr>) C_STEP = Inr (?z, C_UNWIND RK_BREAK None)"
        using x3(3) by (simp add: turn_gate more_nodes mok_def)
      show "agrees app G l nx m x ?z (C_UNWIND RK_BREAK None) (sret m1 RK_NORMAL kunit)"
        using x3 by (intro redeliver[OF node_datum a(1)] loop_leave(2)) (simp_all add: keeps_below)
    qed
    have go: "agrees app G l nx m x (?x3\<lparr>cur := krt2_doscope body\<rparr>) C_STEP
        (sbind (krt2_run_sync_operand rec m1 (krt2_doscope body) sc)
          (sync_loop_next (\<lambda>m2 spc1. sync_while rec n m2 cnd body spc1 sc) spc))"
      by (rule agrees_rebase[OF loop_body[OF rec(1,3) Suc.IH x3(6,3,5,1,2)] a(1,4)])
    show "agrees app G l nx m x x2 c2 (case (c, b) of (c, b) \<Rightarrow>
       if c \<noteq> RK_NORMAL then sret m1 c b
       else if kis_fail b then sret m1 RK_NORMAL b
       else slift (kas_bool b) (\<lambda>go.
         if \<not> go then sret m1 RK_NORMAL kunit
         else sbind (krt2_run_sync_operand rec m1 (krt2_doscope body) sc)
                (sync_loop_next (\<lambda>m2 spc1. sync_while rec n m2 cnd body spc1 sc) spc)))"
      using a(2)
    proof cases
      case d_value
      have "agrees app G l nx m x x2 c2 (slift (kas_bool b) (\<lambda>go.
         if \<not> go then sret m1 RK_NORMAL kunit
         else sbind (krt2_run_sync_operand rec m1 (krt2_doscope body) sc)
                (sync_loop_next (\<lambda>m2 spc1. sync_while rec n m2 cnd body spc1 sc) spc)))"
      proof (rule agrees_slift)
        fix t assume t: "kas_bool b = Inr t"
        have "mstep app G x2 c2 = Inr (?x3\<lparr>cur := (if t then krt2_doscope body else krt2_break)\<rparr>, C_STEP)"
          by (simp add: d_value deliver_frame(1)[OF a(3)] step_app_def branch_app t)
        then show "agrees app G l nx m x x2 c2 (if \<not> t then sret m1 RK_NORMAL kunit
           else sbind (krt2_run_sync_operand rec m1 (krt2_doscope body) sc)
                (sync_loop_next (\<lambda>m2 spc1. sync_while rec n m2 cnd body spc1 sc) spc))"
          using go stop by (cases t) (auto intro: agrees_step)
      qed
      with d_value show ?thesis by (simp add: datum_not_fail)
    qed (use out ends_as.intros in \<open>simp_all add: datum_not_fail\<close>)
  qed (simp add: step_nodes)
qed

lemma sim_while:
  assumes "sim_run app G rec" "bridged app L_NONE cnd" "bridged app L_LOOP body" "bok m" "mok x" "same_data m x"
  shows "agrees app G l (kont x) m x (x\<lparr>cur := krt2_while cnd body\<rparr>) C_STEP
     (krt2_run_op_sync_body fire app rec io n m (krt2_while cnd body) sc)"
  unfolding sync_nodes
proof (rule start[OF assms(5)])
  let ?y = "x\<lparr>cur := krt2_while cnd body, resumed := False, safepoint_hit := False\<rparr>"
  let ?z = "push_k ?y (KK_LOOP (iter cnd body))"
  show "step_op app G ?y = Inr (?z\<lparr>cur := iter cnd body\<rparr>, C_STEP)" by (simp add: more_nodes Let_def step_cur_def)
  have y: "mok ?y" using assms(5) by simp
  have "keeps ?z ?z" by (rule keeps_refl[OF push_mok[OF y]])
  from pop_frame[OF y this refl] have z: "conts ?z (kont ?z) = Some (KK_LOOP (iter cnd body), kont x)" by simp
  have b: "kont x < brk ?z" using assms(5) by (simp add: mok_def)
  have k: "keeps x ?z" using assms(5) push_mok[OF y] by (auto simp: keeps_def push_k_def cont_new_def mok_def)
  show "agrees app G l (kont x) m x (?z\<lparr>cur := iter cnd body\<rparr>) C_STEP (sync_while rec n m cnd body KRT2_SP_QUANTUM sc)"
    using assms(6) by (intro agrees_rebase[OF sim_loop[OF assms(1-4) push_mok[OF y] _ z b] bafter_refl[OF assms(4)] k]) simp
qed

section \<open>The simulation\<close>

lemma sim_leaf:
  assumes "bok m" "mok x" "same_data m x" "ends_as l c r c1" "\<And>y. cur y = a \<Longrightarrow> step_op app G y = Inr (y, c1)"
  shows "agrees app G l (kont x) m x (x\<lparr>cur := a\<rparr>) C_STEP (sret m c r)"
  using assms by (intro start[OF assms(2) assms(5) agrees_end[OF assms(4) bafter_refl]])
    (simp_all add: keeps_refl)

lemma sim_reraise:
  assumes "bok m" "mok x" "same_data m x" "\<not> (kv_imm q \<and> kctor_tagid q = KCT_FAIL)" "\<not> kis_fail q"
  shows "agrees app G l (kont x) m x (x\<lparr>cur := krt2_reraise q\<rparr>) C_STEP
     (krt2_run_op_sync_body fire app rec io n m (krt2_reraise q) sc)"
proof (cases "kctor_tagid q = KCT_FAIL")
  case True
  have "agrees app G l (kont x) m x (x\<lparr>cur := krt2_reraise q\<rparr>) C_STEP (slift (kctor_arg q 0) (\<lambda>e. sret m RK_NORMAL (KFail e)))"
    using True by (intro agrees_slift sim_leaf[OF assms(1-3) d_fail_cause]) (simp_all add: step_nodes)
  then show ?thesis using True assms(4) by (simp add: sync_nodes)
next
  case False
  have "agrees app G l (kont x) m x (x\<lparr>cur := krt2_reraise q\<rparr>) C_STEP (sret m RK_RERAISE q)"
    by (rule sim_leaf[OF assms(1-3) d_reraise[OF False assms(5)]]) (simp add: step_nodes)
  then show ?thesis using False by (simp add: sync_nodes)
qed

lemma sim_read:
  assumes "bok m" "mok x" "same_data m x"
  shows "agrees app G l (kont x) m x (x\<lparr>cur := krt2_read_ref v\<rparr>) C_STEP
     (krt2_run_op_sync_body fire app rec io n m (krt2_read_ref v) sc)"
  unfolding sync_nodes
proof (rule agrees_slift)
  let ?y = "x\<lparr>cur := krt2_read_ref v, resumed := False, safepoint_hit := False\<rparr>"
  fix y assume y: "kref_get m v = Inr y"
  then have "kref_get ?y v = Inr y" "datum y"
    using assms(3) by (auto simp: kref_get_def same_data_def kundef_def split: kval.splits option.splits)
  then show "agrees app G l (kont x) m x (x\<lparr>cur := krt2_read_ref v\<rparr>) C_STEP (sret m RK_NORMAL y)"
    using assms by (intro start[OF assms(2), where ?x1.0 = ?y and ?c1.0 = "C_DELIVER y"] agrees_end[OF d_value])
      (simp_all add: more_nodes bafter_refl keeps_refl)
qed

lemma sim_write:
  assumes "bok m" "mok x" "same_data m x" "datum d"
  shows "agrees app G l (kont x) m x (x\<lparr>cur := krt2_write_ref v d\<rparr>) C_STEP
     (krt2_run_op_sync_body fire app rec io n m (krt2_write_ref v d) sc)"
  unfolding sync_nodes
proof (rule agrees_slift)
  fix m1 assume "kref_set m v d = Inr m1"
  then obtain a where v: "v = KRef a" and m1: "m1 = m\<lparr>refs := (refs m)(a \<mapsto> d)\<rparr>"
    by (auto simp: kref_set_def split: kval.splits)
  let ?z = "x\<lparr>cur := krt2_write_ref v d, resumed := False, safepoint_hit := False, refs := (refs x)(a \<mapsto> d)\<rparr>"
  have z: "keeps x ?z" "same_data m1 ?z" "bafter m m1"
    using assms by (auto simp: keeps_def mok_def same_data_def bafter_def bok_def m1)
  show "agrees app G l (kont x) m x (x\<lparr>cur := krt2_write_ref v d\<rparr>) C_STEP (sret m1 RK_NORMAL kunit)"
    by (rule start[OF assms(2), where ?x1.0 = ?z and ?c1.0 = "C_DELIVER kunit"])
      (use z in \<open>simp_all add: more_nodes kref_set_def v agrees_end d_value\<close>)
qed

lemma sim_plain:
  assumes "bok m" "mok x" "same_data m x" "plain v"
  shows "agrees app G l (kont x) m x (x\<lparr>cur := v\<rparr>) C_STEP (krt2_run_op_sync_body fire app rec io n m v sc)"
proof -
  have "datum v" using assms(4) by (cases v) (auto simp: plain_def datum_def krt2_is_reraise_action_def legacy_def)
  then show ?thesis unfolding body_plain[OF assms(4)]
    by (rule sim_leaf[OF assms(1-3) d_value]) (simp add: plain_step assms(4))
qed

lemma sim_body:
  assumes "sim_run app G rec" shows "sim_run app G (krt2_run_op_sync_body fire app rec io n)"
  unfolding sim_run_def
proof (intro allI impI)
  fix l a m x sc
  assume b: "bridged app l a" and m: "bok m" "mok x" "same_data m x"
  note leaf = sim_leaf[OF m]
  show "agrees app G l (kont x) m x (x\<lparr>cur := a\<rparr>) C_STEP (krt2_run_op_sync_body fire app rec io n m a sc)"
    using b
  proof cases
    case b_plain
    then show ?thesis by (rule sim_plain[OF m])
  next
    case (b_pure v)
    show ?thesis unfolding b_pure(1) sync_nodes by (rule leaf[OF d_value[OF b_pure(2)]]) (simp add: step_nodes)
  next
    case (b_bind a' k)
    have "pure_k app l k" unfolding pure_k_def by (rule b_bind(3))
    then show ?thesis unfolding b_bind(1) by (rule sim_bind[OF assms b_bind(2) m])
  next
    case (b_then a' b')
    show ?thesis unfolding b_then(1) by (rule sim_then[OF assms b_then(2) m b_then(3)])
  next
    case (b_catch a' h)
    have "pure_k app l h" unfolding pure_k_def by (rule b_catch(3))
    then show ?thesis unfolding b_catch(1) by (rule sim_catch[OF assms b_catch(2) m])
  next
    case (b_throw e)
    show ?thesis unfolding b_throw sync_nodes by (rule leaf[OF d_fail]) (simp add: step_nodes)
  next
    case (b_reraise q)
    show ?thesis unfolding b_reraise(1) by (rule sim_reraise[OF m b_reraise(2,3)])
  next
    case (b_return v)
    show ?thesis unfolding b_return(1) sync_nodes by (rule leaf[OF d_return[OF b_return(2)]]) (simp add: step_nodes)
  next
    case (b_retscope a')
    show ?thesis unfolding b_retscope(1) by (rule sim_retscope[OF assms b_retscope(2) m])
  next
    case (b_doscope a')
    show ?thesis unfolding b_doscope(1) by (rule sim_doscope[OF assms b_doscope(2) m])
  next
    case (b_while cnd body)
    show ?thesis unfolding b_while(1) by (rule sim_while[OF assms b_while(2,3) m])
  next
    case b_break
    show ?thesis unfolding b_break sync_nodes by (rule sim_leaf[OF m d_break]) (simp add: more_nodes)
  next
    case b_continue
    show ?thesis unfolding b_continue sync_nodes by (rule sim_leaf[OF m d_continue]) (simp add: more_nodes)
  next
    case (b_read v)
    show ?thesis unfolding b_read by (rule sim_read[OF m])
  next
    case (b_write d v)
    show ?thesis unfolding b_write(1) by (rule sim_write[OF m b_write(2)])
  qed
qed

lemma sim_sync: "sim_run app G (krt2_run_op_sync_ret fire app n)"
proof (induction n)
  case 0
  show ?case by (simp add: sim_run_def agrees_def)
next
  case (Suc n)
  show ?case unfolding krt2_run_op_sync_ret_simps by (rule sim_body[OF Suc])
qed


section \<open>Where the two differ\<close>

text \<open>A \<open>Fail\<close> cause packed into a word is raised as a cause, which \<open>catch\<close> in the bridge lets through.\<close>

lemma packed_fail_escapes:
  "kv_imm q \<Longrightarrow> kctor_tagid q = KCT_FAIL \<Longrightarrow> kctor_arg q 0 = Inr e \<Longrightarrow>
   krt2_run_op_sync_ret fire app (Suc (Suc n)) m (krt2_catch (krt2_reraise q) h) sc = sret m RK_RERAISE q"
  "kctor_tagid q = KCT_FAIL \<Longrightarrow> kctor_arg q 0 = Inr e \<Longrightarrow> conts x (kont x) = Some (KK_CATCH h, nx) \<Longrightarrow>
   mstep app G x (C_UNWIND RK_RERAISE (Some q)) = step_app app (x\<lparr>kont := nx\<rparr>) h e"
  by (simp_all add: sync_nodes operand_op sret_def sbind_def unwind_frame caught_def rval_def)

text \<open>A nullary operation of the scheduler is an immediate word, and the bridge returns it as a value.\<close>

lemma cede_is_a_value: "krt2_run_op_sync_ret fire app (Suc n) m krt2_cede sc = sret m RK_NORMAL krt2_cede"
proof -
  have "\<not> legacy krt2_cede" "kctor_tagid krt2_cede = OP_CEDE" "kv_imm krt2_cede"
    by (simp_all add: krt2_cede_def op0_def kctor0_kctor kctor_def kctor0_def legacy_def)
  then show ?thesis by (simp add: body_op sync_op_def Let_def)
qed

section \<open>A run on both\<close>

text \<open>A loop that clears the reference it tests, then a failure that the handler turns into a value.\<close>

definition demo_app :: kapp_fn where
  "demo_app f v = (if f = KClo (CUser 0) [] \<and> datum v then Inr (krt2_pure v) else Inl ''no such function'')"

definition demo_action :: kval where
  "demo_action =
     krt2_catch
       (krt2_then (krt2_while (krt2_read_ref (KRef 5)) (krt2_then (krt2_write_ref (KRef 5) (kbool False)) krt2_continue))
          (krt2_throw (KStr [104])))
       (KClo (CUser 0) [])"

definition demo_state :: mach where
  "demo_state = (fiber_new 1 kunit)\<lparr>refs := [5 \<mapsto> kbool True], brk := 6\<rparr>"

lemma datum_kbool [simp]: "datum (kbool b)"
  by (simp add: datum_def krt2_is_reraise_action_def kbool_def kctor0_kctor)

lemma kbool_not_fail [simp]: "\<not> kis_fail (kbool b)"
  by (rule datum_not_fail) simp

lemma demo_bridged: "bridged demo_app L_NONE demo_action"
proof -
  have "pure_k demo_app L_NONE (KClo (CUser 0) [])"
    by (auto simp: pure_k_def kapp_rt.simps demo_app_def intro: b_pure)
  then show ?thesis unfolding demo_action_def pure_k_def
    by (intro bridged.intros) simp_all
qed

lemma demo_sync:
  "\<exists>m'. krt2_run_op_sync_ret (\<lambda>_ _. None) demo_app (Suc (Suc (Suc (Suc (Suc (Suc 0)))))) demo_state demo_action None =
     Some (Inr (m', S_RET (RK_NORMAL, KStr [104]))) \<and> refs m' 5 = Some (kbool False)"
  by (simp add: demo_action_def demo_state_def demo_app_def sync_nodes operand_op sbind_def sret_def exitstack_new_def
      kref_get_def kref_set_def sync_loop_next_def sync_scoped_def sync_finalize_def krt2_sync_reason_def
      krt2_sync_apply_reason_def krt2i_mask_push_def krt2i_mask_pop_def kapp_rt.simps datum_not_fail Let_def
      krt2_is_reraise_action_def KRT2_SP_QUANTUM_def fiber_new_def rval_def datum_def)


end
