(* ===== verification/Kappa_Heap.thy ===== *)
theory Kappa_Heap
  imports Kappa_RC
begin

text \<open>
  Reference counting over the heap (\<open>runtime/kappart.h\<close>: \<open>kdup\<close>, \<open>kdrop\<close>; \<open>runtime/value.c\<close>: freeing,
  in-place reuse of constructor cells, marking a graph as shared between threads). Values are words: an
  immediate, the null pointer, or the address of an object with its header word and its body. The release
  build is modelled (no poisoning, no debug counters): a freed object is removed from the heap, so that
  touching it again is the undefined outcome \<open>kundef\<close>. Addresses are not used again here; a reuse of the
  address by the allocator is what the absence of \<open>kundef\<close> rules out as a danger.

  The explicit stack \<open>KWork\<close> is a list, last pushed first out; its growing is the list's. Loops run on
  fuel, \<open>None\<close> being an unfinished loop. The walk that marks a foreign handle's payload (\<open>rt.c\<close>) and the
  locks around the marking are not part of this model.
\<close>

section \<open>Objects\<close>

datatype hval = H_NULL | H_IMM kword | H_PTR nat

text \<open>A cell of a reference, and the slots of a boxed array, are owned by one object.\<close>

datatype hbody =
  B_CTOR int string "hval list"
| B_REC "(string \<times> hval) list"
| B_VARIANT int string hval
| B_STR "byte list"
| B_BOUNCE hval hval
| B_FAIL hval
| B_CLO cfn "hval list"
| B_IO nat "hval list"
| B_REF hval
| B_ARRAY "hval list"
| B_FGN nat string
| B_THUNK nat "hval list" "hval option"
| B_IOTAIL hval
| B_IOEFFECT hval
| B_IOFINALLY hval "hval list"
| B_NATIVE nat int "hval list"
| B_DATA kval

record hobj =
  rc :: u32
  body :: hbody

record kheap =
  cells :: "nat \<rightharpoonup> hobj"
  hbrk :: nat

type_synonym 'a hres = "'a kres option"

type_synonym kwork = "hval list"

definition hbind :: "'a hres \<Rightarrow> ('a \<Rightarrow> 'b hres) \<Rightarrow> 'b hres" where
  "hbind r f = (case r of None \<Rightarrow> None | Some (Inl e) \<Rightarrow> Some (Inl e) | Some (Inr x) \<Rightarrow> f x)"

definition hlift :: "'a kres \<Rightarrow> ('a \<Rightarrow> 'b hres) \<Rightarrow> 'b hres" where
  "hlift r f = (case r of Inl e \<Rightarrow> Some (Inl e) | Inr x \<Rightarrow> f x)"

fun freeable_body :: "hbody \<Rightarrow> bool" where
  "freeable_body (B_CTOR _ _ _) = True"
| "freeable_body (B_REC _) = True"
| "freeable_body (B_VARIANT _ _ _) = True"
| "freeable_body (B_STR _) = True"
| "freeable_body (B_BOUNCE _ _) = True"
| "freeable_body (B_FAIL _) = True"
| "freeable_body _ = False"

text \<open>Reading an object through a word that is not an immediate.\<close>

fun hget :: "kheap \<Rightarrow> hval \<Rightarrow> hobj kres" where
  "hget h (H_PTR a) = (case cells h a of None \<Rightarrow> kundef | Some o' \<Rightarrow> Inr o')"
| "hget h _ = kundef"

definition set_rc :: "kheap \<Rightarrow> nat \<Rightarrow> u32 \<Rightarrow> kheap" where
  "set_rc h a w = h\<lparr>cells := (cells h)(a := map_option (rc_update (\<lambda>_. w)) (cells h a))\<rparr>"

definition set_body :: "kheap \<Rightarrow> nat \<Rightarrow> hbody \<Rightarrow> kheap" where
  "set_body h a b = h\<lparr>cells := (cells h)(a := map_option (body_update (\<lambda>_. b)) (cells h a))\<rparr>"

text \<open>\<open>kgc_free(v)\<close>.\<close>

definition hfree :: "kheap \<Rightarrow> nat \<Rightarrow> kheap" where
  "hfree h a = h\<lparr>cells := (cells h)(a := None)\<rparr>"

text \<open>\<open>alloc_val\<close>: a new object with count 1.\<close>

definition halloc :: "kheap \<Rightarrow> hbody \<Rightarrow> kheap \<times> hval" where
  "halloc h b = (h\<lparr>cells := (cells h)(hbrk h \<mapsto> \<lparr>rc = 1, body = b\<rparr>), hbrk := Suc (hbrk h)\<rparr>, H_PTR (hbrk h))"

section \<open>The work stack\<close>

definition kwork_push :: "kwork \<Rightarrow> hval \<Rightarrow> kwork" where
  "kwork_push st v = (case v of H_PTR a \<Rightarrow> v # st | _ \<Rightarrow> st)"

section \<open>Duplicating and dropping\<close>

definition kdup :: "bool \<Rightarrow> kheap \<Rightarrow> hval \<Rightarrow> (kheap \<times> hval) kres" where
  "kdup rc_on h v =
     (case v of
        H_IMM w \<Rightarrow> Inr (h, v)
      | _ \<Rightarrow> if \<not> rc_on then Inr (h, v)
             else case v of
                 H_PTR a \<Rightarrow> kbind (hget h v) (\<lambda>o'. Inr (set_rc h a (kdup_hdr True (rc o')), v))
               | _ \<Rightarrow> kundef)"

text \<open>Dropping the child of an object being freed: the child whose last owner this was is stacked.\<close>

definition kfree_drop_child :: "kwork \<times> kheap \<Rightarrow> hval \<Rightarrow> (kwork \<times> kheap) kres" where
  "kfree_drop_child s child =
     (case s of (st, h) \<Rightarrow>
       (case child of
          H_PTR a \<Rightarrow> kbind (hget h child) (\<lambda>o'.
            let cur = rc o' in
            if cur AND KRC_SATURATED_BIT \<noteq> 0 then Inr (st, h)
            else let n = cur AND KRC_COUNT_MASK in
              if n = 0 then Inr (st, h)
              else if cur AND KRC_SHARED_BIT \<noteq> 0 then
                (let (n', w) = krc_shared_release_decrement cur in
                 if n' = 0 then Inr (st, h)
                 else Inr (if n' = 1 \<and> freeable_body (body o') then kwork_push st child else st, set_rc h a w))
              else Inr (if n = 1 \<and> freeable_body (body o') then kwork_push st child else st, set_rc h a (n - 1)))
        | _ \<Rightarrow> Inr (st, h)))"

fun kfree_drop_children :: "kwork \<times> kheap \<Rightarrow> hval list \<Rightarrow> (kwork \<times> kheap) kres" where
  "kfree_drop_children s [] = Inr s"
| "kfree_drop_children s (c # cs) = kbind (kfree_drop_child s c) (\<lambda>s1. kfree_drop_children s1 cs)"

definition kfree_visit :: "kwork \<times> kheap \<Rightarrow> nat \<Rightarrow> (kwork \<times> kheap) kres" where
  "kfree_visit s v =
     kbind (hget (snd s) (H_PTR v)) (\<lambda>o'.
       if \<not> freeable_body (body o') then Inr s
       else kbind (case body o' of
            B_CTOR _ _ args \<Rightarrow> kfree_drop_children s args
          | B_REC fs \<Rightarrow> kfree_drop_children s (map snd fs)
          | B_VARIANT _ _ p \<Rightarrow> kfree_drop_child s p
          | B_BOUNCE f x \<Rightarrow> kbind (kfree_drop_child s f) (\<lambda>s1. kfree_drop_child s1 x)
          | B_FAIL e \<Rightarrow> kfree_drop_child s e
          | _ \<Rightarrow> Inr s) (\<lambda>(st, h). Inr (st, hfree h v)))"

text \<open>The loop of \<open>kfree_recursive_impl\<close> and of the functions that drop the fields of a reused cell.\<close>

fun kfree_loop :: "nat \<Rightarrow> kwork \<times> kheap \<Rightarrow> kheap hres" where
  "kfree_loop 0 s = None"
| "kfree_loop (Suc n) s =
     (case s of
        ([], h) \<Rightarrow> Some (Inr h)
      | (H_PTR v # st, h) \<Rightarrow>
          hlift (hget h (H_PTR v)) (\<lambda>o'.
            if freeable_body (body o') \<and> krc_count (rc o') = 0
            then hlift (kfree_visit (st, h) v) (\<lambda>s1. kfree_loop n s1)
            else kfree_loop n (st, h))
      | (_ # st, h) \<Rightarrow> Some kundef)"

definition kfree_recursive_impl :: "nat \<Rightarrow> kheap \<Rightarrow> nat \<Rightarrow> kheap hres" where
  "kfree_recursive_impl n h root = kfree_loop n (kwork_push [] (H_PTR root), h)"

definition kfree_recursive :: "nat \<Rightarrow> kheap \<Rightarrow> nat \<Rightarrow> kheap hres" where
  "kfree_recursive n h root = hlift (hget h (H_PTR root)) (\<lambda>o'.
     if \<not> freeable_body (body o') \<or> krc_count (rc o') \<noteq> 0 then Some (Inr h) else kfree_recursive_impl n h root)"

definition kdrop :: "bool \<Rightarrow> nat \<Rightarrow> kheap \<Rightarrow> hval \<Rightarrow> kheap hres" where
  "kdrop rc_on fuel h v =
     (case v of
        H_IMM w \<Rightarrow> Some (Inr h)
      | _ \<Rightarrow> if \<not> rc_on then Some (Inr h)
             else case v of
                 H_PTR a \<Rightarrow> hlift (hget h v) (\<lambda>o'.
                   let (w, final) = kdrop_hdr True (rc o'); h1 = set_rc h a w in
                   if final \<and> freeable_body (body o') then kfree_recursive fuel h1 a else Some (Inr h1))
               | _ \<Rightarrow> Some kundef)"

section \<open>Constructor cells\<close>

fun hv_field_packs :: "hval \<Rightarrow> bool" where
  "hv_field_packs (H_IMM w) = kctor_field_packs w"
| "hv_field_packs _ = False"

fun hv_field2_packs :: "hval \<Rightarrow> bool" where
  "hv_field2_packs (H_IMM w) = kctor_field2_packs w"
| "hv_field2_packs _ = False"

fun hv_word :: "hval \<Rightarrow> kword" where
  "hv_word (H_IMM w) = w"
| "hv_word _ = 0"

definition kctor_would_pack_value :: "int \<Rightarrow> hval list \<Rightarrow> bool" where
  "kctor_would_pack_value tagid args =
     (let argc = length args in
      if argc = 0 then True
      else if \<not> kctor_tagid_packs (word_of_int tagid) then False
      else if argc = 1 then hv_field_packs (args ! 0)
      else if argc = 2 then hv_field2_packs (args ! 0) \<and> hv_field2_packs (args ! 1)
      else False)"

definition kctor_alloc :: "kheap \<Rightarrow> int \<Rightarrow> string \<Rightarrow> hval list \<Rightarrow> kheap \<times> hval" where
  "kctor_alloc h tagid name args =
     (let argc = length args; t = word_of_int tagid in
      if argc = 0 then (h, H_IMM (kmk_imm_ctor t))
      else if argc = 1 \<and> kctor_tagid_packs t \<and> hv_field_packs (args ! 0)
      then (h, H_IMM (kmk_imm_packed t (hv_word (args ! 0))))
      else if argc = 2 \<and> kctor_tagid_packs t \<and> hv_field2_packs (args ! 0) \<and> hv_field2_packs (args ! 1)
      then (h, H_IMM (kmk_imm_packed2 t (hv_word (args ! 0)) (hv_word (args ! 1))))
      else halloc h (B_CTOR tagid name args))"

section \<open>Reuse of a unique cell\<close>

text \<open>Slot lists: \<open>move_slots\<close> has, for each new argument, the old slot whose reference it takes over, or a
  negative number; \<open>skip_slots\<close> are old slots whose reference has already left the cell. NULL is \<open>None\<close>.\<close>

definition kctor_move_slot_used :: "int \<Rightarrow> int list option \<Rightarrow> bool" where
  "kctor_move_slot_used slot mv = (case mv of None \<Rightarrow> False | Some ms \<Rightarrow> slot \<in> set ms)"

definition kctor_skip_slot_used :: "int \<Rightarrow> int list option \<Rightarrow> bool" where
  "kctor_skip_slot_used slot sk = (case sk of None \<Rightarrow> False | Some ss \<Rightarrow> slot \<in> set ss)"

fun kctor_skip_slots_valid :: "int \<Rightarrow> int list option \<Rightarrow> bool" where
  "kctor_skip_slots_valid argc None = True"
| "kctor_skip_slots_valid argc (Some ss) \<longleftrightarrow> (\<forall>s\<in>set ss. 0 \<le> s \<and> s < argc) \<and> distinct ss"

fun kctor_move_slots_valid :: "hval list \<Rightarrow> hval list \<Rightarrow> int list option \<Rightarrow> bool" where
  "kctor_move_slots_valid old args None = True"
| "kctor_move_slots_valid old args (Some ms) \<longleftrightarrow>
     (\<forall>(a, s) \<in> set (zip args ms). s \<ge> 0 \<longrightarrow> s < int (length old) \<and> a = old ! nat s) \<and> distinct (filter (\<lambda>s. s \<ge> 0) ms)"

fun kctor_dup_moved :: "kheap \<Rightarrow> (hval \<times> int) list \<Rightarrow> kheap kres" where
  "kctor_dup_moved h [] = Inr h"
| "kctor_dup_moved h ((a, s) # r) =
     (if s \<ge> 0 then kbind (kdup True h a) (\<lambda>(h1, _). kctor_dup_moved h1 r) else kctor_dup_moved h r)"

definition kctor_dup_moved_args :: "kheap \<Rightarrow> hval list \<Rightarrow> int list option \<Rightarrow> kheap kres" where
  "kctor_dup_moved_args h args mv = (case mv of None \<Rightarrow> Inr h | Some ms \<Rightarrow> kctor_dup_moved h (zip args ms))"

text \<open>The old fields that are still the cell's, in order.\<close>

definition kept_fields :: "hval list \<Rightarrow> int list option \<Rightarrow> int list option \<Rightarrow> hval list" where
  "kept_fields old mv sk =
     map snd (filter (\<lambda>(i, _). \<not> kctor_move_slot_used (int i) mv \<and> \<not> kctor_skip_slot_used (int i) sk) (enumerate 0 old))"

definition kctor_drop_old_fields_skip :: "nat \<Rightarrow> kheap \<Rightarrow> hval list \<Rightarrow> int list option \<Rightarrow> int list option \<Rightarrow> kheap hres" where
  "kctor_drop_old_fields_skip fuel h old mv sk =
     hlift (kfree_drop_children ([], h) (kept_fields old mv sk)) (\<lambda>s. kfree_loop fuel s)"

definition kctor_drop_old_fields_except :: "nat \<Rightarrow> kheap \<Rightarrow> hval list \<Rightarrow> int list option \<Rightarrow> kheap hres" where
  "kctor_drop_old_fields_except fuel h old mv = kctor_drop_old_fields_skip fuel h old mv None"

definition kctor_discard_token_skip :: "nat \<Rightarrow> kheap \<Rightarrow> nat \<Rightarrow> hval list \<Rightarrow> int list option \<Rightarrow> int list option \<Rightarrow> kheap hres" where
  "kctor_discard_token_skip fuel h v old mv sk =
     hbind (kctor_drop_old_fields_skip fuel (set_rc h v 0) old mv sk) (\<lambda>h1. Some (Inr (hfree h1 v)))"

definition kctor_rewrite_reused_cell :: "kheap \<Rightarrow> nat \<Rightarrow> int \<Rightarrow> string \<Rightarrow> hval list \<Rightarrow> kheap" where
  "kctor_rewrite_reused_cell h v tagid name args = set_body (set_rc h v 1) v (B_CTOR tagid name args)"

text \<open>The cell of a constructor with \<open>argc\<close> fields and one owner.\<close>

fun ctor_fields :: "hbody \<Rightarrow> hval list option" where
  "ctor_fields (B_CTOR _ _ args) = Some args"
| "ctor_fields _ = None"

definition unique_hdr :: "u32 \<Rightarrow> bool" where
  "unique_hdr cur \<longleftrightarrow> cur AND (KRC_SHARED_BIT OR KRC_SATURATED_BIT) = 0 \<and> cur AND KRC_COUNT_MASK = 1"

definition ktry_reuse_ctor :: "bool \<Rightarrow> kheap \<Rightarrow> hval \<Rightarrow> nat \<Rightarrow> hval option kres" where
  "ktry_reuse_ctor rc_on h v argc =
     (if \<not> rc_on then Inr None
      else case v of
          H_IMM w \<Rightarrow> Inr None
        | _ \<Rightarrow> kbind (hget h v) (\<lambda>o'.
            Inr (if unique_hdr (rc o') \<and> map_option length (ctor_fields (body o')) = Some argc then Some v else None)))"

definition kdrop_reuse_ctor :: "bool \<Rightarrow> nat \<Rightarrow> kheap \<Rightarrow> hval \<Rightarrow> nat \<Rightarrow> (kheap \<times> hval option) hres" where
  "kdrop_reuse_ctor rc_on fuel h v argc =
     hlift (ktry_reuse_ctor rc_on h v argc) (\<lambda>t. case t of
        Some x \<Rightarrow> Some (Inr (h, Some v))
      | None \<Rightarrow> (case v of H_IMM w \<Rightarrow> Some (Inr (h, None))
          | _ \<Rightarrow> if \<not> rc_on then Some (Inr (h, None))
                 else hbind (kdrop rc_on fuel h v) (\<lambda>h1. Some (Inr (h1, None)))))"

definition kreuse_ctor :: "bool \<Rightarrow> nat \<Rightarrow> kheap \<Rightarrow> hval option \<Rightarrow> int \<Rightarrow> string \<Rightarrow> hval list \<Rightarrow> (kheap \<times> hval) hres" where
  "kreuse_ctor rc_on fuel h token tagid name args =
     (case token of
        None \<Rightarrow> Some (Inr (kctor_alloc h tagid name args))
      | Some v \<Rightarrow>
          if \<not> rc_on then Some (Inr (kctor_alloc h tagid name args))
          else hlift (hget h v) (\<lambda>o'.
            case (v, ctor_fields (body o')) of
              (H_PTR a, Some old) \<Rightarrow>
                if \<not> unique_hdr (rc o') \<or> length old \<noteq> length args \<or> kctor_would_pack_value tagid args
                then hbind (kdrop rc_on fuel h v) (\<lambda>h1. Some (Inr (kctor_alloc h1 tagid name args)))
                else hbind (kctor_drop_old_fields_except fuel h old None) (\<lambda>h1.
                       Some (Inr (kctor_rewrite_reused_cell h1 a tagid name args, v)))
            | _ \<Rightarrow> hbind (kdrop rc_on fuel h v) (\<lambda>h1. Some (Inr (kctor_alloc h1 tagid name args)))))"

definition kreuse_ctor_skip ::
  "bool \<Rightarrow> nat \<Rightarrow> kheap \<Rightarrow> hval option \<Rightarrow> int \<Rightarrow> string \<Rightarrow> hval list \<Rightarrow> int list option \<Rightarrow> int list option \<Rightarrow> (kheap \<times> hval) hres" where
  "kreuse_ctor_skip rc_on fuel h token tagid name args mv sk =
     (case token of
        None \<Rightarrow> Some (Inl ''S5 reuse token missing for moved-field unique branch'')
      | Some v \<Rightarrow>
          if \<not> rc_on then Some (Inl ''S5 reuse token used while RC is disabled'')
          else hlift (hget h v) (\<lambda>o'.
            case (v, ctor_fields (body o')) of
              (H_PTR a, Some old) \<Rightarrow>
                if \<not> unique_hdr (rc o') \<or> length old \<noteq> length args \<or> \<not> kctor_move_slots_valid old args mv
                   \<or> \<not> kctor_skip_slots_valid (int (length old)) sk
                then Some (Inl ''S5 reuse token invalid after moved-field unique branch'')
                else if kctor_would_pack_value tagid args then
                  hlift (kctor_dup_moved_args h args mv) (\<lambda>h1.
                    hbind (kctor_discard_token_skip fuel h1 a old mv sk) (\<lambda>h2. Some (Inr (kctor_alloc h2 tagid name args))))
                else hbind (kctor_drop_old_fields_skip fuel h old mv sk) (\<lambda>h1.
                       Some (Inr (kctor_rewrite_reused_cell h1 a tagid name args, v)))
            | _ \<Rightarrow> Some (Inl ''S5 reuse token invalid after moved-field unique branch'')))"

definition kdrop_reuse_ctor_alloc ::
  "bool \<Rightarrow> nat \<Rightarrow> kheap \<Rightarrow> hval \<Rightarrow> nat \<Rightarrow> int \<Rightarrow> string \<Rightarrow> hval list \<Rightarrow> int list option \<Rightarrow> (kheap \<times> hval) hres" where
  "kdrop_reuse_ctor_alloc rc_on fuel h source old_argc tagid name args mv =
     (if \<not> rc_on then Some (Inr (kctor_alloc h tagid name args))
      else case source of
          H_IMM w \<Rightarrow> hlift (kctor_dup_moved_args h args mv) (\<lambda>h1. Some (Inr (kctor_alloc h1 tagid name args)))
        | _ \<Rightarrow> hlift (hget h source) (\<lambda>o'.
            let fs = ctor_fields (body o');
                bad = (\<lambda>old. length old \<noteq> old_argc \<or> old_argc \<noteq> length args \<or> \<not> kctor_move_slots_valid old args mv) in
            if mv \<noteq> None \<and> (case fs of Some old \<Rightarrow> bad old | None \<Rightarrow> False)
            then Some (Inl ''S5 reuse move metadata invalid'')
            else case (source, fs) of
                (H_PTR a, Some old) \<Rightarrow>
                  if unique_hdr (rc o') \<and> \<not> bad old \<and> \<not> kctor_would_pack_value tagid args
                  then hbind (kctor_drop_old_fields_except fuel h old mv) (\<lambda>h1.
                         Some (Inr (kctor_rewrite_reused_cell h1 a tagid name args, source)))
                  else hlift (kctor_dup_moved_args h args mv) (\<lambda>h1.
                         hbind (kdrop rc_on fuel h1 source) (\<lambda>h2. Some (Inr (kctor_alloc h2 tagid name args))))
              | _ \<Rightarrow> hlift (kctor_dup_moved_args h args mv) (\<lambda>h1.
                       hbind (kdrop rc_on fuel h1 source) (\<lambda>h2. Some (Inr (kctor_alloc h2 tagid name args))))))"

section \<open>Marking as shared\<close>

text \<open>The header of a child becomes shared unless it is; the flag is whether it was not.\<close>

definition krc_mark_shared_child_for_publish :: "kheap \<Rightarrow> hval \<Rightarrow> (kheap \<times> bool) kres" where
  "krc_mark_shared_child_for_publish h v =
     (case v of
        H_PTR a \<Rightarrow> kbind (hget h v) (\<lambda>o'.
          if krc_is_shared (rc o') then Inr (h, False) else Inr (set_rc h a (krc_mark_shared_shallow (rc o')), True))
      | _ \<Rightarrow> Inr (h, False))"

text \<open>The state of the marking: the stack of objects to look into, the stack of owned duplicates, the heap.\<close>

type_synonym mark_st = "kwork \<times> kwork \<times> kheap"

definition krc_mark_child :: "mark_st \<Rightarrow> hval \<Rightarrow> mark_st kres" where
  "krc_mark_child s v = (case s of (st, ow, h) \<Rightarrow>
     kbind (krc_mark_shared_child_for_publish h v) (\<lambda>(h1, new).
       Inr (if new then (kwork_push st v, ow, h1) else (st, ow, h1))))"

definition krc_mark_mutable_child :: "bool \<Rightarrow> mark_st \<Rightarrow> hval \<Rightarrow> mark_st kres" where
  "krc_mark_mutable_child rc_on s v = (case s of (st, ow, h) \<Rightarrow>
     kbind (krc_mark_shared_child_for_publish h v) (\<lambda>(h1, new).
       if \<not> new then Inr (st, ow, h1)
       else kbind (kdup rc_on h1 v) (\<lambda>(h2, v'). Inr (kwork_push st v, kwork_push ow v', h2))))"

fun krc_mark_list :: "mark_st \<Rightarrow> hval list \<Rightarrow> mark_st kres" where
  "krc_mark_list s [] = Inr s"
| "krc_mark_list s (c # cs) = kbind (krc_mark_child s c) (\<lambda>s1. krc_mark_list s1 cs)"

fun krc_mark_mutable_list :: "bool \<Rightarrow> mark_st \<Rightarrow> hval list \<Rightarrow> mark_st kres" where
  "krc_mark_mutable_list rc_on s [] = Inr s"
| "krc_mark_mutable_list rc_on s (c # cs) = kbind (krc_mark_mutable_child rc_on s c) (\<lambda>s1. krc_mark_mutable_list rc_on s1 cs)"

definition krc_mark_children :: "bool \<Rightarrow> mark_st \<Rightarrow> hbody \<Rightarrow> mark_st kres" where
  "krc_mark_children rc_on s b =
     (case b of
        B_CTOR _ _ args \<Rightarrow> krc_mark_list s args
      | B_REC fs \<Rightarrow> krc_mark_list s (map snd fs)
      | B_CLO _ env \<Rightarrow> krc_mark_list s env
      | B_IO _ env \<Rightarrow> krc_mark_list s env
      | B_REF v \<Rightarrow> krc_mark_mutable_child rc_on s v
      | B_ARRAY vs \<Rightarrow> krc_mark_mutable_list rc_on s vs
      | B_VARIANT _ _ p \<Rightarrow> krc_mark_child s p
      | B_THUNK _ env cached \<Rightarrow> kbind (krc_mark_list s env) (\<lambda>s1. krc_mark_child s1 (case cached of None \<Rightarrow> H_NULL | Some v \<Rightarrow> v))
      | B_BOUNCE f x \<Rightarrow> kbind (krc_mark_child s f) (\<lambda>s1. krc_mark_child s1 x)
      | B_IOTAIL a \<Rightarrow> krc_mark_child s a
      | B_IOEFFECT a \<Rightarrow> krc_mark_child s a
      | B_IOFINALLY a ds \<Rightarrow> kbind (krc_mark_child s a) (\<lambda>s1. krc_mark_list s1 ds)
      | B_FAIL e \<Rightarrow> krc_mark_child s e
      | B_NATIVE _ _ args \<Rightarrow> krc_mark_list s args
      | _ \<Rightarrow> Inr s)"

fun krc_mark_loop :: "bool \<Rightarrow> nat \<Rightarrow> mark_st \<Rightarrow> (kwork \<times> kheap) hres" where
  "krc_mark_loop rc_on 0 s = None"
| "krc_mark_loop rc_on (Suc n) s =
     (case s of
        ([], ow, h) \<Rightarrow> Some (Inr (ow, h))
      | (v # st, ow, h) \<Rightarrow>
          hlift (hget h v) (\<lambda>o'. hlift (krc_mark_children rc_on (st, ow, h) (body o')) (\<lambda>s1. krc_mark_loop rc_on n s1)))"

fun kdrop_all :: "bool \<Rightarrow> nat \<Rightarrow> kheap \<Rightarrow> kwork \<Rightarrow> kheap hres" where
  "kdrop_all rc_on fuel h [] = Some (Inr h)"
| "kdrop_all rc_on fuel h (v # vs) = hbind (kdrop rc_on fuel h v) (\<lambda>h1. kdrop_all rc_on fuel h1 vs)"

definition krc_mark_shared_recursive :: "bool \<Rightarrow> nat \<Rightarrow> kheap \<Rightarrow> hval \<Rightarrow> kheap hres" where
  "krc_mark_shared_recursive rc_on fuel h root =
     hlift (krc_mark_child ([], [], h) root) (\<lambda>s.
     hbind (krc_mark_loop rc_on fuel s) (\<lambda>(ow, h1). kdrop_all rc_on fuel h1 ow))"

end
