(* ===== verification/Kappa_HeapInv.thy ===== *)
theory Kappa_HeapInv
  imports Kappa_Heap "HOL-Library.Multiset"
begin

text \<open>
  What the counts of the heap mean: the count of an object is the number of references to it that have an
  owner, which are the fields of the objects that own theirs and the references the program holds (the
  multiset \<open>R\<close>), plus references that were abandoned without a drop (\<open>sl\<close>). Every reference with an owner
  points to an object of the heap, and no object with count 0 stays that could have been freed. Dropping,
  freeing, duplicating and allocating keep this, one lemma per operation; the loop that frees ends.
\<close>

section \<open>References\<close>

fun ptr_of :: "hval \<Rightarrow> nat multiset" where
  "ptr_of (H_PTR a) = {#a#}"
| "ptr_of _ = {#}"

definition ptrs :: "hval list \<Rightarrow> nat multiset" where
  "ptrs vs = (\<Sum>v\<leftarrow>vs. ptr_of v)"

lemma ptrs_simps [simp]: "ptrs [] = {#}" "ptrs (v # vs) = ptr_of v + ptrs vs" "ptrs (us @ vs) = ptrs us + ptrs vs"
  by (simp_all add: ptrs_def)

lemma ptrs_mset: "mset us = mset vs \<Longrightarrow> ptrs us = ptrs vs"
proof -
  assume "mset us = mset vs"
  then have "sum_mset (mset (map ptr_of us)) = sum_mset (mset (map ptr_of vs))" by simp
  then show ?thesis unfolding ptrs_def sum_mset_sum_list .
qed

text \<open>The fields an object owns; those of closures and actions belong to the program.\<close>

fun owned :: "hbody \<Rightarrow> hval list" where
  "owned (B_CTOR _ _ args) = args"
| "owned (B_REC fs) = map snd fs"
| "owned (B_VARIANT _ _ p) = [p]"
| "owned (B_BOUNCE f x) = [f, x]"
| "owned (B_FAIL e) = [e]"
| "owned (B_REF v) = [v]"
| "owned (B_ARRAY vs) = vs"
| "owned _ = []"

definition fields :: "kheap \<Rightarrow> nat \<Rightarrow> nat multiset" where
  "fields h a = (case cells h a of None \<Rightarrow> {#} | Some o' \<Rightarrow> ptrs (owned (body o')))"

text \<open>The references held by the objects outside \<open>X\<close>.\<close>

definition held :: "kheap \<Rightarrow> nat set \<Rightarrow> nat multiset" where
  "held h X = (\<Sum>a\<in>dom (cells h) - X. fields h a)"

fun owners_ok :: "nat \<Rightarrow> rc_spec \<Rightarrow> bool" where
  "owners_ok k (Owners _ n) \<longleftrightarrow> n = k"
| "owners_ok k (Sticky _) \<longleftrightarrow> True"

fun spec_zero :: "rc_spec \<Rightarrow> bool" where
  "spec_zero (Owners _ n) \<longleftrightarrow> n = 0"
| "spec_zero (Sticky _) \<longleftrightarrow> False"

text \<open>\<open>X\<close> are objects whose fields are accounted for in \<open>R\<close>, \<open>S\<close> the objects waiting to be freed.\<close>

definition heap_inv :: "kheap \<Rightarrow> nat set \<Rightarrow> nat multiset \<Rightarrow> (nat \<Rightarrow> nat) \<Rightarrow> nat list \<Rightarrow> bool" where
  "heap_inv h X R sl S \<longleftrightarrow>
     dom (cells h) \<subseteq> {..<hbrk h} \<and> (\<forall>a\<ge>hbrk h. sl a = 0) \<and> set_mset (held h X + R) \<subseteq> dom (cells h) \<and>
     (\<forall>a o'. cells h a = Some o' \<longrightarrow>
        owners_ok (count (held h X + R) a + sl a) (rc_abs (rc o')) \<and>
        (freeable_body (body o') \<and> spec_zero (rc_abs (rc o')) \<longrightarrow> a \<in> set S \<union> X)) \<and>
     distinct S \<and>
     (\<forall>a\<in>set S. \<exists>o'. cells h a = Some o' \<and> freeable_body (body o') \<and> spec_zero (rc_abs (rc o')))"

definition heap_ok :: "kheap \<Rightarrow> nat multiset \<Rightarrow> (nat \<Rightarrow> nat) \<Rightarrow> bool" where
  "heap_ok h R sl \<longleftrightarrow> heap_inv h {} R sl []"

lemma inv_owners:
  "heap_inv h X R sl S \<Longrightarrow> cells h a = Some o' \<Longrightarrow> owners_ok (count (held h X + R) a + sl a) (rc_abs (rc o'))"
  by (simp add: heap_inv_def)

lemma inv_zero:
  "heap_inv h X R sl S \<Longrightarrow> cells h a = Some o' \<Longrightarrow> freeable_body (body o') \<Longrightarrow> spec_zero (rc_abs (rc o')) \<Longrightarrow> a \<in> set S \<union> X"
  by (simp add: heap_inv_def)

lemma inv_live: "heap_inv h X R sl S \<Longrightarrow> a \<in># held h X + R \<Longrightarrow> a \<in> dom (cells h)"
  by (auto simp: heap_inv_def)

lemma inv_stack:
  "heap_inv h X R sl S \<Longrightarrow> distinct S"
  "heap_inv h X R sl S \<Longrightarrow> a \<in> set S \<Longrightarrow> \<exists>o'. cells h a = Some o' \<and> freeable_body (body o') \<and> spec_zero (rc_abs (rc o'))"
  "heap_inv h X R sl S \<Longrightarrow> dom (cells h) \<subseteq> {..<hbrk h}"
  "heap_inv h X R sl S \<Longrightarrow> hbrk h \<le> a \<Longrightarrow> sl a = 0"
  by (simp_all add: heap_inv_def)

text \<open>The same objects with the same bodies; only headers differ.\<close>

definition same_bodies :: "kheap \<Rightarrow> kheap \<Rightarrow> bool" where
  "same_bodies h h' \<longleftrightarrow> hbrk h' = hbrk h \<and> (\<forall>a. map_option body (cells h' a) = map_option body (cells h a))"

text \<open>Objects only disappear.\<close>

definition shrinks :: "kheap \<Rightarrow> kheap \<Rightarrow> bool" where
  "shrinks h h' \<longleftrightarrow> hbrk h' = hbrk h \<and> (\<forall>a o'. cells h' a = Some o' \<longrightarrow> (\<exists>o0. cells h a = Some o0 \<and> body o' = body o0))"

lemma same_refl [simp]: "same_bodies h h"
  by (simp add: same_bodies_def)

lemma same_trans: "same_bodies h h1 \<Longrightarrow> same_bodies h1 h2 \<Longrightarrow> same_bodies h h2"
  by (simp add: same_bodies_def)

lemma same_shrinks: "same_bodies h h' \<Longrightarrow> shrinks h h'"
  by (auto simp: same_bodies_def shrinks_def) (metis map_option_eq_Some)

lemma shrinks_trans: "shrinks h h1 \<Longrightarrow> shrinks h1 h2 \<Longrightarrow> shrinks h h2"
  by (fastforce simp: shrinks_def)

lemma same_dom: "same_bodies h h' \<Longrightarrow> dom (cells h') = dom (cells h)"
  unfolding same_bodies_def dom_def by (auto simp: map_option_eq_Some) (metis map_option_is_None option.exhaust)+

lemma same_fields: "same_bodies h h' \<Longrightarrow> fields h' a = fields h a"
  unfolding same_bodies_def fields_def by (cases "cells h a"; cases "cells h' a") (auto dest: spec[of _ a])

lemma same_held: "same_bodies h h' \<Longrightarrow> held h' X = held h X"
  by (simp add: held_def same_dom same_fields)

lemma set_rc_simps [simp]:
  "hbrk (set_rc h a w) = hbrk h" "cells (set_rc h a w) a = map_option (rc_update (\<lambda>_. w)) (cells h a)"
  "b \<noteq> a \<Longrightarrow> cells (set_rc h a w) b = cells h b"
  by (simp_all add: set_rc_def)

lemma same_set_rc [simp]: "same_bodies h (set_rc h a w)"
proof -
  have "map_option body (cells (set_rc h a w) b) = map_option body (cells h b)" for b
    by (cases "b = a") (simp_all add: option.map_comp comp_def)
  then show ?thesis by (simp add: same_bodies_def)
qed

lemma set_rc_same: "cells h a = Some o' \<Longrightarrow> set_rc h a (rc o') = h"
  by (cases h) (simp add: set_rc_def fun_upd_idem)

lemma held_split:
  assumes "v \<in> dom (cells h) - X" "dom (cells h) \<subseteq> {..<n}"
  shows "held h X = fields h v + held h (insert v X)"
proof -
  have f: "finite (dom (cells h) - X)" using assms(2) by (meson finite_Diff finite_lessThan finite_subset)
  have "dom (cells h) - insert v X = dom (cells h) - X - {v}" by auto
  then show ?thesis unfolding held_def using sum.remove[OF f assms(1)] by simp
qed

lemma held_empty: "X = {} \<Longrightarrow> held h X = (\<Sum>a\<in>dom (cells h). fields h a)"
  by (simp add: held_def)

section \<open>Dropping a reference\<close>

lemma drop_child_hdr:
  "kfree_drop_child (st, h) (H_PTR a) = kbind (hget h (H_PTR a)) (\<lambda>o'.
     let (w, fin) = kdrop_hdr True (rc o') in
     Inr (if fin \<and> freeable_body (body o') then H_PTR a # st else st, set_rc h a w))"
  by (cases "cells h a")
    (auto simp: kfree_drop_child_def kdrop_hdr_def Let_def set_rc_same kwork_push_def split_beta kundef_def)

lemma drop_child_inv:
  assumes i: "heap_inv h X (ptr_of c + R) sl S" and x: "\<And>a. c = H_PTR a \<Longrightarrow> a \<in> X \<Longrightarrow> a \<in># R" and s: "set S \<inter> X = {}"
  obtains S' h' where "kfree_drop_child (map H_PTR S, h) c = Inr (map H_PTR S', h')" "heap_inv h' X R sl S'"
    "same_bodies h h'" "set S' \<subseteq> set S \<union> set_mset (ptr_of c)" "set S' \<inter> X = {}"
proof (cases c)
  case (H_PTR a)
  obtain o' where o: "cells h a = Some o'" using i H_PTR by (auto simp: heap_inv_def)
  obtain w fin where w: "kdrop_hdr True (rc o') = (w, fin)" by fastforce
  have sp: "rc_abs w = prod.fst (spec_drop (rc_abs (rc o')))" "fin = prod.snd (spec_drop (rc_abs (rc o')))"
    using kdrop_hdr_abs[of "rc o'"] w by (simp_all add: prod_eq_iff)
  let ?h = "set_rc h a w"
  let ?S = "if fin \<and> freeable_body (body o') then a # S else S"
  have e: "kfree_drop_child (map H_PTR S, h) c = Inr (map H_PTR ?S, ?h)"
    by (simp add: H_PTR drop_child_hdr o w)
  have hd: "held ?h X = held h X" by (rule same_held) simp
  have own: "owners_ok (Suc (count (held h X + R) a + sl a)) (rc_abs (rc o'))"
    using inv_owners[OF i o] H_PTR by simp
  have nS: "a \<notin> set S" using inv_stack(2)[OF i, of a] o own by (cases "rc_abs (rc o')") auto
  have new: "owners_ok (count (held h X + R) a + sl a) (rc_abs w)" "fin = spec_zero (rc_abs w)"
  proof -
    show "owners_ok (count (held h X + R) a + sl a) (rc_abs w)"
    proof (cases "rc_abs (rc o')")
      case (Owners sh n)
      then have "n = Suc (count (held h X + R) a + sl a)" using own by simp
      then show ?thesis using sp Owners by simp
    qed (use sp in auto)
    show "fin = spec_zero (rc_abs w)"
    proof (cases "rc_abs (rc o')")
      case (Owners sh n)
      then obtain k where "n = Suc k" using own by auto
      then show ?thesis using sp Owners by simp
    qed (use sp in auto)
  qed
  have aX: "a \<notin> X" if "fin" 
  proof
    assume "a \<in> X"
    then have "count R a \<noteq> 0" using x[OF H_PTR] by simp
    then show False using new that by (cases "rc_abs w") (auto simp: count_eq_zero_iff)
  qed
  have "heap_inv ?h X R sl ?S" unfolding heap_inv_def hd
  proof (intro conjI allI impI ballI)
    show "dom (cells ?h) \<subseteq> {..<hbrk ?h}" using inv_stack(3)[OF i] by (simp add: same_dom[OF same_set_rc])
    show "sl b = 0" if "hbrk ?h \<le> b" for b using inv_stack(4)[OF i, of b] that by simp
    show "set_mset (held h X + R) \<subseteq> dom (cells ?h)" using inv_live[OF i] by (auto simp: same_dom[OF same_set_rc])
    show "distinct ?S" using inv_stack(1)[OF i] nS by simp
    fix b x assume b: "cells ?h b = Some x"
    show "owners_ok (count (held h X + R) b + sl b) (rc_abs (rc x))"
      using inv_owners[OF i, of b] b o new(1) H_PTR by (cases "b = a") auto
    show "b \<in> set ?S \<union> X" if "freeable_body (body x) \<and> spec_zero (rc_abs (rc x))"
      using inv_zero[OF i, of b] b o new(2) that by (cases "b = a") auto
  next
    fix b assume b: "b \<in> set ?S"
    show "\<exists>x. cells ?h b = Some x \<and> freeable_body (body x) \<and> spec_zero (rc_abs (rc x))"
      using inv_stack(2)[OF i, of b] b o new(2) nS by (cases "b = a") (auto split: if_splits)
  qed
  moreover have "set ?S \<subseteq> set S \<union> set_mset (ptr_of c)" "set ?S \<inter> X = {}" using s aX by (auto simp: H_PTR)
  ultimately show thesis by (intro that[OF e]) simp_all
qed (use assms in \<open>auto intro!: that[of S h] simp: kfree_drop_child_def\<close>)

lemma drop_children_inv:
  assumes "heap_inv h X (ptrs cs + R) sl S" "\<And>a. a \<in># ptrs cs \<Longrightarrow> a \<in> X \<Longrightarrow> a \<in># R" "set S \<inter> X = {}"
  obtains S' h' where "kfree_drop_children (map H_PTR S, h) cs = Inr (map H_PTR S', h')" "heap_inv h' X R sl S'"
    "same_bodies h h'" "set S' \<subseteq> set S \<union> set_mset (ptrs cs)" "set S' \<inter> X = {}"
  using assms
proof (induction cs arbitrary: h S thesis)
  case Nil
  then show ?case by simp
next
  case (Cons c cs)
  have i: "heap_inv h X (ptr_of c + (ptrs cs + R)) sl S" using Cons.prems(2) by (simp add: add.assoc)
  have x: "a \<in># ptrs cs + R" if "c = H_PTR a" "a \<in> X" for a using Cons.prems(3)[of a] that by simp
  obtain S1 h1 where 1: "kfree_drop_child (map H_PTR S, h) c = Inr (map H_PTR S1, h1)" "heap_inv h1 X (ptrs cs + R) sl S1"
    "same_bodies h h1" "set S1 \<subseteq> set S \<union> set_mset (ptr_of c)" "set S1 \<inter> X = {}"
    by (rule drop_child_inv[OF i x Cons.prems(4)])
  have x1: "a \<in># R" if "a \<in># ptrs cs" "a \<in> X" for a using Cons.prems(3)[of a] that by simp
  obtain S2 h2 where 2: "kfree_drop_children (map H_PTR S1, h1) cs = Inr (map H_PTR S2, h2)" "heap_inv h2 X R sl S2"
    "same_bodies h1 h2" "set S2 \<subseteq> set S1 \<union> set_mset (ptrs cs)" "set S2 \<inter> X = {}"
    by (rule Cons.IH[OF _ 1(2) x1 1(5)])
  show ?case
    by (rule Cons.prems(1)[of S2 h2]) (use 1 2 same_trans[OF 1(3) 2(3)] in auto)
qed

section \<open>Freeing\<close>

lemma visit_children:
  assumes "cells h v = Some o'" "freeable_body (body o')"
  shows "kfree_visit (st, h) v = kbind (kfree_drop_children (st, h) (owned (body o'))) (\<lambda>(st, h). Inr (st, hfree h v))"
proof -
  have r: "kbind r Inr = r" for r :: "(kwork \<times> kheap) kres" by (cases r) simp_all
  have one: "kfree_drop_children s [x] = kfree_drop_child s x" for s x by (simp add: r)
  have two: "kfree_drop_children s [x, y] = kbind (kfree_drop_child s x) (\<lambda>s1. kfree_drop_child s1 y)" for s x y
    by (simp add: r)
  show ?thesis using assms by (cases "body o'") (simp_all add: kfree_visit_def one two del: kfree_drop_children.simps(2))
qed

lemma hfree_cells [simp]: "hbrk (hfree h v) = hbrk h" "cells (hfree h v) a = (if a = v then None else cells h a)"
  "dom (cells (hfree h v)) = dom (cells h) - {v}"
  by (auto simp: hfree_def)

lemma hfree_held: "held (hfree h v) X = held h (insert v X)"
proof -
  have "dom (cells (hfree h v)) - X = dom (cells h) - insert v X" by auto
  then show ?thesis unfolding held_def by (auto intro!: sum.cong simp: fields_def)
qed

lemma hfree_inv:
  assumes i: "heap_inv h (insert v X) R sl S" and v: "v \<notin># held h (insert v X) + R" "v \<notin> set S"
  shows "heap_inv (hfree h v) X R sl S"
  unfolding heap_inv_def hfree_held
proof (intro conjI allI impI ballI)
  show "dom (cells (hfree h v)) \<subseteq> {..<hbrk (hfree h v)}" using inv_stack(3)[OF i] by auto
  show "sl b = 0" if "hbrk (hfree h v) \<le> b" for b using inv_stack(4)[OF i, of b] that by simp
  show "set_mset (held h (insert v X) + R) \<subseteq> dom (cells (hfree h v))" using inv_live[OF i] v(1) by auto
  show "distinct S" by (rule inv_stack(1)[OF i])
  fix a o' assume a: "cells (hfree h v) a = Some o'"
  then have av: "a \<noteq> v" "cells h a = Some o'" by (auto split: if_splits)
  show "owners_ok (count (held h (insert v X) + R) a + sl a) (rc_abs (rc o'))" by (rule inv_owners[OF i av(2)])
  show "a \<in> set S \<union> X" if "freeable_body (body o') \<and> spec_zero (rc_abs (rc o'))"
    using inv_zero[OF i av(2)] that av(1) by auto
next
  fix a assume a: "a \<in> set S"
  with v(2) have "a \<noteq> v" by auto
  with inv_stack(2)[OF i a] show "\<exists>o'. cells (hfree h v) a = Some o' \<and> freeable_body (body o') \<and> spec_zero (rc_abs (rc o'))"
    by auto
qed

text \<open>An object whose fields are now accounted for separately.\<close>

lemma take_fields:
  assumes i: "heap_inv h X R sl S0" and v: "cells h v = Some o'" "v \<notin> X" and s: "S0 = S \<or> S0 = v # S"
  shows "heap_inv h (insert v X) (ptrs (owned (body o')) + R) sl S"
proof -
  have "held h X = ptrs (owned (body o')) + held h (insert v X)"
    using held_split[of v h X, OF _ inv_stack(3)[OF i]] v by (auto simp: fields_def)
  then have h: "held h (insert v X) + (ptrs (owned (body o')) + R) = held h X + R" by (simp add: add.commute add.left_commute)
  show ?thesis unfolding heap_inv_def h
  proof (intro conjI allI impI ballI)
    show "dom (cells h) \<subseteq> {..<hbrk h}" by (rule inv_stack(3)[OF i])
    show "sl b = 0" if "hbrk h \<le> b" for b using inv_stack(4)[OF i that] .
    show "set_mset (held h X + R) \<subseteq> dom (cells h)" using inv_live[OF i] by blast
    show "distinct S" using inv_stack(1)[OF i] s by auto
    show "\<exists>o'. cells h a = Some o' \<and> freeable_body (body o') \<and> spec_zero (rc_abs (rc o'))" if "a \<in> set S" for a
      using inv_stack(2)[OF i, of a] that s by auto
    fix a x assume a: "cells h a = Some x"
    show "owners_ok (count (held h X + R) a + sl a) (rc_abs (rc x))" by (rule inv_owners[OF i a])
    show "a \<in> set S \<union> insert v X" if "freeable_body (body x) \<and> spec_zero (rc_abs (rc x))"
      using inv_zero[OF i a] that s by auto
  qed
qed

definition unowned :: "kheap \<Rightarrow> nat set \<Rightarrow> nat multiset \<Rightarrow> bool" where
  "unowned h X R \<longleftrightarrow> (\<forall>x\<in>X. x \<in># R \<or> x \<notin># held h X)"

lemma visit_inv:
  assumes i: "heap_inv h X R sl (v # S)" and s: "(set S \<union> {v}) \<inter> X = {}" and u: "unowned h X R"
  obtains S' h' where "kfree_visit (map H_PTR S, h) v = Inr (map H_PTR S', h')" "heap_inv h' X R sl S'" "shrinks h h'"
    "dom (cells h') = dom (cells h) - {v}" "set S' \<inter> X = {}" "unowned h' X R"
proof -
  obtain o' where o: "cells h v = Some o'" "freeable_body (body o')" "spec_zero (rc_abs (rc o'))"
    using inv_stack(2)[OF i, of v] by auto
  let ?k = "owned (body o')"
  have vS: "v \<notin> set S" "v \<notin> X" using inv_stack(1)[OF i] s by auto
  have hs: "held h X = ptrs ?k + held h (insert v X)"
    using held_split[of v h X, OF _ inv_stack(3)[OF i]] vS(2) o(1) by (auto simp: fields_def)
  have v0: "count (held h X + R) v = 0" using inv_owners[OF i o(1)] o(3) by (cases "rc_abs (rc o')") auto
  have vk: "v \<notin># ptrs ?k" "v \<notin># held h (insert v X) + R" using v0 hs by (auto simp: count_eq_zero_iff)
  have x: "a \<in># R" if "a \<in># ptrs ?k" "a \<in> insert v X" for a
    using that u vk(1) hs by (auto simp: unowned_def)
  obtain S1 h1 where 1: "kfree_drop_children (map H_PTR S, h) ?k = Inr (map H_PTR S1, h1)" "heap_inv h1 (insert v X) R sl S1"
    "same_bodies h h1" "set S1 \<subseteq> set S \<union> set_mset (ptrs ?k)" "set S1 \<inter> insert v X = {}"
  proof (rule drop_children_inv[OF take_fields[OF i o(1) vS(2) disjI2[OF refl]] x])
    show "set S \<inter> insert v X = {}" using s vS by auto
  qed auto
  have hd: "held h1 (insert v X) = held h (insert v X)" by (rule same_held[OF 1(3)])
  show thesis
  proof (rule that[of S1 "hfree h1 v"])
    show "kfree_visit (map H_PTR S, h) v = Inr (map H_PTR S1, hfree h1 v)" by (simp add: visit_children[OF o(1,2)] 1(1))
    show "heap_inv (hfree h1 v) X R sl S1" using vk(2) 1(2,5) by (intro hfree_inv) (simp_all add: hd)
    show "shrinks h (hfree h1 v)" using same_shrinks[OF 1(3)] by (auto simp: shrinks_def split: if_splits)
    show "dom (cells (hfree h1 v)) = dom (cells h) - {v}" by (simp add: same_dom[OF 1(3)])
    show "set S1 \<inter> X = {}" using 1(5) by auto
    show "unowned (hfree h1 v) X R" using u hs by (auto simp: unowned_def hfree_held hd)
  qed
qed

lemma loop_inv:
  assumes "heap_inv h X R sl S" "set S \<inter> X = {}" "unowned h X R" "card (dom (cells h)) < n"
  obtains h' where "kfree_loop n (map H_PTR S, h) = Some (Inr h')" "heap_inv h' X R sl []" "shrinks h h'"
  using assms
proof (induction n arbitrary: h S thesis)
  case (Suc n)
  show ?case
  proof (cases S)
    case Nil
    show ?thesis by (rule Suc.prems(1)[of h]) (use Suc.prems(2) Nil in \<open>simp_all add: shrinks_def\<close>)
  next
    case (Cons v S0)
    have i: "heap_inv h X R sl (v # S0)" using Suc.prems(2) Cons by simp
    obtain o' where o: "cells h v = Some o'" "freeable_body (body o')" "spec_zero (rc_abs (rc o'))"
      using inv_stack(2)[OF i, of v] by auto
    have c: "krc_count (rc o') = 0"
    proof -
      obtain sh where "rc_abs (rc o') = Owners sh 0" using o(3) by (cases "rc_abs (rc o')") auto
      then show ?thesis
        by (auto simp: rc_abs_def krc_count_def krc_is_saturated_def unat_eq_0 split: if_splits)
    qed
    obtain S1 h1 where 1: "kfree_visit (map H_PTR S0, h) v = Inr (map H_PTR S1, h1)" "heap_inv h1 X R sl S1" "shrinks h h1"
      "dom (cells h1) = dom (cells h) - {v}" "set S1 \<inter> X = {}" "unowned h1 X R"
      using visit_inv[OF i _ Suc.prems(4)] Suc.prems(3) Cons by (metis list.simps(15) Un_insert_right sup_bot.right_neutral)
    have f: "finite (dom (cells h))" using inv_stack(3)[OF i] finite_subset by blast
    have "card (dom (cells h1)) < n"
      using Suc.prems(5) card_Diff1_less[OF f, of v] o(1) unfolding 1(4) by (simp add: domI)
    then obtain h' where 2: "kfree_loop n (map H_PTR S1, h1) = Some (Inr h')" "heap_inv h' X R sl []" "shrinks h1 h'"
      using Suc.IH[OF _ 1(2,5,6)] by blast
    show ?thesis
      by (rule Suc.prems(1)[of h']) (use Cons o c 1 2 shrinks_trans[OF 1(3) 2(3)] in \<open>simp_all add: hlift_def\<close>)
  qed
qed simp

section \<open>The operations\<close>

lemma kdrop_inv:
  assumes i: "heap_inv h X (ptr_of v + R) sl []" and x: "\<And>a. v = H_PTR a \<Longrightarrow> a \<in> X \<Longrightarrow> a \<in># R" and u: "unowned h X R"
    and n: "v \<noteq> H_NULL" "hbrk h < fuel"
  obtains h' where "kdrop True fuel h v = Some (Inr h')" "heap_inv h' X R sl []" "shrinks h h'"
proof (cases v)
  case (H_PTR a)
  obtain S1 h1 where 1: "kfree_drop_child (map H_PTR [], h) v = Inr (map H_PTR S1, h1)" "heap_inv h1 X R sl S1"
    "same_bodies h h1" "set S1 \<subseteq> set [] \<union> set_mset (ptr_of v)" "set S1 \<inter> X = {}"
    by (rule drop_child_inv[OF i x]) auto
  obtain o' where o: "cells h a = Some o'" using inv_live[OF i, of a] H_PTR by auto
  obtain w fin where w: "kdrop_hdr True (rc o') = (w, fin)" by fastforce
  have e: "h1 = set_rc h a w" "map H_PTR S1 = (if fin \<and> freeable_body (body o') then [H_PTR a] else [])"
    using 1(1) by (auto simp: H_PTR drop_child_hdr o w split: if_splits)
  show thesis
  proof (cases "fin \<and> freeable_body (body o')")
    case True
    then have S1: "S1 = [a]" using e(2) by auto
    have o1: "cells h1 a = Some (o'\<lparr>rc := w\<rparr>)" by (simp add: e(1) o)
    have z: "spec_zero (rc_abs w)" using inv_stack(2)[OF 1(2), of a] S1 o1 by simp
    then obtain sh where "rc_abs w = Owners sh 0" by (cases "rc_abs w") auto
    then have c: "krc_count w = 0" by (auto simp: rc_abs_def krc_count_def krc_is_saturated_def unat_eq_0 split: if_splits)
    have "card (dom (cells h1)) \<le> card {..<hbrk h1}" using inv_stack(3)[OF 1(2)] by (intro card_mono) auto
    then have card: "card (dom (cells h1)) < fuel" using n(2) by (simp add: e(1))
    have "unowned h1 X R" using u by (simp add: unowned_def same_held[OF 1(3)])
    then obtain h' where 2: "kfree_loop fuel (map H_PTR [a], h1) = Some (Inr h')" "heap_inv h' X R sl []" "shrinks h1 h'"
      using loop_inv[OF 1(2,5) _ card] S1 by blast
    have "kdrop True fuel h v = kfree_recursive fuel h1 a" using True by (simp add: kdrop_def H_PTR o w hlift_def e(1))
    also have "\<dots> = Some (Inr h')"
      using True c 2(1) by (simp add: kfree_recursive_def o1 hlift_def kfree_recursive_impl_def kwork_push_def)
    finally show thesis by (rule that[OF _ 2(2) shrinks_trans[OF same_shrinks[OF 1(3)] 2(3)]])
  next
    case False
    then have "S1 = []" "kdrop True fuel h v = Some (Inr h1)" using e by (auto simp: kdrop_def H_PTR o w hlift_def)
    then show thesis using that[of h1] 1(2) same_shrinks[OF 1(3)] by simp
  qed
next
  case (H_IMM w)
  then show thesis using that[of h] i by (simp add: kdrop_def shrinks_def)
qed (use n in simp)

lemma kdup_inv:
  assumes i: "heap_inv h X R sl S" and a: "\<And>a. v = H_PTR a \<Longrightarrow> a \<in># held h X + R" and n: "v \<noteq> H_NULL"
  obtains h' where "kdup True h v = Inr (h', v)" "heap_inv h' X (ptr_of v + R) sl S" "same_bodies h h'"
proof (cases v)
  case (H_PTR a)
  have aR: "a \<in># held h X + R" by (rule a[OF H_PTR])
  obtain o' where o: "cells h a = Some o'" using inv_live[OF i aR] by auto
  let ?w = "kdup_hdr True (rc o')" and ?h = "set_rc h a (kdup_hdr True (rc o'))"
  have own: "owners_ok (count (held h X + R) a + sl a) (rc_abs (rc o'))" by (rule inv_owners[OF i o])
  have pos: "count (held h X + R) a \<noteq> 0" using aR by (simp add: count_eq_zero_iff)
  have nS: "a \<notin> set S"
  proof
    assume "a \<in> set S"
    then have "spec_zero (rc_abs (rc o'))" using inv_stack(2)[OF i, of a] o by simp
    then show False using own pos by (cases "rc_abs (rc o')") (auto simp: count_eq_zero_iff)
  qed
  have w: "rc_abs ?w = spec_dup (rc_abs (rc o'))" by (rule rc_abs_kdup_hdr)
  have new: "owners_ok (Suc (count (held h X + R) a + sl a)) (rc_abs ?w)" "\<not> spec_zero (rc_abs ?w)"
    unfolding w using own by (cases "rc_abs (rc o')"; simp)+
  have hd: "held ?h X = held h X" by (rule same_held) simp
  have "heap_inv ?h X (ptr_of v + R) sl S" unfolding heap_inv_def hd
  proof (intro conjI allI impI ballI)
    show "dom (cells ?h) \<subseteq> {..<hbrk ?h}" using inv_stack(3)[OF i] by (simp add: same_dom[OF same_set_rc])
    show "sl b = 0" if "hbrk ?h \<le> b" for b using inv_stack(4)[OF i, of b] that by simp
    show "set_mset (held h X + (ptr_of v + R)) \<subseteq> dom (cells ?h)"
      using inv_live[OF i] aR by (auto simp: same_dom[OF same_set_rc] H_PTR)
    show "distinct S" by (rule inv_stack(1)[OF i])
    fix b x assume b: "cells ?h b = Some x"
    show "owners_ok (count (held h X + (ptr_of v + R)) b + sl b) (rc_abs (rc x))"
      using inv_owners[OF i, of b] b o new(1) by (cases "b = a") (auto simp: H_PTR)
    show "b \<in> set S \<union> X" if "freeable_body (body x) \<and> spec_zero (rc_abs (rc x))"
      using inv_zero[OF i, of b] b o new(2) that by (cases "b = a") auto
  next
    fix b assume b: "b \<in> set S"
    with nS have "b \<noteq> a" by auto
    with inv_stack(2)[OF i b] show "\<exists>x. cells ?h b = Some x \<and> freeable_body (body x) \<and> spec_zero (rc_abs (rc x))" by simp
  qed
  then show thesis by (rule that[rotated]) (simp_all add: kdup_def H_PTR o)
next
  case (H_IMM w)
  then show thesis using that[of h] i by (simp add: kdup_def)
qed (use n in simp)

lemma rc_abs_one: "rc_abs 1 = Owners False 1"
  by (simp add: rc_abs_def krc_is_saturated_def krc_is_shared_def KRC_SATURATED_BIT_def KRC_SHARED_BIT_def KRC_COUNT_MASK_def)

lemma halloc_inv:
  assumes i: "heap_inv h {} (ptrs (owned b) + R) sl []"
  shows "heap_inv (prod.fst (halloc h b)) {} ({#hbrk h#} + R) sl []"
proof -
  let ?a = "hbrk h" and ?h = "prod.fst (halloc h b)"
  have new: "cells h ?a = None" using inv_stack(3)[OF i] by auto
  have d: "dom (cells ?h) = insert ?a (dom (cells h))" by (auto simp: halloc_def)
  have f: "finite (dom (cells h))" using inv_stack(3)[OF i] finite_subset by blast
  have "held ?h {} = fields ?h ?a + (\<Sum>a\<in>dom (cells h). fields ?h a)"
    unfolding held_def d using f new by (subst Diff_empty, subst sum.insert) auto
  also have "(\<Sum>a\<in>dom (cells h). fields ?h a) = held h {}"
    unfolding held_def using new by (auto intro!: sum.cong simp: fields_def halloc_def)
  finally have hd: "held ?h {} + ({#?a#} + R) = add_mset ?a (held h {} + (ptrs (owned b) + R))"
    by (simp add: fields_def halloc_def)
  have a0: "count (held h {} + (ptrs (owned b) + R)) ?a = 0"
    using inv_live[OF i, of ?a] new by (auto simp: count_eq_zero_iff)
  show ?thesis unfolding heap_inv_def hd
  proof (intro conjI allI impI ballI)
    show "dom (cells ?h) \<subseteq> {..<hbrk ?h}" using inv_stack(3)[OF i] unfolding d by (auto simp: halloc_def)
    show "sl c = 0" if "hbrk ?h \<le> c" for c using inv_stack(4)[OF i, of c] that by (simp add: halloc_def)
    show "set_mset (add_mset ?a (held h {} + (ptrs (owned b) + R))) \<subseteq> dom (cells ?h)"
      using inv_live[OF i] unfolding d by auto
    fix c x assume c: "cells ?h c = Some x"
    show "owners_ok (count (add_mset ?a (held h {} + (ptrs (owned b) + R))) c + sl c) (rc_abs (rc x))"
    proof (cases "c = ?a")
      case True
      then have "rc x = 1" using c by (auto simp: halloc_def)
      then show ?thesis using True a0 inv_stack(4)[OF i, of ?a] rc_abs_one by simp
    next
      case False
      then show ?thesis using inv_owners[OF i, of c x] c by (simp add: halloc_def)
    qed
    show "c \<in> set [] \<union> {}" if "freeable_body (body x) \<and> spec_zero (rc_abs (rc x))"
    proof (cases "c = ?a")
      case True
      then have "rc x = 1" using c by (auto simp: halloc_def)
      then show ?thesis using that rc_abs_one by simp
    next
      case False
      then show ?thesis using inv_zero[OF i, of c x] c that by (simp add: halloc_def)
    qed
  qed simp_all
qed

section \<open>Reuse\<close>

lemma shrinks_held:
  assumes "shrinks h h'" "dom (cells h) \<subseteq> {..<n}"
  shows "held h' X \<subseteq># held h X"
proof -
  have f: "finite (dom (cells h))" using assms(2) finite_subset by blast
  have d: "dom (cells h') \<subseteq> dom (cells h)" using assms(1) by (fastforce simp: shrinks_def)
  have "held h' X = (\<Sum>a\<in>dom (cells h') - X. fields h a)"
    unfolding held_def
  proof (rule sum.cong[OF refl])
    fix a assume "a \<in> dom (cells h') - X"
    then obtain o' o0 where "cells h' a = Some o'" "cells h a = Some o0" "body o' = body o0"
      using assms(1) by (fastforce simp: shrinks_def)
    then show "fields h' a = fields h a" by (simp add: fields_def)
  qed
  also have "\<dots> \<subseteq># held h X"
    unfolding held_def using f d
    by (subst sum.subset_diff[of "dom (cells h') - X" "dom (cells h) - X"]) auto
  finally show ?thesis .
qed

lemma unique_abs: "unique_hdr w \<Longrightarrow> rc_abs w = Owners False 1"
proof -
  assume u: "unique_hdr w"
  obtain sh sat n where h: "hdr_is w sh sat n" by (rule hdr_isE)
  have c: "w AND KRC_COUNT_MASK = 1" using u by (simp add: unique_hdr_def)
  then have n: "n = 1" using hdr_is_flags(3)[OF h] by simp
  have "w AND (KRC_SHARED_BIT OR KRC_SATURATED_BIT) = 0" using u by (simp add: unique_hdr_def)
  then have "\<not> bit (w AND (KRC_SHARED_BIT OR KRC_SATURATED_BIT)) k" for k by simp
  then have "\<not> bit w 31" "\<not> bit w 30" by (auto simp: bit_and_iff bit_or_iff bit_KRC)
  then have "\<not> sh" "\<not> sat" using hdr_is_flags(1,2)[OF h] shared_bit saturated_bit by blast+
  then show ?thesis using rc_abs_hdr[OF h] n by simp
qed

lemma set_body_cells [simp]:
  "cells (set_body h a b) c = (if c = a then map_option (body_update (\<lambda>_. b)) (cells h a) else cells h c)"
  "hbrk (set_body h a b) = hbrk h"
  by (simp_all add: set_body_def)

lemma rewrite_inv:
  assumes i: "heap_inv h {a} (ptrs args + R) sl []" and a: "cells h a = Some o'" "count (held h {a} + (ptrs args + R)) a + sl a = 1"
  shows "heap_inv (kctor_rewrite_reused_cell h a t n args) {} R sl []"
    "cells (kctor_rewrite_reused_cell h a t n args) a = Some \<lparr>rc = 1, body = B_CTOR t n args\<rparr>"
    "b \<noteq> a \<Longrightarrow> cells (kctor_rewrite_reused_cell h a t n args) b = cells h b"
proof -
  let ?h = "kctor_rewrite_reused_cell h a t n args"
  show ca: "cells ?h a = Some \<lparr>rc = 1, body = B_CTOR t n args\<rparr>" by (simp add: kctor_rewrite_reused_cell_def a(1))
  show cb: "cells ?h b = cells h b" if "b \<noteq> a" for b using that by (simp add: kctor_rewrite_reused_cell_def)
  have b: "hbrk ?h = hbrk h" by (simp add: kctor_rewrite_reused_cell_def)
  have d: "dom (cells ?h) = dom (cells h)"
  proof (rule set_eqI)
    fix c show "c \<in> dom (cells ?h) \<longleftrightarrow> c \<in> dom (cells h)" using ca cb[of c] a(1) by (cases "c = a") (simp_all add: domIff)
  qed
  have "held ?h {} = fields ?h a + held ?h {a}"
    using ca inv_stack(3)[OF i] by (intro held_split[of a ?h "{}" "hbrk h"]) (simp_all add: domI d[symmetric])
  also have "held ?h {a} = held h {a}"
    unfolding held_def d by (rule sum.cong) (auto simp: fields_def cb)
  finally have hd: "held ?h {} + R = held h {a} + (ptrs args + R)" by (simp add: fields_def ca ac_simps)
  show "heap_inv ?h {} R sl []" unfolding heap_inv_def hd
  proof (intro conjI allI impI ballI)
    show "dom (cells ?h) \<subseteq> {..<hbrk ?h}" using inv_stack(3)[OF i] by (simp add: d b)
    show "sl c = 0" if "hbrk ?h \<le> c" for c using inv_stack(4)[OF i, of c] that by (simp add: b)
    show "set_mset (held h {a} + (ptrs args + R)) \<subseteq> dom (cells ?h)" using inv_live[OF i] unfolding d by blast
    fix c x assume c: "cells ?h c = Some x"
    show "owners_ok (count (held h {a} + (ptrs args + R)) c + sl c) (rc_abs (rc x))"
    proof (cases "c = a")
      case True
      then have "rc x = 1" using c ca by auto
      then show ?thesis using a(2) rc_abs_one unfolding True by simp
    next
      case False
      then show ?thesis using inv_owners[OF i, of c x] c cb by simp
    qed
    show "c \<in> set [] \<union> {}" if z: "freeable_body (body x) \<and> spec_zero (rc_abs (rc x))"
    proof (cases "c = a")
      case True
      then have "rc x = 1" using c ca by auto
      then show ?thesis using z rc_abs_one by simp
    next
      case False
      then show ?thesis using inv_zero[OF i, of c x] c cb z by simp
    qed
  qed simp_all
qed

text \<open>Contents of the objects that stay, except the one at \<open>a\<close>.\<close>

definition keeps_but :: "nat \<Rightarrow> kheap \<Rightarrow> kheap \<Rightarrow> bool" where
  "keeps_but a h h' \<longleftrightarrow> (\<forall>b o'. b \<noteq> a \<longrightarrow> b < hbrk h \<longrightarrow> cells h' b = Some o' \<longrightarrow> (\<exists>o0. cells h b = Some o0 \<and> body o' = body o0))"

lemma drop_old_inv:
  assumes i: "heap_inv h {a} (ptrs (kept_fields old mv sk) + R) sl []" and u: "a \<notin># ptrs (kept_fields old mv sk)" "a \<notin># held h {a}"
    and n: "hbrk h < fuel"
  obtains h' where "kctor_drop_old_fields_skip fuel h old mv sk = Some (Inr h')" "heap_inv h' {a} R sl []" "shrinks h h'"
proof -
  obtain S h1 where 1: "kfree_drop_children (map H_PTR [], h) (kept_fields old mv sk) = Inr (map H_PTR S, h1)"
    "heap_inv h1 {a} R sl S" "same_bodies h h1" "set S \<subseteq> set [] \<union> set_mset (ptrs (kept_fields old mv sk))" "set S \<inter> {a} = {}"
  proof (rule drop_children_inv[OF i])
    show "x \<in># R" if "x \<in># ptrs (kept_fields old mv sk)" "x \<in> {a}" for x using that u(1) by simp
  qed auto
  have un: "unowned h1 {a} R" using u(2) by (simp add: unowned_def same_held[OF 1(3)])
  have "card (dom (cells h1)) \<le> card {..<hbrk h1}" using inv_stack(3)[OF 1(2)] by (intro card_mono) auto
  then have card: "card (dom (cells h1)) < fuel" using n 1(3) by (simp add: same_bodies_def)
  obtain h' where 2: "kfree_loop fuel (map H_PTR S, h1) = Some (Inr h')" "heap_inv h' {a} R sl []" "shrinks h1 h'"
    by (rule loop_inv[OF 1(2,5) un card])
  show thesis
    by (rule that[OF _ 2(2) shrinks_trans[OF same_shrinks[OF 1(3)] 2(3)]])
      (use 1(1) 2(1) in \<open>simp add: kctor_drop_old_fields_skip_def hlift_def\<close>)
qed

text \<open>The cell of a unique constructor is given new fields: the references the cell no longer keeps are
  dropped, the new ones are taken over.\<close>

lemma reuse_inv:
  assumes i: "heap_inv h {a} (ptrs (kept_fields old mv sk) + (ptrs args + ({#a#} + R))) sl []"
    and a: "cells h a = Some o'" "unique_hdr (rc o')" and n: "hbrk h < fuel"
  obtains h' where "hbind (kctor_drop_old_fields_skip fuel h old mv sk) (\<lambda>h1. Some (Inr (kctor_rewrite_reused_cell h1 a t nm args, H_PTR a)))
      = Some (Inr (h', H_PTR a))"
    "heap_inv h' {} ({#a#} + R) sl []" "cells h' a = Some \<lparr>rc = 1, body = B_CTOR t nm args\<rparr>" "keeps_but a h h'" "hbrk h' = hbrk h"
proof -
  let ?k = "ptrs (kept_fields old mv sk)"
  have "owners_ok (count (held h {a} + (?k + (ptrs args + ({#a#} + R)))) a + sl a) (Owners False 1)"
    using inv_owners[OF i a(1)] unique_abs[OF a(2)] by simp
  then have one: "count (held h {a}) a = 0" "count ?k a = 0" "count (ptrs args) a = 0" "count R a = 0" "sl a = 0" by auto
  obtain h1 where 1: "kctor_drop_old_fields_skip fuel h old mv sk = Some (Inr h1)"
    "heap_inv h1 {a} (ptrs args + ({#a#} + R)) sl []" "shrinks h h1"
    by (rule drop_old_inv[OF i _ _ n]) (use one in \<open>auto simp: count_eq_zero_iff\<close>)
  have "a \<in> dom (cells h1)" using inv_live[OF 1(2), of a] by simp
  then obtain o1 where o1: "cells h1 a = Some o1" by auto
  have "count (held h1 {a}) a \<le> count (held h {a}) a"
    by (rule mset_subset_eq_count[OF shrinks_held[OF 1(3) inv_stack(3)[OF i]]])
  then have "count (held h1 {a}) a = 0" using one(1) by linarith
  then have c: "count (held h1 {a} + (ptrs args + ({#a#} + R))) a + sl a = 1" using one(3-5) by (simp only: count_union count_single) simp
  note r = rewrite_inv[OF 1(2) o1 c, where t = t and n = nm]
  show thesis
  proof (rule that)
    show "hbind (kctor_drop_old_fields_skip fuel h old mv sk) (\<lambda>h1. Some (Inr (kctor_rewrite_reused_cell h1 a t nm args, H_PTR a)))
      = Some (Inr (kctor_rewrite_reused_cell h1 a t nm args, H_PTR a))" by (simp add: 1(1) hbind_def)
    show "heap_inv (kctor_rewrite_reused_cell h1 a t nm args) {} ({#a#} + R) sl []" by (rule r(1))
    show "cells (kctor_rewrite_reused_cell h1 a t nm args) a = Some \<lparr>rc = 1, body = B_CTOR t nm args\<rparr>" by (rule r(2))
    show "keeps_but a h (kctor_rewrite_reused_cell h1 a t nm args)"
      using 1(3) r(3) by (auto simp: keeps_but_def shrinks_def)
    show "hbrk (kctor_rewrite_reused_cell h1 a t nm args) = hbrk h"
      using 1(3) by (simp add: kctor_rewrite_reused_cell_def shrinks_def)
  qed
qed

text \<open>Moved and kept fields of the old cell, and moved and fresh arguments of the new one.\<close>

fun moved_args :: "hval list \<Rightarrow> int list option \<Rightarrow> hval list" where
  "moved_args args None = []"
| "moved_args args (Some ms) = map prod.fst (filter (\<lambda>(a, s). s \<ge> 0) (zip args ms))"

fun fresh_args :: "hval list \<Rightarrow> int list option \<Rightarrow> hval list" where
  "fresh_args args None = args"
| "fresh_args args (Some ms) = map prod.fst (filter (\<lambda>(a, s). \<not> s \<ge> 0) (zip args ms))"

lemma args_split: "(\<forall>ms. mv = Some ms \<longrightarrow> length ms = length args) \<Longrightarrow> ptrs args = ptrs (fresh_args args mv) + ptrs (moved_args args mv)"
proof (cases mv)
  case (Some ms)
  assume "\<forall>ms. mv = Some ms \<longrightarrow> length ms = length args"
  then have l: "length ms = length args" using Some by simp
  have p: "ptrs (map prod.fst zs) = ptrs (map prod.fst (filter P zs)) + ptrs (map prod.fst (filter (\<lambda>z. \<not> P z) zs))"
    for zs :: "(hval \<times> int) list" and P by (induction zs) auto
  have "args = map prod.fst (zip args ms)" using l by simp
  then show ?thesis using p[of "zip args ms" "\<lambda>(a, s). \<not> s \<ge> 0"] Some by (simp add: split_def)
qed simp

end
