(* ===== verification/Kappa_HeapProps.thy ===== *)
theory Kappa_HeapProps
  imports Kappa_HeapInv
begin

text \<open>
  The properties of the counted heap: a drop frees what lost its last owner and nothing else, and never
  touches a freed object; the in-place reuse of a constructor cell gives the value a new cell would have
  had, with the references accounted for on either path.
\<close>

section \<open>Dropping\<close>

lemma ok_owned:
  assumes "heap_ok h R sl" "cells h a = Some o'" "freeable_body (body o')" "\<not> krc_is_saturated (rc o')" "sl a = 0"
  shows "a \<in># held h {} + R"
proof -
  obtain sh n where n: "rc_abs (rc o') = Owners sh n" using assms(4) by (auto simp: rc_abs_def)
  have i: "heap_inv h {} R sl []" using assms(1) by (simp add: heap_ok_def)
  have "n \<noteq> 0" using inv_zero[OF i assms(2,3)] n by auto
  then have "count (held h {} + R) a \<noteq> 0" using inv_owners[OF i assms(2)] n assms(5) by simp
  then show ?thesis by (simp only: count_eq_zero_iff not_not)
qed

text \<open>C7: dropping a reference is safe and exact. When each object's count is the number of its owners (the
  fields of other objects and the references the program holds, one of them the reference dropped, and the
  abandoned ones \<open>sl\<close>), \<open>kdrop\<close> ends without touching a freed object, the counts are again the numbers of
  owners of a program that holds the reference no more, the objects that stay keep their contents and
  include every object that still has an owner, and none stays that could be freed and has no owner.\<close>
theorem drop_reclaims_exactly:
  assumes "heap_ok h (ptr_of v + R) sl" "v \<noteq> H_NULL" "hbrk h < fuel"
  shows "\<exists>h'. kdrop True fuel h v = Some (Inr h') \<and> heap_ok h' R sl \<and> shrinks h h' \<and>
    set_mset (held h' {} + R) \<subseteq> dom (cells h') \<and>
    (\<forall>a o'. cells h' a = Some o' \<and> freeable_body (body o') \<and> \<not> krc_is_saturated (rc o') \<and> sl a = 0 \<longrightarrow> a \<in># held h' {} + R)"
proof -
  have i: "heap_inv h {} (ptr_of v + R) sl []" using assms(1) by (simp add: heap_ok_def)
  obtain h' where h': "kdrop True fuel h v = Some (Inr h')" "heap_inv h' {} R sl []" "shrinks h h'"
    by (rule kdrop_inv[OF i _ _ assms(2,3)]) (auto simp: unowned_def)
  have ok: "heap_ok h' R sl" using h'(2) by (simp add: heap_ok_def)
  show ?thesis
  proof (intro exI conjI allI impI)
    show "set_mset (held h' {} + R) \<subseteq> dom (cells h')" using inv_live[OF h'(2)] by blast
    show "a \<in># held h' {} + R" if "cells h' a = Some o' \<and> freeable_body (body o') \<and> \<not> krc_is_saturated (rc o') \<and> sl a = 0" for a o'
      using ok_owned[OF ok] that by blast
  qed (use h' ok in simp_all)
qed

text \<open>A pair that owns two strings, the second of which the program holds as well.\<close>

definition pair_heap :: kheap where
  "pair_heap = \<lparr>cells = [0 \<mapsto> \<lparr>rc = 1, body = B_CTOR 40 ''Pair'' [H_PTR 1, H_PTR 2]\<rparr>, 1 \<mapsto> \<lparr>rc = 1, body = B_STR [97]\<rparr>,
     2 \<mapsto> \<lparr>rc = 2, body = B_STR [98]\<rparr>], hbrk = 3\<rparr>"

lemma rc_abs_two: "rc_abs 2 = Owners False 2"
  by (simp add: rc_abs_def krc_is_saturated_def krc_is_shared_def KRC_SATURATED_BIT_def KRC_SHARED_BIT_def KRC_COUNT_MASK_def)

lemma pair_heap_ok: "heap_ok pair_heap {#0, 2#} (\<lambda>_. 0)"
proof -
  have d: "dom (cells pair_heap) = {0, 1, 2}" by (auto simp: pair_heap_def)
  have f: "fields pair_heap 0 = {#1, 2#}" "fields pair_heap 1 = {#}" "fields pair_heap 2 = {#}"
    by (simp_all add: fields_def pair_heap_def del: One_nat_def)
  have h: "held pair_heap {} = {#1, 2#}" unfolding held_def d by (simp add: f del: One_nat_def)
  show ?thesis unfolding heap_ok_def heap_inv_def h d
    by (auto simp: pair_heap_def rc_abs_one rc_abs_two split: if_splits)
qed

lemma drop_reclaims_exactly_witness:
  "\<exists>h'. kdrop True 4 pair_heap (H_PTR 0) = Some (Inr h') \<and> heap_ok h' {#2#} (\<lambda>_. 0) \<and> 2 \<in> dom (cells h') \<and>
     cells h' 0 = None \<and> cells h' 1 = None"
proof -
  have ok: "heap_ok pair_heap (ptr_of (H_PTR 0) + {#2#}) (\<lambda>_. 0)" using pair_heap_ok by (simp add: add_mset_commute)
  have n: "hbrk pair_heap < 4" by (simp add: pair_heap_def)
  obtain h' where h': "kdrop True 4 pair_heap (H_PTR 0) = Some (Inr h')" "heap_ok h' {#2#} (\<lambda>_. 0)"
    "set_mset (held h' {} + {#2#}) \<subseteq> dom (cells h')"
    using drop_reclaims_exactly[OF ok _ n] by auto
  have "cells h' 0 = None \<and> cells h' 1 = None"
  proof -
    have "case kdrop True 4 pair_heap (H_PTR 0) of Some (Inr h) \<Rightarrow> cells h 0 = None \<and> cells h 1 = None | _ \<Rightarrow> False"
      by code_simp
    then show ?thesis by (simp add: h'(1))
  qed
  with h' show ?thesis by auto
qed

section \<open>Reuse\<close>

text \<open>The word \<open>r\<close> is the constructor \<open>t\<close> with the fields \<open>args\<close>: a cell of its own, or the immediate that
  \<open>kctor\<close> packs it into.\<close>

definition is_ctor :: "kheap \<Rightarrow> hval \<Rightarrow> int \<Rightarrow> string \<Rightarrow> hval list \<Rightarrow> bool" where
  "is_ctor h r t n args \<longleftrightarrow>
     (case r of
        H_PTR a \<Rightarrow> cells h a = Some \<lparr>rc = 1, body = B_CTOR t n args\<rparr>
      | H_IMM w \<Rightarrow> kctor t n (map (\<lambda>v. KImm (hv_word v)) args) = KImm w \<and> ptrs args = {#}
      | H_NULL \<Rightarrow> False)"

lemma ctor_alloc_inv:
  assumes i: "heap_inv h {} (ptrs args + R) sl []"
  shows "heap_inv (prod.fst (kctor_alloc h t n args)) {} (ptr_of (prod.snd (kctor_alloc h t n args)) + R) sl []"
    "is_ctor (prod.fst (kctor_alloc h t n args)) (prod.snd (kctor_alloc h t n args)) t n args"
    "b < hbrk h \<Longrightarrow> cells (prod.fst (kctor_alloc h t n args)) b = cells h b"
proof -
  let ?t = "word_of_int t :: u32"
  have f1: "hv_field_packs v \<Longrightarrow> \<exists>w. v = H_IMM w \<and> kctor_field_packs w" for v by (cases v) auto
  have f2: "hv_field2_packs v \<Longrightarrow> \<exists>w. v = H_IMM w \<and> kctor_field2_packs w" for v by (cases v) auto
  consider (nil) "args = []"
    | (one) w where "args = [H_IMM w]" "kctor_tagid_packs ?t" "kctor_field_packs w"
    | (two) w x where "args = [H_IMM w, H_IMM x]" "kctor_tagid_packs ?t" "kctor_field2_packs w" "kctor_field2_packs x"
    | (box) "kctor_alloc h t n args = halloc h (B_CTOR t n args)"
  proof (cases "args = []")
    case False
    show thesis
    proof (cases "length args = 1 \<and> kctor_tagid_packs ?t \<and> hv_field_packs (args ! 0)")
      case True
      then show thesis using one f1[of "args ! 0"] by (auto simp: length_Suc_conv)
    next
      case n1: False
      show thesis
      proof (cases "length args = 2 \<and> kctor_tagid_packs ?t \<and> hv_field2_packs (args ! 0) \<and> hv_field2_packs (args ! 1)")
        case True
        then show thesis using two f2[of "args ! 0"] f2[of "args ! 1"] by (auto simp: length_Suc_conv numeral_2_eq_2)
      next
        case n2: False
        have "kctor_alloc h t n args = halloc h (B_CTOR t n args)"
          using False n1 n2 unfolding kctor_alloc_def Let_def by (simp only: length_0_conv if_False)
        then show thesis by (rule box)
      qed
    qed
  qed (rule nil)
  note c = this
  show "heap_inv (prod.fst (kctor_alloc h t n args)) {} (ptr_of (prod.snd (kctor_alloc h t n args)) + R) sl []"
    using c
  proof cases
    case box
    have "heap_inv h {} (ptrs (owned (B_CTOR t n args)) + R) sl []" using i by simp
    from halloc_inv[OF this] show ?thesis by (simp add: box halloc_def)
  qed (use i in \<open>simp_all add: kctor_alloc_def\<close>)
  show "is_ctor (prod.fst (kctor_alloc h t n args)) (prod.snd (kctor_alloc h t n args)) t n args"
    using c
  proof cases
    case box
    then show ?thesis by (simp add: is_ctor_def halloc_def)
  qed (simp_all add: kctor_alloc_def is_ctor_def kctor_def)
  show "cells (prod.fst (kctor_alloc h t n args)) b = cells h b" if "b < hbrk h"
    using c
  proof cases
    case box
    then show ?thesis using that by (simp add: halloc_def)
  qed (simp_all add: kctor_alloc_def)
qed

lemma dup_moved_inv:
  assumes "heap_inv h {} R sl []" "\<And>a s. (a, s) \<in> set zs \<Longrightarrow> s \<ge> 0 \<Longrightarrow> a \<noteq> H_NULL \<and> set_mset (ptr_of a) \<subseteq> set_mset (held h {} + R)"
  obtains h' where "kctor_dup_moved h zs = Inr h'" "heap_inv h' {} (ptrs (map prod.fst (filter (\<lambda>(a, s). s \<ge> 0) zs)) + R) sl []"
    "same_bodies h h'"
  using assms
proof (induction zs arbitrary: h R thesis)
  case Nil
  show ?case by (rule Nil(1)[of h]) (use Nil in simp_all)
next
  case (Cons z zs)
  obtain a s where z: "z = (a, s)" by fastforce
  show ?case
  proof (cases "s \<ge> 0")
    case True
    have a: "a \<noteq> H_NULL" "set_mset (ptr_of a) \<subseteq> set_mset (held h {} + R)"
      using Cons.prems(3)[of a s] True by (simp_all add: z)
    obtain h1 where 1: "kdup True h a = Inr (h1, a)" "heap_inv h1 {} (ptr_of a + R) sl []" "same_bodies h h1"
      by (rule kdup_inv[OF Cons.prems(2) _ a(1)]) (use a(2) in auto)
    have hd: "held h1 {} = held h {}" by (rule same_held[OF 1(3)])
    obtain h2 where 2: "kctor_dup_moved h1 zs = Inr h2"
      "heap_inv h2 {} (ptrs (map prod.fst (filter (\<lambda>(a, s). s \<ge> 0) zs)) + (ptr_of a + R)) sl []" "same_bodies h1 h2"
    proof (rule Cons.IH[OF _ 1(2)])
      fix b u assume "(b, u) \<in> set zs" "u \<ge> 0"
      then show "b \<noteq> H_NULL \<and> set_mset (ptr_of b) \<subseteq> set_mset (held h1 {} + (ptr_of a + R))"
        using Cons.prems(3)[of b u] by (auto simp: hd)
    qed auto
    show ?thesis
      by (rule Cons.prems(1)[of h2]) (use 1 2 True same_trans[OF 1(3) 2(3)] in \<open>simp_all add: z ac_simps\<close>)
  next
    case False
    obtain h2 where 2: "kctor_dup_moved h zs = Inr h2"
      "heap_inv h2 {} (ptrs (map prod.fst (filter (\<lambda>(a, s). s \<ge> 0) zs)) + R) sl []" "same_bodies h h2"
    proof (rule Cons.IH[OF _ Cons.prems(2)])
      fix b u assume "(b, u) \<in> set zs" "u \<ge> 0"
      then show "b \<noteq> H_NULL \<and> set_mset (ptr_of b) \<subseteq> set_mset (held h {} + R)" using Cons.prems(3)[of b u] by simp
    qed auto
    show ?thesis by (rule Cons.prems(1)[of h2]) (use 2 False in \<open>simp_all add: z\<close>)
  qed
qed

lemma dup_moved_args_inv:
  assumes "heap_inv h {} R sl []" "H_NULL \<notin> set args" "set_mset (ptrs (moved_args args mv)) \<subseteq> set_mset (held h {} + R)"
  obtains h' where "kctor_dup_moved_args h args mv = Inr h'" "heap_inv h' {} (ptrs (moved_args args mv) + R) sl []" "same_bodies h h'"
proof (cases mv)
  case None
  then show thesis using that[of h] assms(1) by (simp add: kctor_dup_moved_args_def)
next
  case (Some ms)
  have p: "set_mset (ptr_of a) \<subseteq> set_mset (ptrs vs)" if "a \<in> set vs" for a vs
    using that by (induction vs) auto
  have z: "a \<noteq> H_NULL \<and> set_mset (ptr_of a) \<subseteq> set_mset (held h {} + R)" if "(a, s) \<in> set (zip args ms)" "s \<ge> 0" for a s
  proof
    show "a \<noteq> H_NULL" using set_zip_leftD[OF that(1)] assms(2) by metis
    have "a \<in> set (moved_args args mv)" using that Some by force
    then show "set_mset (ptr_of a) \<subseteq> set_mset (held h {} + R)" using p assms(3) by blast
  qed
  obtain h' where "kctor_dup_moved h (zip args ms) = Inr h'"
    "heap_inv h' {} (ptrs (map prod.fst (filter (\<lambda>(a, s). s \<ge> 0) (zip args ms))) + R) sl []" "same_bodies h h'"
    by (rule dup_moved_inv[OF assms(1) z])
  then show thesis by (intro that[of h']) (simp_all add: kctor_dup_moved_args_def Some)
qed

lemma old_split:
  assumes "kctor_move_slots_valid old args mv" "\<forall>ms. mv = Some ms \<longrightarrow> length ms = length args"
  shows "ptrs old = ptrs (kept_fields old mv None) + ptrs (moved_args args mv)"
proof -
  let ?n = "length old" and ?P = "\<lambda>i. kctor_move_slot_used (int i) mv"
  have en: "enumerate 0 old = map (\<lambda>i. (i, old ! i)) [0..<?n]"
    by (rule nth_equalityI) (simp_all add: nth_enumerate_eq)
  have k: "kept_fields old mv None = map (nth old) (filter (\<lambda>i. \<not> ?P i) [0..<?n])"
    by (simp add: kept_fields_def kctor_skip_slot_used_def en filter_map comp_def)
  have m: "ptrs (moved_args args mv) = ptrs (map (nth old) (filter ?P [0..<?n]))"
  proof (cases mv)
    case None
    then show ?thesis by (simp add: kctor_move_slot_used_def)
  next
    case (Some ms)
    let ?fs = "filter (\<lambda>s. s \<ge> 0) ms"
    have l: "length ms = length args" using assms(2) Some by simp
    have v: "\<And>a s. (a, s) \<in> set (zip args ms) \<Longrightarrow> s \<ge> 0 \<Longrightarrow> s < int ?n \<and> a = old ! nat s" "distinct ?fs"
      using assms(1) Some by auto
    have "moved_args args mv = map (\<lambda>(a, s). old ! nat s) (filter (\<lambda>(a, s). s \<ge> 0) (zip args ms))"
      using v(1) by (auto simp: Some)
    also have "\<dots> = map (\<lambda>s. old ! nat s) (map prod.snd (filter (\<lambda>(a, s). s \<ge> 0) (zip args ms)))"
      by (simp add: split_def comp_def)
    also have "map prod.snd (filter (\<lambda>(a, s). s \<ge> 0) (zip args ms)) = ?fs"
      using l by (induction args ms rule: list_induct2') auto
    finally have ma: "moved_args args mv = map (nth old) (map nat ?fs)" by simp
    have sub: "s < int ?n" if s: "s \<in> set ?fs" for s
    proof -
      obtain i where i: "i < length ms" "ms ! i = s" using s by (auto simp: in_set_conv_nth)
      then have "(args ! i, s) \<in> set (zip args ms)" using l by (auto simp: set_zip)
      then show ?thesis using v(1) s by auto
    qed
    have "distinct (map nat ?fs)" using v(2) by (auto simp: distinct_map inj_on_def)
    moreover have "set (map nat ?fs) = set (filter ?P [0..<?n])"
    proof (rule set_eqI)
      fix i
      have "i \<in> set (map nat ?fs) \<longleftrightarrow> int i \<in> set ?fs" by force
      also have "\<dots> \<longleftrightarrow> i \<in> set (filter ?P [0..<?n])"
        using sub[of "int i"] by (auto simp: Some kctor_move_slot_used_def)
      finally show "i \<in> set (map nat ?fs) \<longleftrightarrow> i \<in> set (filter ?P [0..<?n])" .
    qed
    ultimately have "mset (map nat ?fs) = mset (filter ?P [0..<?n])"
      using set_eq_iff_mset_eq_distinct by (metis distinct_filter distinct_upt)
    then have "mset (map (nth old) (map nat ?fs)) = mset (map (nth old) (filter ?P [0..<?n]))" by (metis mset_map)
    then show ?thesis unfolding ma by (rule ptrs_mset)
  qed
  have "ptrs (map f xs) = ptrs (map f (filter (\<lambda>i. \<not> P i) xs)) + ptrs (map f (filter P xs))"
    for f :: "nat \<Rightarrow> hval" and P xs by (induction xs) simp_all
  from this[of "nth old" "[0..<?n]" ?P] show ?thesis using m k by (simp add: map_nth)
qed

text \<open>What the caller of \<open>kdrop_reuse_ctor_alloc\<close> provides: an immediate with nothing to move out of it, or a
  constructor cell whose moved fields are the arguments that name them.\<close>

definition reuse_source :: "kheap \<Rightarrow> hval \<Rightarrow> nat \<Rightarrow> hval list \<Rightarrow> int list option \<Rightarrow> bool" where
  "reuse_source h source old_argc args mv \<longleftrightarrow>
     H_NULL \<notin> set args \<and> (\<forall>ms. mv = Some ms \<longrightarrow> length ms = length args) \<and>
     (case source of
        H_NULL \<Rightarrow> False
      | H_IMM w \<Rightarrow> ptrs (moved_args args mv) = {#}
      | H_PTR a \<Rightarrow> (case cells h a of None \<Rightarrow> False
          | Some o' \<Rightarrow> (case ctor_fields (body o') of None \<Rightarrow> False
              | Some old \<Rightarrow> mv \<noteq> None \<longrightarrow> length old = old_argc \<and> old_argc = length args \<and> kctor_move_slots_valid old args mv)))"

text \<open>The path that cannot reuse: duplicate what moves, drop the source, build a new constructor.\<close>

lemma no_reuse:
  assumes i: "heap_inv h {} (ptr_of src + (ptrs (fresh_args args mv) + R)) sl []" and n: "hbrk h < fuel" "src \<noteq> H_NULL"
    and a: "H_NULL \<notin> set args" "\<forall>ms. mv = Some ms \<longrightarrow> length ms = length args"
    and m: "set_mset (ptrs (moved_args args mv)) \<subseteq> set_mset (held h {} + (ptr_of src + (ptrs (fresh_args args mv) + R)))"
  obtains h' r where "hlift (kctor_dup_moved_args h args mv) (\<lambda>h1. hbind (kdrop True fuel h1 src) (\<lambda>h2. Some (Inr (kctor_alloc h2 t nm args))))
      = Some (Inr (h', r))"
    "heap_inv h' {} (ptr_of r + R) sl []" "is_ctor h' r t nm args" "\<And>x. keeps_but x h h'"
proof -
  obtain h1 where 1: "kctor_dup_moved_args h args mv = Inr h1"
    "heap_inv h1 {} (ptrs (moved_args args mv) + (ptr_of src + (ptrs (fresh_args args mv) + R))) sl []" "same_bodies h h1"
    by (rule dup_moved_args_inv[OF i a(1) m])
  have "ptrs (moved_args args mv) + (ptr_of src + (ptrs (fresh_args args mv) + R)) = ptr_of src + (ptrs args + R)"
    using args_split[OF a(2)] by (simp add: ac_simps)
  with 1(2) have i1: "heap_inv h1 {} (ptr_of src + (ptrs args + R)) sl []" by simp
  have n1: "hbrk h1 < fuel" using n(1) 1(3) by (simp add: same_bodies_def)
  obtain h2 where 2: "kdrop True fuel h1 src = Some (Inr h2)" "heap_inv h2 {} (ptrs args + R) sl []" "shrinks h1 h2"
    by (rule kdrop_inv[OF i1 _ _ n(2) n1]) (auto simp: unowned_def)
  note 3 = ctor_alloc_inv[OF 2(2), where t = t and n = nm]
  have sh: "shrinks h h2" by (rule shrinks_trans[OF same_shrinks[OF 1(3)] 2(3)])
  show thesis
  proof (rule that)
    show "hlift (kctor_dup_moved_args h args mv) (\<lambda>h1. hbind (kdrop True fuel h1 src) (\<lambda>h2. Some (Inr (kctor_alloc h2 t nm args))))
      = Some (Inr (prod.fst (kctor_alloc h2 t nm args), prod.snd (kctor_alloc h2 t nm args)))"
      by (simp add: 1(1) 2(1) hlift_def hbind_def)
    show "keeps_but x h (prod.fst (kctor_alloc h2 t nm args))" for x
    proof -
      have "hbrk h2 = hbrk h" using sh by (simp add: shrinks_def)
      then show ?thesis using 3(3) sh by (simp add: keeps_but_def shrinks_def)
    qed
  qed (rule 3)+
qed

text \<open>C10: building a constructor over a dropped one keeps the heap accounted for. For a source the program
  owns, fresh arguments it owns and moved arguments that are fields of the source, \<open>kdrop_reuse_ctor_alloc\<close>
  gives the constructor with exactly these fields, whether it reuses the cell in place (one owner, thread-local)
  or duplicates, drops and allocates; afterwards the counts are the numbers of owners of a program that
  holds the result in place of the source and the fresh arguments, and no other object changes its contents.\<close>
theorem drop_reuse_accounts:
  assumes "heap_ok h (ptr_of src + (ptrs (fresh_args args mv) + R)) sl" "reuse_source h src old_argc args mv" "hbrk h < fuel"
  shows "\<exists>h' r. kdrop_reuse_ctor_alloc True fuel h src old_argc t nm args mv = Some (Inr (h', r)) \<and>
     heap_ok h' (ptr_of r + R) sl \<and> is_ctor h' r t nm args \<and>
     (\<forall>b o'. H_PTR b \<noteq> src \<and> b < hbrk h \<and> cells h' b = Some o' \<longrightarrow> (\<exists>o0. cells h b = Some o0 \<and> body o' = body o0))"
proof -
  have i: "heap_inv h {} (ptr_of src + (ptrs (fresh_args args mv) + R)) sl []" using assms(1) by (simp add: heap_ok_def)
  have a: "H_NULL \<notin> set args" "\<forall>ms. mv = Some ms \<longrightarrow> length ms = length args" using assms(2) by (simp_all add: reuse_source_def)
  have done_if: ?thesis
    if k: "kdrop_reuse_ctor_alloc True fuel h src old_argc t nm args mv = Some (Inr (h', r))"
      "heap_inv h' {} (ptr_of r + R) sl []" "is_ctor h' r t nm args" "\<And>b. H_PTR b = src \<Longrightarrow> keeps_but b h h'"
      "(\<And>b. H_PTR b \<noteq> src) \<Longrightarrow> (\<And>b. keeps_but b h h')" for h' r
  proof -
    have "\<exists>o0. cells h b = Some o0 \<and> body o' = body o0"
      if b: "H_PTR b \<noteq> src \<and> b < hbrk h \<and> cells h' b = Some o'" for b o'
    proof (cases "\<exists>c. H_PTR c = src")
      case True
      then show ?thesis using k(4) b by (auto simp: keeps_but_def)
    next
      case False
      then have "keeps_but (Suc b) h h'" using k(5) by blast
      then show ?thesis using b by (simp add: keeps_but_def)
    qed
    then show ?thesis using k(1-3) unfolding heap_ok_def by blast
  qed
  show ?thesis
  proof (cases src)
    case (H_IMM w)
    have m: "ptrs (moved_args args mv) = {#}" using assms(2) H_IMM by (simp add: reuse_source_def)
    obtain h' r where r: "hlift (kctor_dup_moved_args h args mv) (\<lambda>h1. hbind (kdrop True fuel h1 src) (\<lambda>h2. Some (Inr (kctor_alloc h2 t nm args))))
      = Some (Inr (h', r))" "heap_inv h' {} (ptr_of r + R) sl []" "is_ctor h' r t nm args" "\<And>x. keeps_but x h h'"
      by (rule no_reuse[OF i assms(3) _ a, where t = t and nm = nm]) (use H_IMM m in simp_all)
    have "kdrop_reuse_ctor_alloc True fuel h src old_argc t nm args mv = Some (Inr (h', r))"
      using r(1) by (simp add: kdrop_reuse_ctor_alloc_def H_IMM kdrop_def hbind_def)
    then show ?thesis using r by (intro done_if)
  next
    case (H_PTR c)
    obtain o' old where o: "cells h c = Some o'" "ctor_fields (body o') = Some old"
      and mv: "mv \<noteq> None \<Longrightarrow> length old = old_argc \<and> old_argc = length args \<and> kctor_move_slots_valid old args mv"
      using assms(2) H_PTR by (auto simp: reuse_source_def split: option.splits)
    have ow: "owned (body o') = old" using o(2) by (cases "body o'") auto
    have val: "kctor_move_slots_valid old args mv" using mv by (cases mv) auto
    note sp = old_split[OF val a(2)]
    have hs: "held h {} = ptrs old + held h {c}"
      using held_split[of c h "{}", OF _ inv_stack(3)[OF i]] o(1) ow by (auto simp: fields_def)
    let ?bad = "length old \<noteq> old_argc \<or> old_argc \<noteq> length args \<or> \<not> kctor_move_slots_valid old args mv"
    have code: "kdrop_reuse_ctor_alloc True fuel h src old_argc t nm args mv =
        (if unique_hdr (rc o') \<and> \<not> ?bad \<and> \<not> kctor_would_pack_value t args
         then hbind (kctor_drop_old_fields_except fuel h old mv) (\<lambda>h1. Some (Inr (kctor_rewrite_reused_cell h1 c t nm args, H_PTR c)))
         else hlift (kctor_dup_moved_args h args mv) (\<lambda>h1. hbind (kdrop True fuel h1 src) (\<lambda>h2. Some (Inr (kctor_alloc h2 t nm args)))))"
    proof -
      have "\<not> (mv \<noteq> None \<and> ?bad)" using mv by blast
      then show ?thesis by (cases mv) (auto simp: kdrop_reuse_ctor_alloc_def H_PTR hlift_def o Let_def)
    qed
    show ?thesis
    proof (cases "unique_hdr (rc o') \<and> \<not> ?bad \<and> \<not> kctor_would_pack_value t args")
      case True
      have "heap_inv h {c} (ptrs old + (ptr_of src + (ptrs (fresh_args args mv) + R))) sl []"
        using take_fields[OF i o(1) _ disjI1[OF refl]] ow by simp
      moreover have "ptrs old + (ptr_of src + (ptrs (fresh_args args mv) + R)) =
          ptrs (kept_fields old mv None) + (ptrs args + ({#c#} + R))"
        using sp args_split[OF a(2)] by (simp add: H_PTR ac_simps)
      ultimately have ic: "heap_inv h {c} (ptrs (kept_fields old mv None) + (ptrs args + ({#c#} + R))) sl []" by simp
      obtain h' where r: "hbind (kctor_drop_old_fields_skip fuel h old mv None) (\<lambda>h1. Some (Inr (kctor_rewrite_reused_cell h1 c t nm args, H_PTR c)))
          = Some (Inr (h', H_PTR c))" "heap_inv h' {} ({#c#} + R) sl []"
        "cells h' c = Some \<lparr>rc = 1, body = B_CTOR t nm args\<rparr>" "keeps_but c h h'"
        by (rule reuse_inv[OF ic o(1) _ assms(3), where t = t and nm = nm]) (use True in simp_all)
      have e: "kdrop_reuse_ctor_alloc True fuel h src old_argc t nm args mv = Some (Inr (h', H_PTR c))"
        unfolding code if_P[OF True] kctor_drop_old_fields_except_def by (rule r(1))
      show ?thesis
      proof (rule done_if[OF e])
        show "keeps_but b h h'" if "\<And>b. H_PTR b \<noteq> src" for b using that H_PTR by blast
      qed (use r in \<open>simp_all add: is_ctor_def H_PTR\<close>)
    next
      case False
      have m: "set_mset (ptrs (moved_args args mv)) \<subseteq> set_mset (held h {} + (ptr_of src + (ptrs (fresh_args args mv) + R)))"
        unfolding hs sp by auto
      obtain h' r where r: "hlift (kctor_dup_moved_args h args mv) (\<lambda>h1. hbind (kdrop True fuel h1 src) (\<lambda>h2. Some (Inr (kctor_alloc h2 t nm args))))
        = Some (Inr (h', r))" "heap_inv h' {} (ptr_of r + R) sl []" "is_ctor h' r t nm args" "\<And>x. keeps_but x h h'"
        by (rule no_reuse[OF i assms(3) _ a m, where t = t and nm = nm]) (use H_PTR in simp_all)
      have "kdrop_reuse_ctor_alloc True fuel h src old_argc t nm args mv = Some (Inr (h', r))"
        unfolding code if_not_P[OF False] by (rule r(1))
      then show ?thesis using r by (intro done_if)
    qed
  qed (use assms(2) in \<open>simp add: reuse_source_def\<close>)
qed

text \<open>The pair gives its second string to a new pair whose first field is an integer.\<close>

lemma drop_reuse_accounts_witness:
  "\<exists>h'. kdrop_reuse_ctor_alloc True 4 pair_heap (H_PTR 0) 2 41 ''Swap'' [H_PTR 2, H_IMM 1] (Some [1, -1]) = Some (Inr (h', H_PTR 0)) \<and>
     heap_ok h' {#0, 2#} (\<lambda>_. 0) \<and> cells h' 0 = Some \<lparr>rc = 1, body = B_CTOR 41 ''Swap'' [H_PTR 2, H_IMM 1]\<rparr> \<and> cells h' 1 = None"
proof -
  let ?args = "[H_PTR 2, H_IMM 1]" and ?mv = "Some [1, -1] :: int list option"
  have ok: "heap_ok pair_heap (ptr_of (H_PTR 0) + (ptrs (fresh_args ?args ?mv) + {#2#})) (\<lambda>_. 0)"
    using pair_heap_ok by (simp add: add_mset_commute)
  have src: "reuse_source pair_heap (H_PTR 0) 2 ?args ?mv" by (simp add: reuse_source_def pair_heap_def)
  have n: "hbrk pair_heap < 4" by (simp add: pair_heap_def)
  obtain h' r where h': "kdrop_reuse_ctor_alloc True 4 pair_heap (H_PTR 0) 2 41 ''Swap'' ?args ?mv = Some (Inr (h', r))"
    "heap_ok h' (ptr_of r + {#2#}) (\<lambda>_. 0)" "is_ctor h' r 41 ''Swap'' ?args"
    using drop_reuse_accounts[OF ok src n, of 41 "''Swap''"] by blast
  have "case kdrop_reuse_ctor_alloc True 4 pair_heap (H_PTR 0) 2 41 ''Swap'' ?args ?mv of
      Some (Inr (h, r)) \<Rightarrow> r = H_PTR 0 \<and> cells h 1 = None | _ \<Rightarrow> False"
    by code_simp
  then have "r = H_PTR 0" "cells h' 1 = None" by (simp_all add: h'(1))
  then show ?thesis using h' by (auto simp: is_ctor_def add_mset_commute)
qed

end
