(* ===== verification/Kappa_HeapMark.thy ===== *)
theory Kappa_HeapMark
  imports Kappa_HeapInv
begin

text \<open>
  Publication: \<open>krc_mark_shared_recursive\<close> makes everything that can be reached from a value shared, so that
  other threads count it with atomic operations. The walk stops at objects that are shared already, which is
  right because what a shared object refers to is shared (\<open>published\<close>), and this the walk keeps. It
  duplicates what it takes out of mutable cells while it works, and gives the duplicates back.
\<close>

section \<open>Shared objects\<close>

fun spec_shared :: "rc_spec \<Rightarrow> bool" where
  "spec_shared (Owners sh _) = sh"
| "spec_shared (Sticky sh) = sh"

lemma is_shared_abs: "krc_is_shared w = spec_shared (rc_abs w)"
  by (simp add: rc_abs_def)

definition shared :: "kheap \<Rightarrow> nat \<Rightarrow> bool" where
  "shared h a \<longleftrightarrow> (\<exists>o'. cells h a = Some o' \<and> krc_is_shared (rc o'))"

text \<open>What an object refers to, owned or not.\<close>

fun refers :: "hbody \<Rightarrow> hval list" where
  "refers (B_CLO _ env) = env"
| "refers (B_IO _ env) = env"
| "refers (B_THUNK _ env cached) = env @ (case cached of None \<Rightarrow> [] | Some v \<Rightarrow> [v])"
| "refers (B_IOTAIL a) = [a]"
| "refers (B_IOEFFECT a) = [a]"
| "refers (B_IOFINALLY a ds) = a # ds"
| "refers (B_NATIVE _ _ args) = args"
| "refers b = owned b"

definition targets :: "kheap \<Rightarrow> nat \<Rightarrow> nat set" where
  "targets h a = (case cells h a of None \<Rightarrow> {} | Some o' \<Rightarrow> set_mset (ptrs (refers (body o'))))"

definition published :: "kheap \<Rightarrow> bool" where
  "published h \<longleftrightarrow> (\<forall>a. shared h a \<longrightarrow> (\<forall>c\<in>targets h a. shared h c))"

definition closed_heap :: "kheap \<Rightarrow> bool" where
  "closed_heap h \<longleftrightarrow> (\<forall>a. targets h a \<subseteq> dom (cells h))"

lemma same_targets: "same_bodies h h' \<Longrightarrow> targets h' a = targets h a"
  unfolding same_bodies_def targets_def by (cases "cells h a"; cases "cells h' a") (auto dest: spec[of _ a])

section \<open>Headers\<close>

text \<open>Giving one object a header with the same number of owners, or one that is saturated.\<close>

lemma share_inv:
  assumes i: "heap_inv h X R sl S" and o: "cells h a = Some o'"
  shows "heap_inv (set_rc h a (krc_mark_shared_shallow (rc o'))) X R sl S"
proof -
  let ?h = "set_rc h a (krc_mark_shared_shallow (rc o'))"
  have hd: "held ?h X = held h X" by (rule same_held) simp
  have w: "rc_abs (krc_mark_shared_shallow (rc o')) = spec_share (rc_abs (rc o'))" by (rule rc_abs_mark_shared)
  have k: "owners_ok k (rc_abs (krc_mark_shared_shallow (rc o'))) = owners_ok k (rc_abs (rc o'))"
    "spec_zero (rc_abs (krc_mark_shared_shallow (rc o'))) = spec_zero (rc_abs (rc o'))" for k
    unfolding w by (cases "rc_abs (rc o')"; simp)+
  show ?thesis unfolding heap_inv_def hd
  proof (intro conjI allI impI ballI)
    show "dom (cells ?h) \<subseteq> {..<hbrk ?h}" using inv_stack(3)[OF i] by (simp add: same_dom[OF same_set_rc])
    show "sl b = 0" if "hbrk ?h \<le> b" for b using inv_stack(4)[OF i, of b] that by simp
    show "set_mset (held h X + R) \<subseteq> dom (cells ?h)" using inv_live[OF i] by (auto simp: same_dom[OF same_set_rc])
    show "distinct S" by (rule inv_stack(1)[OF i])
    fix b x assume b: "cells ?h b = Some x"
    show "owners_ok (count (held h X + R) b + sl b) (rc_abs (rc x))"
      using inv_owners[OF i, of b] b o k(1) by (cases "b = a") auto
    show "b \<in> set S \<union> X" if "freeable_body (body x) \<and> spec_zero (rc_abs (rc x))"
      using inv_zero[OF i, of b] b o k(2) that by (cases "b = a") auto
  next
    fix b assume b: "b \<in> set S"
    show "\<exists>x. cells ?h b = Some x \<and> freeable_body (body x) \<and> spec_zero (rc_abs (rc x))"
      using inv_stack(2)[OF i b] o k(2) by (cases "b = a") auto
  qed
qed

lemma shared_set_rc: "cells h a = Some o' \<Longrightarrow> shared (set_rc h a w) b \<longleftrightarrow> (if b = a then krc_is_shared w else shared h b)"
  by (simp add: shared_def)

text \<open>Duplicating and dropping leave the flag.\<close>

lemma kdup_shared: "krc_is_shared (kdup_hdr True w) = krc_is_shared w"
  unfolding is_shared_abs rc_abs_kdup_hdr by (cases "rc_abs w") simp_all

lemma kdrop_shared: "krc_is_shared (prod.fst (kdrop_hdr True w)) = krc_is_shared w"
proof -
  have "rc_abs (prod.fst (kdrop_hdr True w)) = prod.fst (spec_drop (rc_abs w))"
    using kdrop_hdr_abs[of w] by (simp add: prod_eq_iff)
  moreover have "spec_shared (prod.fst (spec_drop r)) = spec_shared r" for r by (cases r rule: spec_drop.cases) simp_all
  ultimately show ?thesis by (simp add: is_shared_abs)
qed

text \<open>Dropping a duplicate of what still has an owner frees nothing.\<close>

lemma kdrop_owned:
  assumes i: "heap_inv h {} (add_mset a R) sl []" and a: "a \<in># held h {} + R"
  obtains h' where "kdrop True fuel h (H_PTR a) = Some (Inr h')" "heap_inv h' {} R sl []" "same_bodies h h'"
    "\<forall>b. shared h' b = shared h b"
proof -
  have i': "heap_inv h {} (ptr_of (H_PTR a) + R) sl []" using i by simp
  obtain S h1 where 1: "kfree_drop_child (map H_PTR [], h) (H_PTR a) = Inr (map H_PTR S, h1)" "heap_inv h1 {} R sl S"
    "same_bodies h h1" "set S \<subseteq> set [] \<union> set_mset (ptr_of (H_PTR a))" "set S \<inter> {} = {}"
    by (rule drop_child_inv[OF i']) auto
  obtain o' where o: "cells h a = Some o'" using inv_live[OF i, of a] by auto
  obtain w fin where w: "kdrop_hdr True (rc o') = (w, fin)" by fastforce
  have e: "h1 = set_rc h a w" "map H_PTR S = (if fin \<and> freeable_body (body o') then [H_PTR a] else [])"
    using 1(1) by (auto simp: drop_child_hdr o w split: if_splits)
  have "a \<notin> set S"
  proof
    assume "a \<in> set S"
    from inv_stack(2)[OF 1(2) this] obtain x where x: "cells h1 a = Some x" "spec_zero (rc_abs (rc x))" by blast
    have "count (held h1 {} + R) a \<noteq> 0" using a same_held[OF 1(3)] by (simp only: count_eq_zero_iff not_not)
    moreover obtain sh where "rc_abs (rc x) = Owners sh 0" using x(2) by (cases "rc_abs (rc x)") auto
    ultimately show False using inv_owners[OF 1(2) x(1)] by (simp only: owners_ok.simps)
  qed
  then have S: "S = []" "\<not> (fin \<and> freeable_body (body o'))" using e(2) by (auto split: if_splits)
  show thesis
  proof (rule that[of h1])
    show "kdrop True fuel h (H_PTR a) = Some (Inr h1)" using S(2) by (auto simp: kdrop_def o w hlift_def e(1) Let_def)
    have "shared h1 b = shared h b" for b
    proof (cases "b = a")
      case True
      have "krc_is_shared w = krc_is_shared (rc o')" using kdrop_shared[of "rc o'"] w by simp
      then show ?thesis using True o by (simp add: e(1) shared_def)
    qed (simp add: e(1) shared_def)
    then show "\<forall>b. shared h1 b = shared h b" by blast
  qed (use 1 S in simp_all)
qed

section \<open>The walk\<close>

definition unshared :: "kheap \<Rightarrow> nat" where
  "unshared h = card {a \<in> dom (cells h). \<not> shared h a}"

text \<open>The state of the walk from the heap \<open>h0\<close>: \<open>S\<close> the objects still to look into, \<open>D\<close> the duplicates,
  \<open>E\<close> an object being looked into.\<close>

definition mark_ok :: "kheap \<Rightarrow> nat multiset \<Rightarrow> (nat \<Rightarrow> nat) \<Rightarrow> nat set \<Rightarrow> nat list \<Rightarrow> nat list \<Rightarrow> kheap \<Rightarrow> bool" where
  "mark_ok h0 R sl E S D h \<longleftrightarrow>
     heap_inv h {} (mset D + R) sl [] \<and> same_bodies h0 h \<and> closed_heap h0 \<and>
     (\<forall>a. shared h0 a \<longrightarrow> shared h a) \<and> (\<forall>a\<in>set S. shared h a) \<and>
     (\<forall>a. shared h a \<longrightarrow> a \<notin> set S \<union> E \<longrightarrow> (\<forall>c\<in>targets h0 a. shared h c)) \<and>
     set D \<subseteq> set_mset (held h0 {} + R)"

lemma mark_okD:
  assumes "mark_ok h0 R sl E S D h"
  shows "heap_inv h {} (mset D + R) sl []" "same_bodies h0 h" "closed_heap h0" "\<And>a. shared h0 a \<Longrightarrow> shared h a"
    "\<And>a. a \<in> set S \<Longrightarrow> shared h a" "\<And>a c. shared h a \<Longrightarrow> a \<notin> set S \<union> E \<Longrightarrow> c \<in> targets h0 a \<Longrightarrow> shared h c"
    "set D \<subseteq> set_mset (held h0 {} + R)"
  using assms by (simp_all add: mark_ok_def)

text \<open>One header more is shared, and its object joins the stack.\<close>

lemma share_ok:
  assumes m: "mark_ok h0 R sl E S D h" and o: "cells h a = Some o'" "\<not> shared h a"
  defines "h1 \<equiv> set_rc h a (krc_mark_shared_shallow (rc o'))"
  shows "mark_ok h0 R sl E (a # S) D h1" "shared h1 a" "\<And>b. shared h b \<Longrightarrow> shared h1 b" "length (a # S) + unshared h1 \<le> length S + unshared h"
proof -
  note d = mark_okD[OF m]
  have sa: "shared h1 b \<longleftrightarrow> b = a \<or> shared h b" for b
  proof -
    have "krc_is_shared (krc_mark_shared_shallow (rc o'))"
      unfolding is_shared_abs rc_abs_mark_shared by (cases "rc_abs (rc o')") simp_all
    then show ?thesis using o(1) by (simp add: h1_def shared_set_rc)
  qed
  show "shared h1 a" "\<And>b. shared h b \<Longrightarrow> shared h1 b" using sa by simp_all
  show "mark_ok h0 R sl E (a # S) D h1" unfolding mark_ok_def
  proof (intro conjI allI impI ballI)
    show "heap_inv h1 {} (mset D + R) sl []" unfolding h1_def by (rule share_inv[OF d(1) o(1)])
    show "same_bodies h0 h1" unfolding h1_def by (rule same_trans[OF d(2) same_set_rc])
    show "shared h1 c" if "shared h1 b" "b \<notin> set (a # S) \<union> E" "c \<in> targets h0 b" for b c
      using d(6)[of b c] that sa by auto
  qed (use d sa in auto)
  have dm: "dom (cells h1) = dom (cells h)" unfolding h1_def by (rule same_dom[OF same_set_rc])
  have "finite (dom (cells h))" using inv_stack(3)[OF d(1)] finite_subset by blast
  then have f: "finite {b \<in> dom (cells h). \<not> shared h b}" by simp
  have "{b \<in> dom (cells h1). \<not> shared h1 b} = {b \<in> dom (cells h). \<not> shared h b} - {a}" using sa dm by auto
  moreover have "a \<in> {b \<in> dom (cells h). \<not> shared h b}" using o by auto
  ultimately have "unshared h1 < unshared h" unfolding unshared_def using card_Diff1_less[OF f] by simp
  then show "length (a # S) + unshared h1 \<le> length S + unshared h" by simp
qed

text \<open>A part of the walk that shares the objects \<open>T\<close>.\<close>

definition shares :: "kheap \<Rightarrow> nat multiset \<Rightarrow> (nat \<Rightarrow> nat) \<Rightarrow> nat set \<Rightarrow> (mark_st \<Rightarrow> mark_st kres) \<Rightarrow> nat set \<Rightarrow> bool" where
  "shares h0 R sl E f T \<longleftrightarrow>
     (\<forall>S D h. mark_ok h0 R sl E S D h \<longrightarrow>
        (\<exists>S' D' h'. f (map H_PTR S, map H_PTR D, h) = Inr (map H_PTR S', map H_PTR D', h') \<and> mark_ok h0 R sl E S' D' h' \<and>
           (\<forall>x\<in>T. shared h' x) \<and> (\<forall>x. shared h x \<longrightarrow> shared h' x) \<and> length S' + unshared h' \<le> length S + unshared h))"

lemma sharesE:
  assumes "shares h0 R sl E f T" "mark_ok h0 R sl E S D h"
  obtains S' D' h' where "f (map H_PTR S, map H_PTR D, h) = Inr (map H_PTR S', map H_PTR D', h')" "mark_ok h0 R sl E S' D' h'"
    "\<forall>x\<in>T. shared h' x" "\<forall>x. shared h x \<longrightarrow> shared h' x" "length S' + unshared h' \<le> length S + unshared h"
  using assms unfolding shares_def by blast

lemma sharesI:
  assumes "\<And>S D h. mark_ok h0 R sl E S D h \<Longrightarrow>
     \<exists>S' D' h'. f (map H_PTR S, map H_PTR D, h) = Inr (map H_PTR S', map H_PTR D', h') \<and> mark_ok h0 R sl E S' D' h' \<and>
       (\<forall>x\<in>T. shared h' x) \<and> (\<forall>x. shared h x \<longrightarrow> shared h' x) \<and> length S' + unshared h' \<le> length S + unshared h"
  shows "shares h0 R sl E f T"
  using assms unfolding shares_def by blast

lemma shares_none [simp]: "shares h0 R sl E Inr {}"
  by (auto simp: shares_def)

lemma shares_then:
  assumes f: "shares h0 R sl E f T" and g: "shares h0 R sl E g U"
  shows "shares h0 R sl E (\<lambda>s. kbind (f s) g) (T \<union> U)"
proof (rule sharesI)
  fix S D h assume m: "mark_ok h0 R sl E S D h"
  obtain S1 D1 h1 where 1: "f (map H_PTR S, map H_PTR D, h) = Inr (map H_PTR S1, map H_PTR D1, h1)" "mark_ok h0 R sl E S1 D1 h1"
    "\<forall>x\<in>T. shared h1 x" "\<forall>x. shared h x \<longrightarrow> shared h1 x" "length S1 + unshared h1 \<le> length S + unshared h"
    by (rule sharesE[OF f m])
  obtain S2 D2 h2 where 2: "g (map H_PTR S1, map H_PTR D1, h1) = Inr (map H_PTR S2, map H_PTR D2, h2)" "mark_ok h0 R sl E S2 D2 h2"
    "\<forall>x\<in>U. shared h2 x" "\<forall>x. shared h1 x \<longrightarrow> shared h2 x" "length S2 + unshared h2 \<le> length S1 + unshared h1"
    by (rule sharesE[OF g 1(2)])
  have "kbind (f (map H_PTR S, map H_PTR D, h)) g = Inr (map H_PTR S2, map H_PTR D2, h2)" by (simp add: 1(1) 2(1))
  moreover have "\<forall>x\<in>T \<union> U. shared h2 x" using 1(3) 2(3,4) by blast
  moreover have "\<forall>x. shared h x \<longrightarrow> shared h2 x" using 1(4) 2(4) by blast
  moreover have "length S2 + unshared h2 \<le> length S + unshared h" using 1(5) 2(5) by linarith
  ultimately show "\<exists>S' D' h'. kbind (f (map H_PTR S, map H_PTR D, h)) g = Inr (map H_PTR S', map H_PTR D', h') \<and>
       mark_ok h0 R sl E S' D' h' \<and> (\<forall>x\<in>T \<union> U. shared h' x) \<and> (\<forall>x. shared h x \<longrightarrow> shared h' x) \<and>
       length S' + unshared h' \<le> length S + unshared h"
    using 2(2) by blast
qed

lemma shares_child:
  assumes "set_mset (ptr_of c) \<subseteq> dom (cells h0)"
  shows "shares h0 R sl E (\<lambda>s. krc_mark_child s c) (set_mset (ptr_of c))"
proof (cases c)
  case (H_PTR a)
  show ?thesis
  proof (rule sharesI)
    fix S D h assume m: "mark_ok h0 R sl E S D h"
    obtain o' where o: "cells h a = Some o'" using assms same_dom[OF mark_okD(2)[OF m]] by (auto simp: H_PTR)
    show "\<exists>S' D' h'. krc_mark_child (map H_PTR S, map H_PTR D, h) c = Inr (map H_PTR S', map H_PTR D', h') \<and>
       mark_ok h0 R sl E S' D' h' \<and> (\<forall>x\<in>set_mset (ptr_of c). shared h' x) \<and> (\<forall>x. shared h x \<longrightarrow> shared h' x) \<and>
       length S' + unshared h' \<le> length S + unshared h"
    proof (cases "krc_is_shared (rc o')")
      case True
      then have "shared h a" using o by (simp add: shared_def)
      moreover have "krc_mark_child (map H_PTR S, map H_PTR D, h) c = Inr (map H_PTR S, map H_PTR D, h)"
        using o True by (simp add: krc_mark_child_def krc_mark_shared_child_for_publish_def H_PTR)
      ultimately show ?thesis using m by (auto simp: H_PTR)
    next
      case False
      then have "\<not> shared h a" using o by (simp add: shared_def)
      note k = share_ok[OF m o this]
      have "krc_mark_child (map H_PTR S, map H_PTR D, h) c =
          Inr (map H_PTR (a # S), map H_PTR D, set_rc h a (krc_mark_shared_shallow (rc o')))"
        using o False by (simp add: krc_mark_child_def krc_mark_shared_child_for_publish_def H_PTR kwork_push_def)
      then show ?thesis using k by (intro exI conjI) (assumption | auto simp: H_PTR)+
    qed
  qed
qed (auto intro!: sharesI simp: krc_mark_child_def krc_mark_shared_child_for_publish_def)

lemma dup_ok:
  assumes m: "mark_ok h0 R sl E S D h" and a: "a \<in># held h0 {} + R"
  obtains h' where "kdup True h (H_PTR a) = Inr (h', H_PTR a)" "mark_ok h0 R sl E S (a # D) h'" "\<forall>b. shared h' b = shared h b"
    "unshared h' = unshared h"
proof -
  note d = mark_okD[OF m]
  have aR: "a \<in># held h {} + (mset D + R)" using a same_held[OF d(2)] by auto
  obtain h' where 1: "kdup True h (H_PTR a) = Inr (h', H_PTR a)" "heap_inv h' {} (ptr_of (H_PTR a) + (mset D + R)) sl []" "same_bodies h h'"
    by (rule kdup_inv[OF d(1), where v = "H_PTR a"]) (use aR in auto)
  obtain o' where o: "cells h a = Some o'" using inv_live[OF d(1) aR] by auto
  have e: "h' = set_rc h a (kdup_hdr True (rc o'))" using 1(1) by (simp add: kdup_def o)
  have sa: "shared h' b = shared h b" for b
    using o by (auto simp: e shared_set_rc kdup_shared) (simp_all add: shared_def)
  have dm: "dom (cells h') = dom (cells h)" by (rule same_dom[OF 1(3)])
  show thesis
  proof (rule that[OF 1(1)])
    show "\<forall>b. shared h' b = shared h b" by (simp add: sa)
    show "unshared h' = unshared h" by (simp add: unshared_def dm sa)
    show "mark_ok h0 R sl E S (a # D) h'" unfolding mark_ok_def
    proof (intro conjI allI impI ballI)
      show "heap_inv h' {} (mset (a # D) + R) sl []" using 1(2) by simp
      show "same_bodies h0 h'" by (rule same_trans[OF d(2) 1(3)])
      show "shared h' c" if "shared h' b" "b \<notin> set S \<union> E" "c \<in> targets h0 b" for b c using d(6)[of b c] that sa by simp
      show "set (a # D) \<subseteq> set_mset (held h0 {} + R)" using d(7) a by simp
    qed (use d sa in auto)
  qed
qed

lemma shares_mutable:
  assumes "set_mset (ptr_of c) \<subseteq> dom (cells h0)" "set_mset (ptr_of c) \<subseteq> set_mset (held h0 {} + R)"
  shows "shares h0 R sl E (\<lambda>s. krc_mark_mutable_child True s c) (set_mset (ptr_of c))"
proof (cases c)
  case (H_PTR a)
  show ?thesis
  proof (rule sharesI)
    fix S D h assume m: "mark_ok h0 R sl E S D h"
    obtain o' where o: "cells h a = Some o'" using assms(1) same_dom[OF mark_okD(2)[OF m]] by (auto simp: H_PTR)
    show "\<exists>S' D' h'. krc_mark_mutable_child True (map H_PTR S, map H_PTR D, h) c = Inr (map H_PTR S', map H_PTR D', h') \<and>
       mark_ok h0 R sl E S' D' h' \<and> (\<forall>x\<in>set_mset (ptr_of c). shared h' x) \<and> (\<forall>x. shared h x \<longrightarrow> shared h' x) \<and>
       length S' + unshared h' \<le> length S + unshared h"
    proof (cases "krc_is_shared (rc o')")
      case True
      then have "shared h a" using o by (simp add: shared_def)
      moreover have "krc_mark_mutable_child True (map H_PTR S, map H_PTR D, h) c = Inr (map H_PTR S, map H_PTR D, h)"
        using o True by (simp add: krc_mark_mutable_child_def krc_mark_shared_child_for_publish_def H_PTR)
      ultimately show ?thesis using m by (auto simp: H_PTR)
    next
      case False
      then have "\<not> shared h a" using o by (simp add: shared_def)
      note k = share_ok[OF m o this]
      let ?h1 = "set_rc h a (krc_mark_shared_shallow (rc o'))"
      have a: "a \<in># held h0 {} + R" using assms(2) by (simp add: H_PTR)
      obtain h2 where 2: "kdup True ?h1 (H_PTR a) = Inr (h2, H_PTR a)" "mark_ok h0 R sl E (a # S) (a # D) h2"
        "\<forall>b. shared h2 b = shared ?h1 b" "unshared h2 = unshared ?h1"
        by (rule dup_ok[OF k(1) a])
      have "krc_mark_mutable_child True (map H_PTR S, map H_PTR D, h) c = Inr (map H_PTR (a # S), map H_PTR (a # D), h2)"
        using o False 2(1) by (simp add: krc_mark_mutable_child_def krc_mark_shared_child_for_publish_def H_PTR kwork_push_def)
      moreover have "\<forall>x\<in>set_mset (ptr_of c). shared h2 x" using k(2) 2(3) by (simp add: H_PTR)
      moreover have "\<forall>x. shared h x \<longrightarrow> shared h2 x" using k(3) 2(3) by simp
      moreover have "length (a # S) + unshared h2 \<le> length S + unshared h" using k(4) 2(4) by simp
      ultimately show ?thesis using 2(2) by blast
    qed
  qed
qed (auto intro!: sharesI simp: krc_mark_mutable_child_def krc_mark_shared_child_for_publish_def)

lemma shares_list:
  "set_mset (ptrs cs) \<subseteq> dom (cells h0) \<Longrightarrow> shares h0 R sl E (\<lambda>s. krc_mark_list s cs) (set_mset (ptrs cs))"
proof (induction cs)
  case Nil
  have "(\<lambda>s. krc_mark_list s []) = Inr" by auto
  then show ?case by simp
next
  case (Cons c cs)
  have "shares h0 R sl E (\<lambda>s. kbind (krc_mark_child s c) (\<lambda>s. krc_mark_list s cs)) (set_mset (ptr_of c) \<union> set_mset (ptrs cs))"
    by (rule shares_then[OF shares_child Cons.IH]) (use Cons.prems in simp_all)
  then show ?case by simp
qed

lemma shares_mutable_list:
  "set_mset (ptrs cs) \<subseteq> dom (cells h0) \<Longrightarrow> set_mset (ptrs cs) \<subseteq> set_mset (held h0 {} + R) \<Longrightarrow>
   shares h0 R sl E (\<lambda>s. krc_mark_mutable_list True s cs) (set_mset (ptrs cs))"
proof (induction cs)
  case Nil
  have "(\<lambda>s. krc_mark_mutable_list True s []) = Inr" by auto
  then show ?case by simp
next
  case (Cons c cs)
  have "shares h0 R sl E (\<lambda>s. kbind (krc_mark_mutable_child True s c) (\<lambda>s. krc_mark_mutable_list True s cs))
      (set_mset (ptr_of c) \<union> set_mset (ptrs cs))"
    by (rule shares_then[OF shares_mutable Cons.IH]) (use Cons.prems in auto)
  then show ?case by simp
qed

lemma shares_children:
  assumes d: "set_mset (ptrs (refers b)) \<subseteq> dom (cells h0)" "set_mset (ptrs (owned b)) \<subseteq> set_mset (held h0 {} + R)"
  shows "shares h0 R sl E (\<lambda>s. krc_mark_children True s b) (set_mset (ptrs (refers b)))"
proof -
  note L = shares_list[of _ h0 R sl E] and C = shares_child[of _ h0 R sl E]
  show ?thesis
  proof (cases b)
    case (B_THUNK i env cached)
    let ?v = "case cached of None \<Rightarrow> H_NULL | Some v \<Rightarrow> v"
    have p: "ptrs (refers b) = ptrs env + ptr_of ?v" using B_THUNK by (cases cached) simp_all
    have "shares h0 R sl E (\<lambda>s. kbind (krc_mark_list s env) (\<lambda>s. krc_mark_child s ?v)) (set_mset (ptrs env) \<union> set_mset (ptr_of ?v))"
      by (rule shares_then[OF L C]) (use d(1) p in simp_all)
    then show ?thesis using B_THUNK p by (simp add: krc_mark_children_def)
  next
    case (B_BOUNCE f x)
    have "shares h0 R sl E (\<lambda>s. kbind (krc_mark_child s f) (\<lambda>s. krc_mark_child s x)) (set_mset (ptr_of f) \<union> set_mset (ptr_of x))"
      by (rule shares_then[OF C C]) (use d(1) B_BOUNCE in simp_all)
    then show ?thesis using B_BOUNCE by (simp add: krc_mark_children_def)
  next
    case (B_IOFINALLY a ds)
    have "shares h0 R sl E (\<lambda>s. kbind (krc_mark_child s a) (\<lambda>s. krc_mark_list s ds)) (set_mset (ptr_of a) \<union> set_mset (ptrs ds))"
      by (rule shares_then[OF C L]) (use d(1) B_IOFINALLY in simp_all)
    then show ?thesis using B_IOFINALLY by (simp add: krc_mark_children_def)
  next
    case (B_REF v)
    then show ?thesis using shares_mutable[of v h0 R sl E] d by (simp add: krc_mark_children_def)
  next
    case (B_ARRAY vs)
    then show ?thesis using shares_mutable_list[of vs h0 R sl E] d by (simp add: krc_mark_children_def)
  qed (use d(1) L C in \<open>simp_all add: krc_mark_children_def\<close>)
qed

lemma loop_ok:
  assumes "mark_ok h0 R sl {} S D h" "length S + unshared h < n"
  obtains D' h' where "krc_mark_loop True n (map H_PTR S, map H_PTR D, h) = Some (Inr (map H_PTR D', h'))"
    "mark_ok h0 R sl {} [] D' h'" "\<forall>x. shared h x \<longrightarrow> shared h' x"
  using assms
proof (induction n arbitrary: S D h thesis)
  case (Suc n)
  show ?case
  proof (cases S)
    case Nil
    show ?thesis by (rule Suc.prems(1)[of D h]) (use Suc.prems(2) Nil in simp_all)
  next
    case (Cons v S0)
    note d = mark_okD[OF Suc.prems(2)]
    obtain o' where o: "cells h v = Some o'" using d(5)[of v] Cons by (auto simp: shared_def)
    have v: "v \<in> dom (cells h0)" using same_dom[OF d(2)] o by auto
    then obtain o0 where o0: "cells h0 v = Some o0" by auto
    have b: "body o' = body o0" using d(2) o o0 unfolding same_bodies_def by (metis option.map(2) option.inject)
    have t: "targets h0 v = set_mset (ptrs (refers (body o')))" by (simp add: targets_def o0 b)
    have m0: "mark_ok h0 R sl {v} S0 D h" using Suc.prems(2) Cons unfolding mark_ok_def by auto
    have own: "set_mset (ptrs (owned (body o'))) \<subseteq> set_mset (held h0 {} + R)"
    proof -
      have "dom (cells h0) \<subseteq> {..<hbrk h}" using inv_stack(3)[OF d(1)] same_dom[OF d(2)] by simp
      then have "held h0 {} = fields h0 v + held h0 {v}" using held_split[of v h0 "{}"] v by simp
      then show ?thesis by (auto simp: fields_def o0 b)
    qed
    have live: "set_mset (ptrs (refers (body o'))) \<subseteq> dom (cells h0)" using d(3) t unfolding closed_heap_def by blast
    obtain S1 D1 h1 where 1: "krc_mark_children True (map H_PTR S0, map H_PTR D, h) (body o') = Inr (map H_PTR S1, map H_PTR D1, h1)"
      "mark_ok h0 R sl {v} S1 D1 h1" "\<forall>x\<in>set_mset (ptrs (refers (body o'))). shared h1 x" "\<forall>x. shared h x \<longrightarrow> shared h1 x"
      "length S1 + unshared h1 \<le> length S0 + unshared h"
      by (rule sharesE[OF shares_children[OF live own] m0])
    have m1: "mark_ok h0 R sl {} S1 D1 h1" unfolding mark_ok_def
    proof (intro conjI allI impI ballI)
      show "shared h1 c" if "shared h1 a" "a \<notin> set S1 \<union> {}" "c \<in> targets h0 a" for a c
        using mark_okD(6)[OF 1(2), of a c] 1(3) that t by (cases "a = v") auto
    qed (use mark_okD[OF 1(2)] in auto)
    obtain D2 h2 where 2: "krc_mark_loop True n (map H_PTR S1, map H_PTR D1, h1) = Some (Inr (map H_PTR D2, h2))"
      "mark_ok h0 R sl {} [] D2 h2" "\<forall>x. shared h1 x \<longrightarrow> shared h2 x"
      by (rule Suc.IH[OF _ m1]) (use 1(5) Suc.prems(3) Cons in auto)
    show ?thesis
      by (rule Suc.prems(1)[OF _ 2(2)]) (use Cons o 1 2 in \<open>simp_all add: hlift_def\<close>)
  qed
qed simp

lemma drop_all_ok:
  assumes "mark_ok h0 R sl {} [] D h"
  obtains h' where "kdrop_all True fuel h (map H_PTR D) = Some (Inr h')" "mark_ok h0 R sl {} [] [] h'" "\<forall>b. shared h' b = shared h b"
  using assms
proof (induction D arbitrary: h thesis)
  case (Cons a D)
  note d = mark_okD[OF Cons.prems(2)]
  have i: "heap_inv h {} (add_mset a (mset D + R)) sl []" using d(1) by simp
  have a: "a \<in># held h {} + (mset D + R)" using d(7) same_held[OF d(2)] by auto
  obtain h1 where 1: "kdrop True fuel h (H_PTR a) = Some (Inr h1)" "heap_inv h1 {} (mset D + R) sl []" "same_bodies h h1"
    "\<forall>b. shared h1 b = shared h b"
    by (rule kdrop_owned[OF i a])
  have "mark_ok h0 R sl {} [] D h1" unfolding mark_ok_def
    using 1(2,4) same_trans[OF d(2) 1(3)] d(3,4,6,7) by auto
  then obtain h2 where 2: "kdrop_all True fuel h1 (map H_PTR D) = Some (Inr h2)" "mark_ok h0 R sl {} [] [] h2" "\<forall>b. shared h2 b = shared h1 b"
    by (rule Cons.IH[rotated])
  show ?case by (rule Cons.prems(1)[OF _ 2(2)]) (use 1 2 in \<open>simp_all add: hbind_def\<close>)
qed simp

text \<open>C9: publishing a value shares everything it leads to. In a heap where the references of shared objects are
  shared already, \<open>krc_mark_shared_recursive\<close> ends with the root, and all that any shared object refers to,
  shared; no object is lost or changed, nothing shared becomes thread-local, and the counts are the numbers
  of owners as before, although what is taken out of references and arrays is duplicated meanwhile.\<close>
theorem publish_shares_reachable:
  assumes "heap_ok h R sl" "closed_heap h" "published h" "set_mset (ptr_of root) \<subseteq> dom (cells h)" "Suc (hbrk h) < fuel"
  shows "\<exists>h'. krc_mark_shared_recursive True fuel h root = Some (Inr h') \<and> heap_ok h' R sl \<and> same_bodies h h' \<and> published h' \<and>
    (\<forall>a\<in>set_mset (ptr_of root). shared h' a) \<and> (\<forall>a. shared h a \<longrightarrow> shared h' a)"
proof -
  have i: "heap_inv h {} R sl []" using assms(1) by (simp add: heap_ok_def)
  have m: "mark_ok h R sl {} [] [] h" using i assms(2,3) by (simp add: mark_ok_def published_def)
  obtain S D h1 where 1: "krc_mark_child (map H_PTR [], map H_PTR [], h) root = Inr (map H_PTR S, map H_PTR D, h1)"
    "mark_ok h R sl {} S D h1" "\<forall>x\<in>set_mset (ptr_of root). shared h1 x" "\<forall>x. shared h x \<longrightarrow> shared h1 x"
    "length S + unshared h1 \<le> length ([] :: nat list) + unshared h"
    by (rule sharesE[OF shares_child[OF assms(4)] m])
  have "finite (dom (cells h))" using inv_stack(3)[OF i] finite_subset by blast
  then have "unshared h \<le> card (dom (cells h))" unfolding unshared_def by (intro card_mono) auto
  also have "\<dots> \<le> hbrk h" using card_mono[OF _ inv_stack(3)[OF i]] by simp
  finally have n: "length S + unshared h1 < fuel" using 1(5) assms(5) by simp
  obtain D2 h2 where 2: "krc_mark_loop True fuel (map H_PTR S, map H_PTR D, h1) = Some (Inr (map H_PTR D2, h2))"
    "mark_ok h R sl {} [] D2 h2" "\<forall>x. shared h1 x \<longrightarrow> shared h2 x"
    by (rule loop_ok[OF 1(2) n])
  obtain h3 where 3: "kdrop_all True fuel h2 (map H_PTR D2) = Some (Inr h3)" "mark_ok h R sl {} [] [] h3" "\<forall>b. shared h3 b = shared h2 b"
    by (rule drop_all_ok[OF 2(2)])
  note d = mark_okD[OF 3(2)]
  have "krc_mark_shared_recursive True fuel h root = Some (Inr h3)"
    using 1(1) 2(1) 3(1) by (simp add: krc_mark_shared_recursive_def hlift_def hbind_def)
  moreover have "heap_ok h3 R sl" using d(1) by (simp add: heap_ok_def)
  moreover have "published h3" using d(6) same_targets[OF d(2)] by (auto simp: published_def)
  moreover have "\<forall>a\<in>set_mset (ptr_of root). shared h3 a" using 1(3) 2(3) 3(3) by simp
  ultimately show ?thesis using d(2,4) by blast
qed


text \<open>A constructor holding a reference to a string, one owner each, not yet published.\<close>

definition box_heap :: kheap where
  "box_heap = \<lparr>cells = [0 \<mapsto> \<lparr>rc = 1, body = B_CTOR 40 ''Box'' [H_PTR 1]\<rparr>, 1 \<mapsto> \<lparr>rc = 1, body = B_REF (H_PTR 2)\<rparr>,
     2 \<mapsto> \<lparr>rc = 1, body = B_STR [98]\<rparr>], hbrk = 3\<rparr>"

lemma box_heap_ok: "heap_ok box_heap {#0#} (\<lambda>_. 0)" "closed_heap box_heap" "published box_heap"
proof -
  have d: "dom (cells box_heap) = {0, 1, 2}" by (auto simp: box_heap_def)
  have f: "fields box_heap 0 = {#1#}" "fields box_heap 1 = {#2#}" "fields box_heap 2 = {#}"
    by (simp_all add: fields_def box_heap_def del: One_nat_def)
  have h: "held box_heap {} = {#1, 2#}" unfolding held_def d by (simp add: f del: One_nat_def)
  show "heap_ok box_heap {#0#} (\<lambda>_. 0)" unfolding heap_ok_def heap_inv_def h d
    by (auto simp: box_heap_def rc_abs_one split: if_splits)
  show "closed_heap box_heap" unfolding closed_heap_def d by (auto simp: targets_def box_heap_def split: if_splits)
  have "\<not> shared box_heap a" for a by (auto simp: shared_def is_shared_abs box_heap_def rc_abs_one split: if_splits)
  then show "published box_heap" by (simp add: published_def)
qed

lemma publish_shares_reachable_witness:
  "\<exists>h'. krc_mark_shared_recursive True 5 box_heap (H_PTR 0) = Some (Inr h') \<and> heap_ok h' {#0#} (\<lambda>_. 0) \<and>
     shared h' 0 \<and> shared h' 1 \<and> shared h' 2"
proof -
  have r: "set_mset (ptr_of (H_PTR 0)) \<subseteq> dom (cells box_heap)" "Suc (hbrk box_heap) < 5" by (simp_all add: box_heap_def)
  obtain h' where h': "krc_mark_shared_recursive True 5 box_heap (H_PTR 0) = Some (Inr h')" "heap_ok h' {#0#} (\<lambda>_. 0)"
    "same_bodies box_heap h'" "published h'" "shared h' 0"
    using publish_shares_reachable[OF box_heap_ok r] by auto
  have t: "targets h' 0 = {1}" "targets h' 1 = {2}"
    unfolding same_targets[OF h'(3)] by (simp_all add: targets_def box_heap_def)
  have "shared h' 1" using h'(4,5) t(1) unfolding published_def by blast
  moreover from this have "shared h' 2" using h'(4) t(2) unfolding published_def by blast
  ultimately show ?thesis using h' by blast
qed

end
