(* ===== verification/Kappa_Timer.thy ===== *)
theory Kappa_Timer
  imports Kappa_Sched
begin

text \<open>
  Sleeping fibers (\<open>runtime/reactor.c\<close>, and the parts of \<open>runtime/rt.c\<close> that call it: \<open>OP_SLEEP\<close>, the gate
  of the stepping loop that cancels an abandoned sleep, \<open>krt2i_wake\<close>). One reactor thread owns every libuv
  handle; workers send it requests over a queue. A worker and the reactor share the atomic words
  \<open>sleep_armed\<close> and \<open>sleep_seq\<close> of a fiber. Each access to an atomic word, and each section under a lock, is a
  step of one thread; what only the reactor touches (the slot \<open>sleep_timer\<close>, the handles, the count of live
  timers) changes with the step before it.

  Handles are addresses: \<open>timers\<close> maps an address to its \<open>SleepTimer\<close> until \<open>sleep_close_cb\<close> frees it, so that
  a use after that, or a second \<open>uv_close\<close> of one handle, is \<open>kundef\<close>. From libuv the model has what its
  documentation promises: an active timer that is not stopped may fire once, its callback and the
  close callbacks run on the loop's thread, one at a time, and a handle being closed does not fire. A
  timer may fire at any time after its start. The generation counter of a fiber does not wrap around.

  A fiber runs its own machine; here a step of it that neither sleeps nor parks sets what it does next. A
  runnable fiber is taken by one thread (\<open>Kappa_SchedProps\<close>); the run queue itself is left out.
\<close>

section \<open>State\<close>

text \<open>What a fiber executes next: a sleep of so many nanoseconds, or anything else.\<close>

datatype tact = A_SLEEP int | A_OTHER kval

text \<open>\<open>tf_sleep\<close> is a ghost: the generation of the sleep the fiber is parked in.\<close>

record tfib =
  tf_st :: fstatus
  tf_cur :: tact
  tf_pend :: bool
  tf_res :: bool
  sleep_seq :: nat
  sleep_armed :: bool
  sleep_timer :: "nat option"
  tf_sleep :: "nat option"

record sleep_tm =
  st_f :: nat
  st_seq :: nat
  st_ms :: "64 word"
  st_active :: bool
  st_closing :: bool

datatype ioreq = IO_SLEEP nat "64 word" nat | IO_CANCEL_SLEEP nat nat

text \<open>Where the reactor thread is: in a timer callback, in the drain of the queue, or starting or
  cancelling a sleep. \<open>R_IDLE\<close> is the loop waiting for events.\<close>

datatype rctl =
  R_IDLE
| R_CB nat
| R_CB_SEQ nat
| R_CB_STORE nat
| R_CB_WAKE nat
| R_CB_CLOSE nat
| R_DRAIN
| R_STOP
| R_START nat "64 word" nat
| R_START_SEQ nat "64 word" nat
| R_START_TIMER nat "64 word" nat
| R_CANCEL nat nat

text \<open>\<open>stale_store\<close> is a ghost: a callback has cleared \<open>sleep_armed\<close> of a fiber that was already in another
  generation than the one the callback had checked.\<close>

record reactor =
  tfibs :: "nat \<Rightarrow> tfib"
  io :: "ioreq list"
  timers :: "nat \<rightharpoonup> sleep_tm"
  live_timers :: int
  tbrk :: nat
  reactor_stop :: bool
  async_open :: bool
  rctl :: rctl
  stale_store :: bool

text \<open>The sections of a worker.\<close>

datatype tuop =
  T_STEP nat
| T_GATE nat
| T_TURN nat
| T_SEQ nat "64 word" bool
| T_ARM nat "64 word" bool nat
| T_PARK nat "64 word" bool nat
| T_ENQ nat "64 word" bool nat
| T_CLAIM nat bool bool
| T_CAS nat bool
| T_C_ARMED nat
| T_C_SEQ nat
| T_C_INC nat nat
| T_C_STORE nat nat
| T_C_ENQ nat nat
| T_DELIVER nat
| T_REQUEST nat
| T_WAKE nat "tact option"

definition upd_tfib :: "nat \<Rightarrow> (tfib \<Rightarrow> tfib) \<Rightarrow> reactor \<Rightarrow> reactor" where
  "upd_tfib f g s = s\<lparr>tfibs := (tfibs s)(f := g (tfibs s f))\<rparr>"

definition upd_timer :: "nat \<Rightarrow> (sleep_tm \<Rightarrow> sleep_tm) \<Rightarrow> reactor \<Rightarrow> reactor" where
  "upd_timer t g s = s\<lparr>timers := (timers s)(t := map_option g (timers s t))\<rparr>"

definition upd_ctl :: "rctl \<Rightarrow> reactor \<Rightarrow> reactor" where
  "upd_ctl c s = s\<lparr>rctl := c\<rparr>"

section \<open>Waking\<close>

definition timer_wake :: "reactor \<Rightarrow> nat \<Rightarrow> tact option \<Rightarrow> reactor" where
  "timer_wake s f v =
     (if tf_st (tfibs s f) = F_PARKED
      then upd_tfib f (\<lambda>x. x\<lparr>tf_st := F_RUNNABLE, tf_res := True, tf_sleep := None,
                              tf_cur := (case v of None \<Rightarrow> tf_cur x | Some a \<Rightarrow> a)\<rparr>) s
      else s)"

section \<open>The worker's side\<close>

definition enq :: "ioreq \<Rightarrow> reactor \<Rightarrow> reactor" where
  "enq r s = s\<lparr>io := io s @ [r]\<rparr>"

text \<open>\<open>krt2i_submit_sleep\<close> in its accesses: the next generation, the flag, the status, the request; then
  \<open>OP_SLEEP\<close> goes on with the claim of a pending interruption.\<close>

definition submit_seq :: "reactor \<Rightarrow> nat \<Rightarrow> 64 word \<Rightarrow> bool \<Rightarrow> reactor \<times> tuop list" where
  "submit_seq s f ns um =
     (upd_tfib f (\<lambda>x. x\<lparr>sleep_seq := sleep_seq x + 1\<rparr>) s, [T_ARM f ns um (sleep_seq (tfibs s f) + 1)])"

definition submit_arm :: "reactor \<Rightarrow> nat \<Rightarrow> 64 word \<Rightarrow> bool \<Rightarrow> nat \<Rightarrow> reactor \<times> tuop list" where
  "submit_arm s f ns um q = (upd_tfib f (\<lambda>x. x\<lparr>sleep_armed := True\<rparr>) s, [T_PARK f ns um q])"

definition submit_park :: "reactor \<Rightarrow> nat \<Rightarrow> 64 word \<Rightarrow> bool \<Rightarrow> nat \<Rightarrow> reactor \<times> tuop list" where
  "submit_park s f ns um q =
     (upd_tfib f (\<lambda>x. x\<lparr>tf_st := F_PARKED, tf_sleep := Some q\<rparr>) s, [T_ENQ f ns um q])"

definition submit_enq :: "reactor \<Rightarrow> nat \<Rightarrow> 64 word \<Rightarrow> bool \<Rightarrow> nat \<Rightarrow> reactor \<times> tuop list" where
  "submit_enq s f ns um q = (enq (IO_SLEEP f ns q) s, [T_CLAIM f um True])"

text \<open>\<open>krt2i_cancel_sleep\<close>: the load of the flag, the load of the generation, its increment, the flag, the
  request.\<close>

definition cancel_armed :: "reactor \<Rightarrow> nat \<Rightarrow> reactor \<times> tuop list" where
  "cancel_armed s f = (s, if sleep_armed (tfibs s f) then [T_C_SEQ f] else [])"

definition cancel_seq :: "reactor \<Rightarrow> nat \<Rightarrow> reactor \<times> tuop list" where
  "cancel_seq s f = (s, [T_C_INC f (sleep_seq (tfibs s f))])"

definition cancel_inc :: "reactor \<Rightarrow> nat \<Rightarrow> nat \<Rightarrow> reactor \<times> tuop list" where
  "cancel_inc s f q = (upd_tfib f (\<lambda>x. x\<lparr>sleep_seq := sleep_seq x + 1\<rparr>) s, [T_C_STORE f q])"

definition cancel_store :: "reactor \<Rightarrow> nat \<Rightarrow> nat \<Rightarrow> reactor \<times> tuop list" where
  "cancel_store s f q = (upd_tfib f (\<lambda>x. x\<lparr>sleep_armed := False\<rparr>) s, [T_C_ENQ f q])"

definition cancel_enq :: "reactor \<Rightarrow> nat \<Rightarrow> nat \<Rightarrow> reactor \<times> tuop list" where
  "cancel_enq s f q = (enq (IO_CANCEL_SLEEP f q) s, [])"

text \<open>\<open>krt2i_claim_pending_after_park\<close>, after a sleep (\<open>sl\<close>) or another park.\<close>

definition park_claim :: "reactor \<Rightarrow> nat \<Rightarrow> bool \<Rightarrow> bool \<Rightarrow> reactor \<times> tuop list" where
  "park_claim s f um sl = (s, if um \<and> tf_pend (tfibs s f) then [T_CAS f sl] else [])"

definition park_cas :: "reactor \<Rightarrow> nat \<Rightarrow> bool \<Rightarrow> reactor \<times> tuop list" where
  "park_cas s f sl =
     (if tf_st (tfibs s f) = F_PARKED
      then (upd_tfib f (\<lambda>x. x\<lparr>tf_st := F_RUNNING, tf_sleep := None\<rparr>) s, (if sl then [T_C_ARMED f] else []) @ [T_DELIVER f])
      else (s, []))"

text \<open>One turn of the stepping loop. The gate: a fiber that resumes with a request pending and still has
  its sleep before it was woken by the request.\<close>

fun is_sleep :: "tact \<Rightarrow> bool" where
  "is_sleep (A_SLEEP _) = True"
| "is_sleep (A_OTHER _) = False"

fun long_sleep :: "tact \<Rightarrow> bool" where
  "long_sleep (A_SLEEP ns) = (ns > 0)"
| "long_sleep (A_OTHER _) = False"

definition step_gate :: "reactor \<Rightarrow> nat \<Rightarrow> reactor \<times> tuop list" where
  "step_gate s f =
     (s, if tf_res (tfibs s f) \<and> tf_pend (tfibs s f) \<and> is_sleep (tf_cur (tfibs s f)) then [T_GATE f] else [T_TURN f])"

definition gate_armed :: "reactor \<Rightarrow> nat \<Rightarrow> reactor \<times> tuop list" where
  "gate_armed s f = (s, if sleep_armed (tfibs s f) then [T_C_ARMED f, T_TURN f] else [T_TURN f])"

text \<open>What the turn does. \<open>TC_DELIVER\<close>: a pending interruption is delivered, at the gate or before a
  park; \<open>TC_SLEEP\<close>, \<open>TC_PARK\<close>: the operation parks (the flag is whether the mask allows an interruption);
  \<open>TC_GO\<close>: any other turn.\<close>

datatype tchoice = TC_DELIVER tact | TC_SLEEP bool | TC_PARK bool | TC_GO tact | TC_FINISH

definition turn :: "reactor \<Rightarrow> nat \<Rightarrow> tchoice \<Rightarrow> (reactor \<times> tuop list) option" where
  "turn s f ch =
     (let x = tfibs s f in
      case ch of
        TC_DELIVER a \<Rightarrow>
          if tf_pend x then Some (upd_tfib f (\<lambda>x. x\<lparr>tf_pend := False, tf_res := False, tf_cur := a\<rparr>) s, [T_STEP f]) else None
      | TC_SLEEP um \<Rightarrow>
          (case tf_cur x of
             A_SLEEP ns \<Rightarrow>
               if ns > 0 \<and> \<not> (um \<and> tf_pend x)
               then Some (upd_tfib f (\<lambda>x. x\<lparr>tf_res := False\<rparr>) s, [T_SEQ f (word_of_int ns) um]) else None
           | A_OTHER v \<Rightarrow> None)
      | TC_PARK um \<Rightarrow>
          (if is_sleep (tf_cur x) then None
           else Some (upd_tfib f (\<lambda>x. x\<lparr>tf_res := False, tf_st := F_PARKED, tf_sleep := None\<rparr>) s, [T_CLAIM f um False]))
      | TC_GO a \<Rightarrow>
          (if long_sleep (tf_cur x) then None
           else Some (upd_tfib f (\<lambda>x. x\<lparr>tf_res := False, tf_cur := a\<rparr>) s, [T_STEP f]))
      | TC_FINISH \<Rightarrow>
          (if is_sleep (tf_cur x) then None else Some (upd_tfib f (\<lambda>x. x\<lparr>tf_st := F_DONE\<rparr>) s, [])))"

text \<open>A request taken after the park: what the fiber does next is up to the unwinding.\<close>

definition deliver_claimed :: "reactor \<Rightarrow> nat \<Rightarrow> tact \<Rightarrow> reactor \<times> tuop list" where
  "deliver_claimed s f a = (upd_tfib f (\<lambda>x. x\<lparr>tf_pend := False, tf_cur := a\<rparr>) s, [T_STEP f])"

text \<open>The sections without a choice.\<close>

fun texec :: "reactor \<Rightarrow> tuop \<Rightarrow> (reactor \<times> tuop list) option" where
  "texec s (T_STEP f) = Some (step_gate s f)"
| "texec s (T_GATE f) = Some (gate_armed s f)"
| "texec s (T_TURN f) = None"
| "texec s (T_SEQ f ns um) = Some (submit_seq s f ns um)"
| "texec s (T_ARM f ns um q) = Some (submit_arm s f ns um q)"
| "texec s (T_PARK f ns um q) = Some (submit_park s f ns um q)"
| "texec s (T_ENQ f ns um q) = Some (submit_enq s f ns um q)"
| "texec s (T_CLAIM f um sl) = Some (park_claim s f um sl)"
| "texec s (T_CAS f sl) = Some (park_cas s f sl)"
| "texec s (T_C_ARMED f) = Some (cancel_armed s f)"
| "texec s (T_C_SEQ f) = Some (cancel_seq s f)"
| "texec s (T_C_INC f q) = Some (cancel_inc s f q)"
| "texec s (T_C_STORE f q) = Some (cancel_store s f q)"
| "texec s (T_C_ENQ f q) = Some (cancel_enq s f q)"
| "texec s (T_DELIVER f) = None"
| "texec s (T_REQUEST f) = Some (upd_tfib f (\<lambda>x. x\<lparr>tf_pend := True\<rparr>) s, [T_WAKE f None])"
| "texec s (T_WAKE f v) = Some (timer_wake s f v, [])"

section \<open>The reactor's side\<close>

definition uv_close :: "nat \<Rightarrow> reactor \<Rightarrow> reactor kres" where
  "uv_close t s =
     (case timers s t of
        None \<Rightarrow> kundef
      | Some tm \<Rightarrow> if st_closing tm then kundef else Inr (upd_timer t (\<lambda>x. x\<lparr>st_active := False, st_closing := True\<rparr>) s))"

definition uv_timer_stop :: "nat \<Rightarrow> reactor \<Rightarrow> reactor kres" where
  "uv_timer_stop t s =
     (case timers s t of None \<Rightarrow> kundef | Some tm \<Rightarrow> Inr (upd_timer t (\<lambda>x. x\<lparr>st_active := False\<rparr>) s))"

definition set_slot :: "nat \<Rightarrow> nat option \<Rightarrow> reactor \<Rightarrow> reactor" where
  "set_slot f t s = upd_tfib f (\<lambda>x. x\<lparr>sleep_timer := t\<rparr>) s"

text \<open>\<open>sleep_timer_cb\<close> from its entry: whether the slot is its own, the load of the flag, the load of the
  generation, the store, the wake, the close.\<close>

definition sleep_timer_cb :: "nat \<Rightarrow> reactor \<Rightarrow> reactor kres" where
  "sleep_timer_cb t s =
     (case timers s t of
        None \<Rightarrow> kundef
      | Some tm \<Rightarrow>
          let f = st_f tm; owns = (sleep_timer (tfibs s f) = Some t) in
          Inr (if owns \<and> sleep_armed (tfibs s f) then upd_ctl (R_CB_SEQ t) s
               else upd_ctl (R_CB_CLOSE t) (if owns then set_slot f None s else s)))"

definition cb_seq :: "nat \<Rightarrow> reactor \<Rightarrow> reactor kres" where
  "cb_seq t s =
     (case timers s t of
        None \<Rightarrow> kundef
      | Some tm \<Rightarrow>
          let f = st_f tm in
          Inr (upd_ctl (if sleep_seq (tfibs s f) = st_seq tm then R_CB_STORE t else R_CB_CLOSE t) (set_slot f None s)))"

definition cb_store :: "nat \<Rightarrow> reactor \<Rightarrow> reactor kres" where
  "cb_store t s =
     (case timers s t of
        None \<Rightarrow> kundef
      | Some tm \<Rightarrow>
          let f = st_f tm in
          Inr (upd_ctl (R_CB_WAKE t)
            ((upd_tfib f (\<lambda>x. x\<lparr>sleep_armed := False\<rparr>) s)\<lparr>stale_store := stale_store s \<or> sleep_seq (tfibs s f) \<noteq> st_seq tm\<rparr>)))"

definition cb_wake :: "nat \<Rightarrow> reactor \<Rightarrow> reactor kres" where
  "cb_wake t s =
     (case timers s t of
        None \<Rightarrow> kundef
      | Some tm \<Rightarrow> Inr (upd_ctl (R_CB_CLOSE t) (timer_wake s (st_f tm) (Some (A_OTHER (krt2_pure kunit))))))"

definition cb_close :: "nat \<Rightarrow> reactor \<Rightarrow> reactor kres" where
  "cb_close t s = map_sum id (upd_ctl R_IDLE) (uv_close t s)"

text \<open>\<open>reactor_async_cb\<close>: one request, or the end of the queue.\<close>

definition drain_next :: "reactor \<Rightarrow> reactor" where
  "drain_next s =
     (case io s of
        [] \<Rightarrow> upd_ctl R_STOP s
      | IO_SLEEP f ns q # r \<Rightarrow> upd_ctl (R_START f ns q) (s\<lparr>io := r\<rparr>)
      | IO_CANCEL_SLEEP f q # r \<Rightarrow> upd_ctl (R_CANCEL f q) (s\<lparr>io := r\<rparr>))"

text \<open>The walk over the handles at the end.\<close>

definition reactor_close_walk :: "reactor \<Rightarrow> reactor" where
  "reactor_close_walk s =
     s\<lparr>timers := (\<lambda>t. map_option (\<lambda>x. x\<lparr>st_active := False, st_closing := True\<rparr>) (timers s t)), async_open := False\<rparr>"

definition drain_stop :: "reactor \<Rightarrow> reactor" where
  "drain_stop s = upd_ctl R_IDLE (if reactor_stop s then reactor_close_walk s else s)"

text \<open>\<open>start_sleep\<close>: the load of the flag, the load of the generation, the timer. Milliseconds are rounded up.\<close>

definition sleep_ms :: "64 word \<Rightarrow> 64 word" where
  "sleep_ms nanos = (if nanos = 0 then 0 else (nanos + 999999) div 1000000)"

definition start_armed :: "nat \<Rightarrow> 64 word \<Rightarrow> nat \<Rightarrow> reactor \<Rightarrow> reactor" where
  "start_armed f ns q s = upd_ctl (if sleep_armed (tfibs s f) then R_START_SEQ f ns q else R_DRAIN) s"

definition start_seq :: "nat \<Rightarrow> 64 word \<Rightarrow> nat \<Rightarrow> reactor \<Rightarrow> reactor" where
  "start_seq f ns q s = upd_ctl (if sleep_seq (tfibs s f) = q then R_START_TIMER f ns q else R_DRAIN) s"

definition stop_and_close :: "nat \<Rightarrow> nat \<Rightarrow> reactor \<Rightarrow> reactor kres" where
  "stop_and_close f t s = kbind (uv_timer_stop t (set_slot f None s)) (uv_close t)"

definition new_timer :: "nat \<Rightarrow> 64 word \<Rightarrow> nat \<Rightarrow> reactor \<Rightarrow> reactor" where
  "new_timer f ns q s =
     (let t = tbrk s; tm = \<lparr>st_f = f, st_seq = q, st_ms = sleep_ms ns, st_active = True, st_closing = False\<rparr> in
      set_slot f (Some t) (s\<lparr>timers := (timers s)(t \<mapsto> tm), tbrk := Suc t, live_timers := live_timers s + 1\<rparr>))"

definition start_sleep :: "nat \<Rightarrow> 64 word \<Rightarrow> nat \<Rightarrow> reactor \<Rightarrow> reactor kres" where
  "start_sleep f ns q s =
     map_sum id (\<lambda>s1. upd_ctl R_DRAIN (new_timer f ns q s1))
       (case sleep_timer (tfibs s f) of None \<Rightarrow> Inr s | Some t \<Rightarrow> stop_and_close f t s)"

definition cancel_sleep :: "nat \<Rightarrow> nat \<Rightarrow> reactor \<Rightarrow> reactor kres" where
  "cancel_sleep f q s =
     map_sum id (upd_ctl R_DRAIN)
       (case sleep_timer (tfibs s f) of
          None \<Rightarrow> Inr s
        | Some t \<Rightarrow> (case timers s t of
            None \<Rightarrow> kundef
          | Some tm \<Rightarrow> if st_seq tm \<noteq> q then Inr s else stop_and_close f t s))"

text \<open>\<open>sleep_close_cb\<close>.\<close>

definition sleep_close_cb :: "nat \<Rightarrow> reactor \<Rightarrow> reactor" where
  "sleep_close_cb t s = s\<lparr>timers := (timers s)(t := None), live_timers := live_timers s - 1\<rparr>"

text \<open>What the reactor thread does next, when it is in a callback.\<close>

definition rexec :: "reactor \<Rightarrow> reactor kres" where
  "rexec s =
     (case rctl s of
        R_IDLE \<Rightarrow> Inr s
      | R_CB t \<Rightarrow> sleep_timer_cb t s
      | R_CB_SEQ t \<Rightarrow> cb_seq t s
      | R_CB_STORE t \<Rightarrow> cb_store t s
      | R_CB_WAKE t \<Rightarrow> cb_wake t s
      | R_CB_CLOSE t \<Rightarrow> cb_close t s
      | R_DRAIN \<Rightarrow> Inr (drain_next s)
      | R_STOP \<Rightarrow> Inr (drain_stop s)
      | R_START f ns q \<Rightarrow> Inr (start_armed f ns q s)
      | R_START_SEQ f ns q \<Rightarrow> Inr (start_seq f ns q s)
      | R_START_TIMER f ns q \<Rightarrow> start_sleep f ns q s
      | R_CANCEL f q \<Rightarrow> cancel_sleep f q s)"

text \<open>What libuv may call when the loop waits: the callback of an active timer, the drain, a close
  callback.\<close>

definition uv_fire :: "nat \<Rightarrow> reactor \<Rightarrow> reactor option" where
  "uv_fire t s =
     (case timers s t of
        None \<Rightarrow> None
      | Some tm \<Rightarrow> if st_active tm then Some (upd_ctl (R_CB t) (upd_timer t (\<lambda>x. x\<lparr>st_active := False\<rparr>) s)) else None)"

definition uv_closed :: "nat \<Rightarrow> reactor \<Rightarrow> reactor option" where
  "uv_closed t s = (case timers s t of None \<Rightarrow> None | Some tm \<Rightarrow> if st_closing tm then Some (sleep_close_cb t s) else None)"

section \<open>Steps\<close>

type_synonym tconf = "reactor \<times> (nat \<Rightarrow> tuop list)"

text \<open>One step of one thread. The choices of a fiber, of the environment and of libuv are the arguments.\<close>

datatype rmove =
  M_WORK nat
| M_TURN nat tchoice
| M_DELIVER nat tact
| M_TAKE nat nat
| M_REQUEST nat nat
| M_WAKE nat nat tact
| M_REACTOR
| M_FIRE nat
| M_ASYNC
| M_CLOSED nat
| M_STOP

fun tmove :: "rmove \<Rightarrow> tconf \<Rightarrow> tconf option" where
  "tmove (M_WORK t) (s, W) =
     (case W t of [] \<Rightarrow> None | u # us \<Rightarrow> map_option (\<lambda>(s1, vs). (s1, W(t := vs @ us))) (texec s u))"
| "tmove (M_TURN t ch) (s, W) =
     (case W t of T_TURN f # us \<Rightarrow> map_option (\<lambda>(s1, vs). (s1, W(t := vs @ us))) (turn s f ch) | _ \<Rightarrow> None)"
| "tmove (M_DELIVER t a) (s, W) =
     (case W t of T_DELIVER f # us \<Rightarrow> (let (s1, vs) = deliver_claimed s f a in Some (s1, W(t := vs @ us))) | _ \<Rightarrow> None)"
| "tmove (M_TAKE t f) (s, W) =
     (if W t = [] \<and> tf_st (tfibs s f) = F_RUNNABLE
      then Some (upd_tfib f (\<lambda>x. x\<lparr>tf_st := F_RUNNING\<rparr>) s, W(t := [T_STEP f])) else None)"
| "tmove (M_REQUEST t f) (s, W) = (if W t = [] then Some (s, W(t := [T_REQUEST f])) else None)"
| "tmove (M_WAKE t f a) (s, W) = (if W t = [] then Some (s, W(t := [T_WAKE f (Some a)])) else None)"
| "tmove M_REACTOR (s, W) =
     (if rctl s = R_IDLE then None else case rexec s of Inl e \<Rightarrow> None | Inr s1 \<Rightarrow> Some (s1, W))"
| "tmove (M_FIRE t) (s, W) = (if rctl s = R_IDLE then map_option (\<lambda>s1. (s1, W)) (uv_fire t s) else None)"
| "tmove M_ASYNC (s, W) = (if rctl s = R_IDLE \<and> async_open s then Some (upd_ctl R_DRAIN s, W) else None)"
| "tmove (M_CLOSED t) (s, W) = (if rctl s = R_IDLE then map_option (\<lambda>s1. (s1, W)) (uv_closed t s) else None)"
| "tmove M_STOP (s, W) = Some (s\<lparr>reactor_stop := True\<rparr>, W)"

text \<open>The start: fiber \<open>f\<close> is to run \<open>prog f\<close>.\<close>

definition reactor_init :: "(nat \<Rightarrow> tact) \<Rightarrow> reactor" where
  "reactor_init prog =
     \<lparr>tfibs = (\<lambda>f. \<lparr>tf_st = F_RUNNABLE, tf_cur = prog f, tf_pend = False, tf_res = False, sleep_seq = 0, sleep_armed = False,
                  sleep_timer = None, tf_sleep = None\<rparr>),
      io = [], timers = Map.empty, live_timers = 0, tbrk = 0, reactor_stop = False, async_open = True, rctl = R_IDLE, stale_store = False\<rparr>"

inductive treach :: "(nat \<Rightarrow> tact) \<Rightarrow> tconf \<Rightarrow> bool" for prog where
  tr_start: "treach prog (reactor_init prog, \<lambda>_. [])"
| tr_step: "treach prog c \<Longrightarrow> tmove mv c = Some c' \<Longrightarrow> treach prog c'"

text \<open>A run by a list of moves.\<close>

fun tmoves :: "rmove list \<Rightarrow> tconf \<Rightarrow> tconf option" where
  "tmoves [] c = Some c"
| "tmoves (m # ms) c = (case tmove m c of None \<Rightarrow> None | Some c1 \<Rightarrow> tmoves ms c1)"

lemma tmoves_reach: "treach prog c \<Longrightarrow> tmoves ms c = Some c' \<Longrightarrow> treach prog c'"
  by (induction ms arbitrary: c) (auto split: option.splits intro: tr_step)

end
