(* ===== verification/Kappa_TimerProps.thy ===== *)
theory Kappa_TimerProps
  imports Kappa_Timer
begin

text \<open>
  The timers of sleeping fibers: the reactor never touches a freed handle nor closes one twice, each fiber
  has at most one timer that is not being closed, and the count of live timers is exact (\<open>handles\<close>); a
  sleeping fiber has its timer on the way, as long as no callback clears the flag of a generation it did not check.
\<close>

section \<open>Updates\<close>

lemma upd_tfib_sel [simp]:
  "tfibs (upd_tfib f g s) h = (if h = f then g (tfibs s f) else tfibs s h)" "io (upd_tfib f g s) = io s"
  "timers (upd_tfib f g s) = timers s" "live_timers (upd_tfib f g s) = live_timers s" "tbrk (upd_tfib f g s) = tbrk s"
  "async_open (upd_tfib f g s) = async_open s" "rctl (upd_tfib f g s) = rctl s" "stale_store (upd_tfib f g s) = stale_store s"
  "reactor_stop (upd_tfib f g s) = reactor_stop s"
  by (simp_all add: upd_tfib_def)

lemma upd_ctl_sel [simp]:
  "tfibs (upd_ctl c s) = tfibs s" "io (upd_ctl c s) = io s" "timers (upd_ctl c s) = timers s"
  "live_timers (upd_ctl c s) = live_timers s" "tbrk (upd_ctl c s) = tbrk s" "async_open (upd_ctl c s) = async_open s"
  "rctl (upd_ctl c s) = c" "stale_store (upd_ctl c s) = stale_store s" "reactor_stop (upd_ctl c s) = reactor_stop s"
  by (simp_all add: upd_ctl_def)

lemma upd_timer_sel [simp]:
  "tfibs (upd_timer t g s) = tfibs s" "io (upd_timer t g s) = io s" "timers (upd_timer t g s) = (timers s)(t := map_option g (timers s t))"
  "live_timers (upd_timer t g s) = live_timers s" "tbrk (upd_timer t g s) = tbrk s" "async_open (upd_timer t g s) = async_open s"
  "rctl (upd_timer t g s) = rctl s" "stale_store (upd_timer t g s) = stale_store s" "reactor_stop (upd_timer t g s) = reactor_stop s"
  by (simp_all add: upd_timer_def)

lemma enq_sel [simp]:
  "tfibs (enq r s) = tfibs s" "io (enq r s) = io s @ [r]" "timers (enq r s) = timers s" "live_timers (enq r s) = live_timers s"
  "tbrk (enq r s) = tbrk s" "async_open (enq r s) = async_open s" "rctl (enq r s) = rctl s" "stale_store (enq r s) = stale_store s"
  by (simp_all add: enq_def)

lemma set_slot_sel [simp]:
  "tfibs (set_slot f t s) h = (if h = f then (tfibs s f)\<lparr>sleep_timer := t\<rparr> else tfibs s h)" "io (set_slot f t s) = io s"
  "timers (set_slot f t s) = timers s" "live_timers (set_slot f t s) = live_timers s" "tbrk (set_slot f t s) = tbrk s"
  "async_open (set_slot f t s) = async_open s" "rctl (set_slot f t s) = rctl s" "stale_store (set_slot f t s) = stale_store s"
  by (simp_all add: set_slot_def)

lemmas worker_defs = step_gate_def gate_armed_def submit_seq_def submit_arm_def submit_park_def submit_enq_def park_claim_def
  park_cas_def cancel_armed_def cancel_seq_def cancel_inc_def cancel_store_def cancel_enq_def timer_wake_def deliver_claimed_def

section \<open>Handles\<close>

text \<open>What the handles depend on; workers leave it alone.\<close>

definition hview :: "reactor \<Rightarrow> (nat \<Rightarrow> nat option) \<times> (nat \<rightharpoonup> sleep_tm) \<times> int \<times> nat \<times> bool \<times> rctl" where
  "hview s = (\<lambda>f. sleep_timer (tfibs s f), timers s, live_timers s, tbrk s, async_open s, rctl s)"

lemma wake_hview [simp]: "hview (timer_wake s f v) = hview s"
  by (simp add: hview_def timer_wake_def fun_eq_iff)

lemma texec_hview: "texec s u = Some (s1, vs) \<Longrightarrow> hview s1 = hview s"
  by (cases u) (auto simp: hview_def fun_eq_iff worker_defs split: if_splits)

lemma turn_hview: "turn s f ch = Some (s1, vs) \<Longrightarrow> hview s1 = hview s"
  by (cases ch) (auto simp: turn_def hview_def fun_eq_iff Let_def split: if_splits tact.splits)

text \<open>The timer whose callback runs, and whether the callback has cleared its slot.\<close>

fun in_cb :: "rctl \<Rightarrow> nat option" where
  "in_cb (R_CB t) = Some t"
| "in_cb (R_CB_SEQ t) = Some t"
| "in_cb (R_CB_STORE t) = Some t"
| "in_cb (R_CB_WAKE t) = Some t"
| "in_cb (R_CB_CLOSE t) = Some t"
| "in_cb _ = None"

fun past_slot :: "rctl \<Rightarrow> bool" where
  "past_slot (R_CB_STORE t) = True"
| "past_slot (R_CB_WAKE t) = True"
| "past_slot (R_CB_CLOSE t) = True"
| "past_slot _ = False"

text \<open>The slots, the timers, their count, the next address, whether the queue is open, and where the reactor is.\<close>

definition handles_on :: "(nat \<Rightarrow> nat option) \<Rightarrow> (nat \<rightharpoonup> sleep_tm) \<Rightarrow> int \<Rightarrow> nat \<Rightarrow> bool \<Rightarrow> rctl \<Rightarrow> bool" where
  "handles_on sl ts n b op c \<longleftrightarrow>
     dom ts \<subseteq> {..<b} \<and> n = int (card (dom ts)) \<and>
     (\<forall>t tm. ts t = Some tm \<longrightarrow> st_active tm \<longrightarrow> \<not> st_closing tm \<and> in_cb c \<noteq> Some t) \<and>
     (\<forall>t. in_cb c = Some t \<longrightarrow> (\<exists>tm. ts t = Some tm \<and> \<not> st_closing tm)) \<and>
     (op \<longrightarrow>
        (\<forall>f t. sl f = Some t \<longrightarrow>
           (\<exists>tm. ts t = Some tm \<and> \<not> st_closing tm \<and> st_f tm = f \<and> (st_active tm \<or> in_cb c = Some t)) \<and>
           \<not> (past_slot c \<and> in_cb c = Some t)) \<and>
        (\<forall>t tm. ts t = Some tm \<longrightarrow> \<not> st_closing tm \<longrightarrow> sl (st_f tm) = Some t \<or> in_cb c = Some t) \<and>
        (\<forall>t tm. c = R_CB_SEQ t \<longrightarrow> ts t = Some tm \<longrightarrow> sl (st_f tm) = Some t)) \<and>
     (\<not> op \<longrightarrow> c = R_IDLE \<and> (\<forall>t tm. ts t = Some tm \<longrightarrow> st_closing tm))"

definition slots :: "reactor \<Rightarrow> nat \<Rightarrow> nat option" where
  "slots s = (\<lambda>f. sleep_timer (tfibs s f))"

definition handles :: "reactor \<Rightarrow> bool" where
  "handles s \<longleftrightarrow> handles_on (slots s) (timers s) (live_timers s) (tbrk s) (async_open s) (rctl s)"

lemma handles_view: "hview s' = hview s \<Longrightarrow> handles s' = handles s"
  unfolding hview_def prod.inject by (simp add: handles_def slots_def)

lemma on_dom:
  assumes "handles_on sl ts n b op c"
  shows "dom ts \<subseteq> {..<b}" "n = int (card (dom ts))" "finite (dom ts)"
proof -
  show "dom ts \<subseteq> {..<b}" "n = int (card (dom ts))" using assms by (simp_all add: handles_on_def)
  then show "finite (dom ts)" using finite_subset by blast
qed

lemma on_open: "handles_on sl ts n b op c \<Longrightarrow> c \<noteq> R_IDLE \<Longrightarrow> op"
  by (auto simp: handles_on_def)

lemma on_cb: "handles_on sl ts n b op c \<Longrightarrow> in_cb c = Some t \<Longrightarrow> \<exists>tm. ts t = Some tm \<and> \<not> st_closing tm"
  by (simp add: handles_on_def)

lemma on_active: "handles_on sl ts n b op c \<Longrightarrow> ts t = Some tm \<Longrightarrow> st_active tm \<Longrightarrow> \<not> st_closing tm \<and> in_cb c \<noteq> Some t"
  by (simp add: handles_on_def)

lemma on_slot:
  "handles_on sl ts n b True c \<Longrightarrow> sl f = Some t \<Longrightarrow>
   \<exists>tm. ts t = Some tm \<and> \<not> st_closing tm \<and> st_f tm = f \<and> (st_active tm \<or> in_cb c = Some t)"
  "handles_on sl ts n b True c \<Longrightarrow> sl f = Some t \<Longrightarrow> past_slot c \<Longrightarrow> in_cb c \<noteq> Some t"
  by (simp_all add: handles_on_def)

lemma on_unclosed:
  "handles_on sl ts n b True c \<Longrightarrow> ts t = Some tm \<Longrightarrow> \<not> st_closing tm \<Longrightarrow> sl (st_f tm) = Some t \<or> in_cb c = Some t"
  by (simp add: handles_on_def)

lemma on_seq: "handles_on sl ts n b True (R_CB_SEQ t) \<Longrightarrow> ts t = Some tm \<Longrightarrow> sl (st_f tm) = Some t"
  by (simp add: handles_on_def)

lemma on_closing: "handles_on sl ts n b False c \<Longrightarrow> c = R_IDLE \<and> (\<forall>t tm. ts t = Some tm \<longrightarrow> st_closing tm)"
  by (simp add: handles_on_def)

lemma onI:
  assumes "dom ts \<subseteq> {..<b}" "n = int (card (dom ts))"
    "\<And>t tm. ts t = Some tm \<Longrightarrow> st_active tm \<Longrightarrow> \<not> st_closing tm \<and> in_cb c \<noteq> Some t"
    "\<And>t. in_cb c = Some t \<Longrightarrow> \<exists>tm. ts t = Some tm \<and> \<not> st_closing tm"
    "\<And>f t. sl f = Some t \<Longrightarrow> \<exists>tm. ts t = Some tm \<and> \<not> st_closing tm \<and> st_f tm = f \<and> (st_active tm \<or> in_cb c = Some t)"
    "\<And>f t. sl f = Some t \<Longrightarrow> past_slot c \<Longrightarrow> in_cb c \<noteq> Some t"
    "\<And>t tm. ts t = Some tm \<Longrightarrow> \<not> st_closing tm \<Longrightarrow> sl (st_f tm) = Some t \<or> in_cb c = Some t"
    "\<And>t tm. c = R_CB_SEQ t \<Longrightarrow> ts t = Some tm \<Longrightarrow> sl (st_f tm) = Some t"
  shows "handles_on sl ts n b True c"
  unfolding handles_on_def using assms by simp

text \<open>The reactor goes on without touching a handle.\<close>

lemma on_ctl:
  assumes h: "handles_on sl ts n b True c" and c: "in_cb c' = in_cb c" "past_slot c' = past_slot c" "\<And>t. c' \<noteq> R_CB_SEQ t"
  shows "handles_on sl ts n b True c'"
  by (rule onI) (use on_dom[OF h] on_active[OF h] on_cb[OF h] on_slot[OF h] on_unclosed[OF h] c in auto)

lemma on_fire_open:
  assumes h: "handles_on sl ts n b True R_IDLE" and t: "ts t = Some tm" "st_active tm"
  shows "handles_on sl (ts(t \<mapsto> tm\<lparr>st_active := False\<rparr>)) n b True (R_CB t)"
proof (rule onI)
  have d: "dom (ts(t \<mapsto> tm\<lparr>st_active := False\<rparr>)) = dom ts" using t(1) by auto
  show "dom (ts(t \<mapsto> tm\<lparr>st_active := False\<rparr>)) \<subseteq> {..<b}" "n = int (card (dom (ts(t \<mapsto> tm\<lparr>st_active := False\<rparr>))))"
    unfolding d by (rule on_dom[OF h])+
  have "\<not> st_closing tm" using on_active[OF h t] by simp
  then show "\<exists>xm. (ts(t \<mapsto> tm\<lparr>st_active := False\<rparr>)) x = Some xm \<and> \<not> st_closing xm" if "in_cb (R_CB t) = Some x" for x
    using that by simp
  show "\<exists>xm. (ts(t \<mapsto> tm\<lparr>st_active := False\<rparr>)) x = Some xm \<and> \<not> st_closing xm \<and> st_f xm = f \<and> (st_active xm \<or> in_cb (R_CB t) = Some x)"
    if "sl f = Some x" for f x using on_slot(1)[OF h that] t(1) by (cases "x = t") auto
qed (use t on_active[OF h] on_unclosed[OF h] in \<open>auto split: if_splits\<close>)

lemma on_fire:
  assumes "handles_on sl ts n b op R_IDLE" "ts t = Some tm" "st_active tm"
  shows "handles_on sl (ts(t \<mapsto> tm\<lparr>st_active := False\<rparr>)) n b op (R_CB t)"
proof (cases op)
  case False
  then show ?thesis using on_closing[of sl ts n b] on_active[of sl ts n b] assms by fastforce
qed (use on_fire_open assms in simp)

lemma on_cb_seq:
  assumes h: "handles_on sl ts n b True (R_CB t)" and t: "ts t = Some tm" "sl (st_f tm) = Some t"
  shows "handles_on sl ts n b True (R_CB_SEQ t)"
  by (rule onI) (use on_dom[OF h] on_active[OF h] on_cb[OF h] on_slot[OF h] on_unclosed[OF h] t in auto)

lemma on_clear:
  assumes h: "handles_on sl ts n b True c" and t: "in_cb c = Some t" "ts t = Some tm" "sl (st_f tm) = Some t"
    and c: "in_cb c' = Some t" "\<And>t. c' \<noteq> R_CB_SEQ t"
  shows "handles_on (sl(st_f tm := None)) ts n b True c'"
proof (rule onI)
  have ne: "x \<noteq> t" if "(sl(st_f tm := None)) f = Some x" for f x
    using on_slot(1)[OF h, of f x] t(2) that by (auto split: if_splits)
  show "in_cb c' \<noteq> Some x" if "(sl(st_f tm := None)) f = Some x" for f x using ne[OF that] c(1) by simp
  show "\<exists>xm. ts x = Some xm \<and> \<not> st_closing xm \<and> st_f xm = f \<and> (st_active xm \<or> in_cb c' = Some x)"
    if "(sl(st_f tm := None)) f = Some x" for f x using on_slot(1)[OF h, of f x] that t(1) c(1) by (auto split: if_splits)
  show "(sl(st_f tm := None)) (st_f xm) = Some x \<or> in_cb c' = Some x" if "ts x = Some xm" "\<not> st_closing xm" for x xm
    using on_unclosed[OF h that] t c(1) by auto
qed (use on_dom[OF h] on_active[OF h] on_cb[OF h] t c in auto)

lemma on_pass:
  assumes h: "handles_on sl ts n b True (R_CB t)" and t: "ts t = Some tm" "sl (st_f tm) \<noteq> Some t"
  shows "handles_on sl ts n b True (R_CB_CLOSE t)"
proof (rule onI)
  show "in_cb (R_CB_CLOSE t) \<noteq> Some x" if s: "sl f = Some x" for f x
  proof -
    obtain xm where "ts x = Some xm" "st_f xm = f" using on_slot(1)[OF h s] by blast
    then have "x \<noteq> t" using t s by auto
    then show ?thesis by simp
  qed
qed (use on_dom[OF h] on_active[OF h] on_cb[OF h] on_slot[OF h] on_unclosed[OF h] in auto)

lemma dom_closing:
  assumes "ts t = Some tm"
  shows "dom (ts(t \<mapsto> tm')) = dom ts"
  using assms by auto

lemma on_close_cb:
  assumes h: "handles_on sl ts n b True (R_CB_CLOSE t)" and t: "ts t = Some tm"
  shows "handles_on sl (ts(t \<mapsto> tm\<lparr>st_active := False, st_closing := True\<rparr>)) n b True R_IDLE"
proof (rule onI)
  show "\<exists>xm. (ts(t \<mapsto> tm\<lparr>st_active := False, st_closing := True\<rparr>)) x = Some xm \<and> \<not> st_closing xm \<and> st_f xm = f \<and>
      (st_active xm \<or> in_cb R_IDLE = Some x)" if "sl f = Some x" for f x
    using on_slot[OF h that] by auto
  show "sl (st_f xm) = Some x \<or> in_cb R_IDLE = Some x"
    if "(ts(t \<mapsto> tm\<lparr>st_active := False, st_closing := True\<rparr>)) x = Some xm" "\<not> st_closing xm" for x xm
    using on_unclosed[OF h, of x xm] that by (cases "x = t") auto
qed (use on_dom[OF h] on_active[OF h] dom_closing[where ts = ts and t = t and tm = tm, OF t] in \<open>auto split: if_splits\<close>)

lemma on_stop:
  assumes h: "handles_on sl ts n b True c" and c: "in_cb c = None" and t: "sl f = Some t" "ts t = Some tm"
  shows "handles_on (sl(f := None)) (ts(t \<mapsto> tm\<lparr>st_active := False, st_closing := True\<rparr>)) n b True c"
proof (rule onI)
  have f: "st_f tm = f" using on_slot[OF h t(1)] t(2) by auto
  show "\<exists>xm. (ts(t \<mapsto> tm\<lparr>st_active := False, st_closing := True\<rparr>)) x = Some xm \<and> \<not> st_closing xm \<and> st_f xm = g \<and>
      (st_active xm \<or> in_cb c = Some x)" if "(sl(f := None)) g = Some x" for g x
    using on_slot(1)[OF h, of g x] that t f by (auto split: if_splits)
  show "(sl(f := None)) (st_f xm) = Some x \<or> in_cb c = Some x"
    if "(ts(t \<mapsto> tm\<lparr>st_active := False, st_closing := True\<rparr>)) x = Some xm" "\<not> st_closing xm" for x xm
    using on_unclosed[OF h, of x xm] that t c by (auto split: if_splits)
qed (use on_dom[OF h] on_active[OF h] c dom_closing[where ts = ts and t = t and tm = tm, OF t(2)] in \<open>auto split: if_splits\<close>)

lemma on_new:
  assumes h: "handles_on sl ts n b True c" and c: "in_cb c = None" "sl f = None" and t: "st_f tm = f" "st_active tm" "\<not> st_closing tm"
  shows "handles_on (sl(f \<mapsto> b)) (ts(b \<mapsto> tm)) (n + 1) (Suc b) True c"
proof (rule onI)
  have b: "b \<notin> dom ts" using on_dom(1)[OF h] by auto
  have "dom (ts(b \<mapsto> tm)) = insert b (dom ts)" by auto
  then show "n + 1 = int (card (dom (ts(b \<mapsto> tm))))" using on_dom(2,3)[OF h] b by simp
  show "dom (ts(b \<mapsto> tm)) \<subseteq> {..<Suc b}" using on_dom(1)[OF h] by auto
  show "\<exists>xm. (ts(b \<mapsto> tm)) x = Some xm \<and> \<not> st_closing xm \<and> st_f xm = g \<and> (st_active xm \<or> in_cb c = Some x)"
    if "(sl(f \<mapsto> b)) g = Some x" for g x using on_slot(1)[OF h, of g x] that t b c by (auto split: if_splits)
  show "(sl(f \<mapsto> b)) (st_f xm) = Some x \<or> in_cb c = Some x" if "(ts(b \<mapsto> tm)) x = Some xm" "\<not> st_closing xm" for x xm
    using on_unclosed[OF h, of x xm] that c t by (auto split: if_splits)
qed (use on_active[OF h] c t in \<open>auto split: if_splits\<close>)

lemma on_walk:
  assumes h: "handles_on sl ts n b True c"
  shows "handles_on sl (\<lambda>t. map_option (\<lambda>x. x\<lparr>st_active := False, st_closing := True\<rparr>) (ts t)) n b False R_IDLE"
proof -
  have "dom (\<lambda>t. map_option (\<lambda>x. x\<lparr>st_active := False, st_closing := True\<rparr>) (ts t)) = dom ts" by (auto simp: domIff)
  then show ?thesis using on_dom[OF h] unfolding handles_on_def by auto
qed

lemma on_closed:
  assumes h: "handles_on sl ts n b op R_IDLE" and t: "ts t = Some tm" "st_closing tm"
  shows "handles_on sl (ts(t := None)) (n - 1) b op R_IDLE"
proof -
  have "t \<in> dom ts" using t(1) by auto
  moreover have e: "dom (ts(t := None)) = dom ts - {t}" by auto
  moreover have "0 < card (dom ts)" using \<open>t \<in> dom ts\<close> on_dom(3)[OF h] card_gt_0_iff by blast
  ultimately have n: "n - 1 = int (card (dom (ts(t := None))))" using on_dom(2,3)[OF h] by simp
  have b: "dom (ts(t := None)) \<subseteq> {..<b}" using on_dom(1)[OF h] by auto
  show ?thesis
  proof (cases op)
    case True
    have h: "handles_on sl ts n b True R_IDLE" using h True by simp
    have "handles_on sl (ts(t := None)) (n - 1) b True R_IDLE"
    proof (rule onI)
      show "\<exists>xm. (ts(t := None)) x = Some xm \<and> \<not> st_closing xm \<and> st_f xm = f \<and> (st_active xm \<or> in_cb R_IDLE = Some x)"
        if "sl f = Some x" for f x using on_slot(1)[OF h that] t by auto
    qed (use n b on_active[OF h] on_unclosed[OF h] t in \<open>auto split: if_splits\<close>)
    then show ?thesis using True by simp
  next
    case False
    then show ?thesis using h n b t unfolding handles_on_def by auto
  qed
qed


section \<open>Every turn of the reactor\<close>

lemma slots_upd [simp]:
  "slots (upd_ctl c s) = slots s" "slots (upd_timer t g s) = slots s" "slots (set_slot f v s) = (slots s)(f := v)"
  "slots (s\<lparr>io := r\<rparr>) = slots s" "slots (s\<lparr>timers := ts, async_open := b\<rparr>) = slots s"
  "slots (s\<lparr>timers := ts, live_timers := n\<rparr>) = slots s" "slots (s\<lparr>timers := ts, tbrk := k, live_timers := n\<rparr>) = slots s"
  "slots (s\<lparr>stale_store := b\<rparr>) = slots s" "slots (s\<lparr>reactor_stop := b\<rparr>) = slots s"
  by (simp_all add: slots_def fun_eq_iff)

lemma slots_same: "(\<And>x. sleep_timer (g x) = sleep_timer x) \<Longrightarrow> slots (upd_tfib f g s) = slots s"
  by (simp add: slots_def fun_eq_iff)

lemma slots_wake [simp]: "slots (timer_wake s f v) = slots s"
  by (simp add: timer_wake_def slots_same)

lemma wake_sel [simp]:
  "timers (timer_wake s f v) = timers s" "live_timers (timer_wake s f v) = live_timers s" "tbrk (timer_wake s f v) = tbrk s"
  "async_open (timer_wake s f v) = async_open s" "rctl (timer_wake s f v) = rctl s" "io (timer_wake s f v) = io s"
  "stale_store (timer_wake s f v) = stale_store s"
  by (simp_all add: timer_wake_def)

lemma slot_of: "sleep_timer (tfibs s f) = slots s f"
  by (simp add: slots_def)

lemma stop_handles:
  assumes "handles_on (slots s) (timers s) (live_timers s) (tbrk s) True (rctl s)" "in_cb (rctl s) = None" "slots s f = Some t"
  shows "\<exists>s1 tm. stop_and_close f t s = Inr s1 \<and> timers s t = Some tm \<and> st_f tm = f \<and> \<not> st_closing tm \<and>
    s1 = upd_timer t (\<lambda>x. x\<lparr>st_active := False, st_closing := True\<rparr>) (upd_timer t (\<lambda>x. x\<lparr>st_active := False\<rparr>) (set_slot f None s)) \<and>
    handles_on (slots s1) (timers s1) (live_timers s1) (tbrk s1) True (rctl s1)"
proof -
  obtain tm where tm: "timers s t = Some tm" "st_f tm = f" "\<not> st_closing tm" using on_slot(1)[OF assms(1,3)] by blast
  show ?thesis
    using on_stop[OF assms tm(1)] tm by (auto simp: stop_and_close_def uv_timer_stop_def uv_close_def)
qed

lemma rexec_handles:
  assumes "handles s" "rctl s \<noteq> R_IDLE"
  shows "\<exists>s1. rexec s = Inr s1 \<and> handles s1"
proof -
  have op: "async_open s" using on_open assms unfolding handles_def by blast
  have h: "handles_on (slots s) (timers s) (live_timers s) (tbrk s) True (rctl s)" using assms(1) op by (simp add: handles_def)
  show ?thesis
  proof (cases "rctl s")
    case (R_CB t)
    then obtain tm where tm: "timers s t = Some tm" using on_cb[OF h] by auto
    note h = h[unfolded R_CB]
    show ?thesis
      using on_cb_seq[OF h tm] on_clear[OF h _ tm, of "R_CB_CLOSE t"] on_pass[OF h tm]
      by (auto simp: rexec_def R_CB sleep_timer_cb_def tm handles_def op slot_of Let_def)
  next
    case (R_CB_SEQ t)
    then obtain tm where tm: "timers s t = Some tm" using on_cb[OF h] by auto
    note h = h[unfolded R_CB_SEQ]
    show ?thesis
      using on_clear[OF h _ tm on_seq[OF h tm], of "R_CB_CLOSE t"] on_clear[OF h _ tm on_seq[OF h tm], of "R_CB_STORE t"]
      by (auto simp: rexec_def R_CB_SEQ cb_seq_def tm handles_def op Let_def)
  next
    case (R_CB_STORE t)
    then obtain tm where tm: "timers s t = Some tm" using on_cb[OF h] by auto
    show ?thesis using on_ctl[OF h, of "R_CB_WAKE t"] by (simp add: rexec_def R_CB_STORE cb_store_def tm handles_def op Let_def slots_same)
  next
    case (R_CB_WAKE t)
    then obtain tm where tm: "timers s t = Some tm" using on_cb[OF h] by auto
    show ?thesis using on_ctl[OF h, of "R_CB_CLOSE t"] by (simp add: rexec_def R_CB_WAKE cb_wake_def tm handles_def op)
  next
    case (R_CB_CLOSE t)
    then obtain tm where tm: "timers s t = Some tm" "\<not> st_closing tm" using on_cb[OF h] by auto
    note h = h[unfolded R_CB_CLOSE]
    show ?thesis using on_close_cb[OF h tm(1)] by (simp add: rexec_def R_CB_CLOSE cb_close_def uv_close_def tm handles_def op)
  next
    case R_DRAIN
    show ?thesis
      using on_ctl[OF h] by (auto simp: rexec_def R_DRAIN drain_next_def handles_def op split: list.split ioreq.split)
  next
    case R_STOP
    show ?thesis using on_ctl[OF h, of R_IDLE] on_walk[OF h]
      by (simp add: rexec_def R_STOP drain_stop_def reactor_close_walk_def handles_def op)
  next
    case (R_START f ns q)
    show ?thesis using on_ctl[OF h] by (simp add: rexec_def R_START start_armed_def handles_def op)
  next
    case (R_START_SEQ f ns q)
    show ?thesis using on_ctl[OF h] by (simp add: rexec_def R_START_SEQ start_seq_def handles_def op)
  next
    case (R_START_TIMER f ns q)
    let ?tm = "\<lparr>st_f = f, st_seq = q, st_ms = sleep_ms ns, st_active = True, st_closing = False\<rparr>"
    have new: "handles (upd_ctl R_DRAIN (new_timer f ns q s'))"
      if h': "handles_on (slots s') (timers s') (live_timers s') (tbrk s') True (rctl s')" and c: "in_cb (rctl s') = None" "slots s' f = None"
        "async_open s'" "rctl s' = R_START_TIMER f ns q" for s'
      using on_ctl[OF on_new[OF h' c(1,2), of ?tm], of R_DRAIN] c by (simp add: new_timer_def handles_def Let_def)
    show ?thesis
    proof (cases "slots s f")
      case None
      then show ?thesis using new[OF h] op by (simp add: rexec_def R_START_TIMER start_sleep_def slot_of)
    next
      case (Some t)
      have "in_cb (rctl s) = None" by (simp add: R_START_TIMER)
      from stop_handles[OF h this Some] obtain s1 tm where s1: "stop_and_close f t s = Inr s1"
        "s1 = upd_timer t (\<lambda>x. x\<lparr>st_active := False, st_closing := True\<rparr>) (upd_timer t (\<lambda>x. x\<lparr>st_active := False\<rparr>) (set_slot f None s))"
        "handles_on (slots s1) (timers s1) (live_timers s1) (tbrk s1) True (rctl s1)" by blast
      then show ?thesis using new[OF s1(3)] op by (simp add: rexec_def R_START_TIMER start_sleep_def slot_of Some)
    qed
  next
    case (R_CANCEL f q)
    have c: "in_cb (rctl s) = None" by (simp add: R_CANCEL)
    show ?thesis
    proof (cases "slots s f")
      case None
      then show ?thesis using on_ctl[OF h, of R_DRAIN] op by (simp add: rexec_def R_CANCEL cancel_sleep_def slot_of handles_def)
    next
      case (Some t)
      from stop_handles[OF h c Some] obtain s1 tm where s1: "stop_and_close f t s = Inr s1" "timers s t = Some tm"
        "s1 = upd_timer t (\<lambda>x. x\<lparr>st_active := False, st_closing := True\<rparr>) (upd_timer t (\<lambda>x. x\<lparr>st_active := False\<rparr>) (set_slot f None s))"
        "handles_on (slots s1) (timers s1) (live_timers s1) (tbrk s1) True (rctl s1)" by blast
      show ?thesis using on_ctl[OF h, of R_DRAIN] on_ctl[OF s1(4), of R_DRAIN] op s1
        by (simp add: rexec_def R_CANCEL cancel_sleep_def slot_of Some handles_def)
    qed
  qed (use assms(2) in simp)
qed

lemma tmove_handles:
  assumes "tmove mv (s, W) = Some (s1, W1)" "handles s"
  shows "handles s1"
proof (cases mv)
  case M_REACTOR
  then show ?thesis using assms rexec_handles[OF assms(2)] by (auto split: if_splits sum.splits)
next
  case (M_FIRE t)
  then show ?thesis using assms on_fire[of "slots s" "timers s"]
    by (auto simp: handles_def uv_fire_def split: if_splits option.splits)
next
  case M_ASYNC
  then show ?thesis using assms on_ctl[of "slots s" "timers s" "live_timers s" "tbrk s" R_IDLE R_DRAIN]
    by (auto simp: handles_def split: if_splits)
next
  case (M_CLOSED t)
  then show ?thesis using assms on_closed[of "slots s" "timers s"]
    by (auto simp: handles_def uv_closed_def sleep_close_cb_def split: if_splits option.splits)
next
  case M_STOP
  then show ?thesis using assms by (auto simp: handles_def)
next
  case (M_WORK t)
  then have "hview s1 = hview s" using assms(1) by (auto split: list.splits dest: texec_hview)
  then show ?thesis using handles_view assms(2) by blast
next
  case (M_TURN t ch)
  then have "hview s1 = hview s" using assms(1) by (auto split: list.splits tuop.splits dest: turn_hview)
  then show ?thesis using handles_view assms(2) by blast
next
  case (M_DELIVER t a)
  then have "hview s1 = hview s" using assms(1)
    by (auto simp: deliver_claimed_def hview_def fun_eq_iff split: list.splits tuop.splits)
  then show ?thesis using handles_view assms(2) by blast
next
  case (M_TAKE t f)
  then have "hview s1 = hview s" using assms(1) by (auto simp: hview_def fun_eq_iff split: if_splits)
  then show ?thesis using handles_view assms(2) by blast
qed (use assms in \<open>auto split: if_splits\<close>)

lemma init_handles: "handles (reactor_init prog)"
  by (simp add: handles_def handles_on_def reactor_init_def slots_def)

lemma treach_handles: "treach prog c \<Longrightarrow> handles (prod.fst c)"
proof (induction rule: treach.induct)
  case (tr_step c mv c')
  then show ?case using tmove_handles by (cases c; cases c') auto
qed (simp add: init_handles)

end
