(* ===== verification/Kappa_TimerLive.thy ===== *)
theory Kappa_TimerLive
  imports Kappa_TimerProps
begin

text \<open>
  A sleep is not lost: while a fiber is parked in a sleep, its request, its timer, the callback or the wake is
  on the way, in the current generation (\<open>sleep_inv\<close>). The exception is a callback that clears
  \<open>sleep_armed\<close> after the fiber has gone on to another generation (\<open>stale_store\<close>).
\<close>

section \<open>Owners\<close>

fun t_own :: "tuop \<Rightarrow> nat option" where
  "t_own (T_STEP f) = Some f"
| "t_own (T_GATE f) = Some f"
| "t_own (T_TURN f) = Some f"
| "t_own (T_SEQ f _ _) = Some f"
| "t_own (T_ARM f _ _ _) = Some f"
| "t_own (T_PARK f _ _ _) = Some f"
| "t_own (T_C_ARMED f) = Some f"
| "t_own (T_C_SEQ f) = Some f"
| "t_own (T_C_INC f _) = Some f"
| "t_own (T_C_STORE f _) = Some f"
| "t_own (T_C_ENQ f _) = Some f"
| "t_own (T_DELIVER f) = Some f"
| "t_own _ = None"

fun t_cancel :: "tuop \<Rightarrow> bool" where
  "t_cancel (T_C_ARMED f) = True"
| "t_cancel (T_C_SEQ f) = True"
| "t_cancel (T_C_INC f _) = True"
| "t_cancel (T_C_STORE f _) = True"
| "t_cancel (T_C_ENQ f _) = True"
| "t_cancel _ = False"

text \<open>The sections of a thread: one, or a cancel followed by the rest of the turn.\<close>

fun shape :: "tuop list \<Rightarrow> bool" where
  "shape [] = True"
| "shape [u] = True"
| "shape [u, v] = (t_cancel u \<and> (\<exists>f. t_own u = Some f \<and> (v = T_TURN f \<or> v = T_DELIVER f)))"
| "shape _ = False"

fun own_l :: "tuop list \<Rightarrow> nat option" where
  "own_l [] = None"
| "own_l (u # us) = t_own u"

lemma shape_tail: "shape (u # us) \<Longrightarrow> us = [] \<or> (\<exists>f v. us = [v] \<and> t_cancel u \<and> t_own u = Some f \<and> (v = T_TURN f \<or> v = T_DELIVER f))"
  by (cases us; cases "tl us") auto

section \<open>Generations\<close>

fun rgen :: "rctl \<Rightarrow> (nat \<times> nat) option" where
  "rgen (R_START f _ q) = Some (f, q)"
| "rgen (R_START_SEQ f _ q) = Some (f, q)"
| "rgen (R_START_TIMER f _ q) = Some (f, q)"
| "rgen _ = None"

definition start_coming :: "reactor \<Rightarrow> (nat \<Rightarrow> tuop list) \<Rightarrow> nat \<Rightarrow> nat \<Rightarrow> bool" where
  "start_coming s W f q \<longleftrightarrow>
     (\<exists>t ns um. T_ENQ f ns um q \<in> set (W t)) \<or> (\<exists>ns. IO_SLEEP f ns q \<in> set (io s)) \<or> rgen (rctl s) = Some (f, q)"

definition gen_used :: "reactor \<Rightarrow> (nat \<Rightarrow> tuop list) \<Rightarrow> nat \<Rightarrow> nat \<Rightarrow> bool" where
  "gen_used s W f q \<longleftrightarrow> start_coming s W f q \<or> (\<exists>t tm. timers s t = Some tm \<and> st_f tm = f \<and> st_seq tm = q)"

definition timer_coming :: "reactor \<Rightarrow> nat \<Rightarrow> nat \<Rightarrow> bool" where
  "timer_coming s f n \<longleftrightarrow>
     (\<exists>t tm. timers s t = Some tm \<and> st_f tm = f \<and> st_seq tm = n \<and>
        (sleep_timer (tfibs s f) = Some t \<and> (st_active tm \<or> rctl s = R_CB t \<or> rctl s = R_CB_SEQ t) \<or> rctl s = R_CB_STORE t))"

definition wake_coming :: "reactor \<Rightarrow> nat \<Rightarrow> bool" where
  "wake_coming s f \<longleftrightarrow> (\<exists>t tm. rctl s = R_CB_WAKE t \<and> timers s t = Some tm \<and> st_f tm = f)"

fun head_ok :: "reactor \<Rightarrow> (nat \<Rightarrow> tuop list) \<Rightarrow> tuop list \<Rightarrow> bool" where
  "head_ok s W (T_ARM f _ _ q # _) \<longleftrightarrow> q = sleep_seq (tfibs s f) \<and> \<not> gen_used s W f q"
| "head_ok s W (T_PARK f _ _ q # _) \<longleftrightarrow>
     q = sleep_seq (tfibs s f) \<and> \<not> gen_used s W f q \<and> (stale_store s \<or> sleep_armed (tfibs s f))"
| "head_ok s W (T_C_INC f q # _) \<longleftrightarrow> q = sleep_seq (tfibs s f)"
| "head_ok s W (T_C_STORE f q # _) \<longleftrightarrow> q < sleep_seq (tfibs s f)"
| "head_ok s W (T_C_ENQ f q # _) \<longleftrightarrow> q < sleep_seq (tfibs s f)"
| "head_ok s W _ \<longleftrightarrow> True"

definition sleep_inv :: "reactor \<Rightarrow> (nat \<Rightarrow> tuop list) \<Rightarrow> bool" where
  "sleep_inv s W \<longleftrightarrow>
     (\<forall>t. shape (W t)) \<and>
     (\<forall>t f. own_l (W t) = Some f \<longrightarrow> tf_st (tfibs s f) = F_RUNNING) \<and>
     (\<forall>t t' f. own_l (W t) = Some f \<longrightarrow> own_l (W t') = Some f \<longrightarrow> t = t') \<and>
     (\<forall>t. head_ok s W (W t)) \<and>
     (\<forall>f q. gen_used s W f q \<longrightarrow> q \<le> sleep_seq (tfibs s f)) \<and>
     (\<forall>f q. IO_CANCEL_SLEEP f q \<in> set (io s) \<or> rctl s = R_CANCEL f q \<longrightarrow> q < sleep_seq (tfibs s f)) \<and>
     (\<forall>f ns q t tm. rctl s = R_START_TIMER f ns q \<longrightarrow> timers s t = Some tm \<longrightarrow> st_f tm = f \<longrightarrow> st_seq tm \<le> q) \<and>
     (\<forall>f n. tf_sleep (tfibs s f) = Some n \<longrightarrow> tf_st (tfibs s f) = F_PARKED \<and> sleep_seq (tfibs s f) = n) \<and>
     (\<forall>f n. async_open s \<longrightarrow> \<not> stale_store s \<longrightarrow> tf_sleep (tfibs s f) = Some n \<longrightarrow>
        sleep_armed (tfibs s f) \<and> (start_coming s W f n \<or> timer_coming s f n) \<or> wake_coming s f)"

lemma invD:
  assumes "sleep_inv s W"
  shows "shape (W t)" "own_l (W t) = Some f \<Longrightarrow> tf_st (tfibs s f) = F_RUNNING"
    "own_l (W t) = Some f \<Longrightarrow> own_l (W t') = Some f \<Longrightarrow> t = t'" "head_ok s W (W t)"
    "gen_used s W f q \<Longrightarrow> q \<le> sleep_seq (tfibs s f)"
    "IO_CANCEL_SLEEP f q \<in> set (io s) \<or> rctl s = R_CANCEL f q \<Longrightarrow> q < sleep_seq (tfibs s f)"
    "rctl s = R_START_TIMER f ns q \<Longrightarrow> timers s t = Some tm \<Longrightarrow> st_f tm = f \<Longrightarrow> st_seq tm \<le> q"
    "tf_sleep (tfibs s f) = Some n \<Longrightarrow> tf_st (tfibs s f) = F_PARKED \<and> sleep_seq (tfibs s f) = n"
    "async_open s \<Longrightarrow> \<not> stale_store s \<Longrightarrow> tf_sleep (tfibs s f) = Some n \<Longrightarrow>
        sleep_armed (tfibs s f) \<and> (start_coming s W f n \<or> timer_coming s f n) \<or> wake_coming s f"
  using assms unfolding sleep_inv_def by blast+

lemma invI:
  assumes "\<And>t. shape (W t)" "\<And>t f. own_l (W t) = Some f \<Longrightarrow> tf_st (tfibs s f) = F_RUNNING"
    "\<And>t t' f. own_l (W t) = Some f \<Longrightarrow> own_l (W t') = Some f \<Longrightarrow> t = t'" "\<And>t. head_ok s W (W t)"
    "\<And>f q. gen_used s W f q \<Longrightarrow> q \<le> sleep_seq (tfibs s f)"
    "\<And>f q. IO_CANCEL_SLEEP f q \<in> set (io s) \<or> rctl s = R_CANCEL f q \<Longrightarrow> q < sleep_seq (tfibs s f)"
    "\<And>f ns q t tm. rctl s = R_START_TIMER f ns q \<Longrightarrow> timers s t = Some tm \<Longrightarrow> st_f tm = f \<Longrightarrow> st_seq tm \<le> q"
    "\<And>f n. tf_sleep (tfibs s f) = Some n \<Longrightarrow> tf_st (tfibs s f) = F_PARKED \<and> sleep_seq (tfibs s f) = n"
    "\<And>f n. async_open s \<Longrightarrow> \<not> stale_store s \<Longrightarrow> tf_sleep (tfibs s f) = Some n \<Longrightarrow>
        sleep_armed (tfibs s f) \<and> (start_coming s W f n \<or> timer_coming s f n) \<or> wake_coming s f"
  shows "sleep_inv s W"
  unfolding sleep_inv_def using assms by (intro conjI) blast+

section \<open>Changes that do not matter\<close>

text \<open>What the invariant sees of a fiber.\<close>

definition sview :: "tfib \<Rightarrow> fstatus \<times> nat \<times> bool \<times> nat option \<times> nat option" where
  "sview x = (tf_st x, sleep_seq x, sleep_armed x, sleep_timer x, tf_sleep x)"

definition rview where
  "rview s = (\<lambda>f. sview (tfibs s f), set (io s), timers s, async_open s, rctl s, stale_store s)"

lemma rview_same:
  assumes "rview s1 = rview s"
  shows "sleep_inv s1 W = sleep_inv s W"
proof -
  have e: "tf_st (tfibs s1 f) = tf_st (tfibs s f)" "sleep_seq (tfibs s1 f) = sleep_seq (tfibs s f)" "sleep_armed (tfibs s1 f) = sleep_armed (tfibs s f)"
    "sleep_timer (tfibs s1 f) = sleep_timer (tfibs s f)" "tf_sleep (tfibs s1 f) = tf_sleep (tfibs s f)"
    "set (io s1) = set (io s)" "timers s1 = timers s" "async_open s1 = async_open s" "rctl s1 = rctl s" "stale_store s1 = stale_store s" for f
    using assms unfolding rview_def sview_def by (simp_all add: fun_eq_iff)
  have g: "start_coming s1 = start_coming s" "gen_used s1 = gen_used s" "timer_coming s1 = timer_coming s" "wake_coming s1 = wake_coming s"
    unfolding gen_used_def start_coming_def timer_coming_def wake_coming_def e by (simp_all add: fun_eq_iff)
  have "head_ok s1 W us = head_ok s W us" for us by (cases "(s, W, us)" rule: head_ok.cases) (simp_all add: e g)
  then show ?thesis unfolding sleep_inv_def e g by simp
qed

lemma start_W:
  "start_coming s (W(t := us)) f q \<longleftrightarrow>
     (\<exists>ns um. T_ENQ f ns um q \<in> set us) \<or> (\<exists>t' ns um. t' \<noteq> t \<and> T_ENQ f ns um q \<in> set (W t')) \<or>
     (\<exists>ns. IO_SLEEP f ns q \<in> set (io s)) \<or> rgen (rctl s) = Some (f, q)"
  unfolding start_coming_def by (auto split: if_splits) blast+

lemma same_enq:
  assumes "\<And>f ns um q. T_ENQ f ns um q \<in> set us \<longleftrightarrow> T_ENQ f ns um q \<in> set (W t)"
  shows "start_coming s (W(t := us)) = start_coming s W" "gen_used s (W(t := us)) = gen_used s W"
proof -
  show e: "start_coming s (W(t := us)) = start_coming s W"
    unfolding fun_eq_iff start_W using assms unfolding start_coming_def by metis
  show "gen_used s (W(t := us)) = gen_used s W" by (simp add: fun_eq_iff gen_used_def e)
qed

lemma head_same: "gen_used s W' = gen_used s W \<Longrightarrow> head_ok s W' us = head_ok s W us"
  by (cases "(s, W, us)" rule: head_ok.cases) simp_all

text \<open>A thread goes on with other sections of the same fiber, or drops it.\<close>

lemma inv_thread:
  assumes i: "sleep_inv s W" and us: "shape us" "own_l us = own_l (W t) \<or> own_l us = None" "head_ok s W us"
    "\<And>f ns um q. T_ENQ f ns um q \<in> set us \<longleftrightarrow> T_ENQ f ns um q \<in> set (W t)"
  shows "sleep_inv s (W(t := us))"
proof (rule invI)
  note e = same_enq[where us = us and W = W and t = t, OF us(4)]
  have o: "own_l (W x) = Some f" if "own_l ((W(t := us)) x) = Some f" for x f using us(2) that by (auto split: if_splits)
  fix x y f q ns tm n
  show "shape ((W(t := us)) x)" using invD(1)[OF i] us(1) by simp
  show "tf_st (tfibs s f) = F_RUNNING" if "own_l ((W(t := us)) x) = Some f" by (rule invD(2)[OF i o[OF that]])
  show "x = y" if "own_l ((W(t := us)) x) = Some f" "own_l ((W(t := us)) y) = Some f"
    by (rule invD(3)[OF i o[OF that(1)] o[OF that(2)]])
  show "head_ok s (W(t := us)) ((W(t := us)) x)" using invD(4)[OF i] us(3) unfolding head_same[OF e(2)] by simp
qed (use invD[OF i] same_enq[where us = us and W = W and t = t, OF us(4)] in auto)

section \<open>Changes of one fiber\<close>

lemma running_awake: "sleep_inv s W \<Longrightarrow> tf_st (tfibs s f) \<noteq> F_PARKED \<Longrightarrow> tf_sleep (tfibs s f) = None"
  using invD(8)[of s W f] by (cases "tf_sleep (tfibs s f)") auto

lemma start_fib [simp]: "start_coming (upd_tfib f g s) = start_coming s" "gen_used (upd_tfib f g s) = gen_used s"
  "wake_coming (upd_tfib f g s) = wake_coming s"
  by (simp_all add: fun_eq_iff start_coming_def gen_used_def wake_coming_def)

lemma timer_fib: "(f' = f \<Longrightarrow> sleep_timer (g (tfibs s f)) = sleep_timer (tfibs s f)) \<Longrightarrow> timer_coming (upd_tfib f g s) f' n = timer_coming s f' n"
  by (simp add: timer_coming_def)

lemma head_other:
  assumes "own_l us \<noteq> Some f"
  shows "head_ok (upd_tfib f g s) W us = head_ok s W us"
  using assms by (cases "(s, W, us)" rule: head_ok.cases) auto

text \<open>The owner of a fiber changes its words.\<close>

lemma inv_own:
  assumes i: "sleep_inv s W" and t: "own_l (W t) = Some f"
    and g: "\<And>x. tf_st (g x) = tf_st x" "\<And>x. tf_sleep (g x) = tf_sleep x" "\<And>x. sleep_timer (g x) = sleep_timer x" "\<And>x. sleep_seq x \<le> sleep_seq (g x)"
    and us: "shape us" "own_l us = Some f \<or> own_l us = None" "head_ok (upd_tfib f g s) W us"
      "\<And>f ns um q. T_ENQ f ns um q \<in> set us \<longleftrightarrow> T_ENQ f ns um q \<in> set (W t)"
  shows "sleep_inv (upd_tfib f g s) (W(t := us))"
proof (rule invI)
  note e = same_enq[where us = us and W = W and t = t, OF us(4)]
  have awake: "tf_sleep (tfibs s f) = None" by (rule running_awake[OF i]) (use invD(2)[OF i t] in simp)
  have o: "own_l (W x) = Some h" if "own_l ((W(t := us)) x) = Some h" for x h using us(2) t that by (auto split: if_splits)
  fix x y h q ns tm n k
  show "shape ((W(t := us)) x)" using invD(1)[OF i] us(1) by simp
  show "tf_st (tfibs (upd_tfib f g s) h) = F_RUNNING" if "own_l ((W(t := us)) x) = Some h"
    using invD(2)[OF i o[OF that]] g(1) by (auto simp del: split_paired_All)
  show "x = y" if "own_l ((W(t := us)) x) = Some h" "own_l ((W(t := us)) y) = Some h"
    by (rule invD(3)[OF i o[OF that(1)] o[OF that(2)]])
  show "head_ok (upd_tfib f g s) (W(t := us)) ((W(t := us)) x)"
  proof (cases "x = t")
    case True
    then show ?thesis using us(3) head_same[of "upd_tfib f g s" "W(t := us)" W] e(2) by simp
  next
    case False
    then have "own_l (W x) \<noteq> Some f" using invD(3)[OF i t] by blast
    then show ?thesis using head_other invD(4)[OF i, of x] head_same[OF e(2)] False by simp
  qed
  show "q \<le> sleep_seq (tfibs (upd_tfib f g s) h)" if "gen_used (upd_tfib f g s) (W(t := us)) h q"
    using invD(5)[OF i, of h q] that g(4)[of "tfibs s f"] e(2) by auto
  show "q < sleep_seq (tfibs (upd_tfib f g s) h)" if "IO_CANCEL_SLEEP h q \<in> set (io (upd_tfib f g s)) \<or> rctl (upd_tfib f g s) = R_CANCEL h q"
    using invD(6)[OF i, of h q] that g(4)[of "tfibs s f"] by auto
  show "st_seq tm \<le> q" if "rctl (upd_tfib f g s) = R_START_TIMER h ns q" "timers (upd_tfib f g s) k = Some tm" "st_f tm = h"
    using invD(7)[OF i] that by simp
  show "tf_st (tfibs (upd_tfib f g s) h) = F_PARKED \<and> sleep_seq (tfibs (upd_tfib f g s) h) = n" if "tf_sleep (tfibs (upd_tfib f g s) h) = Some n"
    using invD(8)[OF i, of h n] that awake g(2) by (auto split: if_splits)
  show "sleep_armed (tfibs (upd_tfib f g s) h) \<and> (start_coming (upd_tfib f g s) (W(t := us)) h n \<or> timer_coming (upd_tfib f g s) h n) \<or>
      wake_coming (upd_tfib f g s) h"
    if "async_open (upd_tfib f g s)" "\<not> stale_store (upd_tfib f g s)" "tf_sleep (tfibs (upd_tfib f g s) h) = Some n"
  proof -
    have "h \<noteq> f" using that(3) awake g(2) by auto
    then show ?thesis using invD(9)[OF i, of h n] that timer_fib[of h f g s n] e(1) by simp
  qed
qed

text \<open>A fiber that is not running changes its status, and is not asleep any more.\<close>

lemma inv_status:
  assumes i: "sleep_inv s W" and f: "tf_st (tfibs s f) \<noteq> F_RUNNING"
    and g: "tf_sleep (g (tfibs s f)) = None" "sleep_timer (g (tfibs s f)) = sleep_timer (tfibs s f)"
      "sleep_seq (g (tfibs s f)) = sleep_seq (tfibs s f)" "sleep_armed (g (tfibs s f)) = sleep_armed (tfibs s f)"
  shows "sleep_inv (upd_tfib f g s) W"
proof (rule invI)
  have no: "own_l (W x) \<noteq> Some f" for x using invD(2)[OF i] f by blast
  fix x y h q ns tm n k
  show "tf_st (tfibs (upd_tfib f g s) h) = F_RUNNING" if "own_l (W x) = Some h" using invD(2)[OF i that] that no by auto
  show "head_ok (upd_tfib f g s) W (W x)" using head_other[OF no] invD(4)[OF i] by blast
  show "sleep_armed (tfibs (upd_tfib f g s) h) \<and> (start_coming (upd_tfib f g s) W h n \<or> timer_coming (upd_tfib f g s) h n) \<or>
      wake_coming (upd_tfib f g s) h"
    if "async_open (upd_tfib f g s)" "\<not> stale_store (upd_tfib f g s)" "tf_sleep (tfibs (upd_tfib f g s) h) = Some n"
  proof -
    have "h \<noteq> f" using that(3) g(1) by auto
    then show ?thesis using invD(9)[OF i, of h n] that timer_fib[of h f g s n] by simp
  qed
  show "x = y" if "own_l (W x) = Some h" "own_l (W y) = Some h" by (rule invD(3)[OF i that])
  show "tf_st (tfibs (upd_tfib f g s) h) = F_PARKED \<and> sleep_seq (tfibs (upd_tfib f g s) h) = n" if "tf_sleep (tfibs (upd_tfib f g s) h) = Some n"
    using invD(8)[OF i, of h n] that g(1) by (auto split: if_splits)
qed (use invD(1,5,6,7)[OF i] g(3) in \<open>auto split: if_splits\<close>)

text \<open>A thread takes a running fiber that no thread has.\<close>

lemma inv_take:
  assumes i: "sleep_inv s W" and f: "tf_st (tfibs s f) = F_RUNNING" "\<And>x. own_l (W x) \<noteq> Some f"
    and us: "shape us" "own_l us = Some f" "head_ok s W us" "\<And>f ns um q. T_ENQ f ns um q \<in> set us \<longleftrightarrow> T_ENQ f ns um q \<in> set (W t)"
  shows "sleep_inv s (W(t := us))"
proof (rule invI)
  note e = same_enq[where us = us and W = W and t = t, OF us(4)]
  fix x y h q ns tm n k
  show "shape ((W(t := us)) x)" using invD(1)[OF i] us(1) by simp
  show "tf_st (tfibs s h) = F_RUNNING" if "own_l ((W(t := us)) x) = Some h" using invD(2)[OF i] f(1) us(2) that by (auto split: if_splits)
  show "x = y" if "own_l ((W(t := us)) x) = Some h" "own_l ((W(t := us)) y) = Some h"
  proof (cases "h = f")
    case True
    then show ?thesis using that f(2) by (auto split: if_splits)
  next
    case False
    then have "own_l (W x) = Some h" "own_l (W y) = Some h" using that us(2) by (auto split: if_splits)
    then show ?thesis by (rule invD(3)[OF i])
  qed
  show "head_ok s (W(t := us)) ((W(t := us)) x)" using invD(4)[OF i] us(3) unfolding head_same[OF e(2)] by simp
qed (use invD(5-9)[OF i] same_enq[where us = us and W = W and t = t, OF us(4)] in auto)

section \<open>The requests of a worker\<close>

lemma start_enq:
  "start_coming (enq (IO_CANCEL_SLEEP g p) s) = start_coming s" "gen_used (enq (IO_CANCEL_SLEEP g p) s) = gen_used s"
  "timer_coming (enq r s) = timer_coming s" "wake_coming (enq r s) = wake_coming s"
  "start_coming (enq (IO_SLEEP g ns p) s) W f q \<longleftrightarrow> start_coming s W f q \<or> f = g \<and> q = p"
  by (auto simp: fun_eq_iff start_coming_def gen_used_def timer_coming_def wake_coming_def)

lemma head_mono:
  assumes "\<And>f q. gen_used s1 W1 f q \<longleftrightarrow> gen_used s W f q" "tfibs s1 = tfibs s" "stale_store s1 = stale_store s"
  shows "head_ok s1 W1 us = head_ok s W us"
  by (cases "(s, W, us)" rule: head_ok.cases) (simp_all add: assms)

lemma inv_enq_cancel:
  assumes i: "sleep_inv s W" and p: "p < sleep_seq (tfibs s g)"
  shows "sleep_inv (enq (IO_CANCEL_SLEEP g p) s) W"
proof (rule invI)
  fix f q
  show "q < sleep_seq (tfibs (enq (IO_CANCEL_SLEEP g p) s) f)"
    if "IO_CANCEL_SLEEP f q \<in> set (io (enq (IO_CANCEL_SLEEP g p) s)) \<or> rctl (enq (IO_CANCEL_SLEEP g p) s) = R_CANCEL f q"
    using that p invD(6)[OF i] by auto
  fix t
  show "head_ok (enq (IO_CANCEL_SLEEP g p) s) W (W t)"
    using invD(4)[OF i] head_mono[of "enq (IO_CANCEL_SLEEP g p) s" W s W] by (simp add: start_enq)
qed (use invD[OF i] in \<open>auto simp: start_enq\<close>)

text \<open>A request moves from the thread to the queue.\<close>

lemma inv_enq_sleep:
  assumes i: "sleep_inv s W" and t: "W t = [T_ENQ g ns um p]"
  shows "sleep_inv (enq (IO_SLEEP g ns p) s) (W(t := [T_CLAIM g um True]))"
proof (rule invI)
  have e: "start_coming (enq (IO_SLEEP g ns p) s) (W(t := [T_CLAIM g um True])) f q \<longleftrightarrow> start_coming s W f q" for f q
    unfolding start_enq(5) start_W unfolding start_coming_def using t by (auto split: if_splits) (metis list.set_intros(1) set_ConsD empty_iff empty_set tuop.inject(7))+
  then have eg: "gen_used (enq (IO_SLEEP g ns p) s) (W(t := [T_CLAIM g um True])) f q \<longleftrightarrow> gen_used s W f q" for f q
    by (simp add: gen_used_def)
  fix x y f q k n tm ns'
  show "shape ((W(t := [T_CLAIM g um True])) x)" using invD(1)[OF i] by simp
  show "tf_st (tfibs (enq (IO_SLEEP g ns p) s) f) = F_RUNNING" if "own_l ((W(t := [T_CLAIM g um True])) x) = Some f"
    using invD(2)[OF i] that by (auto split: if_splits)
  show "x = y" if "own_l ((W(t := [T_CLAIM g um True])) x) = Some f" "own_l ((W(t := [T_CLAIM g um True])) y) = Some f"
    using invD(3)[OF i] that by (auto split: if_splits)
  show "head_ok (enq (IO_SLEEP g ns p) s) (W(t := [T_CLAIM g um True])) ((W(t := [T_CLAIM g um True])) x)"
    using invD(4)[OF i, of x] head_mono[of "enq (IO_SLEEP g ns p) s" "W(t := [T_CLAIM g um True])" s W, OF eg] by simp
  show "sleep_armed (tfibs (enq (IO_SLEEP g ns p) s) f) \<and>
      (start_coming (enq (IO_SLEEP g ns p) s) (W(t := [T_CLAIM g um True])) f n \<or> timer_coming (enq (IO_SLEEP g ns p) s) f n) \<or>
      wake_coming (enq (IO_SLEEP g ns p) s) f"
    if "async_open (enq (IO_SLEEP g ns p) s)" "\<not> stale_store (enq (IO_SLEEP g ns p) s)" "tf_sleep (tfibs (enq (IO_SLEEP g ns p) s) f) = Some n"
    using invD(9)[OF i, of f n] that e[of f n] by (simp add: start_enq(3,4))
  show "q \<le> sleep_seq (tfibs (enq (IO_SLEEP g ns p) s) f)" if "gen_used (enq (IO_SLEEP g ns p) s) (W(t := [T_CLAIM g um True])) f q"
    using invD(5)[OF i] that eg by simp
qed (use invD(6-8)[OF i] in auto)

text \<open>The fiber parks in its sleep.\<close>

lemma inv_park:
  assumes i: "sleep_inv s W" and t: "W t = [T_PARK g ns um p]"
  shows "sleep_inv (upd_tfib g (\<lambda>x. x\<lparr>tf_st := F_PARKED, tf_sleep := Some p\<rparr>) s) (W(t := [T_ENQ g ns um p]))"
    (is "sleep_inv ?s ?W")
proof (rule invI)
  have h: "p = sleep_seq (tfibs s g)" "\<not> gen_used s W g p" "stale_store s \<or> sleep_armed (tfibs s g)"
    using invD(4)[OF i, of t] unfolding t head_ok.simps by blast+
  have o: "own_l (W t) = Some g" using t by simp
  have e: "start_coming ?s ?W f q \<longleftrightarrow> start_coming s W f q \<or> f = g \<and> q = p" for f q
    unfolding start_fib start_W unfolding start_coming_def using t by (auto split: if_splits) (metis list.set_intros(1) set_ConsD empty_iff empty_set tuop.distinct)+
  have eg: "gen_used ?s ?W f q \<longleftrightarrow> gen_used s W f q \<or> f = g \<and> q = p" for f q
    using e unfolding gen_used_def by simp blast
  fix x y f q k n tm ns'
  have ne: "x \<noteq> t \<and> f \<noteq> g \<and> own_l (W x) = Some f" if "own_l (?W x) = Some f" for x f
    using that invD(3)[OF i o, of x] by (auto split: if_splits)
  show "shape (?W x)" using invD(1)[OF i] by simp
  show "tf_st (tfibs ?s f) = F_RUNNING" if "own_l (?W x) = Some f" using invD(2)[OF i] ne[OF that] by auto
  show "x = y" if "own_l (?W x) = Some f" "own_l (?W y) = Some f" using invD(3)[OF i] ne[OF that(1)] ne[OF that(2)] by blast
  show "head_ok ?s ?W (?W x)"
  proof (cases "own_l (?W x)")
    case None
    then show ?thesis by (cases "(?s, ?W, ?W x)" rule: head_ok.cases) (simp_all split: if_splits)
  next
    case (Some f)
    note n = ne[OF Some]
    have "head_ok s W (W x)" by (rule invD(4)[OF i])
    moreover have "gen_used s ?W f q \<longleftrightarrow> gen_used s W f q" for q using eg[of f q] n by simp
    ultimately show ?thesis using n by (cases "(s, W, W x)" rule: head_ok.cases) auto
  qed
  show "q \<le> sleep_seq (tfibs ?s f)" if "gen_used ?s ?W f q" using that invD(5)[OF i, of f q] h(1) eg by auto
  show "q < sleep_seq (tfibs ?s f)" if "IO_CANCEL_SLEEP f q \<in> set (io ?s) \<or> rctl ?s = R_CANCEL f q" using invD(6)[OF i, of f q] that by auto
  show "tf_st (tfibs ?s f) = F_PARKED \<and> sleep_seq (tfibs ?s f) = n" if "tf_sleep (tfibs ?s f) = Some n"
    using invD(8)[OF i, of f n] that h(1) by (auto split: if_splits)
  show "sleep_armed (tfibs ?s f) \<and> (start_coming ?s ?W f n \<or> timer_coming ?s f n) \<or> wake_coming ?s f"
    if "async_open ?s" "\<not> stale_store ?s" "tf_sleep (tfibs ?s f) = Some n"
  proof (cases "f = g")
    case True
    then show ?thesis using that h(3) e by auto
  next
    case False
    then show ?thesis using invD(9)[OF i, of f n] that e timer_fib[of f g _ s n] by auto
  qed
qed (use invD(7)[OF i] in auto)

text \<open>The fiber parks otherwise, or ends.\<close>

lemma inv_leave:
  assumes i: "sleep_inv s W" and t: "own_l (W t) = Some g" and us: "shape us" "own_l us = None"
    "\<And>f ns um q. T_ENQ f ns um q \<in> set us \<longleftrightarrow> T_ENQ f ns um q \<in> set (W t)"
    and k: "\<And>x. tf_sleep (k x) = None" "\<And>x. sleep_timer (k x) = sleep_timer x" "\<And>x. sleep_seq (k x) = sleep_seq x" "\<And>x. sleep_armed (k x) = sleep_armed x"
  shows "sleep_inv (upd_tfib g k s) (W(t := us))"
proof -
  have h: "head_ok s W us" using us(2) by (cases "(s, W, us)" rule: head_ok.cases) simp_all
  have i1: "sleep_inv s (W(t := us))" by (rule inv_thread[OF i us(1) _ h us(3)]) (use us(2) in auto)
  have no: "own_l ((W(t := us)) x) \<noteq> Some g" for x using invD(3)[OF i t, of x] us(2) by auto
  show ?thesis
  proof (rule invI)
    fix x y f q ns tm n c
    show "tf_st (tfibs (upd_tfib g k s) f) = F_RUNNING" if "own_l ((W(t := us)) x) = Some f" using invD(2)[OF i1 that] that no by auto
    show "head_ok (upd_tfib g k s) (W(t := us)) ((W(t := us)) x)" using head_other[OF no] invD(4)[OF i1] by blast
    show "sleep_armed (tfibs (upd_tfib g k s) f) \<and> (start_coming (upd_tfib g k s) (W(t := us)) f n \<or> timer_coming (upd_tfib g k s) f n) \<or>
        wake_coming (upd_tfib g k s) f"
      if "async_open (upd_tfib g k s)" "\<not> stale_store (upd_tfib g k s)" "tf_sleep (tfibs (upd_tfib g k s) f) = Some n"
    proof -
      have "f \<noteq> g" using that(3) k(1) by auto
      then show ?thesis using invD(9)[OF i1, of f n] that timer_fib[of f g k s n] by simp
    qed
    show "x = y" if "own_l ((W(t := us)) x) = Some f" "own_l ((W(t := us)) y) = Some f" by (rule invD(3)[OF i1 that])
    show "tf_st (tfibs (upd_tfib g k s) f) = F_PARKED \<and> sleep_seq (tfibs (upd_tfib g k s) f) = n" if "tf_sleep (tfibs (upd_tfib g k s) f) = Some n"
      using invD(8)[OF i1, of f n] that k(1) by (auto split: if_splits)
  qed (use invD(1,5,6,7)[OF i1] k(3) in \<open>auto split: if_splits\<close>)
qed

section \<open>Every step of a worker\<close>

lemma not_cancel_last: "shape (u # us) \<Longrightarrow> \<not> t_cancel u \<Longrightarrow> us = []"
  using shape_tail[of u us] by auto

lemma head_trivial: "own_l us = None \<Longrightarrow> head_ok s W us"
  by (cases "(s, W, us)" rule: head_ok.cases) simp_all

lemma rview_fib: "(\<And>x. sview (g x) = sview x) \<Longrightarrow> rview (upd_tfib f g s) = rview s"
  by (simp add: rview_def fun_eq_iff)

lemma work_cancel:
  assumes i: "sleep_inv s W" and t: "W t = u # us" and u: "t_cancel u" and x: "texec s u = Some (s1, vs)"
  shows "sleep_inv s1 (W(t := vs @ us))"
proof -
  obtain f where f: "t_own u = Some f" using u by (cases u) simp_all
  have us: "us = [] \<or> us = [T_TURN f] \<or> us = [T_DELIVER f]" using shape_tail[of u us] invD(1)[OF i, of t] t f by auto
  have o: "own_l (W t) = Some f" using t f by simp
  have ne: "T_ENQ h ns um q \<notin> set (W t)" for h ns um q using us u t by (cases u) auto
  have hd: "head_ok s W (W t)" by (rule invD(4)[OF i])
  have rest: "sleep_inv s W \<Longrightarrow> sleep_inv s (W(t := us))" for s
    by (erule inv_thread) (use us o ne in auto)
  show ?thesis
  proof (cases u)
    case (T_C_ARMED h)
    have "sleep_inv s (W(t := T_C_SEQ f # us))" by (rule inv_thread[OF i]) (use us o ne in auto)
    then show ?thesis using x f rest[OF i] T_C_ARMED by (auto simp: cancel_armed_def split: if_splits)
  next
    case (T_C_SEQ h)
    have "sleep_inv s (W(t := T_C_INC f (sleep_seq (tfibs s f)) # us))" by (rule inv_thread[OF i]) (use us o ne in auto)
    then show ?thesis using x f T_C_SEQ by (auto simp: cancel_seq_def)
  next
    case (T_C_INC h q)
    have "q = sleep_seq (tfibs s f)" using hd t f T_C_INC by simp
    then have "sleep_inv (upd_tfib f (\<lambda>x. x\<lparr>sleep_seq := sleep_seq x + 1\<rparr>) s) (W(t := T_C_STORE f q # us))"
      by (intro inv_own[OF i o]) (use us ne in auto)
    then show ?thesis using x f T_C_INC by (auto simp: cancel_inc_def)
  next
    case (T_C_STORE h q)
    have "q < sleep_seq (tfibs s f)" using hd t f T_C_STORE by simp
    then have "sleep_inv (upd_tfib f (\<lambda>x. x\<lparr>sleep_armed := False\<rparr>) s) (W(t := T_C_ENQ f q # us))"
      by (intro inv_own[OF i o]) (use us ne in auto)
    then show ?thesis using x f T_C_STORE by (auto simp: cancel_store_def)
  next
    case (T_C_ENQ h q)
    have "q < sleep_seq (tfibs s f)" using hd t f T_C_ENQ by simp
    from rest[OF inv_enq_cancel[OF i this]] show ?thesis using x f T_C_ENQ by (auto simp: cancel_enq_def)
  qed (use u in simp_all)
qed

lemma wake_inv:
  assumes "sleep_inv s W"
  shows "sleep_inv (timer_wake s f v) W"
  using assms inv_status[OF assms, of f] by (auto simp: timer_wake_def)

lemma work_inv:
  assumes i: "sleep_inv s W" and t: "W t = u # us" and x: "texec s u = Some (s1, vs)"
  shows "sleep_inv s1 (W(t := vs @ us))"
proof (cases "t_cancel u")
  case True
  show ?thesis by (rule work_cancel[OF i t True x])
next
  case False
  then have us: "us = []" using not_cancel_last invD(1)[OF i, of t] t by simp
  have hd: "head_ok s W (W t)" by (rule invD(4)[OF i])
  show ?thesis
  proof (cases u)
    case (T_STEP f)
    have "sleep_inv s (W(t := [T_GATE f]))" "sleep_inv s (W(t := [T_TURN f]))" by (rule inv_thread[OF i]; use t us T_STEP in simp)+
    then show ?thesis using x us T_STEP by (auto simp: step_gate_def split: if_splits)
  next
    case (T_GATE f)
    have "sleep_inv s (W(t := [T_C_ARMED f, T_TURN f]))" "sleep_inv s (W(t := [T_TURN f]))"
      by (rule inv_thread[OF i]; use t us T_GATE in simp)+
    then show ?thesis using x us T_GATE by (auto simp: gate_armed_def split: if_splits)
  next
    case (T_SEQ f ns um)
    have o: "own_l (W t) = Some f" using t T_SEQ by simp
    have "\<not> gen_used s W f (sleep_seq (tfibs s f) + 1)" using invD(5)[OF i, of f "sleep_seq (tfibs s f) + 1"] by auto
    then have "sleep_inv (upd_tfib f (\<lambda>x. x\<lparr>sleep_seq := sleep_seq x + 1\<rparr>) s) (W(t := [T_ARM f ns um (sleep_seq (tfibs s f) + 1)]))"
      by (intro inv_own[OF i o]) (use t us T_SEQ in auto)
    then show ?thesis using x us T_SEQ by (auto simp: submit_seq_def)
  next
    case (T_ARM f ns um q)
    have o: "own_l (W t) = Some f" using t T_ARM by simp
    have "q = sleep_seq (tfibs s f) \<and> \<not> gen_used s W f q" using hd unfolding t T_ARM head_ok.simps .
    then have "sleep_inv (upd_tfib f (\<lambda>x. x\<lparr>sleep_armed := True\<rparr>) s) (W(t := [T_PARK f ns um q]))"
      by (intro inv_own[OF i o]) (use t us T_ARM in auto)
    then show ?thesis using x us T_ARM by (auto simp: submit_arm_def)
  next
    case (T_PARK f ns um q)
    show ?thesis using inv_park[OF i, of t f ns um q] x us t T_PARK by (auto simp: submit_park_def)
  next
    case (T_ENQ f ns um q)
    show ?thesis using inv_enq_sleep[OF i, of t f ns um q] x us t T_ENQ by (auto simp: submit_enq_def)
  next
    case (T_CLAIM f um sl)
    have "sleep_inv s (W(t := [T_CAS f sl]))" "sleep_inv s (W(t := []))" by (rule inv_thread[OF i]; use t us T_CLAIM in simp)+
    then show ?thesis using x us T_CLAIM by (auto simp: park_claim_def split: if_splits)
  next
    case (T_CAS f sl)
    let ?us = "(if sl then [T_C_ARMED f] else []) @ [T_DELIVER f]"
    have "sleep_inv s (W(t := []))" by (rule inv_thread[OF i]) (use t us T_CAS in auto)
    moreover have "sleep_inv (upd_tfib f (\<lambda>x. x\<lparr>tf_st := F_RUNNING, tf_sleep := None\<rparr>) s) (W(t := ?us))" if p: "tf_st (tfibs s f) = F_PARKED"
    proof (rule inv_take[where f = f])
      show "sleep_inv (upd_tfib f (\<lambda>x. x\<lparr>tf_st := F_RUNNING, tf_sleep := None\<rparr>) s) W" by (rule inv_status[OF i]) (use p in simp_all)
      show "own_l (W x) \<noteq> Some f" for x using invD(2)[OF i, of x f] p by auto
    qed (use t us T_CAS in auto)
    ultimately show ?thesis using x us T_CAS by (auto simp: park_cas_def split: if_splits)
  next
    case (T_REQUEST f)
    have "sleep_inv s (W(t := [T_WAKE f None]))" by (rule inv_thread[OF i]) (use t us T_REQUEST in auto)
    then have "sleep_inv (upd_tfib f (\<lambda>x. x\<lparr>tf_pend := True\<rparr>) s) (W(t := [T_WAKE f None]))"
      using rview_same[OF rview_fib] by (simp add: sview_def)
    then show ?thesis using x us T_REQUEST by auto
  next
    case (T_WAKE f v)
    have "sleep_inv s (W(t := []))" by (rule inv_thread[OF i]) (use t us T_WAKE in auto)
    then show ?thesis using wake_inv x us T_WAKE by auto
  qed (use x False in simp_all)
qed

lemma hidden_inv: "sleep_inv s W \<Longrightarrow> (\<And>x. sview (g x) = sview x) \<Longrightarrow> sleep_inv (upd_tfib f g s) W"
  using rview_same[OF rview_fib] by blast

lemma turn_inv:
  assumes i: "sleep_inv s W" and t: "W t = T_TURN f # us" and x: "turn s f ch = Some (s1, vs)"
  shows "sleep_inv s1 (W(t := vs @ us))"
proof -
  have us: "us = []" using not_cancel_last[of "T_TURN f" us] invD(1)[OF i, of t] t by simp
  have o: "own_l (W t) = Some f" using t by simp
  have step: "sleep_inv s (W(t := [T_STEP f]))" and seq: "sleep_inv s (W(t := [T_SEQ f ns um]))" for ns um
    by (rule inv_thread[OF i]; use t us in simp)+
  have gone: "sleep_inv (upd_tfib f k s) (W(t := vs))" if "shape vs" "own_l vs = None" "\<And>h ns um q. T_ENQ h ns um q \<notin> set vs"
    "\<And>x. tf_sleep (k x) = None" "\<And>x. sleep_timer (k x) = sleep_timer x" "\<And>x. sleep_seq (k x) = sleep_seq x" "\<And>x. sleep_armed (k x) = sleep_armed x" for k vs
    by (rule inv_leave[OF i o]) (use that t us in auto)
  show ?thesis
  proof (cases ch)
    case (TC_DELIVER a)
    then show ?thesis using x us hidden_inv[OF step] by (auto simp: turn_def Let_def sview_def split: if_splits)
  next
    case (TC_SLEEP um)
    then show ?thesis using x us hidden_inv[OF seq] by (auto simp: turn_def Let_def sview_def split: if_splits tact.splits)
  next
    case (TC_PARK um)
    have "s1 = upd_tfib f (\<lambda>x. x\<lparr>tf_res := False, tf_st := F_PARKED, tf_sleep := None\<rparr>) s" "vs = [T_CLAIM f um False]"
      using x TC_PARK by (simp_all add: turn_def Let_def split: if_splits)
    then show ?thesis using gone[of "[T_CLAIM f um False]" "\<lambda>x. x\<lparr>tf_res := False, tf_st := F_PARKED, tf_sleep := None\<rparr>"] us by simp
  next
    case (TC_GO a)
    then show ?thesis using x us hidden_inv[OF step] by (auto simp: turn_def Let_def sview_def split: if_splits)
  next
    case TC_FINISH
    have e: "s1 = upd_tfib f (\<lambda>x. x\<lparr>tf_st := F_DONE\<rparr>) s" "vs = []" using x TC_FINISH by (simp_all add: turn_def Let_def split: if_splits)
    have "tf_sleep (tfibs s f) = None" by (rule running_awake[OF i]) (use invD(2)[OF i o] in simp)
    then have "upd_tfib f (\<lambda>x. x\<lparr>tf_st := F_DONE\<rparr>) s = upd_tfib f (\<lambda>x. x\<lparr>tf_st := F_DONE, tf_sleep := None\<rparr>) s"
      by (cases "tfibs s f") (simp add: upd_tfib_def)
    then show ?thesis using gone[of "[]" "\<lambda>x. x\<lparr>tf_st := F_DONE, tf_sleep := None\<rparr>"] us e by simp
  qed
qed

section \<open>Every step of the reactor\<close>

lemma head_change:
  assumes "head_ok s W us" "\<And>f q. gen_used s1 W f q \<Longrightarrow> gen_used s W f q" "\<And>f. sleep_seq (tfibs s1 f) = sleep_seq (tfibs s f)"
    "\<And>f. sleep_armed (tfibs s f) \<Longrightarrow> \<not> gen_used s W f (sleep_seq (tfibs s f)) \<Longrightarrow> sleep_armed (tfibs s1 f) \<or> stale_store s1"
    "stale_store s \<Longrightarrow> stale_store s1"
  shows "head_ok s1 W us"
  using assms by (cases "(s, W, us)" rule: head_ok.cases) auto

text \<open>A step that leaves the words of the fibers alone, slots apart.\<close>

lemma inv_reactor:
  assumes i: "sleep_inv s W"
    and same: "\<And>f. tf_st (tfibs s1 f) = tf_st (tfibs s f)" "\<And>f. sleep_seq (tfibs s1 f) = sleep_seq (tfibs s f)"
      "\<And>f. sleep_armed (tfibs s1 f) = sleep_armed (tfibs s f)" "\<And>f. tf_sleep (tfibs s1 f) = tf_sleep (tfibs s f)" "stale_store s1 = stale_store s"
    and gens: "\<And>f q. gen_used s1 W f q \<Longrightarrow> gen_used s W f q"
    and cancels: "\<And>f q. IO_CANCEL_SLEEP f q \<in> set (io s1) \<or> rctl s1 = R_CANCEL f q \<Longrightarrow> IO_CANCEL_SLEEP f q \<in> set (io s) \<or> rctl s = R_CANCEL f q"
    and starts: "\<And>f ns q t tm. rctl s1 = R_START_TIMER f ns q \<Longrightarrow> timers s1 t = Some tm \<Longrightarrow> st_f tm = f \<Longrightarrow> st_seq tm \<le> q"
    and coming: "\<And>f n. async_open s1 \<Longrightarrow> async_open s \<and>
        (tf_sleep (tfibs s f) = Some n \<longrightarrow> sleep_seq (tfibs s f) = n \<longrightarrow> sleep_armed (tfibs s f) \<and> (start_coming s W f n \<or> timer_coming s f n) \<or> wake_coming s f \<longrightarrow>
         sleep_armed (tfibs s f) \<and> (start_coming s1 W f n \<or> timer_coming s1 f n) \<or> wake_coming s1 f)"
  shows "sleep_inv s1 W"
proof (rule invI)
  fix t f n
  show "head_ok s1 W (W t)" by (rule head_change[OF invD(4)[OF i] gens]) (use same in simp_all)
  show "sleep_armed (tfibs s1 f) \<and> (start_coming s1 W f n \<or> timer_coming s1 f n) \<or> wake_coming s1 f"
    if "async_open s1" "\<not> stale_store s1" "tf_sleep (tfibs s1 f) = Some n"
    using coming[OF that(1), of f n] invD(8,9)[OF i, of f n] that same by auto
qed (use invD[OF i] same gens cancels starts in auto)

lemma gens_timers:
  assumes "start_coming s1 W f q \<Longrightarrow> gen_used s W f q"
    "\<And>t tm. timers s1 t = Some tm \<Longrightarrow> \<exists>tm0. timers s t = Some tm0 \<and> st_f tm0 = st_f tm \<and> st_seq tm0 = st_seq tm"
    "gen_used s1 W f q"
  shows "gen_used s W f q"
  using assms unfolding gen_used_def by blast

lemma timerI:
  "timers s u = Some um \<Longrightarrow> st_f um = f \<Longrightarrow> st_seq um = n \<Longrightarrow> sleep_timer (tfibs s f) = Some u \<Longrightarrow>
   st_active um \<or> rctl s = R_CB u \<or> rctl s = R_CB_SEQ u \<Longrightarrow> timer_coming s f n"
  unfolding timer_coming_def by blast

lemma start_ctl: "start_coming s1 W f q = start_coming s W f q" if "set (io s1) = set (io s)" "rgen (rctl s1) = rgen (rctl s)"
  using that by (simp add: start_coming_def)

text \<open>The reactor only goes on.\<close>

lemma inv_ctl:
  assumes i: "sleep_inv s W" and c: "rgen c = rgen (rctl s)" "\<And>f q. c \<noteq> R_CANCEL f q"
    and starts: "\<And>f ns q t tm. c = R_START_TIMER f ns q \<Longrightarrow> timers s t = Some tm \<Longrightarrow> st_f tm = f \<Longrightarrow> st_seq tm \<le> q"
    and coming: "\<And>f n. async_open s \<Longrightarrow> tf_sleep (tfibs s f) = Some n \<Longrightarrow> sleep_seq (tfibs s f) = n \<Longrightarrow>
       sleep_armed (tfibs s f) \<and> timer_coming s f n \<or> wake_coming s f \<Longrightarrow>
       sleep_armed (tfibs s f) \<and> timer_coming (upd_ctl c s) f n \<or> wake_coming (upd_ctl c s) f"
  shows "sleep_inv (upd_ctl c s) W"
proof (rule inv_reactor[OF i])
  have e: "start_coming (upd_ctl c s) W f q = start_coming s W f q" for f q by (rule start_ctl) (simp_all add: c)
  show "gen_used s W f q" if "gen_used (upd_ctl c s) W f q" for f q using that unfolding gen_used_def e by simp
  show "async_open s \<and>
        (tf_sleep (tfibs s f) = Some n \<longrightarrow> sleep_seq (tfibs s f) = n \<longrightarrow> sleep_armed (tfibs s f) \<and> (start_coming s W f n \<or> timer_coming s f n) \<or> wake_coming s f \<longrightarrow>
         sleep_armed (tfibs s f) \<and> (start_coming (upd_ctl c s) W f n \<or> timer_coming (upd_ctl c s) f n) \<or> wake_coming (upd_ctl c s) f)"
    if "async_open (upd_ctl c s)" for f n using coming[of f n] that e by auto
qed (use c starts in auto)

lemma timer_ctl:
  "timer_coming (upd_ctl c s) f n \<longleftrightarrow>
     (\<exists>t tm. timers s t = Some tm \<and> st_f tm = f \<and> st_seq tm = n \<and>
        (sleep_timer (tfibs s f) = Some t \<and> (st_active tm \<or> c = R_CB t \<or> c = R_CB_SEQ t) \<or> c = R_CB_STORE t))"
  "wake_coming (upd_ctl c s) f \<longleftrightarrow> (\<exists>t tm. c = R_CB_WAKE t \<and> timers s t = Some tm \<and> st_f tm = f)"
  by (simp_all add: timer_coming_def wake_coming_def)

lemma sleep_cb_inv:
  assumes i: "sleep_inv s W" and h: "handles s" and c: "rctl s = R_CB t" and x: "rexec s = Inr s1"
  shows "sleep_inv s1 W"
proof -
  obtain tm where tm: "timers s t = Some tm" using on_cb h c unfolding handles_def by fastforce
  let ?f = "st_f tm"
  have seq: "sleep_inv (upd_ctl (R_CB_SEQ t) s) W"
    by (rule inv_ctl[OF i]) (auto simp: c timer_ctl timer_coming_def wake_coming_def)
  have close: "sleep_inv (upd_ctl (R_CB_CLOSE t) s) W" if "\<not> (slots s ?f = Some t \<and> sleep_armed (tfibs s ?f))"
    by (rule inv_ctl[OF i]) (use that tm in \<open>auto simp: c timer_ctl timer_coming_def wake_coming_def slots_def\<close>)
  have clear: "sleep_inv (upd_ctl (R_CB_CLOSE t) (set_slot ?f None s)) W" if "slots s ?f = Some t" "\<not> sleep_armed (tfibs s ?f)"
  proof (rule inv_reactor[OF close])
    show "gen_used (upd_ctl (R_CB_CLOSE t) s) W f q" if "gen_used (upd_ctl (R_CB_CLOSE t) (set_slot ?f None s)) W f q" for f q
      using that by (simp add: gen_used_def start_coming_def)
  qed (use that in \<open>auto simp: timer_coming_def wake_coming_def start_coming_def slots_def\<close>)
  show ?thesis
    using x seq close clear by (auto simp: rexec_def c sleep_timer_cb_def tm Let_def slots_def split: if_splits)
qed

lemma set_slot_same:
  "start_coming (set_slot f v s) = start_coming s" "gen_used (set_slot f v s) = gen_used s" "wake_coming (set_slot f v s) = wake_coming s"
  by (simp_all add: fun_eq_iff start_coming_def gen_used_def wake_coming_def)

lemma cb_seq_inv:
  assumes i: "sleep_inv s W" and h: "handles s" and c: "rctl s = R_CB_SEQ t" and x: "rexec s = Inr s1"
  shows "sleep_inv s1 W"
proof -
  have op: "async_open s" using on_open[OF h[unfolded handles_def]] c by simp
  have h1: "handles_on (slots s) (timers s) (live_timers s) (tbrk s) True (R_CB_SEQ t)" using h op c by (simp add: handles_def)
  obtain tm where tm: "timers s t = Some tm" using on_cb[OF h1] by auto
  let ?f = "st_f tm" and ?c = "if sleep_seq (tfibs s (st_f tm)) = st_seq tm then R_CB_STORE t else R_CB_CLOSE t"
  have sl: "sleep_timer (tfibs s ?f) = Some t" using on_seq[OF h1 tm] by (simp add: slots_def)
  have "sleep_inv (upd_ctl ?c (set_slot ?f None s)) W"
  proof (rule inv_reactor[OF i])
    show "gen_used s W f q" if "gen_used (upd_ctl ?c (set_slot ?f None s)) W f q" for f q
      using that by (rule gens_timers[rotated 2]) (auto simp: gen_used_def start_coming_def c split: if_splits)
  qed (use tm sl in \<open>auto simp: timer_coming_def wake_coming_def start_coming_def c split: if_splits\<close>)
  then show ?thesis using x by (simp add: rexec_def c cb_seq_def tm Let_def)
qed

lemma cb_store_inv:
  assumes i: "sleep_inv s W" and c: "rctl s = R_CB_STORE t" and x: "rexec s = Inr s1"
  shows "sleep_inv s1 W"
proof -
  obtain tm where tm: "timers s t = Some tm" using x by (cases "timers s t") (simp_all add: rexec_def c cb_store_def kundef_def)
  let ?f = "st_f tm"
  let ?s = "upd_ctl (R_CB_WAKE t) ((upd_tfib ?f (\<lambda>x. x\<lparr>sleep_armed := False\<rparr>) s)\<lparr>stale_store := stale_store s \<or> sleep_seq (tfibs s ?f) \<noteq> st_seq tm\<rparr>)"
  have sel: "io ?s = io s" "timers ?s = timers s" "rctl ?s = R_CB_WAKE t" "async_open ?s = async_open s"
    "stale_store ?s \<longleftrightarrow> stale_store s \<or> sleep_seq (tfibs s ?f) \<noteq> st_seq tm"
    "tf_st (tfibs ?s h) = tf_st (tfibs s h)" "sleep_seq (tfibs ?s h) = sleep_seq (tfibs s h)" "sleep_timer (tfibs ?s h) = sleep_timer (tfibs s h)"
    "tf_sleep (tfibs ?s h) = tf_sleep (tfibs s h)" "h \<noteq> ?f \<Longrightarrow> sleep_armed (tfibs ?s h) = sleep_armed (tfibs s h)" for h
    by simp_all
  have st: "start_coming ?s W f q = start_coming s W f q" for f q unfolding start_coming_def sel by (simp add: c)
  have gu: "gen_used ?s W f q = gen_used s W f q" for f q unfolding gen_used_def st sel ..
  have own: "gen_used s W ?f (st_seq tm)" using tm unfolding gen_used_def by blast
  have "sleep_inv ?s W"
  proof (rule invI)
    fix x y f q n ns k km
    show "head_ok ?s W (W x)"
    proof (rule head_change[OF invD(4)[OF i, of x]])
      show "sleep_armed (tfibs ?s f) \<or> stale_store ?s" if "sleep_armed (tfibs s f)" "\<not> gen_used s W f (sleep_seq (tfibs s f))" for f
        using that own sel(5) sel(10)[of f] by metis
    qed (use gu in simp_all)
    show "sleep_armed (tfibs ?s f) \<and> (start_coming ?s W f n \<or> timer_coming ?s f n) \<or> wake_coming ?s f"
      if "async_open ?s" "\<not> stale_store ?s" "tf_sleep (tfibs ?s f) = Some n"
    proof (cases "f = ?f")
      case True
      then show ?thesis using tm unfolding wake_coming_def sel by blast
    next
      case False
      have "sleep_armed (tfibs s f) \<and> (start_coming s W f n \<or> timer_coming s f n) \<or> wake_coming s f"
        using invD(9)[OF i, of f n] that unfolding sel by blast
      moreover have "timer_coming ?s f n" if "timer_coming s f n"
        using that False tm unfolding timer_coming_def sel by (auto simp: c)
      ultimately show ?thesis using False sel(10)[OF False] st c by (auto simp: wake_coming_def)
    qed
  qed (use invD[OF i] gu c in \<open>auto split: if_splits\<close>)
  then show ?thesis using x by (simp add: rexec_def c cb_store_def tm Let_def)
qed

lemma cb_wake_inv:
  assumes i: "sleep_inv s W" and c: "rctl s = R_CB_WAKE t" and x: "rexec s = Inr s1"
  shows "sleep_inv s1 W"
proof -
  obtain tm where tm: "timers s t = Some tm" using x by (cases "timers s t") (simp_all add: rexec_def c cb_wake_def kundef_def)
  let ?s = "timer_wake s (st_f tm) (Some (A_OTHER (krt2_pure kunit)))"
  have i1: "sleep_inv ?s W" by (rule wake_inv[OF i])
  have "tf_sleep (tfibs ?s (st_f tm)) = None"
    using running_awake[OF i, of "st_f tm"] by (auto simp: timer_wake_def)
  then have "sleep_inv (upd_ctl (R_CB_CLOSE t) ?s) W"
    by (intro inv_ctl[OF i1]) (use tm in \<open>auto simp: c timer_ctl timer_coming_def wake_coming_def\<close>)
  then show ?thesis using x by (simp add: rexec_def c cb_wake_def tm)
qed

text \<open>A timer that no sleep waits for is closed.\<close>

lemma close_inv:
  assumes i: "sleep_inv s W" and tm: "timers s t = Some tm" and c: "\<And>f ns q. rctl s \<noteq> R_START_TIMER f ns q" "rctl s \<noteq> R_CB_STORE t" "rctl s \<noteq> R_CB_WAKE t"
    and n: "\<And>n. tf_sleep (tfibs s (st_f tm)) = Some n \<Longrightarrow> sleep_timer (tfibs s (st_f tm)) = Some t \<Longrightarrow> st_seq tm = n \<Longrightarrow> \<not> st_active tm \<and> rctl s \<noteq> R_CB t \<and> rctl s \<noteq> R_CB_SEQ t"
    and g: "\<And>x. st_f (g x) = st_f x" "\<And>x. st_seq (g x) = st_seq x"
  shows "sleep_inv (upd_timer t g s) W"
proof (rule inv_reactor[OF i])
  have st: "start_coming (upd_timer t g s) W f q = start_coming s W f q" for f q by (rule start_ctl) simp_all
  show "gen_used s W f q" if "gen_used (upd_timer t g s) W f q" for f q
    using that by (rule gens_timers[rotated 2]) (use st g in \<open>auto simp: gen_used_def split: if_splits\<close>)
  have "timer_coming (upd_timer t g s) f k" if "timer_coming s f k" "tf_sleep (tfibs s f) = Some k" for f k
  proof -
    obtain u um where u: "timers s u = Some um" "st_f um = f" "st_seq um = k"
      "sleep_timer (tfibs s f) = Some u \<and> (st_active um \<or> rctl s = R_CB u \<or> rctl s = R_CB_SEQ u) \<or> rctl s = R_CB_STORE u"
      using \<open>timer_coming s f k\<close> unfolding timer_coming_def by blast
    have "u \<noteq> t" using u c(2) n[of k] that(2) tm by auto
    then show ?thesis using u unfolding timer_coming_def by auto
  qed
  then show "async_open s \<and>
        (tf_sleep (tfibs s f) = Some n \<longrightarrow> sleep_seq (tfibs s f) = n \<longrightarrow> sleep_armed (tfibs s f) \<and> (start_coming s W f n \<or> timer_coming s f n) \<or> wake_coming s f \<longrightarrow>
         sleep_armed (tfibs s f) \<and> (start_coming (upd_timer t g s) W f n \<or> timer_coming (upd_timer t g s) f n) \<or> wake_coming (upd_timer t g s) f)"
    if "async_open (upd_timer t g s)" for f n
    using that st c(3) by (auto simp: wake_coming_def)
qed (use c in auto)

lemma cb_close_inv:
  assumes i: "sleep_inv s W" and h: "handles s" and c: "rctl s = R_CB_CLOSE t" and x: "rexec s = Inr s1"
  shows "sleep_inv s1 W"
proof -
  obtain tm where tm: "timers s t = Some tm" "\<not> st_closing tm" using on_cb h c unfolding handles_def by fastforce
  have na: "\<not> st_active tm" using on_active h tm c unfolding handles_def by fastforce
  let ?s = "upd_timer t (\<lambda>x. x\<lparr>st_active := False, st_closing := True\<rparr>) s"
  have i1: "sleep_inv ?s W" by (rule close_inv[OF i tm(1)]) (use c na in auto)
  have "sleep_inv (upd_ctl R_IDLE ?s) W"
    by (rule inv_ctl[OF i1]) (auto simp: c timer_ctl timer_coming_def wake_coming_def)
  then show ?thesis using x tm by (simp add: rexec_def c cb_close_def uv_close_def)
qed

lemma drain_inv:
  assumes i: "sleep_inv s W" and c: "rctl s = R_DRAIN"
  shows "sleep_inv (drain_next s) W"
proof -
  have e: "start_coming (drain_next s) W f q = start_coming s W f q" for f q
    by (auto simp: start_coming_def drain_next_def c split: list.splits ioreq.splits)
  have sel: "tfibs (drain_next s) = tfibs s" "timers (drain_next s) = timers s" "async_open (drain_next s) = async_open s"
    "stale_store (drain_next s) = stale_store s" by (simp_all add: drain_next_def split: list.split ioreq.split)
  show ?thesis
  proof (rule inv_reactor[OF i])
    show "gen_used s W f q" if "gen_used (drain_next s) W f q" for f q using that by (simp add: gen_used_def e sel)
    have "timer_coming (drain_next s) f n" if "timer_coming s f n" for f n
      using that unfolding timer_coming_def sel by (auto simp: c)
    then show "async_open s \<and>
        (tf_sleep (tfibs s f) = Some n \<longrightarrow> sleep_seq (tfibs s f) = n \<longrightarrow> sleep_armed (tfibs s f) \<and> (start_coming s W f n \<or> timer_coming s f n) \<or> wake_coming s f \<longrightarrow>
         sleep_armed (tfibs s f) \<and> (start_coming (drain_next s) W f n \<or> timer_coming (drain_next s) f n) \<or> wake_coming (drain_next s) f)"
      if "async_open (drain_next s)" for f n
      using that by (auto simp: e sel wake_coming_def c)
  qed (auto simp: sel drain_next_def split: list.splits ioreq.splits)
qed

lemma stop_inv:
  assumes i: "sleep_inv s W" and c: "rctl s = R_STOP"
  shows "sleep_inv (drain_stop s) W"
proof (cases "reactor_stop s")
  case False
  have "sleep_inv (upd_ctl R_IDLE s) W" by (rule inv_ctl[OF i]) (auto simp: c timer_ctl timer_coming_def wake_coming_def)
  then show ?thesis using False by (simp add: drain_stop_def)
next
  case True
  have st: "start_coming (drain_stop s) W f q = start_coming s W f q" for f q
    by (rule start_ctl) (simp_all add: drain_stop_def True reactor_close_walk_def c)
  show ?thesis
  proof (rule inv_reactor[OF i])
    show "gen_used s W f q" if "gen_used (drain_stop s) W f q" for f q
    proof (rule gens_timers[OF _ _ that])
      show "gen_used s W f q" if "start_coming (drain_stop s) W f q" using that unfolding st by (simp add: gen_used_def)
    qed (auto simp: drain_stop_def True reactor_close_walk_def)
  qed (auto simp: drain_stop_def True reactor_close_walk_def)
qed

lemma start_armed_inv:
  assumes i: "sleep_inv s W" and c: "rctl s = R_START f ns q"
  shows "sleep_inv (start_armed f ns q s) W"
proof (cases "sleep_armed (tfibs s f)")
  case True
  have "sleep_inv (upd_ctl (R_START_SEQ f ns q) s) W"
    by (rule inv_ctl[OF i]) (auto simp: c timer_ctl timer_coming_def wake_coming_def)
  then show ?thesis by (simp add: start_armed_def True)
next
  case False
  have e: "start_coming s W g n \<Longrightarrow> start_coming (upd_ctl R_DRAIN s) W g n \<or> g = f" for g n
    by (auto simp: start_coming_def c)
  have "sleep_inv (upd_ctl R_DRAIN s) W"
  proof (rule inv_reactor[OF i])
    show "gen_used s W g n" if "gen_used (upd_ctl R_DRAIN s) W g n" for g n
      using that by (rule gens_timers[rotated 2]) (auto simp: gen_used_def start_coming_def)
  qed (use e False in \<open>auto simp: timer_ctl timer_coming_def wake_coming_def c\<close>)
  then show ?thesis by (simp add: start_armed_def False)
qed

lemma start_seq_inv:
  assumes i: "sleep_inv s W" and c: "rctl s = R_START_SEQ f ns q"
  shows "sleep_inv (start_seq f ns q s) W"
proof (cases "sleep_seq (tfibs s f) = q")
  case True
  have g: "gen_used s W f (st_seq tm)" if "timers s t = Some tm" "st_f tm = f" for t tm using that by (auto simp: gen_used_def)
  have "sleep_inv (upd_ctl (R_START_TIMER f ns q) s) W"
    by (rule inv_ctl[OF i]) (use invD(5)[OF i] g True in \<open>auto simp: c timer_ctl timer_coming_def wake_coming_def\<close>)
  then show ?thesis by (simp add: start_seq_def True)
next
  case False
  have e: "start_coming s W g n \<Longrightarrow> start_coming (upd_ctl R_DRAIN s) W g n \<or> g = f \<and> n = q" for g n
    by (auto simp: start_coming_def c)
  have "sleep_inv (upd_ctl R_DRAIN s) W"
  proof (rule inv_reactor[OF i])
    show "gen_used s W g n" if "gen_used (upd_ctl R_DRAIN s) W g n" for g n
      using that by (rule gens_timers[rotated 2]) (auto simp: gen_used_def start_coming_def)
  qed (use e False in \<open>auto simp: timer_ctl timer_coming_def wake_coming_def c\<close>)
  then show ?thesis by (simp add: start_seq_def False)
qed

text \<open>Closing the timer in a fiber's slot, when the fiber does not wait for it.\<close>

lemma stop_close_inv:
  assumes i: "sleep_inv s W" and h: "handles s" and c: "rctl s = R_CANCEL f q" and t: "slots s f = Some t" "timers s t = Some tm" "st_seq tm = q"
  shows "\<exists>s1. stop_and_close f t s = Inr s1 \<and> sleep_inv (upd_ctl R_DRAIN s1) W"
proof -
  have op: "async_open s" using on_open[OF h[unfolded handles_def]] c by simp
  have h1: "handles_on (slots s) (timers s) (live_timers s) (tbrk s) True (rctl s)" using h op by (simp add: handles_def)
  have f: "st_f tm = f" using on_slot(1)[OF h1 t(1)] t(2) by auto
  let ?s = "upd_timer t (\<lambda>x. x\<lparr>st_active := False, st_closing := True\<rparr>) (upd_timer t (\<lambda>x. x\<lparr>st_active := False\<rparr>) (set_slot f None s))"
  have r: "stop_and_close f t s = Inr ?s" using stop_handles[OF h1 _ t(1)] by (auto simp: c)
  have lt: "q < sleep_seq (tfibs s f)" using invD(6)[OF i] c by simp
  have "sleep_inv (upd_ctl R_DRAIN ?s) W"
  proof (rule inv_reactor[OF i])
    have e: "start_coming (upd_ctl R_DRAIN ?s) W g n = start_coming s W g n" for g n by (rule start_ctl) (simp_all add: c)
    show "gen_used s W g n" if "gen_used (upd_ctl R_DRAIN ?s) W g n" for g n
      using that by (rule gens_timers[rotated 2]) (use e t(2) in \<open>auto simp: gen_used_def split: if_splits\<close>)
    have tc: "timer_coming (upd_ctl R_DRAIN ?s) g n" if g: "timer_coming s g n" "sleep_seq (tfibs s g) = n" for g n
    proof -
      obtain u um where u: "timers s u = Some um" "st_f um = g" "st_seq um = n" "sleep_timer (tfibs s g) = Some u" "st_active um"
        using g(1) unfolding timer_coming_def by (auto simp: c)
      have "g \<noteq> f" using u t lt g(2) by (auto simp: slots_def)
      moreover from this have "u \<noteq> t" using u(1,2) t(2) f by auto
      ultimately show ?thesis using u unfolding timer_coming_def by auto
    qed
    show "async_open s \<and>
        (tf_sleep (tfibs s g) = Some n \<longrightarrow> sleep_seq (tfibs s g) = n \<longrightarrow> sleep_armed (tfibs s g) \<and> (start_coming s W g n \<or> timer_coming s g n) \<or> wake_coming s g \<longrightarrow>
         sleep_armed (tfibs s g) \<and> (start_coming (upd_ctl R_DRAIN ?s) W g n \<or> timer_coming (upd_ctl R_DRAIN ?s) g n) \<or> wake_coming (upd_ctl R_DRAIN ?s) g)"
      for g n using op tc e by (auto simp: wake_coming_def c)
  qed auto
  then show ?thesis using r by blast
qed

lemma cancel_inv:
  assumes i: "sleep_inv s W" and h: "handles s" and c: "rctl s = R_CANCEL f q" and x: "rexec s = Inr s1"
  shows "sleep_inv s1 W"
proof -
  have go: "sleep_inv (upd_ctl R_DRAIN s) W" by (rule inv_ctl[OF i]) (auto simp: c timer_ctl timer_coming_def wake_coming_def)
  show ?thesis
    using x go stop_close_inv[OF i h c]
    by (fastforce simp: rexec_def c cancel_sleep_def slot_of kundef_def split: option.splits if_splits)
qed

text \<open>A new timer takes the place of the fiber's old one, which can only be of the same generation.\<close>

lemma new_timer_inv:
  assumes i: "sleep_inv s W" and h: "handles s" and c: "rctl s = R_START_TIMER f ns q" and x: "rexec s = Inr s1"
  shows "sleep_inv s1 W"
proof -
  have op: "async_open s" using on_open[OF h[unfolded handles_def]] c by simp
  have h1: "handles_on (slots s) (timers s) (live_timers s) (tbrk s) True (rctl s)" using h op by (simp add: handles_def)
  have fresh: "timers s (tbrk s) = None" using on_dom(1)[OF h1] by auto
  have q: "q \<le> sleep_seq (tfibs s f)" using invD(5)[OF i, of f q] by (simp add: gen_used_def start_coming_def c)
  let ?tm = "\<lparr>st_f = f, st_seq = q, st_ms = sleep_ms ns, st_active = True, st_closing = False\<rparr>"
  have all: "(tf_st (tfibs s1 g) = tf_st (tfibs s g) \<and> sleep_seq (tfibs s1 g) = sleep_seq (tfibs s g) \<and>
      sleep_armed (tfibs s1 g) = sleep_armed (tfibs s g) \<and> tf_sleep (tfibs s1 g) = tf_sleep (tfibs s g) \<and>
      (g \<noteq> f \<longrightarrow> sleep_timer (tfibs s1 g) = sleep_timer (tfibs s g)) \<and> sleep_timer (tfibs s1 f) = Some (tbrk s)) \<and>
      (stale_store s1 = stale_store s \<and> io s1 = io s \<and> rctl s1 = R_DRAIN \<and> timers s1 (tbrk s) = Some ?tm) \<and>
      (timers s1 u = Some um \<longrightarrow> u = tbrk s \<and> um = ?tm \<or> (\<exists>um0. timers s u = Some um0 \<and> st_f um0 = st_f um \<and> st_seq um0 = st_seq um)) \<and>
      (timers s u = Some um \<longrightarrow> st_f um \<noteq> f \<longrightarrow> timers s1 u = Some um)" for g u um
  proof (cases "slots s f")
    case None
    then have e: "s1 = upd_ctl R_DRAIN (new_timer f ns q s)" using x by (simp add: rexec_def c start_sleep_def slot_of)
    show ?thesis
      using fresh by (auto simp: e new_timer_def Let_def)
  next
    case (Some t)
    have "in_cb (rctl s) = None" by (simp add: c)
    from stop_handles[OF h1 this Some] obtain s2 tm where s2: "stop_and_close f t s = Inr s2" "timers s t = Some tm" "st_f tm = f"
      "s2 = upd_timer t (\<lambda>x. x\<lparr>st_active := False, st_closing := True\<rparr>) (upd_timer t (\<lambda>x. x\<lparr>st_active := False\<rparr>) (set_slot f None s))" by blast
    then have e: "s1 = upd_ctl R_DRAIN (new_timer f ns q s2)" using x by (simp add: rexec_def c start_sleep_def slot_of Some)
    show ?thesis
      using fresh s2(2,3) by (auto simp: e s2(4) new_timer_def Let_def)
  qed
  have fib: "tf_st (tfibs s1 g) = tf_st (tfibs s g)" "sleep_seq (tfibs s1 g) = sleep_seq (tfibs s g)"
    "sleep_armed (tfibs s1 g) = sleep_armed (tfibs s g)" "tf_sleep (tfibs s1 g) = tf_sleep (tfibs s g)"
    "g \<noteq> f \<Longrightarrow> sleep_timer (tfibs s1 g) = sleep_timer (tfibs s g)" "sleep_timer (tfibs s1 f) = Some (tbrk s)"
    and sel: "stale_store s1 = stale_store s" "io s1 = io s" "rctl s1 = R_DRAIN" "timers s1 (tbrk s) = Some ?tm"
    and tms: "timers s1 u = Some um \<Longrightarrow> u = tbrk s \<and> um = ?tm \<or> (\<exists>um0. timers s u = Some um0 \<and> st_f um0 = st_f um \<and> st_seq um0 = st_seq um)"
    and keep: "timers s u = Some um \<Longrightarrow> st_f um \<noteq> f \<Longrightarrow> timers s1 u = Some um" for g u um
    using all by blast+
  have st: "start_coming s1 W g n \<Longrightarrow> start_coming s W g n" "start_coming s W g n \<Longrightarrow> start_coming s1 W g n \<or> g = f \<and> n = q" for g n
    by (auto simp: start_coming_def sel c)
  have new: "timer_coming s1 f q" by (rule timerI[OF sel(4)]) (simp_all add: fib(6))
  show ?thesis
  proof (rule inv_reactor[OF i])
    show "gen_used s W g n" if "gen_used s1 W g n" for g n
    proof -
      have "start_coming s W f q" by (simp add: start_coming_def c)
      then show ?thesis using that st(1) tms unfolding gen_used_def by fastforce
    qed
    show "async_open s \<and>
        (tf_sleep (tfibs s g) = Some n \<longrightarrow> sleep_seq (tfibs s g) = n \<longrightarrow> sleep_armed (tfibs s g) \<and> (start_coming s W g n \<or> timer_coming s g n) \<or> wake_coming s g \<longrightarrow>
         sleep_armed (tfibs s g) \<and> (start_coming s1 W g n \<or> timer_coming s1 g n) \<or> wake_coming s1 g)" for g n
    proof (intro conjI impI)
      assume g: "sleep_seq (tfibs s g) = n" "sleep_armed (tfibs s g) \<and> (start_coming s W g n \<or> timer_coming s g n) \<or> wake_coming s g"
      then have a: "sleep_armed (tfibs s g)" "start_coming s W g n \<or> timer_coming s g n" by (auto simp: wake_coming_def c)
      have "start_coming s1 W g n \<or> timer_coming s1 g n" if t: "timer_coming s g n"
      proof -
        obtain u um where u: "timers s u = Some um" "st_f um = g" "st_seq um = n" "sleep_timer (tfibs s g) = Some u" "st_active um"
          using t unfolding timer_coming_def by (auto simp: c)
        show ?thesis
        proof (cases "g = f")
          case True
          then have "n = q" using invD(7)[OF i c u(1)] u q g(1) by simp
          then show ?thesis using new True by simp
        next
          case False
          then show ?thesis using keep[OF u(1)] u fib(5)[OF False] unfolding timer_coming_def by auto
        qed
      qed
      then show "sleep_armed (tfibs s g) \<and> (start_coming s1 W g n \<or> timer_coming s1 g n) \<or> wake_coming s1 g"
        using a st(2) new by blast
    qed (rule op)
  qed (use fib sel in auto)
qed

lemma rexec_inv:
  assumes "sleep_inv s W" "handles s" "rexec s = Inr s1"
  shows "sleep_inv s1 W"
proof (cases "rctl s")
  case R_IDLE
  then show ?thesis using assms by (simp add: rexec_def)
next
  case R_DRAIN
  then show ?thesis using assms drain_inv by (auto simp: rexec_def)
next
  case R_STOP
  then show ?thesis using assms stop_inv by (auto simp: rexec_def)
next
  case (R_START f ns q)
  then show ?thesis using assms start_armed_inv by (auto simp: rexec_def)
next
  case (R_START_SEQ f ns q)
  then show ?thesis using assms start_seq_inv by (auto simp: rexec_def)
qed (use assms in \<open>blast intro: sleep_cb_inv cb_seq_inv cb_store_inv cb_wake_inv cb_close_inv new_timer_inv cancel_inv\<close>)+

lemma fire_inv:
  assumes i: "sleep_inv s W" and h: "handles s" and c: "rctl s = R_IDLE" and x: "uv_fire t s = Some s1"
  shows "sleep_inv s1 W"
proof -
  obtain tm where tm: "timers s t = Some tm" "st_active tm" "s1 = upd_ctl (R_CB t) (upd_timer t (\<lambda>x. x\<lparr>st_active := False\<rparr>) s)"
    using x by (auto simp: uv_fire_def split: option.splits if_splits)
  show ?thesis
  proof (rule inv_reactor[OF i])
    have e: "start_coming s1 W g n = start_coming s W g n" for g n by (rule start_ctl) (simp_all add: tm(3) c)
    show "gen_used s W g n" if "gen_used s1 W g n" for g n
      using that by (rule gens_timers[rotated 2]) (use e tm in \<open>auto simp: gen_used_def split: if_splits\<close>)
    have "timer_coming s1 g n" if g: "timer_coming s g n" for g n
    proof -
      obtain u um where u: "timers s u = Some um" "st_f um = g" "st_seq um = n" "sleep_timer (tfibs s g) = Some u" "st_active um"
        using g unfolding timer_coming_def by (auto simp: c)
      show ?thesis
        by (rule timerI[where u = u and um = "if u = t then um\<lparr>st_active := False\<rparr> else um"]) (use u tm(1) in \<open>auto simp: tm(3)\<close>)
    qed
    then show "async_open s \<and>
        (tf_sleep (tfibs s g) = Some n \<longrightarrow> sleep_seq (tfibs s g) = n \<longrightarrow> sleep_armed (tfibs s g) \<and> (start_coming s W g n \<or> timer_coming s g n) \<or> wake_coming s g \<longrightarrow>
         sleep_armed (tfibs s g) \<and> (start_coming s1 W g n \<or> timer_coming s1 g n) \<or> wake_coming s1 g)"
      if "async_open s1" for g n
      using that e by (auto simp: wake_coming_def c tm(3))
  qed (auto simp: tm(3))
qed

lemma closed_inv:
  assumes i: "sleep_inv s W" and h: "handles s" and c: "rctl s = R_IDLE" and x: "uv_closed t s = Some s1"
  shows "sleep_inv s1 W"
proof -
  obtain tm where tm: "timers s t = Some tm" "st_closing tm" "s1 = sleep_close_cb t s"
    using x by (auto simp: uv_closed_def split: option.splits if_splits)
  have na: "\<not> st_active tm" using on_active h tm(1,2) unfolding handles_def by blast
  show ?thesis
  proof (rule inv_reactor[OF i])
    have e: "start_coming s1 W g n = start_coming s W g n" for g n by (rule start_ctl) (simp_all add: tm(3) sleep_close_cb_def)
    show "gen_used s W g n" if "gen_used s1 W g n" for g n
      using that by (rule gens_timers[rotated 2]) (use e tm in \<open>auto simp: gen_used_def sleep_close_cb_def split: if_splits\<close>)
    have "timer_coming s1 g n" if g: "timer_coming s g n" for g n
    proof -
      obtain u um where u: "timers s u = Some um" "st_f um = g" "st_seq um = n" "sleep_timer (tfibs s g) = Some u" "st_active um"
        using g unfolding timer_coming_def by (auto simp: c)
      show ?thesis by (rule timerI[where u = u and um = um]) (use u tm(1) na in \<open>auto simp: tm(3) sleep_close_cb_def\<close>)
    qed
    then show "async_open s \<and>
        (tf_sleep (tfibs s g) = Some n \<longrightarrow> sleep_seq (tfibs s g) = n \<longrightarrow> sleep_armed (tfibs s g) \<and> (start_coming s W g n \<or> timer_coming s g n) \<or> wake_coming s g \<longrightarrow>
         sleep_armed (tfibs s g) \<and> (start_coming s1 W g n \<or> timer_coming s1 g n) \<or> wake_coming s1 g)"
      if "async_open s1" for g n
      using that e by (auto simp: wake_coming_def c tm(3) sleep_close_cb_def)
  qed (auto simp: tm(3) sleep_close_cb_def c)
qed

lemma tmove_inv:
  assumes "tmove mv (s, W) = Some (s1, W1)" "handles s" and i: "sleep_inv s W"
  shows "sleep_inv s1 W1"
proof (cases mv)
  case (M_WORK t)
  then show ?thesis using assms(1) work_inv[OF i] by (auto split: list.splits)
next
  case (M_TURN t ch)
  then show ?thesis using assms(1) turn_inv[OF i] by (auto split: list.splits tuop.splits)
next
  case (M_DELIVER t a)
  then obtain f us where t: "W t = T_DELIVER f # us" "s1 = upd_tfib f (\<lambda>x. x\<lparr>tf_pend := False, tf_cur := a\<rparr>) s" "W1 = W(t := T_STEP f # us)"
    using assms(1) by (auto simp: deliver_claimed_def split: list.splits tuop.splits)
  have us: "us = []" using not_cancel_last[of "T_DELIVER f" us] invD(1)[OF i, of t] t by simp
  have "sleep_inv s (W(t := [T_STEP f]))" by (rule inv_thread[OF i]) (use t us in auto)
  then show ?thesis using hidden_inv t us by (simp add: sview_def)
next
  case (M_TAKE t f)
  then have t: "W t = []" "tf_st (tfibs s f) = F_RUNNABLE" "s1 = upd_tfib f (\<lambda>x. x\<lparr>tf_st := F_RUNNING\<rparr>) s" "W1 = W(t := [T_STEP f])"
    using assms(1) by (auto split: if_splits)
  have n: "tf_sleep (tfibs s f) = None" by (rule running_awake[OF i]) (use t in simp)
  have "sleep_inv s1 (W(t := [T_STEP f]))"
  proof (rule inv_take)
    show "sleep_inv s1 W" unfolding t(3) by (rule inv_status[OF i]) (use t n in simp_all)
    show "own_l (W x) \<noteq> Some f" for x using invD(2)[OF i, of x f] t(2) by auto
  qed (use t in auto)
  then show ?thesis using t by simp
next
  case (M_REQUEST t f)
  then have "W t = []" "s1 = s" "W1 = W(t := [T_REQUEST f])" using assms(1) by (auto split: if_splits)
  then show ?thesis using inv_thread[OF i, of "[T_REQUEST f]" t] by simp
next
  case (M_WAKE t f a)
  then have "W t = []" "s1 = s" "W1 = W(t := [T_WAKE f (Some a)])" using assms(1) by (auto split: if_splits)
  then show ?thesis using inv_thread[OF i, of "[T_WAKE f (Some a)]" t] by simp
next
  case M_REACTOR
  then show ?thesis using assms rexec_inv by (auto split: if_splits sum.splits)
next
  case (M_FIRE t)
  then show ?thesis using assms fire_inv by (auto split: if_splits)
next
  case M_ASYNC
  have "sleep_inv (upd_ctl R_DRAIN s) W" if "rctl s = R_IDLE"
    by (rule inv_ctl[OF i]) (auto simp: that timer_ctl timer_coming_def wake_coming_def)
  then show ?thesis using assms(1) M_ASYNC by (auto split: if_splits)
next
  case (M_CLOSED t)
  then show ?thesis using assms closed_inv by (auto split: if_splits)
next
  case M_STOP
  then show ?thesis using assms rview_same[of "s\<lparr>reactor_stop := True\<rparr>" s] by (auto simp: rview_def)
qed

lemma treach_inv: "treach prog c \<Longrightarrow> handles (prod.fst c) \<and> sleep_inv (prod.fst c) (snd c)"
proof (induction rule: treach.induct)
  case tr_start
  have "sleep_inv (reactor_init prog) (\<lambda>_. [])"
    by (rule invI) (auto simp: reactor_init_def gen_used_def start_coming_def)
  then show ?case by (simp add: init_handles)
next
  case (tr_step c mv c')
  then show ?case using tmove_handles tmove_inv by (cases c; cases c') auto
qed

section \<open>The promises\<close>

text \<open>C5: the reactor handles its timers safely. In every reachable configuration the next turn of the reactor
  touches no freed handle and closes none twice; the count of live timers is exact; while the loop waits,
  every timer that is not being closed is active and is the one its fiber's slot names, so that a fiber has at
  most one; and once the loop is closed every timer is being closed, so that the count reaches zero.\<close>
theorem timer_handles_safe:
  assumes "treach prog (s, W)"
  shows "(\<exists>s1. rexec s = Inr s1) \<and> live_timers s = int (card (dom (timers s))) \<and>
    (rctl s = R_IDLE \<and> async_open s \<longrightarrow>
       (\<forall>t tm. timers s t = Some tm \<and> \<not> st_closing tm \<longrightarrow> st_active tm \<and> sleep_timer (tfibs s (st_f tm)) = Some t)) \<and>
    (\<not> async_open s \<longrightarrow> (\<forall>t\<in>dom (timers s). \<exists>s1. uv_closed t s = Some s1))"
proof -
  have h: "handles s" using treach_handles[OF assms] by simp
  have on: "handles_on (slots s) (timers s) (live_timers s) (tbrk s) (async_open s) (rctl s)" using h by (simp add: handles_def)
  have "\<exists>s1. rexec s = Inr s1" using rexec_handles[OF h] by (cases "rctl s = R_IDLE") (auto simp: rexec_def)
  moreover have "st_active tm \<and> sleep_timer (tfibs s (st_f tm)) = Some t"
    if c: "rctl s = R_IDLE" "async_open s" and tm: "timers s t = Some tm" "\<not> st_closing tm" for t tm
  proof -
    have on: "handles_on (slots s) (timers s) (live_timers s) (tbrk s) True R_IDLE" using on c by simp
    have sl: "slots s (st_f tm) = Some t" using on_unclosed[OF on tm] by simp
    then show ?thesis using on_slot(1)[OF on sl] tm(1) by (simp add: slots_def)
  qed
  moreover have "\<exists>s1. uv_closed t s = Some s1" if "\<not> async_open s" "t \<in> dom (timers s)" for t
    using on_closing[of "slots s" "timers s" "live_timers s" "tbrk s" "rctl s"] on that by (auto simp: uv_closed_def)
  ultimately show ?thesis using on_dom(2)[OF on] by blast
qed

text \<open>C6: a sleep is not lost. In every reachable configuration before the shutdown of the loop, in which no
  callback has cleared \<open>sleep_armed\<close> of a generation other than the one it had checked, a fiber parked in a
  sleep is still in that generation, and its wake is on the way: its request is still to be queued, to be read
  or to be acted on, or its timer runs or is being called back, or the wake itself is the reactor's next
  access. When the loop waits and no request is under way, the timer is active in the fiber's slot.\<close>
theorem sleep_not_lost:
  assumes "treach prog (s, W)" "async_open s" "\<not> stale_store s" "tf_sleep (tfibs s f) = Some n"
  shows "tf_st (tfibs s f) = F_PARKED \<and> sleep_seq (tfibs s f) = n \<and>
    (sleep_armed (tfibs s f) \<and> (start_coming s W f n \<or> timer_coming s f n) \<or> wake_coming s f) \<and>
    (rctl s = R_IDLE \<and> io s = [] \<and> (\<forall>t. W t = []) \<longrightarrow>
       (\<exists>t tm. sleep_timer (tfibs s f) = Some t \<and> timers s t = Some tm \<and> st_active tm \<and> st_seq tm = n))"
proof -
  have i: "sleep_inv s W" using treach_inv[OF assms(1)] by simp
  have c: "sleep_armed (tfibs s f) \<and> (start_coming s W f n \<or> timer_coming s f n) \<or> wake_coming s f"
    by (rule invD(9)[OF i assms(2-4)])
  moreover have "\<exists>t tm. sleep_timer (tfibs s f) = Some t \<and> timers s t = Some tm \<and> st_active tm \<and> st_seq tm = n"
    if "rctl s = R_IDLE" "io s = []" "\<forall>t. W t = []"
    using c that unfolding start_coming_def timer_coming_def wake_coming_def by auto
  ultimately show ?thesis using invD(8)[OF i assms(4)] by blast
qed

text \<open>Fiber 0 goes to sleep for a millisecond, and its timer is set.\<close>

definition work :: "nat \<Rightarrow> nat \<Rightarrow> rmove list" where
  "work t n = replicate n (M_WORK t)"

definition sleeper :: "nat \<Rightarrow> tact" where
  "sleeper f = (if f = 0 then A_SLEEP 1000000 else A_OTHER kunit)"

definition asleep :: "rmove list" where
  "asleep = [M_TAKE 0 0, M_WORK 0, M_TURN 0 (TC_SLEEP False)] @ work 0 5 @ M_ASYNC # replicate 6 M_REACTOR"

definition after :: "rmove list \<Rightarrow> (reactor \<Rightarrow> bool) \<Rightarrow> bool" where
  "after ms P = (case tmoves ms (reactor_init sleeper, \<lambda>_. []) of None \<Rightarrow> False | Some (s, W) \<Rightarrow> P s \<and> W 0 = [] \<and> W 1 = [])"

lemma afterE:
  assumes "after ms P"
  obtains s W where "treach sleeper (s, W)" "P s" "W 0 = []" "W 1 = []"
proof -
  obtain s W where r: "tmoves ms (reactor_init sleeper, \<lambda>_. []) = Some (s, W)" "P s" "W 0 = []" "W 1 = []"
    using assms by (auto simp: after_def split: option.splits)
  show thesis by (rule that[OF tmoves_reach[OF tr_start r(1)] r(2-4)])
qed

lemma asleep_run:
  "after asleep (\<lambda>s. async_open s \<and> \<not> stale_store s \<and> tf_sleep (tfibs s 0) = Some 1 \<and> rctl s = R_IDLE \<and>
     map_option st_closing (timers s 0) = Some False)"
  by code_simp

lemma timer_handles_safe_witness:
  "\<exists>s W tm. treach sleeper (s, W) \<and> timers s 0 = Some tm \<and> st_active tm \<and> sleep_timer (tfibs s (st_f tm)) = Some 0"
proof -
  obtain s W where s: "treach sleeper (s, W)" "rctl s = R_IDLE" "async_open s" "map_option st_closing (timers s 0) = Some False"
    by (rule afterE[OF asleep_run]) blast
  then obtain tm where "timers s 0 = Some tm" "\<not> st_closing tm" by auto
  then show ?thesis using timer_handles_safe[OF s(1)] s by blast
qed

lemma sleep_not_lost_witness:
  "\<exists>s W. treach sleeper (s, W) \<and> tf_sleep (tfibs s 0) = Some 1 \<and> tf_st (tfibs s 0) = F_PARKED \<and>
     (sleep_armed (tfibs s 0) \<and> (start_coming s W 0 1 \<or> timer_coming s 0 1) \<or> wake_coming s 0)"
proof -
  obtain s W where s: "treach sleeper (s, W)" "async_open s" "\<not> stale_store s" "tf_sleep (tfibs s 0) = Some 1"
    by (rule afterE[OF asleep_run]) blast
  then show ?thesis using sleep_not_lost[OF s] by blast
qed

section \<open>A sleep that is lost\<close>

text \<open>The timer fires; the callback has found the generation current when a request wakes the masked fiber, which
  cancels the sleep and submits it again. The callback then clears \<open>sleep_armed\<close> of the new generation,
  fails to wake the running fiber, and the reactor drops the new request because the flag is clear:
  the fiber is parked, and nothing is left that would wake it.\<close>

definition overtaken :: "rmove list" where
  "overtaken = asleep @ [M_FIRE 0, M_REACTOR, M_REACTOR, M_REQUEST 1 0] @ work 1 2 @ [M_TAKE 0 0] @ work 0 7 @
     [M_TURN 0 (TC_SLEEP False)] @ work 0 2 @ replicate 3 M_REACTOR @ work 0 3 @ M_ASYNC # replicate 6 M_REACTOR @ [M_CLOSED 0]"

lemma stale_callback_loses_sleep:
  "\<exists>s W. treach sleeper (s, W) \<and> tf_st (tfibs s 0) = F_PARKED \<and> tf_cur (tfibs s 0) = A_SLEEP 1000000 \<and> sleep_seq (tfibs s 0) = 3 \<and>
     \<not> sleep_armed (tfibs s 0) \<and> sleep_timer (tfibs s 0) = None \<and> timers s 0 = None \<and> live_timers s = 0 \<and> io s = [] \<and> rctl s = R_IDLE \<and>
     W 0 = [] \<and> W 1 = []"
proof -
  have "after overtaken (\<lambda>s. tf_st (tfibs s 0) = F_PARKED \<and> tf_cur (tfibs s 0) = A_SLEEP 1000000 \<and> sleep_seq (tfibs s 0) = 3 \<and>
     \<not> sleep_armed (tfibs s 0) \<and> sleep_timer (tfibs s 0) = None \<and> timers s 0 = None \<and> live_timers s = 0 \<and> io s = [] \<and> rctl s = R_IDLE)"
    by code_simp
  then show ?thesis by (rule afterE) blast
qed

text \<open>The timer is set to at least the time asked for, and to less than a millisecond more.\<close>

lemma sleep_ms_rounds_up:
  assumes "uint nanos < 2 ^ 63"
  shows "uint nanos \<le> uint (sleep_ms nanos) * 1000000 \<and> uint (sleep_ms nanos) * 1000000 < uint nanos + 1000000"
proof (cases "nanos = 0")
  case False
  have "uint (nanos + 999999) = uint nanos + 999999"
    using assms by (simp add: uint_word_ariths take_bit_int_eq_self uint_ge_0 add_nonneg_nonneg)
  then have "uint (sleep_ms nanos) = (uint nanos + 999999) div 1000000" using False by (simp add: sleep_ms_def uint_div)
  then show ?thesis by linarith
qed (simp add: sleep_ms_def)

end
