(* ===== verification/Spec2Isabelle.thy ===== *)
theory Spec2Isabelle
  imports Kappa_RC_Shared Kappa_PrimSpec Kappa_Grapheme Kappa_Dragon Kappa_Stm Kappa_Interrupt
    Kappa_Finally Kappa_Effects Kappa_SchedProps Kappa_SyncProps Kappa_HeapProps Kappa_HeapMark Kappa_TimerLive
begin

text \<open>
  Verification of the Kappa native runtime, the C code under \<open>src/runtime\<close> that compiled Kappa programs
  are linked with.

  The parts of the runtime and the theories that model them, in the order they build on each other:

  \<^item> Values. A \<open>KValue *\<close> is either a tagged word (a 61-bit Int, a nullary constructor, a constructor of one
    or two small fields packed into the word) or a heap object with a tag and a reference-count header
    (\<open>kappart.h\<close>, \<open>value.c\<close>, \<open>boxed.h\<close>). \<open>Kappa_Word\<close> has the words at their width of 64 bits, \<open>Kappa_Value\<close>
    the boxed values as a datatype \<open>kval\<close> (one constructor per \<open>K_\<close> tag, \<open>KImm\<close> for words) with their
    constructors and readers, \<open>Kappa_Ctor\<close> the round trip of constructor values, stated once as a
    locale \<open>ctor_repr\<close> over what readers rely on, and \<open>Kappa_List\<close> the walks over cons lists. A function that can call
    \<open>krt_fail\<close> (which ends the process) returns \<open>kres\<close>: \<open>Inl\<close> of the message, or \<open>Inr\<close> of the result;
    \<open>kundef\<close> is C undefined behaviour (\<open>Kappa_Prelude\<close>).

  \<^item> Memory. \<open>Kappa_RC\<close> has the 32-bit header word (thread-shared flag, sticky saturation, 30-bit count)
    and shows that \<open>kdup\<close>, \<open>kdrop\<close> and marking refine an abstract owner count; \<open>Kappa_RC_Shared\<close>
    interleaves the atomic accesses of several threads to one shared header. \<open>Kappa_Heap\<close> is the graph of
    objects: \<open>kdup\<close>, \<open>kdrop\<close> with the iterative \<open>kfree_recursive\<close>, the in-place reuse of constructor cells
    (\<open>kdrop_reuse_ctor_alloc\<close> and its relatives) and \<open>krc_mark_shared_recursive\<close>. \<open>Kappa_HeapInv\<close> says what
    the counts mean (\<open>heap_inv\<close>) and that each operation keeps it; \<open>Kappa_HeapProps\<close> and \<open>Kappa_HeapMark\<close>
    have the properties.

  \<^item> Numbers. \<open>Kappa_Bignum\<close> models \<open>bignum.c\<close> (the choice between word, box and GMP number, arithmetic,
    division, comparison, Rational, conversion to double), \<open>Kappa_Int\<close> its correctness.

  \<^item> Pure primitives of \<open>prims.c\<close> and \<open>unicode.c\<close>: \<open>Kappa_Bytes\<close> (byte sequences), \<open>Kappa_Prims\<close> and
    \<open>Kappa_PrimSpec\<close> (universe levels, representation equality, hashing, Rational, ranges), \<open>Kappa_Utf8\<close> and
    \<open>Kappa_Text\<close> (codec, buffer loops, string cursors, the incremental decoder), \<open>Kappa_Unicode\<close> and
    \<open>Kappa_Grapheme\<close> (normalization, case folding, segmentation), \<open>Kappa_Show\<close> and \<open>Kappa_Dragon\<close> (\<open>show.c\<close>:
    literals as text, digit generation for doubles).

  \<^item> Actions. An IO action is a constructor value whose tag id is an \<open>OP_\<close> code. \<open>Kappa_Action\<close> has the nodes,
    their builders, the \<open>Exit\<close> and \<open>Cause\<close> values and the composition of exit reasons; \<open>Kappa_Mask\<close> the
    interruption masks; \<open>Kappa_Race\<close> the action trees of \<open>race\<close> and \<open>timeout\<close> (\<open>race.c\<close>).

  \<^item> One fiber. \<open>Kappa_Machine\<close> is the CK-machine of \<open>rt.c\<close> (\<open>fiber_step_run\<close>, \<open>deliver\<close>, \<open>unwind\<close>, exit
    actions, effect handlers and one-shot resumptions) on a store of the objects the code links by pointer;
    \<open>Kappa_Steps\<close> has one equation per node, \<open>Kappa_Store\<close> what any turn can do to the store, and
    \<open>Kappa_Interrupt\<close>, \<open>Kappa_Finally\<close>, \<open>Kappa_Effects\<close> the properties. \<open>Kappa_Sync\<close> is the second interpreter
    of the same actions, \<open>krt2_run_op_sync\<close> with the trampoline \<open>krun_io\<close>, that generated code enters on the C
    stack, and \<open>Kappa_SyncProps\<close> compares the two.

  \<^item> Many fibers. \<open>Kappa_Sched\<close> has the scheduler and structured concurrency (\<open>rt.c\<close>, \<open>scope.c\<close>): run queue,
    parking and waking, spawning, awaiting, promises, interruption, scopes and monitors, as sections between
    two locks or atomic accesses that the worker threads interleave at will. \<open>Kappa_SchedInv\<close>, \<open>Kappa_SchedLive\<close>
    and \<open>Kappa_SchedScope\<close> have the invariants, \<open>Kappa_SchedProps\<close> the properties. \<open>Kappa_Stm\<close> is \<open>stm.c\<close>: the
    interpreter of transactions, validation, commit, parking and waking. \<open>Kappa_Timer\<close> is \<open>reactor.c\<close> with its
    callers: the thread that owns the timers of sleeping fibers against the workers, at each access to a
    shared word; \<open>Kappa_TimerProps\<close> has the handles, \<open>Kappa_TimerLive\<close> the sleeps.

  How the parts interact in the model. A machine stops (\<open>C_STOP\<close>) at an operation that the scheduler or the legacy
  bridge carries out, and goes on from the state they leave: the relation \<open>mreach\<close> of \<open>Kappa_Interrupt\<close> closes
  the machine under its own turns and under an environment that may request interruptions, answer
  operations and run generated code. Conversely a running fiber of \<open>Kappa_Sched\<close> may do any operation at
  any time, so that what is proved there holds for every program of every fiber. Transactions and races are values (action
  trees) that either side runs.

  The properties, by kind. Round trips: constructor words and values, strict UTF-8, shown strings, resuming
  a severed continuation. Exactness: integers, Rationals, comparison, conversion to double, digit generation,
  cursors and slices. Refinement: the header word by an owner count, the transaction interpreter by its big-step meaning, the
  synchronous bridge by the machine, reuse of a cell by a fresh allocation. Safety of the machine: exit
  actions run once each and last registered first, interruptions are consumed only under masks that allow it, a
  resumption resumes once, handlers and catch frames are the nearest ones. Concurrency: each fiber is in
  one place, no wake and no interruption is lost, scopes account for their children and reach them at
  shutdown, committed transactions are serial, no count is lost, timer handles are closed once,
  and a sleep is not lost unless a stale callback clears its flag (an execution shows that it can). Memory: a drop frees what lost its last
  owner and nothing else, publication shares all that can be reached.

  Parameters and fuel. GMP is the record \<open>gmp\<close> with its documented behaviour as the hypothesis \<open>gmp_ok\<close>; the
  generated Unicode tables are a record of tables; generated code is the parameter \<open>app\<close> (\<open>kapp\<close>) or \<open>fire\<close>
  (entry points). Loops whose end depends on data run on fuel: full decomposition
  (fuel above the rank of the scalar in the acyclic tables), the free and the marking loops (fuel above
  the number of addresses in use), the digit loop (fuel from the size of the number), the synchronous
  interpreter (the property speaks of the runs that return, since programs may loop). In each case but the last the theorem
  says that the loop ends.

  Simplifications that a reader of the code should know. The heap is that of a release build: poisoning, debug
  counters and assertions are left out, a freed address is not handed out again (touching it is \<open>kundef\<close>
  instead), and the payloads of foreign handles are not walked. The field \<open>rlabel\<close>, always NULL, is dropped. The
  table of fiber references is part of each machine, although C keeps it in a global. A fiber of the
  scheduler carries the ghost \<open>fwait\<close>, which no step reads. In the scheduler, parking
  without a waiter list (timers, \<open>retry\<close>) is one operation, the wake of which may come at any time; the timers
  themselves are \<open>Kappa_Timer\<close>, where in turn the run queue is left out, since each runnable fiber is taken by
  one thread, and the generation counter of a fiber, 64 bits wide, does not wrap around.

  Not modelled: the collector (\<open>gc.c\<close>, Boehm GC), the start and the joining of threads, stack sizes and
  registration (\<open>rt.c\<close>), the lane of blocking native calls, the bounded wait for daemons at the end of a program, the run of another
  fiber at a safe point, the debug walks that re-check marking, printing of floating-point numbers by
  libm and \<open>printf\<close> (\<open>showFixed\<close>), and the generated tables themselves. They are I/O, platform
  services or checks that a release build does not run. Other C code of the repository (example packages,
  benchmarks, test shims, a vendored audio library) does not belong to the runtime.
\<close>

end
